(* ===== verification/CPrelude.thy ===== *)
theory CPrelude
  imports Main "HOL-Library.Word" "HOL-Library.Signed_Division" "HOL-Library.Monad_Syntax"
begin

section \<open>The C layer shared by every component\<close>

text \<open>
  What the components share: the value of a C computation, 32-bit signed arithmetic, arrays
  read and written by index, and the collections of rewrite rules their proofs use.

  A piece of C code becomes a function into \<^typ>\<open>'a option\<close>. The value
  \<^term>\<open>None\<close> stands for a run the C standard gives no meaning to: a signed
  overflow, a division by zero, an access outside an array, through a null pointer or to
  freed memory, or a block that is freed twice. A run with a meaning is \<^term>\<open>Some r\<close>,
  where \<^term>\<open>r\<close> holds the returned code together with the state the code leaves.
  Error returns of the code (\<open>-1\<close>, \<open>-10\<close>, \<open>-11\<close>) are ordinary values of
  \<^term>\<open>r\<close>. The do notation of \<open>HOL-Library.Monad_Syntax\<close> sequences such
  computations, so that a null pointer (also an option) is dereferenced by binding it.
\<close>

named_theorems c_simps \<open>rewrite rules for runs that stay within bounds\<close>
named_theorems c_inv \<open>what a component invariant gives\<close>

subsection \<open>Signed arithmetic\<close>

definition in_i32 :: "int \<Rightarrow> bool" where
  "in_i32 x \<longleftrightarrow> - (2 ^ 31) \<le> x \<and> x < 2 ^ 31"

text \<open>The result of a signed operation: undefined when it does not fit \<open>int\<close>.\<close>

definition i32 :: "int \<Rightarrow> int option" where
  "i32 x = (if in_i32 x then Some x else None)"

text \<open>The C operator \<open>%\<close> on \<open>int\<close>: truncated, undefined for a zero divisor.\<close>

definition c_rem :: "int \<Rightarrow> int \<Rightarrow> int option" where
  "c_rem a b = (if b = 0 then None else Some (a smod b))"

lemma i32_Some [c_simps]: "in_i32 x \<Longrightarrow> i32 x = Some x"
  by (simp add: i32_def)

lemma i32_eq_Some_iff: "i32 x = Some y \<longleftrightarrow> in_i32 x \<and> y = x"
  by (auto simp: i32_def)

lemma c_rem_nonneg [c_simps]: "0 \<le> a \<Longrightarrow> 0 < b \<Longrightarrow> c_rem a b = Some (a mod b)"
  by (cases "a = 0") (simp_all add: c_rem_def smod_int_alt_def)

subsection \<open>Arrays\<close>

text \<open>\<open>xs[i]\<close> read and \<open>xs[i] = v\<close>; both are undefined out of range.\<close>

definition rd :: "'a list \<Rightarrow> int \<Rightarrow> 'a option" where
  "rd xs i = (if 0 \<le> i \<and> i < int (length xs) then Some (xs ! nat i) else None)"

definition wr :: "'a list \<Rightarrow> int \<Rightarrow> 'a \<Rightarrow> 'a list option" where
  "wr xs i v = (if 0 \<le> i \<and> i < int (length xs) then Some (xs[nat i := v]) else None)"

lemma rd_Some [c_simps]: "0 \<le> i \<Longrightarrow> i < int (length xs) \<Longrightarrow> rd xs i = Some (xs ! nat i)"
  by (simp add: rd_def)

lemma wr_Some [c_simps]: "0 \<le> i \<Longrightarrow> i < int (length xs) \<Longrightarrow> wr xs i v = Some (xs[nat i := v])"
  by (simp add: wr_def)

lemma rd_of_nat [simp]: "rd xs (int n) = (if n < length xs then Some (xs ! n) else None)"
  by (simp add: rd_def)

lemma wr_of_nat [simp]: "wr xs (int n) v = (if n < length xs then Some (xs[n := v]) else None)"
  by (simp add: wr_def)

lemma wr_length: "wr xs i v = Some ys \<Longrightarrow> length ys = length xs"
  by (auto simp: wr_def split: if_splits)

subsection \<open>Heaps\<close>

text \<open>
  A pointer is an optional address, \<^term>\<open>None\<close> being \<open>NULL\<close>. A heap maps the
  addresses of the live blocks to their contents. \<open>malloc\<close> is not deterministic: the
  operations that call it take what it returned as an argument, a null pointer or an address
  that is not live. \<open>free\<close> of a null pointer does nothing; of a block that is not live
  it is undefined.
\<close>

type_synonym addr = nat
type_synonym ptr = "addr option"
type_synonym 'b heap = "addr \<rightharpoonup> 'b"

definition malloc_ok :: "'b heap \<Rightarrow> ptr \<Rightarrow> bool" where
  "malloc_ok h p \<longleftrightarrow> (case p of None \<Rightarrow> True | Some a \<Rightarrow> h a = None)"

definition c_free :: "'b heap \<Rightarrow> ptr \<Rightarrow> 'b heap option" where
  "c_free h p = (case p of None \<Rightarrow> Some h
     | Some a \<Rightarrow> (case h a of None \<Rightarrow> None | Some _ \<Rightarrow> Some (h(a := None))))"

lemma malloc_ok_simps [simp]:
  "malloc_ok h None"
  "malloc_ok h (Some a) \<longleftrightarrow> h a = None"
  by (simp_all add: malloc_ok_def)

lemma c_free_simps [simp]:
  "c_free h None = Some h"
  "h a = Some b \<Longrightarrow> c_free h (Some a) = Some (h(a := None))"
  "h a = None \<Longrightarrow> c_free h (Some a) = None"
  by (simp_all add: c_free_def)

subsection \<open>Lists\<close>

lemma in_set_tlD: "x \<in> set (tl xs) \<Longrightarrow> x \<in> set xs"
  by (cases xs) auto

lemma upt_map_shift: "map f [Suc 0..<Suc n] = map (\<lambda>i. f (Suc i)) [0..<n]"
  by (induction n) auto

lemma map_upt_Cons: "map f [0..<Suc n] = f 0 # map (\<lambda>i. f (Suc i)) [0..<n]"
  by (simp add: upt_conv_Cons upt_map_shift del: upt_Suc)

end
