(* ===== verification/QueueSpec.thy ===== *)
theory QueueSpec
  imports CPrelude
begin

section \<open>The contract of a bounded first-in first-out queue\<close>

text \<open>
  Both queue libraries of the repository promise the same thing: items come out in the order
  they went in, a full queue refuses an item with \<open>-1\<close> and an empty one refuses to
  deliver with \<open>-1\<close>, in both cases without a change. The locale \<open>fifo\<close>
  states that contract over the operations of a provider, and proves once what a client may
  rely on: any sequence of calls behaves as it would on a plain list.
\<close>

datatype 'i qop = Enq 'i | Deq

text \<open>The outcome of one call: its return code, and the item that came out.\<close>

type_synonym 'a qout = "int \<times> 'a option"

text \<open>Running a sequence of calls on a provider; it stops where the C code has no meaning.\<close>

fun run_queue :: "('q \<Rightarrow> 'i \<Rightarrow> (int \<times> 'q) option) \<Rightarrow> ('q \<Rightarrow> (int \<times> 'q \<times> 'a option) option)
    \<Rightarrow> 'q \<Rightarrow> 'i qop list \<Rightarrow> ('a qout list \<times> 'q) option" where
  "run_queue e d q [] = Some ([], q)"
| "run_queue e d q (Enq i # os) = do {
     (r, q1) \<leftarrow> e q i;
     (outs, q2) \<leftarrow> run_queue e d q1 os;
     Some ((r, None) # outs, q2) }"
| "run_queue e d q (Deq # os) = do {
     (r, q1, x) \<leftarrow> d q;
     (outs, q2) \<leftarrow> run_queue e d q1 os;
     Some ((r, x) # outs, q2) }"

text \<open>The same calls on a list with room for \<open>cap\<close> items (\<open>None\<close>: no limit).\<close>

definition has_room :: "nat option \<Rightarrow> 'a list \<Rightarrow> bool" where
  "has_room cap xs \<longleftrightarrow> (case cap of None \<Rightarrow> True | Some c \<Rightarrow> length xs < c)"

fun run_list :: "('i \<Rightarrow> 'a) \<Rightarrow> nat option \<Rightarrow> 'a list \<Rightarrow> 'i qop list \<Rightarrow> 'a qout list \<times> 'a list" where
  "run_list f cap xs [] = ([], xs)"
| "run_list f cap xs (Enq i # os) =
     (if has_room cap xs
      then let (outs, ys) = run_list f cap (xs @ [f i]) os in ((0, None) # outs, ys)
      else let (outs, ys) = run_list f cap xs os in ((-1, None) # outs, ys))"
| "run_list f cap [] (Deq # os) =
     (let (outs, ys) = run_list f cap [] os in ((-1, None) # outs, ys))"
| "run_list f cap (x # xs) (Deq # os) =
     (let (outs, ys) = run_list f cap xs os in ((0, Some x) # outs, ys))"

lemma run_list_length: "length (fst (run_list f cap xs os)) = length os"
  by (induction f cap xs os rule: run_list.induct) (auto split: prod.splits)

lemma run_list_bound:
  "case cap of None \<Rightarrow> True | Some c \<Rightarrow> length xs \<le> c \<Longrightarrow>
   case cap of None \<Rightarrow> True | Some c \<Rightarrow> length (snd (run_list f cap xs os)) \<le> c"
  by (induction f cap xs os rule: run_list.induct)
    (auto simp: has_room_def split: prod.splits option.splits if_splits)

text \<open>
  The calls that store an item may need resources from outside, such as a fresh block, so
  that not every call is admissible in every state: \<open>adm q i\<close> says which are.
  \<open>steps_adm\<close> says it of a whole run.
\<close>

fun steps_adm :: "('q \<Rightarrow> 'i \<Rightarrow> bool) \<Rightarrow> ('q \<Rightarrow> 'i \<Rightarrow> (int \<times> 'q) option)
    \<Rightarrow> ('q \<Rightarrow> (int \<times> 'q \<times> 'a option) option) \<Rightarrow> 'q \<Rightarrow> 'i qop list \<Rightarrow> bool" where
  "steps_adm adm e d q [] = True"
| "steps_adm adm e d q (Enq i # os) =
     (adm q i \<and> (case e q i of None \<Rightarrow> True | Some (r, q1) \<Rightarrow> steps_adm adm e d q1 os))"
| "steps_adm adm e d q (Deq # os) =
     (case d q of None \<Rightarrow> True | Some (r, q1, x) \<Rightarrow> steps_adm adm e d q1 os)"

locale fifo =
  fixes inv :: "'q \<Rightarrow> bool"
    and contents :: "'q \<Rightarrow> 'a list"
    and cap :: "'q \<Rightarrow> nat option"
    and enq :: "'q \<Rightarrow> 'i \<Rightarrow> (int \<times> 'q) option"
    and deq :: "'q \<Rightarrow> (int \<times> 'q \<times> 'a option) option"
    and item :: "'i \<Rightarrow> 'a"
    and adm :: "'q \<Rightarrow> 'i \<Rightarrow> bool"
  assumes enq_room: "inv q \<Longrightarrow> adm q i \<Longrightarrow> has_room (cap q) (contents q) \<Longrightarrow>
      \<exists>q'. enq q i = Some (0, q') \<and> inv q' \<and> contents q' = contents q @ [item i] \<and> cap q' = cap q"
    and enq_full: "inv q \<Longrightarrow> adm q i \<Longrightarrow> \<not> has_room (cap q) (contents q) \<Longrightarrow>
      \<exists>q'. enq q i = Some (-1, q') \<and> inv q' \<and> contents q' = contents q \<and> cap q' = cap q"
    and deq_some: "inv q \<Longrightarrow> contents q = x # xs \<Longrightarrow>
      \<exists>q'. deq q = Some (0, q', Some x) \<and> inv q' \<and> contents q' = xs \<and> cap q' = cap q"
    and deq_empty: "inv q \<Longrightarrow> contents q = [] \<Longrightarrow>
      \<exists>q'. deq q = Some (-1, q', None) \<and> inv q' \<and> contents q' = [] \<and> cap q' = cap q"
begin

lemma enq_step:
  assumes "inv q" and "adm q i"
  obtains r q' where "enq q i = Some (r, q')" and "inv q'" and "cap q' = cap q"
    and "r = (if has_room (cap q) (contents q) then 0 else -1)"
    and "contents q' = (if has_room (cap q) (contents q) then contents q @ [item i] else contents q)"
  using enq_room [OF assms] enq_full [OF assms] by (cases "has_room (cap q) (contents q)") auto

lemma deq_step:
  assumes "inv q"
  obtains r q' x where "deq q = Some (r, q', x)" and "inv q'" and "cap q' = cap q"
    and "(r, x, contents q') = (case contents q of [] \<Rightarrow> (-1, None, []) | y # ys \<Rightarrow> (0, Some y, ys))"
  using deq_some [OF assms] deq_empty [OF assms] by (cases "contents q") auto

theorem run_refines:
  assumes "inv q" and "steps_adm adm enq deq q os"
  shows "\<exists>q'. run_queue enq deq q os = Some (fst (run_list item (cap q) (contents q) os), q')
      \<and> inv q' \<and> cap q' = cap q \<and> contents q' = snd (run_list item (cap q) (contents q) os)"
  using assms
proof (induction os arbitrary: q)
  case Nil
  then show ?case by simp
next
  case (Cons op os)
  show ?case
  proof (cases op)
    case (Enq i)
    with Cons.prems have "adm q i" by simp
    then obtain r q' where e: "enq q i = Some (r, q')" and i: "inv q'" and c: "cap q' = cap q"
      and r: "r = (if has_room (cap q) (contents q) then 0 else -1)"
      and l: "contents q' = (if has_room (cap q) (contents q) then contents q @ [item i] else contents q)"
      by (rule enq_step [OF Cons.prems(1)])
    from Cons.prems(2) e Enq have "steps_adm adm enq deq q' os" by simp
    from Cons.IH [OF i this] obtain q2
      where "run_queue enq deq q' os = Some (fst (run_list item (cap q) (contents q') os), q2)"
        and "inv q2" and "cap q2 = cap q" and "contents q2 = snd (run_list item (cap q) (contents q') os)"
      by (auto simp: c)
    then show ?thesis by (simp add: Enq e r l case_prod_unfold Let_def)
  next
    case Deq
    obtain r q' x where d: "deq q = Some (r, q', x)" and i: "inv q'" and c: "cap q' = cap q"
      and e: "(r, x, contents q') = (case contents q of [] \<Rightarrow> (-1, None, []) | y # ys \<Rightarrow> (0, Some y, ys))"
      by (rule deq_step [OF Cons.prems(1)])
    from Cons.prems(2) d Deq have "steps_adm adm enq deq q' os" by simp
    from Cons.IH [OF i this] obtain q2
      where "run_queue enq deq q' os = Some (fst (run_list item (cap q) (contents q') os), q2)"
        and "inv q2" and "cap q2 = cap q" and "contents q2 = snd (run_list item (cap q) (contents q') os)"
      by (auto simp: c)
    note run = this
    show ?thesis
    proof (cases "contents q")
      case Nil
      with e have "r = -1" "x = None" "contents q' = []" by simp_all
      with run Nil show ?thesis by (simp add: Deq d case_prod_unfold Let_def)
    next
      case (Cons y ys)
      with e have "r = 0" "x = Some y" "contents q' = ys" by simp_all
      with run Cons show ?thesis by (simp add: Deq d case_prod_unfold Let_def)
    qed
  qed
qed

end

end
