(* ===== verification/ArrayQueue.thy ===== *)
theory ArrayQueue
  imports QueueSpec
begin

section \<open>The array queue (\<open>src/queue/array/queue.c\<close>)\<close>

text \<open>
  A ring buffer of \<open>squeue_data_t\<close> cells guarded by a mutex. The cells hold a pointer and
  a length; the bytes a pointer leads to live in a heap of blocks, which only
  \<open>squeue_enqueue_ext\<close> and the callback \<open>squeue_data_destroy\<close> touch. The mutex is
  the flag \<open>sq_mutex\<close> (held or not): to lock a held mutex blocks for ever, which has no
  result. The traces the code prints are not modelled.

  The section ends with the refinement to the contract of \<open>QueueSpec\<close>: under the
  invariant \<open>sq_inv\<close>, the cells from \<open>head\<close> on, \<open>count\<close> of them and modulo
  \<open>size\<close>, are a first-in first-out list.
\<close>

type_synonym block = "8 word list"

record sq_data =
  sd_pdata :: ptr
  sd_length :: "32 word"

record squeue =
  sq_head :: int
  sq_tail :: int
  sq_count :: int
  sq_size :: int
  sq_mutex :: bool
  sq_qdata :: "sq_data list option"

definition sq_zero :: sq_data where
  "sq_zero = \<lparr>sd_pdata = None, sd_length = 0\<rparr>"

subsection \<open>Operations\<close>

definition mutex_lock :: "squeue \<Rightarrow> squeue option" where
  "mutex_lock q = (if sq_mutex q then None else Some (q\<lparr>sq_mutex := True\<rparr>))"

definition mutex_unlock :: "squeue \<Rightarrow> squeue option" where
  "mutex_unlock q = (if sq_mutex q then Some (q\<lparr>sq_mutex := False\<rparr>) else None)"

text \<open>
  \<open>calloc\<close> answers with zeroed cells or with a null pointer; \<open>avail\<close> says which. A
  negative \<open>size\<close> becomes a huge \<open>size_t\<close> and is refused.
\<close>

definition sq_calloc :: "int \<Rightarrow> bool \<Rightarrow> sq_data list option" where
  "sq_calloc n avail = (if avail \<and> 0 \<le> n then Some (replicate (nat n) sq_zero) else None)"

definition squeue_init :: "squeue \<Rightarrow> int \<Rightarrow> bool \<Rightarrow> int \<times> squeue" where
  "squeue_init q n avail =
     (case sq_calloc n avail of
        Some a \<Rightarrow> (0, q\<lparr>sq_qdata := Some a, sq_size := n, sq_head := 0, sq_tail := 0,
                         sq_count := 0, sq_mutex := False\<rparr>)
      | None \<Rightarrow> (-10, q\<lparr>sq_qdata := None\<rparr>))"

definition squeue_data_destroy :: "sq_data \<Rightarrow> block heap \<Rightarrow> (sq_data \<times> block heap) option" where
  "squeue_data_destroy d m =
     (if sd_pdata d \<noteq> None
      then do { m1 \<leftarrow> c_free m (sd_pdata d);
                Some (d\<lparr>sd_pdata := None, sd_length := 0\<rparr>, m1) }
      else Some (d, m))"

text \<open>The guarded part of both enqueue functions: store, advance the tail, count.\<close>

definition sq_put :: "squeue \<Rightarrow> sq_data \<Rightarrow> squeue option" where
  "sq_put q d = do {
     a \<leftarrow> sq_qdata q;
     a1 \<leftarrow> wr a (sq_tail q) d;
     t \<leftarrow> i32 (sq_tail q + 1);
     t1 \<leftarrow> c_rem t (sq_size q);
     c \<leftarrow> i32 (sq_count q + 1);
     Some (q\<lparr>sq_qdata := Some a1, sq_tail := t1, sq_count := c\<rparr>) }"

definition squeue_enqueue :: "squeue \<Rightarrow> sq_data \<Rightarrow> (int \<times> squeue) option" where
  "squeue_enqueue q d = do {
     q1 \<leftarrow> mutex_lock q;
     if sq_count q1 < sq_size q1
     then do { q2 \<leftarrow> sq_put q1 d; q3 \<leftarrow> mutex_unlock q2; Some (0, q3) }
     else do { q3 \<leftarrow> mutex_unlock q1; Some (-1, q3) } }"

text \<open>
  The extended form copies \<open>len\<close> bytes of the caller's buffer into a block of its own.
  The arguments \<open>src\<close> and \<open>p\<close> are the caller's buffer and what \<open>malloc\<close> returned.
\<close>

definition squeue_enqueue_ext ::
    "squeue \<Rightarrow> block heap \<Rightarrow> block \<Rightarrow> 32 word \<Rightarrow> ptr \<Rightarrow> (int \<times> squeue \<times> block heap) option" where
  "squeue_enqueue_ext q m src len p =
     (case p of
        None \<Rightarrow> Some (-10, q, m)
      | Some a \<Rightarrow>
          if unat len \<le> length src
          then do { (r, q1) \<leftarrow> squeue_enqueue q \<lparr>sd_pdata = p, sd_length = len\<rparr>;
                    Some (r, q1, m(a \<mapsto> take (unat len) src)) }
          else None)"

text \<open>\<open>_squeue_dequeue\<close>: the third component is what \<open>*pdata\<close> received, if anything.\<close>

definition squeue_dequeue_raw :: "squeue \<Rightarrow> (int \<times> squeue \<times> sq_data option) option" where
  "squeue_dequeue_raw q =
     (if sq_count q > 0
      then do {
        a \<leftarrow> sq_qdata q;
        d \<leftarrow> rd a (sq_head q);
        a1 \<leftarrow> wr a (sq_head q) (d\<lparr>sd_pdata := None, sd_length := 0\<rparr>);
        h \<leftarrow> i32 (sq_head q + 1);
        h1 \<leftarrow> c_rem h (sq_size q);
        c \<leftarrow> i32 (sq_count q - 1);
        Some (0, q\<lparr>sq_qdata := Some a1, sq_head := h1, sq_count := c\<rparr>, Some d) }
      else Some (-1, q, None))"

definition squeue_dequeue :: "squeue \<Rightarrow> (int \<times> squeue \<times> sq_data option) option" where
  "squeue_dequeue q = do {
     q1 \<leftarrow> mutex_lock q;
     (r, q2, d) \<leftarrow> squeue_dequeue_raw q1;
     q3 \<leftarrow> mutex_unlock q2;
     Some (r, q3, d) }"

text \<open>
  The loop of \<open>squeue_destroy\<close>: \<open>destroy\<close> is the callback, possibly null; it works on
  the local copy of the cell and on memory of any kind.
\<close>

partial_function (option) sq_drain ::
    "(sq_data \<Rightarrow> 'm \<Rightarrow> (sq_data \<times> 'm) option) option \<Rightarrow> squeue \<Rightarrow> 'm \<Rightarrow> (squeue \<times> 'm) option" where
  "sq_drain destroy q m =
     (if sq_count q > 0
      then do {
        (r, q1, x) \<leftarrow> squeue_dequeue_raw q;
        d \<leftarrow> x;
        (d1, m1) \<leftarrow> (case destroy of None \<Rightarrow> Some (d, m) | Some f \<Rightarrow> f d m);
        sq_drain destroy q1 m1 }
      else Some (q, m))"

definition squeue_destroy ::
    "(sq_data \<Rightarrow> 'm \<Rightarrow> (sq_data \<times> 'm) option) option \<Rightarrow> squeue \<Rightarrow> 'm \<Rightarrow> (squeue \<times> 'm) option" where
  "squeue_destroy destroy q m = do {
     q1 \<leftarrow> mutex_lock q;
     (q2, m1) \<leftarrow> sq_drain destroy q1 m;
     q3 \<leftarrow> mutex_unlock (if sq_qdata q2 \<noteq> None then q2\<lparr>sq_qdata := None\<rparr> else q2);
     Some (q3, m1) }"

definition squeue_is_full :: "squeue \<Rightarrow> (bool \<times> squeue) option" where
  "squeue_is_full q = do {
     q1 \<leftarrow> mutex_lock q;
     q2 \<leftarrow> mutex_unlock q1;
     Some (sq_count q1 = sq_size q1, q2) }"

definition squeue_is_empty :: "squeue \<Rightarrow> (bool \<times> squeue) option" where
  "squeue_is_empty q = do {
     q1 \<leftarrow> mutex_lock q;
     q2 \<leftarrow> mutex_unlock q1;
     Some (sq_count q1 = 0, q2) }"

text \<open>
  What \<open>squeue_info\<close> prints: nothing but a message for a queue without array, else the
  four counters and a row (index, length, pointer) for every cell of the array, used or not.
  It takes no lock.
\<close>

partial_function (option) sq_info_loop ::
    "sq_data list \<Rightarrow> int \<Rightarrow> int \<Rightarrow> (int \<times> 32 word \<times> ptr) list \<Rightarrow> (int \<times> 32 word \<times> ptr) list option" where
  "sq_info_loop a n i rows =
     (if i < n
      then do { d \<leftarrow> rd a i; j \<leftarrow> i32 (i + 1); sq_info_loop a n j (rows @ [(i, sd_length d, sd_pdata d)]) }
      else Some rows)"

definition squeue_info ::
    "squeue \<Rightarrow> ((int \<times> int \<times> int \<times> int) \<times> (int \<times> 32 word \<times> ptr) list) option option" where
  "squeue_info q = (case sq_qdata q of None \<Rightarrow> Some None
     | Some a \<Rightarrow> do {
         rows \<leftarrow> sq_info_loop a (sq_size q) 0 [];
         Some (Some ((sq_count q, sq_size q, sq_head q, sq_tail q), rows)) })"

subsection \<open>Invariant and contents\<close>

definition sq_list :: "squeue \<Rightarrow> sq_data list" where
  "sq_list q = (case sq_qdata q of None \<Rightarrow> []
     | Some a \<Rightarrow> map (\<lambda>i. a ! nat ((sq_head q + int i) mod sq_size q)) [0..<nat (sq_count q)])"

definition sq_ring :: "squeue \<Rightarrow> bool" where
  "sq_ring q \<longleftrightarrow> (case sq_qdata q of None \<Rightarrow> False | Some a \<Rightarrow>
     int (length a) = sq_size q \<and> in_i32 (sq_size q) \<and> 0 \<le> sq_count q \<and> sq_count q \<le> sq_size q \<and>
     (if sq_size q = 0 then sq_head q = 0 \<and> sq_tail q = 0
      else 0 \<le> sq_head q \<and> sq_head q < sq_size q \<and>
           sq_tail q = (sq_head q + sq_count q) mod sq_size q))"

definition sq_inv :: "squeue \<Rightarrow> bool" where
  "sq_inv q \<longleftrightarrow> \<not> sq_mutex q \<and> sq_ring q"

definition sq_cap :: "squeue \<Rightarrow> nat option" where
  "sq_cap q = Some (nat (sq_size q))"

lemma sq_ringD [c_inv]:
  assumes "sq_ring q"
  obtains a where "sq_qdata q = Some a" and "int (length a) = sq_size q" and "in_i32 (sq_size q)"
    and "0 \<le> sq_count q" and "sq_count q \<le> sq_size q"
  using assms by (auto simp: sq_ring_def split: option.splits)

lemma ring_index_inj:
  assumes "(h + int i) mod s = (h + int j) mod (s::int)" and "int i < s" and "int j < s"
  shows "i = j"
proof -
  from assms(1) have "int i mod s = int j mod s"
    using mod_diff_cong [OF assms(1) refl, of h] by simp
  with assms(2,3) show ?thesis by simp
qed

lemma length_sq_list: "sq_ring q \<Longrightarrow> length (sq_list q) = nat (sq_count q)"
  by (auto simp: sq_list_def sq_ring_def split: option.splits)

lemma sq_put_correct:
  assumes "sq_ring q" and "sq_count q < sq_size q"
  shows "\<exists>q'. sq_put q d = Some q' \<and> sq_ring q' \<and> sq_list q' = sq_list q @ [d]
    \<and> sq_size q' = sq_size q \<and> sq_mutex q' = sq_mutex q \<and> sq_head q' = sq_head q
    \<and> sq_count q' = sq_count q + 1"
proof -
  let ?h = "sq_head q" and ?s = "sq_size q" and ?c = "sq_count q" and ?t = "sq_tail q"
  from assms obtain a where a: "sq_qdata q = Some a" "int (length a) = ?s" "in_i32 ?s" "0 \<le> ?c"
    and h: "0 \<le> ?h" "?h < ?s" and t: "?t = (?h + ?c) mod ?s" and s: "0 < ?s"
    by (auto simp: sq_ring_def split: option.splits if_splits)
  have tb: "0 \<le> ?t" "?t < ?s" using s t by auto
  let ?a' = "a[nat ?t := d]"
  let ?q' = "q\<lparr>sq_qdata := Some ?a', sq_tail := (?t + 1) mod ?s, sq_count := ?c + 1\<rparr>"
  have "sq_put q d = Some ?q'"
    using a tb s assms(2) by (simp add: sq_put_def c_simps in_i32_def)
  moreover have "sq_ring ?q'"
    using a h s assms(2) by (simp add: sq_ring_def t mod_simps algebra_simps)
  moreover have "sq_list ?q' = sq_list q @ [d]"
  proof -
    have "?a' ! nat ((?h + int i) mod ?s) = a ! nat ((?h + int i) mod ?s)" if "i < nat ?c" for i
    proof -
      have "(?h + int i) mod ?s \<noteq> ?t"
        using ring_index_inj [of ?h i ?s "nat ?c"] that a(4) assms(2) t by auto
      moreover have "0 \<le> (?h + int i) mod ?s" using s by simp
      ultimately show ?thesis using tb by (metis nth_list_update_neq nat_eq_iff2 nat_0_le)
    qed
    moreover have "?a' ! nat ((?h + ?c) mod ?s) = d"
      using tb a t by (metis nth_list_update_eq nat_less_iff)
    moreover have "nat (?c + 1) = Suc (nat ?c)" using a(4) by simp
    ultimately show ?thesis using a by (simp add: sq_list_def)
  qed
  ultimately show ?thesis by auto
qed

lemma squeue_dequeue_raw_some:
  assumes "sq_ring q" and "sq_count q > 0"
  shows "\<exists>q' d. squeue_dequeue_raw q = Some (0, q', Some d) \<and> sq_ring q'
    \<and> sq_list q = d # sq_list q' \<and> sq_size q' = sq_size q \<and> sq_mutex q' = sq_mutex q
    \<and> sq_count q' = sq_count q - 1"
proof -
  let ?h = "sq_head q" and ?s = "sq_size q" and ?c = "sq_count q"
  from assms obtain a where a: "sq_qdata q = Some a" "int (length a) = ?s" "in_i32 ?s" "?c \<le> ?s"
    and h: "0 \<le> ?h" "?h < ?s" and t: "sq_tail q = (?h + ?c) mod ?s" and s: "0 < ?s"
    by (auto simp: sq_ring_def split: option.splits if_splits)
  let ?d = "a ! nat ?h"
  let ?a' = "a[nat ?h := ?d\<lparr>sd_pdata := None, sd_length := 0\<rparr>]"
  let ?q' = "q\<lparr>sq_qdata := Some ?a', sq_head := (?h + 1) mod ?s, sq_count := ?c - 1\<rparr>"
  have "squeue_dequeue_raw q = Some (0, ?q', Some ?d)"
    using a h s assms(2) by (simp add: squeue_dequeue_raw_def c_simps in_i32_def)
  moreover have "sq_ring ?q'"
  proof -
    have "((?h + 1) mod ?s + (?c - 1)) mod ?s = (?h + ?c) mod ?s" by (simp add: mod_simps)
    then show ?thesis using a h s assms(2) by (simp add: sq_ring_def t)
  qed
  moreover have "sq_list q = ?d # sq_list ?q'"
  proof -
    have "?a' ! nat ((?h + 1 + int i) mod ?s) = a ! nat ((?h + 1 + int i) mod ?s)"
      if "i < nat (?c - 1)" for i
    proof -
      have "int (Suc i) < ?s" using that a(4) by (simp add: zless_nat_eq_int_zless)
      then have "(?h + 1 + int i) mod ?s \<noteq> ?h mod ?s"
        using ring_index_inj [of ?h "Suc i" ?s 0] s by (auto simp: algebra_simps)
      then have "(?h + 1 + int i) mod ?s \<noteq> ?h" using h by simp
      moreover have "0 \<le> (?h + 1 + int i) mod ?s" using s by simp
      ultimately show ?thesis using h by (metis nth_list_update_neq nat_eq_iff2 nat_0_le)
    qed
    moreover have "nat ?c = Suc (nat (?c - 1))" using assms(2) by simp
    ultimately show ?thesis
      using a h by (simp add: sq_list_def map_upt_Cons mod_simps algebra_simps del: upt_Suc)
  qed
  ultimately show ?thesis by auto
qed

lemma squeue_dequeue_raw_empty: "sq_count q \<le> 0 \<Longrightarrow> squeue_dequeue_raw q = Some (-1, q, None)"
  by (simp add: squeue_dequeue_raw_def)

lemma sq_list_Nil_iff: "sq_ring q \<Longrightarrow> sq_list q = [] \<longleftrightarrow> sq_count q = 0"
  using length_sq_list [of q] by (auto simp: sq_ring_def split: option.splits)

lemma has_room_iff: "sq_ring q \<Longrightarrow> has_room (sq_cap q) (sq_list q) \<longleftrightarrow> sq_count q < sq_size q"
  by (auto simp: has_room_def sq_cap_def length_sq_list sq_ring_def split: option.splits)

text \<open>The mutex does not matter to the ring.\<close>

lemma sq_ring_mutex [simp]: "sq_ring (q\<lparr>sq_mutex := b\<rparr>) = sq_ring q"
  by (cases "sq_qdata q") (simp_all add: sq_ring_def)

lemma sq_list_mutex [simp]: "sq_list (q\<lparr>sq_mutex := b\<rparr>) = sq_list q"
  by (cases "sq_qdata q") (simp_all add: sq_list_def)

lemma sq_cap_eq: "sq_size q' = sq_size q \<Longrightarrow> sq_cap q' = sq_cap q"
  by (simp add: sq_cap_def)

lemma squeue_enqueue_room:
  assumes "sq_inv q" and "sq_count q < sq_size q"
  shows "\<exists>q'. squeue_enqueue q d = Some (0, q') \<and> sq_inv q' \<and> sq_list q' = sq_list q @ [d]
    \<and> sq_size q' = sq_size q"
proof -
  from assms have "sq_ring (q\<lparr>sq_mutex := True\<rparr>)" by (simp add: sq_inv_def)
  from sq_put_correct [OF this, of d] assms obtain q' where
    "sq_put (q\<lparr>sq_mutex := True\<rparr>) d = Some q'" "sq_ring q'" "sq_list q' = sq_list q @ [d]"
    "sq_size q' = sq_size q" "sq_mutex q'"
    by auto
  then show ?thesis
    using assms by (auto simp: squeue_enqueue_def mutex_lock_def mutex_unlock_def sq_inv_def)
qed

lemma squeue_enqueue_full:
  assumes "sq_inv q" and "\<not> sq_count q < sq_size q"
  shows "squeue_enqueue q d = Some (-1, q)"
  using assms by (simp add: squeue_enqueue_def mutex_lock_def mutex_unlock_def sq_inv_def)

lemma squeue_dequeue_some:
  assumes "sq_inv q" and "sq_count q > 0"
  shows "\<exists>q' d. squeue_dequeue q = Some (0, q', Some d) \<and> sq_inv q' \<and> sq_list q = d # sq_list q'
    \<and> sq_size q' = sq_size q"
proof -
  from assms have "sq_ring (q\<lparr>sq_mutex := True\<rparr>)" by (simp add: sq_inv_def)
  from squeue_dequeue_raw_some [OF this] assms obtain q' d where
    "squeue_dequeue_raw (q\<lparr>sq_mutex := True\<rparr>) = Some (0, q', Some d)" "sq_ring q'"
    "sq_list q = d # sq_list q'" "sq_size q' = sq_size q" "sq_mutex q'"
    by auto
  then show ?thesis
    using assms by (auto simp: squeue_dequeue_def mutex_lock_def mutex_unlock_def sq_inv_def)
qed

lemma squeue_dequeue_empty:
  assumes "sq_inv q" and "sq_count q \<le> 0"
  shows "squeue_dequeue q = Some (-1, q, None)"
  using assms
  by (simp add: squeue_dequeue_def mutex_lock_def mutex_unlock_def sq_inv_def squeue_dequeue_raw_empty)

interpretation sqf: fifo sq_inv sq_list sq_cap squeue_enqueue squeue_dequeue "\<lambda>d. d" "\<lambda>_ _. True"
proof
  fix q and d :: sq_data
  assume q: "sq_inv q"
  then have r: "sq_ring q" by (simp add: sq_inv_def)
  show "\<exists>q'. squeue_enqueue q d = Some (0, q') \<and> sq_inv q' \<and> sq_list q' = sq_list q @ [d]
      \<and> sq_cap q' = sq_cap q" if "has_room (sq_cap q) (sq_list q)"
    using that squeue_enqueue_room [OF q, of d] by (auto simp: has_room_iff [OF r] intro: sq_cap_eq)
  show "\<exists>q'. squeue_enqueue q d = Some (-1, q') \<and> sq_inv q' \<and> sq_list q' = sq_list q
      \<and> sq_cap q' = sq_cap q" if "\<not> has_room (sq_cap q) (sq_list q)"
    using that squeue_enqueue_full [OF q] has_room_iff [OF r] q by simp
  show "\<exists>q'. squeue_dequeue q = Some (0, q', Some x) \<and> sq_inv q' \<and> sq_list q' = xs
      \<and> sq_cap q' = sq_cap q" if "sq_list q = x # xs" for x xs
  proof -
    have "sq_count q > 0"
      using that sq_list_Nil_iff [OF r] r by (auto simp: sq_ring_def split: option.splits)
    from squeue_dequeue_some [OF q this] that show ?thesis by (auto intro: sq_cap_eq)
  qed
  show "\<exists>q'. squeue_dequeue q = Some (-1, q', None) \<and> sq_inv q' \<and> sq_list q' = []
      \<and> sq_cap q' = sq_cap q" if "sq_list q = []"
    using that squeue_dequeue_empty [OF q] sq_list_Nil_iff [OF r] q by simp
qed

subsection \<open>Initialisation and destruction\<close>

lemma sq_info_loop_rows:
  assumes "0 \<le> i" and "i \<le> int (length a)" and "in_i32 (int (length a))"
  shows "sq_info_loop a (int (length a)) i rows
    = Some (rows @ map (\<lambda>j. (int j, sd_length (a ! j), sd_pdata (a ! j))) [nat i..<length a])"
  using assms
proof (induction "nat (int (length a) - i)" arbitrary: i rows)
  case 0
  then show ?case by (simp add: sq_info_loop.simps)
next
  case (Suc n)
  then have i: "i < int (length a)" and n: "n = nat (int (length a) - (i + 1))" by auto
  have "in_i32 (i + 1)" using Suc.prems i by (auto simp: in_i32_def)
  moreover have "nat i < length a" using i Suc.prems(1) by simp
  then have "[nat i..<length a] = nat i # [nat (i + 1)..<length a]"
    using Suc.prems(1) by (simp add: upt_conv_Cons nat_add_distrib)
  ultimately show ?case
    using Suc.hyps(1) [OF n] Suc.prems i by (subst sq_info_loop.simps) (simp add: c_simps)
qed

lemma squeue_info_rows:
  assumes "sq_inv q"
  shows "\<exists>a. sq_qdata q = Some a \<and> squeue_info q = Some (Some ((sq_count q, sq_size q, sq_head q, sq_tail q),
    map (\<lambda>j. (int j, sd_length (a ! j), sd_pdata (a ! j))) [0..<length a]))"
proof -
  from assms obtain a where "sq_qdata q = Some a" "int (length a) = sq_size q" "in_i32 (sq_size q)"
    by (auto simp: sq_inv_def elim: sq_ringD)
  with sq_info_loop_rows [of 0 a "[]"] show ?thesis by (simp add: squeue_info_def)
qed

lemma squeue_init_ok:
  assumes "0 \<le> n" and "in_i32 n"
  shows "\<exists>q. squeue_init q0 n True = (0, q) \<and> sq_inv q \<and> sq_list q = [] \<and> sq_size q = n"
  using assms by (simp add: squeue_init_def sq_calloc_def sq_inv_def sq_ring_def sq_list_def)

lemma steps_adm_always: "steps_adm (\<lambda>_ _. True) e d q os"
proof (induction os arbitrary: q)
  case (Cons op os)
  then show ?case by (cases op) (auto split: option.splits)
qed simp

text \<open>The blocks the queued cells point to, in queue order.\<close>

definition sq_blocks :: "squeue \<Rightarrow> addr list" where
  "sq_blocks q = List.map_filter sd_pdata (sq_list q)"

lemma sq_drain_frees:
  assumes "sq_ring q" and "distinct (sq_blocks q)" and "set (sq_blocks q) \<subseteq> dom m"
  shows "\<exists>q'. sq_drain (Some squeue_data_destroy) q m = Some (q', m |` (- set (sq_blocks q)))
    \<and> sq_ring q' \<and> sq_count q' = 0 \<and> sq_mutex q' = sq_mutex q \<and> sq_size q' = sq_size q"
  using assms
proof (induction "nat (sq_count q)" arbitrary: q m)
  case 0
  then have "sq_count q = 0" by (auto elim!: sq_ringD)
  moreover from this 0 have "sq_blocks q = []"
    using sq_list_Nil_iff [of q] by (simp add: sq_blocks_def map_filter_simps)
  ultimately show ?case using 0 by (simp add: sq_drain.simps)
next
  case (Suc n)
  then have c: "sq_count q > 0" by simp
  from squeue_dequeue_raw_some [OF Suc.prems(1) this] obtain q1 d where
    d: "squeue_dequeue_raw q = Some (0, q1, Some d)" and r1: "sq_ring q1"
    and l: "sq_list q = d # sq_list q1" and n1: "sq_count q1 = sq_count q - 1"
    and s1: "sq_size q1 = sq_size q" "sq_mutex q1 = sq_mutex q" by auto
  have n: "n = nat (sq_count q1)" using Suc.hyps(2) n1 by simp
  show ?case
  proof (cases "sd_pdata d")
    case None
    then have b: "sq_blocks q = sq_blocks q1" by (simp add: sq_blocks_def l map_filter_simps)
    from Suc.hyps(1) [OF n r1] Suc.prems(2,3) b show ?thesis
      using c d None s1 by (subst sq_drain.simps) (auto simp: squeue_data_destroy_def)
  next
    case (Some a)
    then have b: "sq_blocks q = a # sq_blocks q1" by (simp add: sq_blocks_def l map_filter_simps)
    let ?m = "m(a := None)"
    have m: "(?m |` (- set (sq_blocks q1))) = (m |` (- set (sq_blocks q)))"
      by (auto simp: b restrict_map_def)
    have "set (sq_blocks q1) \<subseteq> dom ?m" and "distinct (sq_blocks q1)"
      using Suc.prems(2,3) b by auto
    from Suc.hyps(1) [OF n r1 this(2,1), unfolded m] obtain q' where
      "sq_drain (Some squeue_data_destroy) q1 ?m = Some (q', m |` (- set (sq_blocks q)))"
      "sq_ring q'" "sq_count q' = 0" "sq_mutex q' = sq_mutex q1" "sq_size q' = sq_size q1"
      by blast
    moreover obtain blk where "m a = Some blk" using Suc.prems(3) b by auto
    ultimately show ?thesis
      using c d Some s1 by (subst sq_drain.simps) (simp add: squeue_data_destroy_def)
  qed
qed

subsection \<open>Properties\<close>

text \<open>
  C1. A queue that \<open>squeue_init\<close> made for \<open>n\<close> items answers any sequence of
  \<open>squeue_enqueue\<close> and \<open>squeue_dequeue\<close> calls as a list with room for \<open>n\<close>
  items would: items come out in the order they went in, a call on a full or an empty queue
  returns \<open>-1\<close> and changes nothing, and no call overflows, leaves the array or ends with
  the mutex held.
\<close>

theorem squeue_runs_as_fifo:
  assumes "0 \<le> n" and "in_i32 n" and "squeue_init q0 n True = (0, q)"
  shows "\<exists>q'. run_queue squeue_enqueue squeue_dequeue q os
        = Some (fst (run_list (\<lambda>d. d) (Some (nat n)) [] os), q')
      \<and> sq_inv q' \<and> sq_list q' = snd (run_list (\<lambda>d. d) (Some (nat n)) [] os)"
proof -
  from squeue_init_ok [OF assms(1,2), of q0] assms(3)
  have q: "sq_inv q" "sq_list q = []" "sq_cap q = Some (nat n)" by (auto simp: sq_cap_def)
  from sqf.run_refines [OF q(1) steps_adm_always, of os] show ?thesis
    by (auto simp: q)
qed

theorem squeue_runs_as_fifo_witness:
  "\<exists>q q'. squeue_init \<lparr>sq_head = 7, sq_tail = 7, sq_count = 7, sq_size = 7, sq_mutex = True, sq_qdata = None\<rparr>
        2 True = (0, q)
    \<and> run_queue squeue_enqueue squeue_dequeue q
        [Enq \<lparr>sd_pdata = Some 1, sd_length = 5\<rparr>, Enq \<lparr>sd_pdata = Some 2, sd_length = 6\<rparr>,
         Enq \<lparr>sd_pdata = Some 3, sd_length = 7\<rparr>, Deq, Deq, Deq]
      = Some ([(0, None), (0, None), (-1, None), (0, Some \<lparr>sd_pdata = Some 1, sd_length = 5\<rparr>),
               (0, Some \<lparr>sd_pdata = Some 2, sd_length = 6\<rparr>), (-1, None)], q')"
proof -
  let ?start = "\<lparr>sq_head = 7, sq_tail = 7, sq_count = 7, sq_size = 7, sq_mutex = True, sq_qdata = None\<rparr>"
  let ?q = "snd (squeue_init ?start 2 True)"
  have i: "squeue_init ?start 2 True = (0, ?q)" by (simp add: squeue_init_def sq_calloc_def)
  let ?os = "[Enq \<lparr>sd_pdata = Some 1, sd_length = 5\<rparr>, Enq \<lparr>sd_pdata = Some 2, sd_length = 6\<rparr>,
         Enq \<lparr>sd_pdata = Some 3, sd_length = 7\<rparr>, Deq, Deq, Deq]"
  have l: "fst (run_list (\<lambda>d. d) (Some (nat 2)) [] ?os)
      = [(0, None), (0, None), (-1, None), (0, Some \<lparr>sd_pdata = Some 1, sd_length = 5\<rparr>),
         (0, Some \<lparr>sd_pdata = Some 2, sd_length = 6\<rparr>), (-1, None)]"
    by (simp add: has_room_def)
  have n: "0 \<le> (2::int)" "in_i32 2" by (simp_all add: in_i32_def)
  from squeue_runs_as_fifo [OF n i, of ?os, unfolded l] i show ?thesis by blast
qed

text \<open>
  C4. \<open>squeue_destroy\<close> with the callback \<open>squeue_data_destroy\<close> frees the block of
  every queued cell, each one once, touches no other block, releases the array and the mutex,
  and leaves an empty queue: its loop ends, and nothing is freed twice, provided the queued
  cells hold distinct live blocks.
\<close>

theorem squeue_destroy_frees_queued_blocks:
  assumes "sq_inv q" and "distinct (sq_blocks q)" and "set (sq_blocks q) \<subseteq> dom m"
  shows "\<exists>q'. squeue_destroy (Some squeue_data_destroy) q m = Some (q', m |` (- set (sq_blocks q)))
    \<and> sq_count q' = 0 \<and> sq_qdata q' = None \<and> \<not> sq_mutex q'"
proof -
  let ?q = "q\<lparr>sq_mutex := True\<rparr>"
  have b: "sq_blocks ?q = sq_blocks q" by (simp add: sq_blocks_def)
  from assms have "sq_ring ?q" by (simp add: sq_inv_def)
  from sq_drain_frees [OF this] assms(2,3) b obtain q' where
    "sq_drain (Some squeue_data_destroy) ?q m = Some (q', m |` (- set (sq_blocks q)))"
    "sq_ring q'" "sq_count q' = 0" "sq_mutex q'" by auto
  with assms(1) show ?thesis
    by (auto simp: squeue_destroy_def mutex_lock_def mutex_unlock_def sq_inv_def)
qed

theorem squeue_destroy_frees_queued_blocks_witness:
  "\<exists>q'. squeue_destroy (Some squeue_data_destroy)
      \<lparr>sq_head = 1, sq_tail = 1, sq_count = 2, sq_size = 2, sq_mutex = False,
       sq_qdata = Some [\<lparr>sd_pdata = Some 4, sd_length = 1\<rparr>, \<lparr>sd_pdata = Some 3, sd_length = 1\<rparr>]\<rparr>
      [3 \<mapsto> [1], 4 \<mapsto> [2], 5 \<mapsto> [3]]
    = Some (q', [5 \<mapsto> [3]]) \<and> sq_count q' = 0 \<and> sq_qdata q' = None \<and> \<not> sq_mutex q'"
proof -
  let ?q = "\<lparr>sq_head = 1, sq_tail = 1, sq_count = 2, sq_size = 2, sq_mutex = False,
       sq_qdata = Some [\<lparr>sd_pdata = Some 4, sd_length = 1\<rparr>, \<lparr>sd_pdata = Some 3, sd_length = 1\<rparr>]\<rparr>"
  let ?m = "[3 \<mapsto> [1], 4 \<mapsto> [2], 5 \<mapsto> [3]] :: block heap"
  have b: "sq_blocks ?q = [3, 4]"
    by (simp add: sq_blocks_def sq_list_def map_filter_simps upt_rec nat_mod_distrib)
  have i: "sq_inv ?q" by (simp add: sq_inv_def sq_ring_def in_i32_def)
  have m: "?m |` (- {3, 4}) = [5 \<mapsto> [3]]" by (auto simp: restrict_map_def)
  from squeue_destroy_frees_queued_blocks [OF i, of ?m] show ?thesis
    by (simp add: b m)
qed

text \<open>
  \<open>squeue_enqueue_ext\<close> on every branch. Without memory it returns \<open>-10\<close> and
  changes nothing. With room it returns \<open>0\<close> and appends a cell that owns a fresh block
  holding the first \<open>len\<close> bytes of the caller's buffer. On a full queue it returns
  \<open>-1\<close> and leaves the queue as it was, but the copy stays allocated and no cell of the
  queue points to it: the block is leaked.
\<close>

theorem squeue_enqueue_ext_outcomes:
  assumes "sq_inv q" and "malloc_ok m p" and "unat len \<le> length src"
    and "set (sq_blocks q) \<subseteq> dom m"
  shows "case p of
      None \<Rightarrow> squeue_enqueue_ext q m src len p = Some (-10, q, m)
    | Some a \<Rightarrow>
        (if sq_count q < sq_size q
         then \<exists>q'. squeue_enqueue_ext q m src len p = Some (0, q', m(a \<mapsto> take (unat len) src))
           \<and> sq_inv q' \<and> sq_list q' = sq_list q @ [\<lparr>sd_pdata = Some a, sd_length = len\<rparr>]
         else squeue_enqueue_ext q m src len p = Some (-1, q, m(a \<mapsto> take (unat len) src))
           \<and> a \<notin> set (sq_blocks q))"
proof (cases p)
  case None
  then show ?thesis by (simp add: squeue_enqueue_ext_def)
next
  case (Some a)
  show ?thesis
  proof (cases "sq_count q < sq_size q")
    case True
    with squeue_enqueue_room [OF assms(1) True, of "\<lparr>sd_pdata = Some a, sd_length = len\<rparr>"]
    show ?thesis using Some assms(3) by (auto simp: squeue_enqueue_ext_def)
  next
    case False
    with squeue_enqueue_full [OF assms(1) False] Some assms(2-4) show ?thesis
      by (auto simp: squeue_enqueue_ext_def)
  qed
qed

theorem squeue_enqueue_ext_outcomes_witness:
  "squeue_enqueue_ext \<lparr>sq_head = 0, sq_tail = 0, sq_count = 1, sq_size = 1, sq_mutex = False,
       sq_qdata = Some [\<lparr>sd_pdata = Some 3, sd_length = 1\<rparr>]\<rparr> [3 \<mapsto> [1]] [65, 66] 2 (Some 4)
   = Some (-1, \<lparr>sq_head = 0, sq_tail = 0, sq_count = 1, sq_size = 1, sq_mutex = False,
       sq_qdata = Some [\<lparr>sd_pdata = Some 3, sd_length = 1\<rparr>]\<rparr>, [3 \<mapsto> [1], 4 \<mapsto> [65, 66]])"
proof -
  let ?q = "\<lparr>sq_head = 0, sq_tail = 0, sq_count = 1, sq_size = 1, sq_mutex = False,
       sq_qdata = Some [\<lparr>sd_pdata = Some 3, sd_length = 1\<rparr>]\<rparr>"
  have b: "sq_blocks ?q = [3]"
    by (simp add: sq_blocks_def sq_list_def map_filter_simps)
  have i: "sq_inv ?q" by (simp add: sq_inv_def sq_ring_def in_i32_def)
  have "set (sq_blocks ?q) \<subseteq> dom [3 \<mapsto> [1 :: 8 word]]" unfolding b by simp
  from squeue_enqueue_ext_outcomes [OF i _ _ this, of "Some 4" 2 "[65, 66]"] show ?thesis
    by simp
qed

end
