(* ===== verification/NodeRings.thy ===== *)
theory NodeRings
  imports CPrelude
begin

section \<open>Doubly linked rings\<close>

text \<open>
  Two components of the repository, \<open>src/queue/list/lqueue.c\<close> and
  \<open>src/queue/klist/list.h\<close>, chain their nodes in a circle through \<open>next\<close> and
  \<open>prev\<close> pointers. Both read and write the two pointers of a node and nothing else, so the
  facts about such a circle are stated here once, over two partial functions from the address
  of a node to the address of a neighbour.
\<close>

fun links :: "(addr \<Rightarrow> addr option) \<Rightarrow> (addr \<Rightarrow> addr option) \<Rightarrow> addr list \<Rightarrow> bool" where
  "links f g [] = True"
| "links f g [a] = True"
| "links f g (a # b # xs) = (f a = Some b \<and> g b = Some a \<and> links f g (b # xs))"

definition ring :: "(addr \<Rightarrow> addr option) \<Rightarrow> (addr \<Rightarrow> addr option) \<Rightarrow> addr list \<Rightarrow> bool" where
  "ring f g xs \<longleftrightarrow> distinct xs \<and> links f g (xs @ take 1 xs)"

lemma links_append: "links f g (xs @ a # ys) \<longleftrightarrow> links f g (xs @ [a]) \<and> links f g (a # ys)"
proof (induction xs)
  case (Cons x xs)
  then show ?case by (cases xs) auto
qed simp

lemma links_cong:
  "(\<And>x. x \<in> set (butlast xs) \<Longrightarrow> f x = f' x) \<Longrightarrow> (\<And>x. x \<in> set (tl xs) \<Longrightarrow> g x = g' x) \<Longrightarrow>
   links f g xs = links f' g' xs"
proof (induction f g xs rule: links.induct)
  case (3 f g a b xs)
  have "links f g (b # xs) = links f' g' (b # xs)"
    using "3.prems" by (intro "3.IH") (auto dest: list.set_sel(2) split: if_splits)
  then show ?case using "3.prems" by simp
qed auto

lemma links_Cons: "xs \<noteq> [] \<Longrightarrow> links f g (a # xs) \<longleftrightarrow> f a = Some (hd xs) \<and> g (hd xs) = Some a \<and> links f g xs"
  by (cases xs) auto

lemma ring_Nil [simp]: "ring f g []"
  by (simp add: ring_def)

lemma ring_single: "ring f g [a] \<longleftrightarrow> f a = Some a \<and> g a = Some a"
  by (simp add: ring_def)

lemma ring_distinct: "ring f g xs \<Longrightarrow> distinct xs"
  by (simp add: ring_def)

lemma ring_rotate: "ring f g (xs @ ys) \<Longrightarrow> ring f g (ys @ xs)"
proof (cases "xs = [] \<or> ys = []")
  case False
  then obtain x xs' y ys' where "xs = x # xs'" "ys = y # ys'" by (auto simp: neq_Nil_conv)
  moreover assume "ring f g (xs @ ys)"
  ultimately show ?thesis
    using links_append [of f g "x # xs'" y "ys' @ [x]"] links_append [of f g "y # ys'" x "xs' @ [y]"]
    by (auto simp: ring_def)
qed auto

lemma ring_rotate1: "ring f g (xs @ [a]) \<longleftrightarrow> ring f g (a # xs)"
  using ring_rotate [of f g xs "[a]"] ring_rotate [of f g "[a]" xs] by auto

text \<open>The ends of a ring point to each other, and neighbours inside it do.\<close>

lemma ring_snoc: "ring f g (xs @ [l]) \<longleftrightarrow>
    distinct (xs @ [l]) \<and> links f g (xs @ [l]) \<and> f l = Some (hd (xs @ [l])) \<and> g (hd (xs @ [l])) = Some l"
proof (cases xs)
  case (Cons x xs')
  then show ?thesis using links_append [of f g "x # xs'" l "[x]"] by (auto simp: ring_def)
qed (auto simp: ring_single)

lemma ring_ends:
  assumes "ring f g (xs @ [l])"
  shows "f l = Some (hd (xs @ [l]))" and "g (hd (xs @ [l])) = Some l"
  using assms by (auto simp: ring_snoc)

lemma ring_Cons: "ring f g (h # xs) \<Longrightarrow> f h = Some (hd (xs @ [h])) \<and> g h = Some (last (h # xs))"
proof -
  assume r: "ring f g (h # xs)"
  have "xs @ [h] \<noteq> []" by simp
  with r have "f h = Some (hd (xs @ [h]))" by (simp add: ring_def links_Cons)
  moreover have "g h = Some (last (h # xs))"
  proof (cases xs rule: rev_cases)
    case (snoc ys l)
    with r ring_ends(2) [of f g "h # ys" l] show ?thesis by simp
  qed (use r in \<open>simp add: ring_single\<close>)
  ultimately show ?thesis by simp
qed

lemma ring_live:
  assumes "ring f g xs" and "a \<in> set xs"
  shows "f a \<noteq> None" and "g a \<noteq> None"
proof -
  from assms(2) obtain ys zs where "xs = ys @ a # zs" by (meson split_list)
  with assms(1) ring_rotate [of f g ys "a # zs"] have "ring f g (a # zs @ ys)" by simp
  from ring_Cons [OF this] show "f a \<noteq> None" and "g a \<noteq> None" by auto
qed

lemma ring_next_eq_self: "ring f g (h # xs) \<Longrightarrow> f h = Some h \<longleftrightarrow> xs = []"
  using ring_Cons [of f g h xs] ring_distinct [of f g "h # xs"] by (cases xs) auto

lemma ring_cong:
  "ring f g xs \<Longrightarrow> (\<And>x. x \<in> set xs \<Longrightarrow> f' x = f x) \<Longrightarrow> (\<And>x. x \<in> set xs \<Longrightarrow> g' x = g x) \<Longrightarrow> ring f' g' xs"
proof (cases xs rule: rev_cases)
  case (snoc ys l)
  assume r: "ring f g xs" and f: "\<And>x. x \<in> set xs \<Longrightarrow> f' x = f x" and g: "\<And>x. x \<in> set xs \<Longrightarrow> g' x = g x"
  have "links f' g' (ys @ [l]) = links f g (ys @ [l])"
    using f g snoc by (intro links_cong) (auto dest: in_set_tlD in_set_butlastD)
  moreover have "hd (ys @ [l]) \<in> set xs" using snoc by (cases ys) auto
  ultimately show ?thesis
    using r f [of l] g [of "hd (ys @ [l])"] snoc by (auto simp: ring_snoc)
qed simp

text \<open>Four writes put a new node between the last node of a ring and the first.\<close>

lemma ring_insert:
  assumes "ring f g (xs @ [l])" and "n \<notin> set (xs @ [l])" and "h = hd (xs @ [l])"
    and f: "\<And>x. f' x = (if x = n then Some h else if x = l then Some n else f x)"
    and g: "\<And>x. g' x = (if x = n then Some l else if x = h then Some n else g x)"
  shows "ring f' g' (xs @ [l, n])"
proof -
  from assms(1) have r: "distinct (xs @ [l])" "links f g (xs @ [l])" by (auto simp: ring_snoc)
  have h: "h \<notin> set (tl (xs @ [l]))" using r(1) assms(3) by (cases xs) auto
  have "links f' g' (xs @ [l]) = links f g (xs @ [l])"
    using r(1) assms(2) h by (intro links_cong) (auto simp: f g dest: in_set_tlD)
  then have "links f' g' ((xs @ [l]) @ [n])"
    using r(2) assms(2) links_append [of f' g' xs l "[n]"] by (auto simp: f g)
  moreover have "h \<noteq> n" using assms(2,3) by (cases xs) auto
  ultimately show ?thesis
    using r(1) assms(2,3) ring_snoc [of f' g' "xs @ [l]" n] by (cases xs) (auto simp: f g)
qed

text \<open>Two writes take the last node out of a ring.\<close>

lemma ring_remove:
  assumes "ring f g (xs @ [l, n])" and "h = hd (xs @ [l])"
    and f: "\<And>x. x \<in> set (xs @ [l]) \<Longrightarrow> f' x = (if x = l then Some h else f x)"
    and g: "\<And>x. x \<in> set (xs @ [l]) \<Longrightarrow> g' x = (if x = h then Some l else g x)"
  shows "ring f' g' (xs @ [l])"
proof -
  from assms(1) ring_snoc [of f g "xs @ [l]" n] have r: "distinct (xs @ [l, n])" "links f g (xs @ [l])"
    using links_append [of f g xs l "[n]"] by auto
  have h: "h \<notin> set (tl (xs @ [l]))" using r(1) assms(2) by (cases xs) auto
  have "links f' g' (xs @ [l]) = links f g (xs @ [l])"
  proof (rule links_cong)
    fix x
    assume "x \<in> set (butlast (xs @ [l]))"
    then show "f' x = f x" using f [of x] r(1) by auto
  next
    fix x
    assume x: "x \<in> set (tl (xs @ [l]))"
    then have "x \<in> set (xs @ [l])" by (cases xs) auto
    with x h g show "g' x = g x" by auto
  qed
  moreover have "h \<in> set (xs @ [l])" using assms(2) by (cases xs) auto
  ultimately show ?thesis using r f [of l] g [of h] assms(2) by (auto simp: ring_snoc)
qed

text \<open>Joining two rings: four writes splice the nodes of one after the head of the other.\<close>

lemma ring_splice:
  assumes "ring f g (k # as)" and "ring f g (h # bs)" and "as \<noteq> []"
    and "set (k # as) \<inter> set (h # bs) = {}"
    and f: "\<And>x. x \<in> set (as @ h # bs) \<Longrightarrow>
        f' x = (if x = h then Some (hd as) else if x = last as then f h else f x)"
    and g: "\<And>x. x \<in> set (as @ h # bs) \<Longrightarrow>
        g' x = (if Some x = f h then Some (last as) else if x = hd as then Some h else g x)"
  shows "ring f' g' (h # as @ bs)"
proof -
  let ?n = "hd (bs @ [h])"
  from ring_Cons [OF assms(2)] have fh: "f h = Some ?n" by simp
  have d: "distinct (h # as @ bs)" using assms(1,2,4) by (auto simp: ring_def)
  have "links f g (k # as @ [k])" using assms(1) by (simp add: ring_def)
  then have as: "links f g as"
    using assms(3) by (cases as rule: rev_cases)
      (auto simp: links_Cons links_append [of f g _ _ "[k]"] links_append [of f g _ _ "[_, k]"])
  have hs: "links f g (bs @ [h])" using assms(2) by (simp add: ring_def links_Cons)
  have as': "links f' g' as = links f g as"
  proof (rule links_cong)
    fix x
    assume x: "x \<in> set (butlast as)"
    then have m: "x \<in> set as" by (rule in_set_butlastD)
    have "x \<noteq> last as" using x d assms(3) by (cases as rule: rev_cases) auto
    moreover have "x \<noteq> h" using m d by auto
    ultimately show "f' x = f x" using f [of x] m by simp
  next
    fix x
    assume x: "x \<in> set (tl as)"
    then have m: "x \<in> set as" by (cases as) auto
    have "x \<noteq> hd as" using x d assms(3) by (cases as) auto
    moreover have "Some x \<noteq> f h" using m d fh by (cases bs) auto
    ultimately show "g' x = g x" using g [of x] m by simp
  qed
  have hs': "links f' g' (bs @ [h]) = links f g (bs @ [h])"
  proof (rule links_cong)
    fix x
    assume x: "x \<in> set (butlast (bs @ [h]))"
    then have m: "x \<in> set bs" by simp
    then have "x \<noteq> h" "x \<noteq> last as" using d last_in_set [OF assms(3)] by auto
    then show "f' x = f x" using f [of x] m by simp
  next
    fix x
    assume x: "x \<in> set (tl (bs @ [h]))"
    then have m: "x \<in> set (h # bs)" by (cases bs) auto
    have "x \<noteq> ?n" using x d by (cases bs) auto
    moreover have "x \<noteq> hd as" using m d hd_in_set [OF assms(3)] by auto
    ultimately show "g' x = g x" using g [of x] m fh by auto
  qed
  obtain a as1 where a: "as = a # as1" using assms(3) by (cases as) auto
  obtain as2 z where z: "as = as2 @ [z]" using assms(3) by (cases as rule: rev_cases) auto
  have "f' h = Some a" using f [of h] a by simp
  moreover have "g' a = Some h"
  proof -
    have "Some a \<noteq> f h" using fh d a by (cases bs) auto
    then show ?thesis using g [of a] a by simp
  qed
  moreover have "f' z = Some ?n"
  proof -
    have "z \<noteq> h" using d z by auto
    then show ?thesis using f [of z] z fh by simp
  qed
  moreover have "g' ?n = Some z"
  proof -
    have "?n \<in> set (as @ h # bs)" by (cases bs) auto
    then show ?thesis using g [of ?n] fh z by simp
  qed
  moreover have "links f' g' (h # as @ bs @ [h]) \<longleftrightarrow>
      f' h = Some a \<and> g' a = Some h \<and> links f' g' as \<and> f' z = Some ?n \<and> g' ?n = Some z \<and> links f' g' (bs @ [h])"
  proof -
    have "links f' g' (as @ bs @ [h]) \<longleftrightarrow> links f' g' (as2 @ [z]) \<and> links f' g' (z # bs @ [h])"
      using links_append [of f' g' as2 z "bs @ [h]"] by (simp add: z)
    then show ?thesis by (auto simp: links_Cons a [symmetric] z [symmetric]) (auto simp: a)
  qed
  ultimately show ?thesis using as as' hs hs' d by (simp add: ring_def)
qed

end
