(* ===== verification/LinkedQueue.thy ===== *)
theory LinkedQueue
  imports QueueSpec NodeRings
begin

section \<open>The linked queue (\<open>src/queue/list/lqueue.c\<close>)\<close>

text \<open>
  A queue whose nodes form a doubly linked ring. The memory of the model has two heaps: the
  nodes, and the payload blocks that the \<open>_ext\<close> functions allocate. The code keeps
  pointers to the \<open>list_node_t\<close> inside a node and finds the node with
  \<open>lqueue_container_of\<close>, which subtracts a constant; the model names both by the address
  of the node. A null \<open>pqueue\<close>, \<open>pbuf\<close> or \<open>plen\<close> is \<^term>\<open>None\<close>.
  Reading or writing a node that is not in the heap (never allocated, or freed) has no result.
\<close>

type_synonym payload = "8 word list"

record lq_data =
  lq_pqdata :: ptr
  lq_len :: int
  lq_next :: ptr
  lq_prev :: ptr

record lqueue =
  lq_count :: int
  lq_size :: int
  lq_phead :: ptr

record lq_mem =
  lq_nodes :: "lq_data heap"
  lq_blocks :: "payload heap"

subsection \<open>Operations\<close>

definition lqueue_init :: "lqueue option \<Rightarrow> int \<Rightarrow> int \<times> lqueue option" where
  "lqueue_init pq n = (case pq of None \<Rightarrow> (-11, None)
     | Some q \<Rightarrow> (0, Some (q\<lparr>lq_count := 0, lq_size := n, lq_phead := None\<rparr>)))"

definition lqueue_data_destroy_ext :: "ptr \<Rightarrow> payload heap \<Rightarrow> payload heap option" where
  "lqueue_data_destroy_ext pbuf m = (if pbuf \<noteq> None then c_free m pbuf else Some m)"

definition set_next :: "lq_data heap \<Rightarrow> addr \<Rightarrow> ptr \<Rightarrow> lq_data heap option" where
  "set_next h a p = do { n \<leftarrow> h a; Some (h(a \<mapsto> n\<lparr>lq_next := p\<rparr>)) }"

definition set_prev :: "lq_data heap \<Rightarrow> addr \<Rightarrow> ptr \<Rightarrow> lq_data heap option" where
  "set_prev h a p = do { n \<leftarrow> h a; Some (h(a \<mapsto> n\<lparr>lq_prev := p\<rparr>)) }"

definition lq_full :: "lqueue \<Rightarrow> bool" where
  "lq_full q \<longleftrightarrow> lq_size q > 0 \<and> lq_count q \<ge> lq_size q"

text \<open>
  The part that the four enqueue functions share: link the fresh node \<open>a\<close> in front of the
  head. With \<open>front\<close> the node becomes the head, otherwise it is the last node of the ring.
\<close>

definition lq_link :: "bool \<Rightarrow> lq_data heap \<Rightarrow> lqueue \<Rightarrow> addr \<Rightarrow> (lq_data heap \<times> lqueue) option" where
  "lq_link front h q a =
     (if lq_phead q = None
      then do {
        h \<leftarrow> set_next h a (Some a);
        h \<leftarrow> set_prev h a (Some a);
        c \<leftarrow> i32 (lq_count q + 1);
        Some (h, q\<lparr>lq_phead := Some a, lq_count := c\<rparr>) }
      else do {
        ph \<leftarrow> lq_phead q;
        h \<leftarrow> set_next h a (Some ph);
        hd \<leftarrow> h ph;
        l \<leftarrow> lq_prev hd;
        h \<leftarrow> set_next h l (Some a);
        hd \<leftarrow> h ph;
        h \<leftarrow> set_prev h a (lq_prev hd);
        h \<leftarrow> set_prev h ph (Some a);
        c \<leftarrow> i32 (lq_count q + 1);
        Some (h, (if front then q\<lparr>lq_phead := Some a\<rparr> else q)\<lparr>lq_count := c\<rparr>) })"

text \<open>
  \<open>lqueue_enqueue_front\<close> and \<open>lqueue_enqueue_back\<close> store the caller's pointer.
  \<open>p\<close> is what \<open>malloc\<close> returned for the node; its fields but the two that are set
  hold rubbish, here null pointers.
\<close>

definition lq_enqueue ::
    "bool \<Rightarrow> lq_mem \<Rightarrow> lqueue option \<Rightarrow> ptr \<Rightarrow> int \<Rightarrow> ptr \<Rightarrow> (int \<times> lq_mem \<times> lqueue option) option" where
  "lq_enqueue front m pq pbuf len p =
     (case pq of None \<Rightarrow> Some (-11, m, pq)
      | Some q \<Rightarrow>
        (if pbuf = None then Some (-11, m, pq)
         else if lq_full q then Some (-1, m, pq)
         else (case p of None \<Rightarrow> Some (-10, m, pq)
           | Some a \<Rightarrow> do {
               let h = (lq_nodes m)(a \<mapsto> \<lparr>lq_pqdata = pbuf, lq_len = len, lq_next = None, lq_prev = None\<rparr>);
               (h, q) \<leftarrow> lq_link front h q a;
               Some (0, m\<lparr>lq_nodes := h\<rparr>, Some q) })))"

definition lqueue_enqueue_front where "lqueue_enqueue_front = lq_enqueue True"
definition lqueue_enqueue_back where "lqueue_enqueue_back = lq_enqueue False"

text \<open>
  The \<open>_ext\<close> functions copy \<open>len\<close> bytes of the caller's block into one of their own;
  \<open>p\<close> and \<open>pd\<close> are the results of the two \<open>malloc\<close> calls. A node without a block is
  freed again.
\<close>

definition lq_enqueue_ext ::
    "bool \<Rightarrow> lq_mem \<Rightarrow> lqueue option \<Rightarrow> ptr \<Rightarrow> int \<Rightarrow> ptr \<Rightarrow> ptr \<Rightarrow> (int \<times> lq_mem \<times> lqueue option) option" where
  "lq_enqueue_ext front m pq pbuf len p pd =
     (case pq of None \<Rightarrow> Some (-11, m, pq)
      | Some q \<Rightarrow>
        (if pbuf = None then Some (-11, m, pq)
         else if lq_full q then Some (-1, m, pq)
         else (case p of None \<Rightarrow> Some (-10, m, pq)
           | Some a \<Rightarrow> do {
               let h = (lq_nodes m)(a \<mapsto> \<lparr>lq_pqdata = pd, lq_len = 0, lq_next = None, lq_prev = None\<rparr>);
               case pd of None \<Rightarrow> do { h \<leftarrow> c_free h (Some a); Some (-10, m\<lparr>lq_nodes := h\<rparr>, pq) }
               | Some d \<Rightarrow> do {
                   b \<leftarrow> pbuf;
                   src \<leftarrow> lq_blocks m b;
                   dst \<leftarrow> (if 0 \<le> len \<and> nat len \<le> length src then Some (take (nat len) src) else None);
                   n \<leftarrow> h a;
                   let h = h(a \<mapsto> n\<lparr>lq_len := len\<rparr>);
                   (h, q) \<leftarrow> lq_link front h q a;
                   Some (0, m\<lparr>lq_nodes := h, lq_blocks := (lq_blocks m)(d \<mapsto> dst)\<rparr>, Some q) } })))"

definition lqueue_enqueue_front_ext where "lqueue_enqueue_front_ext = lq_enqueue_ext True"
definition lqueue_enqueue_back_ext where "lqueue_enqueue_back_ext = lq_enqueue_ext False"

text \<open>
  The dequeue functions. \<open>pbuf\<close> and \<open>plen\<close> are the pointers to the caller's variables,
  with their present values; the last two components of the result are their new values.
  \<open>lqueue_dequeue_front\<close> assigns the payload to its own parameter \<open>pbuf\<close>, so that the
  caller's variable keeps its value, and it leaves \<open>phead\<close> as it is unless the queue had
  one node.
\<close>

definition lqueue_dequeue_front :: "lq_mem \<Rightarrow> lqueue option \<Rightarrow> ptr option \<Rightarrow> int option
    \<Rightarrow> (int \<times> lq_mem \<times> lqueue option \<times> ptr option \<times> int option) option" where
  "lqueue_dequeue_front m pq pbuf plen =
     (case pq of None \<Rightarrow> Some (-11, m, pq, pbuf, plen)
      | Some q \<Rightarrow>
        (if pbuf = None \<or> plen = None then Some (-11, m, pq, pbuf, plen)
         else (case lq_phead q of None \<Rightarrow> Some (-1, m, pq, pbuf, plen)
           | Some ph \<Rightarrow> do {
               hd \<leftarrow> lq_nodes m ph;
               (h, q) \<leftarrow>
                 (if lq_next hd = Some ph
                  then Some (lq_nodes m, q\<lparr>lq_phead := None\<rparr>)
                  else do {
                    l \<leftarrow> lq_prev hd;
                    h \<leftarrow> set_next (lq_nodes m) l (lq_next hd);
                    hd \<leftarrow> h ph;
                    s \<leftarrow> lq_next hd;
                    h \<leftarrow> set_prev h s (lq_prev hd);
                    Some (h, q) });
               n \<leftarrow> h ph;
               h \<leftarrow> c_free h (Some ph);
               c \<leftarrow> i32 (lq_count q - 1);
               Some (0, m\<lparr>lq_nodes := h\<rparr>, Some (q\<lparr>lq_count := c\<rparr>), pbuf, Some (lq_len n)) })))"

definition lqueue_dequeue_back :: "lq_mem \<Rightarrow> lqueue option \<Rightarrow> ptr option \<Rightarrow> int option
    \<Rightarrow> (int \<times> lq_mem \<times> lqueue option \<times> ptr option \<times> int option) option" where
  "lqueue_dequeue_back m pq pbuf plen =
     (case pq of None \<Rightarrow> Some (-11, m, pq, pbuf, plen)
      | Some q \<Rightarrow>
        (if pbuf = None \<or> plen = None then Some (-11, m, pq, pbuf, plen)
         else (case lq_phead q of None \<Rightarrow> Some (-1, m, pq, pbuf, plen)
           | Some ph \<Rightarrow> do {
               hd \<leftarrow> lq_nodes m ph;
               (pp, h, q) \<leftarrow>
                 (if lq_next hd = Some ph
                  then Some (ph, lq_nodes m, q\<lparr>lq_phead := None\<rparr>)
                  else do {
                    l \<leftarrow> lq_prev hd;
                    ln \<leftarrow> lq_nodes m l;
                    k \<leftarrow> lq_prev ln;
                    h \<leftarrow> set_next (lq_nodes m) k (Some ph);
                    hd \<leftarrow> h ph;
                    l \<leftarrow> lq_prev hd;
                    ln \<leftarrow> h l;
                    h \<leftarrow> set_prev h ph (lq_prev ln);
                    Some (l, h, q) });
               n \<leftarrow> h pp;
               h \<leftarrow> c_free h (Some pp);
               c \<leftarrow> i32 (lq_count q - 1);
               Some (0, m\<lparr>lq_nodes := h\<rparr>, Some (q\<lparr>lq_count := c\<rparr>), Some (lq_pqdata n), Some (lq_len n)) })))"

text \<open>The loop of \<open>lqueue_destroy\<close>; the callback works on the payload pointer.\<close>

partial_function (option) lq_destroy_loop ::
    "(ptr \<Rightarrow> payload heap \<Rightarrow> payload heap option) option \<Rightarrow> lq_mem \<Rightarrow> lqueue \<Rightarrow> (lq_mem \<times> lqueue) option" where
  "lq_destroy_loop destroy m q =
     (case lq_phead q of None \<Rightarrow> Some (m, q)
      | Some ph \<Rightarrow> do {
          hd \<leftarrow> lq_nodes m ph;
          let q = (if lq_next hd = Some ph then q\<lparr>lq_phead := None\<rparr> else q\<lparr>lq_phead := lq_next hd\<rparr>);
          b \<leftarrow> (case destroy of None \<Rightarrow> Some (lq_blocks m) | Some f \<Rightarrow> f (lq_pqdata hd) (lq_blocks m));
          h \<leftarrow> c_free (lq_nodes m) (Some ph);
          lq_destroy_loop destroy (m\<lparr>lq_nodes := h, lq_blocks := b\<rparr>) q })"

definition lqueue_destroy ::
    "(ptr \<Rightarrow> payload heap \<Rightarrow> payload heap option) option \<Rightarrow> lq_mem \<Rightarrow> lqueue option \<Rightarrow> (lq_mem \<times> lqueue option) option" where
  "lqueue_destroy destroy m pq =
     (case pq of None \<Rightarrow> Some (m, None)
      | Some q \<Rightarrow> do {
          (m, q) \<leftarrow> lq_destroy_loop destroy m q;
          Some (m, Some (q\<lparr>lq_count := 0, lq_size := 0\<rparr>)) })"

definition lqueue_is_full :: "lqueue \<Rightarrow> bool" where
  "lqueue_is_full q = lq_full q"

definition lqueue_is_empty :: "lqueue \<Rightarrow> bool" where
  "lqueue_is_empty q = (lq_phead q = None)"

text \<open>
  \<open>lqueue_info\<close> walks the ring from the head and prints a row per node, until it is back
  at the head. For a null queue it prints a message only.
\<close>

partial_function (option) lq_info_loop :: "lq_data heap \<Rightarrow> ptr \<Rightarrow> addr \<Rightarrow> (int \<times> ptr) list \<Rightarrow> (int \<times> ptr) list option" where
  "lq_info_loop h ph pnode rows = do {
     n \<leftarrow> h pnode;
     let rows = rows @ [(lq_len n, lq_pqdata n)];
     if lq_next n \<noteq> ph then do { a \<leftarrow> lq_next n; lq_info_loop h ph a rows } else Some rows }"

definition lqueue_info :: "lq_mem \<Rightarrow> lqueue option \<Rightarrow> ((int \<times> int) \<times> (int \<times> ptr) list) option option" where
  "lqueue_info m pq = (case pq of None \<Rightarrow> Some None
     | Some q \<Rightarrow> (case lq_phead q of None \<Rightarrow> Some (Some ((lq_count q, lq_size q), []))
         | Some ph \<Rightarrow> do {
             rows \<leftarrow> lq_info_loop (lq_nodes m) (Some ph) ph [];
             Some (Some ((lq_count q, lq_size q), rows)) }))"

subsection \<open>The ring of a queue\<close>

definition lq_nx :: "lq_data heap \<Rightarrow> addr \<Rightarrow> addr option" where
  "lq_nx h a = Option.bind (h a) lq_next"

definition lq_pv :: "lq_data heap \<Rightarrow> addr \<Rightarrow> addr option" where
  "lq_pv h a = Option.bind (h a) lq_prev"

definition lq_val :: "lq_data heap \<Rightarrow> addr \<Rightarrow> (ptr \<times> int) option" where
  "lq_val h a = map_option (\<lambda>n. (lq_pqdata n, lq_len n)) (h a)"

text \<open>The nodes from a pointer on, following \<open>next\<close>.\<close>

fun lq_walk :: "lq_data heap \<Rightarrow> ptr \<Rightarrow> nat \<Rightarrow> addr list" where
  "lq_walk h p 0 = []"
| "lq_walk h None (Suc n) = []"
| "lq_walk h (Some a) (Suc n) = a # lq_walk h (lq_nx h a) n"

definition lq_addrs :: "lq_mem \<Rightarrow> lqueue \<Rightarrow> addr list" where
  "lq_addrs m q = lq_walk (lq_nodes m) (lq_phead q) (nat (lq_count q))"

definition lq_items :: "lq_mem \<Rightarrow> lqueue \<Rightarrow> (ptr \<times> int) list" where
  "lq_items m q = map (\<lambda>a. the (lq_val (lq_nodes m) a)) (lq_addrs m q)"

text \<open>\<open>lq_repr m q xs\<close>: the queue is the ring of the nodes \<open>xs\<close>, in this order.\<close>

definition lq_repr :: "lq_mem \<Rightarrow> lqueue \<Rightarrow> addr list \<Rightarrow> bool" where
  "lq_repr m q xs \<longleftrightarrow> ring (lq_nx (lq_nodes m)) (lq_pv (lq_nodes m)) xs
     \<and> lq_phead q = (case xs of [] \<Rightarrow> None | x # _ \<Rightarrow> Some x)
     \<and> lq_count q = int (length xs) \<and> in_i32 (lq_count q) \<and> in_i32 (lq_size q)
     \<and> (lq_size q > 0 \<longrightarrow> lq_count q \<le> lq_size q)"

lemma lq_walk_links:
  "links (lq_nx h) g (xs @ [z]) \<Longrightarrow> lq_walk h (Some (hd (xs @ [z]))) (length xs) = xs"
proof (induction xs)
  case (Cons x xs)
  then have "links (lq_nx h) g (xs @ [z])" and "lq_nx h x = Some (hd (xs @ [z]))"
    by (simp_all add: links_Cons)
  with Cons.IH show ?case by simp
qed simp

lemma lq_repr_addrs: "lq_repr m q xs \<Longrightarrow> lq_addrs m q = xs"
proof (cases xs)
  case (Cons x xs')
  assume "lq_repr m q xs"
  with Cons have "links (lq_nx (lq_nodes m)) (lq_pv (lq_nodes m)) ((x # xs') @ [x])"
    and "lq_phead q = Some x" and "lq_count q = int (length (x # xs'))"
    by (auto simp: lq_repr_def ring_def)
  moreover from this(3) have "nat (lq_count q) = Suc (length xs')" by simp
  ultimately show ?thesis using lq_walk_links Cons by (fastforce simp: lq_addrs_def)
qed (simp add: lq_repr_def lq_addrs_def)

lemma lq_repr_items: "lq_repr m q xs \<Longrightarrow> lq_items m q = map (\<lambda>a. the (lq_val (lq_nodes m) a)) xs"
  by (simp add: lq_items_def lq_repr_addrs)

lemma lq_nx_live: "lq_nx h a \<noteq> None \<Longrightarrow> h a \<noteq> None"
  by (cases "h a") (auto simp: lq_nx_def)

lemma lq_repr_live: "lq_repr m q xs \<Longrightarrow> a \<in> set xs \<Longrightarrow> lq_nodes m a \<noteq> None"
  using ring_live(1) [of "lq_nx (lq_nodes m)" "lq_pv (lq_nodes m)" xs a] lq_nx_live
  by (auto simp: lq_repr_def)

subsection \<open>Writes to a node\<close>

lemma set_next_ok:
  assumes "h a \<noteq> None"
  obtains h' where "set_next h a p = Some h'" and "lq_nx h' = (lq_nx h)(a := p)" and "lq_pv h' = lq_pv h"
    and "lq_val h' = lq_val h" and "dom h' = dom h"
proof -
  from assms obtain n where "h a = Some n" by auto
  then show ?thesis
    by (intro that [of "h(a \<mapsto> n\<lparr>lq_next := p\<rparr>)"])
      (auto simp: set_next_def lq_nx_def lq_pv_def lq_val_def)
qed

lemma set_prev_ok:
  assumes "h a \<noteq> None"
  obtains h' where "set_prev h a p = Some h'" and "lq_pv h' = (lq_pv h)(a := p)" and "lq_nx h' = lq_nx h"
    and "lq_val h' = lq_val h" and "dom h' = dom h"
proof -
  from assms obtain n where "h a = Some n" by auto
  then show ?thesis
    by (intro that [of "h(a \<mapsto> n\<lparr>lq_prev := p\<rparr>)"])
      (auto simp: set_prev_def lq_nx_def lq_pv_def lq_val_def)
qed

lemma node_at:
  assumes "h a \<noteq> None"
  obtains n where "h a = Some n" and "lq_next n = lq_nx h a" and "lq_prev n = lq_pv h a"
    and "lq_val h a = Some (lq_pqdata n, lq_len n)"
  using assms by (auto simp: lq_nx_def lq_pv_def lq_val_def)

text \<open>Linking a fresh node: the ring grows by it, at the front or at the back.\<close>

lemma lq_link_ok:
  assumes r: "ring (lq_nx h) (lq_pv h) xs" and a: "a \<notin> set xs" "h a \<noteq> None"
    and ph: "lq_phead q = (case xs of [] \<Rightarrow> None | x # _ \<Rightarrow> Some x)" and c: "in_i32 (lq_count q + 1)"
  shows "\<exists>h'. lq_link front h q a
      = Some (h', (if front \<or> xs = [] then q\<lparr>lq_phead := Some a\<rparr> else q)\<lparr>lq_count := lq_count q + 1\<rparr>)
    \<and> ring (lq_nx h') (lq_pv h') (if front then a # xs else xs @ [a])
    \<and> lq_val h' = lq_val h \<and> dom h' = dom h"
proof (cases xs rule: rev_cases)
  case Nil
  from a(2) obtain h1 where h1: "set_next h a (Some a) = Some h1" "lq_nx h1 = (lq_nx h)(a := Some a)"
    "lq_pv h1 = lq_pv h" "lq_val h1 = lq_val h" "dom h1 = dom h" by (rule set_next_ok)
  with a(2) have "h1 a \<noteq> None" by (simp add: dom_def set_eq_iff)
  then obtain h2 where h2: "set_prev h1 a (Some a) = Some h2" "lq_pv h2 = (lq_pv h1)(a := Some a)"
    "lq_nx h2 = lq_nx h1" "lq_val h2 = lq_val h1" "dom h2 = dom h1" by (rule set_prev_ok)
  show ?thesis using Nil ph c h1 h2 by (simp add: lq_link_def c_simps ring_single)
next
  case (snoc ys l)
  let ?b = "hd xs"
  have xs: "xs \<noteq> []" and b: "?b = hd (ys @ [l])" and ph': "lq_phead q = Some ?b"
    using snoc ph by (auto split: list.splits)
  have m: "?b \<in> set xs" "l \<in> set xs" and ne: "?b \<noteq> a" "l \<noteq> a"
    using hd_in_set [OF xs] xs a(1) snoc by auto
  have e: "lq_nx h l = Some ?b" "lq_pv h ?b = Some l" using ring_ends r unfolding snoc b by blast+
  have live: "h x \<noteq> None" if "x \<in> set xs" for x
    using ring_live(1) [OF r that] by (rule lq_nx_live)
  from a(2) obtain h1 where h1: "set_next h a (Some ?b) = Some h1" "lq_nx h1 = (lq_nx h)(a := Some ?b)"
    "lq_pv h1 = lq_pv h" "lq_val h1 = lq_val h" "dom h1 = dom h" by (rule set_next_ok)
  with live m have "h1 l \<noteq> None" "h1 ?b \<noteq> None" by (auto simp: dom_def set_eq_iff)
  from \<open>h1 l \<noteq> None\<close> obtain h2 where h2: "set_next h1 l (Some a) = Some h2" "lq_nx h2 = (lq_nx h1)(l := Some a)"
    "lq_pv h2 = lq_pv h1" "lq_val h2 = lq_val h1" "dom h2 = dom h1" by (rule set_next_ok)
  with h1 live m a(2) have n2: "h2 a \<noteq> None" "h2 ?b \<noteq> None" by (auto simp: dom_def set_eq_iff)
  from n2(1) obtain h3 where h3: "set_prev h2 a (Some l) = Some h3" "lq_pv h3 = (lq_pv h2)(a := Some l)"
    "lq_nx h3 = lq_nx h2" "lq_val h3 = lq_val h2" "dom h3 = dom h2" by (rule set_prev_ok)
  with n2 have "h3 ?b \<noteq> None" by (auto simp: dom_def set_eq_iff)
  then obtain h4 where h4: "set_prev h3 ?b (Some a) = Some h4" "lq_pv h4 = (lq_pv h3)(?b := Some a)"
    "lq_nx h4 = lq_nx h3" "lq_val h4 = lq_val h3" "dom h4 = dom h3" by (rule set_prev_ok)
  have link: "lq_link front h q a
      = Some (h4, (if front then q\<lparr>lq_phead := Some a\<rparr> else q)\<lparr>lq_count := lq_count q + 1\<rparr>)"
  proof -
    obtain m1 where "h1 ?b = Some m1" "lq_prev m1 = Some l"
      using \<open>h1 ?b \<noteq> None\<close> by (rule node_at) (use h1 e in simp)
    moreover obtain m2 where "h2 ?b = Some m2" "lq_prev m2 = Some l"
      using n2(2) by (rule node_at) (use h1 h2 e in simp)
    ultimately show ?thesis using c h1 h2 h3 h4 by (simp add: lq_link_def ph' c_simps)
  qed
  have "ring (lq_nx h4) (lq_pv h4) (ys @ [l, a])"
    by (rule ring_insert [OF r [unfolded snoc] a(1) [unfolded snoc] b])
      (use ne h1 h2 h3 h4 in auto)
  then have "ring (lq_nx h4) (lq_pv h4) (xs @ [a])" by (simp add: snoc)
  moreover from this ring_rotate1 have "ring (lq_nx h4) (lq_pv h4) (a # xs)" by metis
  ultimately show ?thesis using link xs h1 h2 h3 h4 by simp
qed

subsection \<open>Enqueue and dequeue keep the ring\<close>

lemma lq_val_upd [simp]:
  "lq_val (h(a \<mapsto> n)) = (lq_val h)(a \<mapsto> (lq_pqdata n, lq_len n))"
  "lq_val (h(a := None)) = (lq_val h)(a := None)"
  by (auto simp: lq_val_def)

lemma lq_nx_upd_other [simp]: "x \<noteq> a \<Longrightarrow> lq_nx (h(a := v)) x = lq_nx h x"
  by (simp add: lq_nx_def)

lemma lq_pv_upd_other [simp]: "x \<noteq> a \<Longrightarrow> lq_pv (h(a := v)) x = lq_pv h x"
  by (simp add: lq_pv_def)

lemma ring_upd_other:
  "ring (lq_nx h) (lq_pv h) xs \<Longrightarrow> a \<notin> set xs \<Longrightarrow> ring (lq_nx (h(a := v))) (lq_pv (h(a := v))) xs"
  by (erule ring_cong) (auto intro!: lq_nx_upd_other lq_pv_upd_other)

lemma lq_fresh: "lq_repr m q xs \<Longrightarrow> lq_nodes m a = None \<Longrightarrow> a \<notin> set xs"
  using lq_repr_live by metis

text \<open>A node that the heap holds and the ring does not, linked in.\<close>

lemma lq_link_repr:
  assumes r: "lq_repr m q xs" and a: "lq_nodes m a = None" and full: "\<not> lq_full q"
    and c: "lq_size q \<le> 0 \<longrightarrow> in_i32 (lq_count q + 1)"
  shows "\<exists>h q'. lq_link front ((lq_nodes m)(a \<mapsto> n)) q a = Some (h, q')
    \<and> lq_repr (m\<lparr>lq_nodes := h, lq_blocks := b\<rparr>) q' (if front then a # xs else xs @ [a])
    \<and> lq_val h = (lq_val (lq_nodes m))(a \<mapsto> (lq_pqdata n, lq_len n))
    \<and> dom h = insert a (dom (lq_nodes m)) \<and> lq_size q' = lq_size q"
proof -
  let ?h = "(lq_nodes m)(a \<mapsto> n)"
  have x: "a \<notin> set xs" using r a by (rule lq_fresh)
  have ring: "ring (lq_nx ?h) (lq_pv ?h) xs" using r x by (auto simp: lq_repr_def intro: ring_upd_other)
  have c': "in_i32 (lq_count q + 1)" using r c full by (auto simp: lq_repr_def lq_full_def in_i32_def)
  have ph: "lq_phead q = (case xs of [] \<Rightarrow> None | x # _ \<Rightarrow> Some x)" using r by (simp add: lq_repr_def)
  from lq_link_ok [OF ring x _ ph c', of front] obtain h' where h':
    "lq_link front ?h q a
      = Some (h', (if front \<or> xs = [] then q\<lparr>lq_phead := Some a\<rparr> else q)\<lparr>lq_count := lq_count q + 1\<rparr>)"
    "ring (lq_nx h') (lq_pv h') (if front then a # xs else xs @ [a])" "lq_val h' = lq_val ?h" "dom h' = dom ?h"
    by auto
  then show ?thesis
    using r c' full by (cases xs) (auto simp: lq_repr_def lq_full_def)
qed

lemma lq_enqueue_ok:
  assumes r: "lq_repr m q xs" and a: "lq_nodes m a = None" and full: "\<not> lq_full q"
    and c: "lq_size q \<le> 0 \<longrightarrow> in_i32 (lq_count q + 1)" and "pbuf \<noteq> None"
  shows "\<exists>m' q'. lq_enqueue front m (Some q) pbuf len (Some a) = Some (0, m', Some q')
    \<and> lq_repr m' q' (if front then a # xs else xs @ [a]) \<and> lq_blocks m' = lq_blocks m
    \<and> lq_val (lq_nodes m') = (lq_val (lq_nodes m))(a \<mapsto> (pbuf, len)) \<and> lq_size q' = lq_size q"
  using lq_link_repr [OF r a full c, where front = front and b = "lq_blocks m"
      and n = "\<lparr>lq_pqdata = pbuf, lq_len = len, lq_next = None, lq_prev = None\<rparr>"] assms(5) full
  by (auto simp: lq_enqueue_def)

lemma lq_enqueue_full: "lq_full q \<Longrightarrow> pbuf \<noteq> None \<Longrightarrow> lq_enqueue front m (Some q) pbuf len p = Some (-1, m, Some q)"
  by (simp add: lq_enqueue_def)

lemma lqueue_dequeue_back_ok:
  assumes r: "lq_repr m q (xs @ [l])"
  shows "\<exists>m' q' v. lqueue_dequeue_back m (Some q) (Some p0) (Some n0)
        = Some (0, m', Some q', Some (fst v), Some (snd v))
    \<and> lq_repr m' q' xs \<and> lq_val (lq_nodes m) l = Some v
    \<and> lq_val (lq_nodes m') = (lq_val (lq_nodes m))(l := None) \<and> lq_blocks m' = lq_blocks m
    \<and> lq_size q' = lq_size q"
proof -
  let ?h = "lq_nodes m"
  let ?b = "hd (xs @ [l])"
  have ring: "ring (lq_nx ?h) (lq_pv ?h) (xs @ [l])" and ph: "lq_phead q = Some ?b"
    and cnt: "lq_count q = int (length xs) + 1" and i: "in_i32 (lq_count q - 1)"
    using r by (auto simp: lq_repr_def in_i32_def split: list.splits)
  have live: "?h x \<noteq> None" if "x \<in> set (xs @ [l])" for x
    using ring_live(1) [OF ring that] by (rule lq_nx_live)
  have e: "lq_nx ?h l = Some ?b" "lq_pv ?h ?b = Some l" using ring_ends [OF ring] by blast+
  show ?thesis
  proof (cases xs rule: rev_cases)
    case Nil
    have "?h l \<noteq> None" using live [of l] by simp
    then obtain n where "?h l = Some n" "lq_next n = lq_nx ?h l" "lq_prev n = lq_pv ?h l"
      "lq_val ?h l = Some (lq_pqdata n, lq_len n)" by (rule node_at)
    then show ?thesis
      using r Nil e ph i by (simp add: lqueue_dequeue_back_def c_simps lq_repr_def in_i32_def)
  next
    case (snoc ys k)
    have d: "distinct (ys @ [k, l])" and b: "?b = hd (ys @ [k])" and bs: "?b \<in> set (ys @ [k])"
      using ring_distinct [OF ring] snoc by (cases ys; auto)+
    have bl: "?b \<noteq> l" "k \<noteq> l" using d bs by auto
    have lk: "lq_pv ?h l = Some k" and nb: "lq_nx ?h ?b \<noteq> Some ?b"
    proof -
      from ring_rotate [of "lq_nx ?h" "lq_pv ?h" xs "[l]"] ring have "ring (lq_nx ?h) (lq_pv ?h) (l # xs)" by simp
      from ring_Cons [OF this] show "lq_pv ?h l = Some k" by (simp add: snoc)
      obtain zs where zs: "xs @ [l] = ?b # zs" "zs \<noteq> []" using snoc by (cases ys) auto
      from ring_next_eq_self [of "lq_nx ?h" "lq_pv ?h" ?b zs] ring zs show "lq_nx ?h ?b \<noteq> Some ?b" by simp
    qed
    have live': "?h k \<noteq> None" "?h l \<noteq> None" "?h ?b \<noteq> None" using live bs snoc by auto
    from live'(1) obtain h1 where h1: "set_next ?h k (Some ?b) = Some h1" "lq_nx h1 = (lq_nx ?h)(k := Some ?b)"
      "lq_pv h1 = lq_pv ?h" "lq_val h1 = lq_val ?h" "dom h1 = dom ?h" by (rule set_next_ok)
    with live' have n1: "h1 ?b \<noteq> None" "h1 l \<noteq> None" by (auto simp: dom_def set_eq_iff)
    from n1(1) obtain h2 where h2: "set_prev h1 ?b (Some k) = Some h2" "lq_pv h2 = (lq_pv h1)(?b := Some k)"
      "lq_nx h2 = lq_nx h1" "lq_val h2 = lq_val h1" "dom h2 = dom h1" by (rule set_prev_ok)
    with n1 h1 have n2: "h2 l \<noteq> None" by (auto simp: dom_def set_eq_iff)
    obtain nb0 where nb0: "?h ?b = Some nb0" "lq_next nb0 = lq_nx ?h ?b" "lq_prev nb0 = Some l"
      using live'(3) by (rule node_at) (use e in simp)
    obtain nl0 where nl0: "?h l = Some nl0" "lq_prev nl0 = Some k" using live'(2) by (rule node_at) (use lk in simp)
    obtain nb1 where nb1: "h1 ?b = Some nb1" "lq_prev nb1 = Some l" using n1(1) by (rule node_at) (use e h1 in simp)
    obtain nl1 where nl1: "h1 l = Some nl1" "lq_prev nl1 = Some k" using n1(2) by (rule node_at) (use lk h1 in simp)
    obtain nl2 where nl2: "h2 l = Some nl2" "lq_val ?h l = Some (lq_pqdata nl2, lq_len nl2)"
      using n2 by (rule node_at) (use h1 h2 in simp)
    let ?h' = "h2(l := None)"
    have run: "lqueue_dequeue_back m (Some q) (Some p0) (Some n0)
      = Some (0, m\<lparr>lq_nodes := ?h'\<rparr>, Some (q\<lparr>lq_count := lq_count q - 1\<rparr>), Some (lq_pqdata nl2), Some (lq_len nl2))"
      using ph i nb nb0 nl0 nb1 nl1 nl2 h1(1) h2(1) by (simp add: lqueue_dequeue_back_def c_simps)
    have "ring (lq_nx ?h') (lq_pv ?h') (ys @ [k])"
    proof (rule ring_remove [OF ring [unfolded snoc append_assoc append.simps] b])
      fix x
      assume "x \<in> set (ys @ [k])"
      then have "x \<noteq> l" using d by auto
      then show "lq_nx ?h' x = (if x = k then Some ?b else lq_nx ?h x)"
        and "lq_pv ?h' x = (if x = ?b then Some k else lq_pv ?h x)"
        using h1 h2 by simp_all
    qed
    then have "ring (lq_nx ?h') (lq_pv ?h') xs" by (simp add: snoc)
    moreover obtain z zs where "xs = z # zs" using snoc by (meson neq_Nil_conv snoc_eq_iff_butlast)
    ultimately have "lq_repr (m\<lparr>lq_nodes := ?h'\<rparr>) (q\<lparr>lq_count := lq_count q - 1\<rparr>) xs"
      using r i by (auto simp: lq_repr_def)
    with run nl2 h1 h2 show ?thesis by auto
  qed
qed

subsection \<open>The queue as a first-in first-out list\<close>

text \<open>
  \<open>lqueue_enqueue_front\<close> with \<open>lqueue_dequeue_back\<close> is the first-in first-out pair of
  the library: an item enters at the head and leaves at the end of the ring.
\<close>

type_synonym lq_state = "lq_mem \<times> lqueue"

definition lqf_enq :: "lq_state \<Rightarrow> ptr \<times> int \<times> ptr \<Rightarrow> (int \<times> lq_state) option" where
  "lqf_enq s i = do {
     (r, m, pq) \<leftarrow> lqueue_enqueue_front (fst s) (Some (snd s)) (fst i) (fst (snd i)) (snd (snd i));
     q \<leftarrow> pq;
     Some (r, (m, q)) }"

definition lqf_deq :: "lq_state \<Rightarrow> (int \<times> lq_state \<times> (ptr \<times> int) option) option" where
  "lqf_deq s = do {
     (r, m, pq, pb, pl) \<leftarrow> lqueue_dequeue_back (fst s) (Some (snd s)) (Some None) (Some 0);
     q \<leftarrow> pq;
     b \<leftarrow> pb;
     l \<leftarrow> pl;
     Some (r, (m, q), if r = 0 then Some (b, l) else None) }"

definition lqf_inv :: "lq_state \<Rightarrow> bool" where
  "lqf_inv s \<longleftrightarrow> lq_repr (fst s) (snd s) (lq_addrs (fst s) (snd s))"

definition lqf_contents :: "lq_state \<Rightarrow> (ptr \<times> int) list" where
  "lqf_contents s = rev (lq_items (fst s) (snd s))"

definition lqf_cap :: "lq_state \<Rightarrow> nat option" where
  "lqf_cap s = (if lq_size (snd s) > 0 then Some (nat (lq_size (snd s))) else None)"

text \<open>What an enqueue needs: a payload, a fresh node, and a count that does not overflow.\<close>

definition lqf_adm :: "lq_state \<Rightarrow> ptr \<times> int \<times> ptr \<Rightarrow> bool" where
  "lqf_adm s i \<longleftrightarrow> fst i \<noteq> None \<and> (case snd (snd i) of None \<Rightarrow> False | Some a \<Rightarrow> lq_nodes (fst s) a = None)
     \<and> (lq_size (snd s) \<le> 0 \<longrightarrow> in_i32 (lq_count (snd s) + 1))"

lemma map_val_upd: "a \<notin> set xs \<Longrightarrow> map (\<lambda>x. the ((f(a := v)) x)) xs = map (\<lambda>x. the (f x)) xs"
  by (auto intro!: map_cong)

lemma lqf_room_iff: "lqf_inv s \<Longrightarrow> has_room (lqf_cap s) (lqf_contents s) \<longleftrightarrow> \<not> lq_full (snd s)"
  by (auto simp: lqf_inv_def lq_repr_def has_room_def lqf_cap_def lqf_contents_def lq_items_def lq_full_def)

interpretation lqf: fifo lqf_inv lqf_contents lqf_cap lqf_enq lqf_deq "\<lambda>i. (fst i, fst (snd i))" lqf_adm
proof
  fix s :: lq_state and i :: "ptr \<times> int \<times> ptr"
  assume inv: "lqf_inv s" and adm: "lqf_adm s i"
  obtain m q where s: "s = (m, q)" by (cases s)
  obtain pbuf len p where i: "i = (pbuf, len, p)" by (cases i)
  let ?xs = "lq_addrs m q"
  have r: "lq_repr m q ?xs" using inv s by (simp add: lqf_inv_def)
  show "\<exists>q'. lqf_enq s i = Some (0, q') \<and> lqf_inv q' \<and> lqf_contents q' = lqf_contents s @ [(fst i, fst (snd i))]
      \<and> lqf_cap q' = lqf_cap s" if "has_room (lqf_cap s) (lqf_contents s)"
  proof -
    from adm i s obtain a where a: "p = Some a" "lq_nodes m a = None" and pb: "pbuf \<noteq> None"
      and c: "lq_size q \<le> 0 \<longrightarrow> in_i32 (lq_count q + 1)" by (auto simp: lqf_adm_def split: option.splits)
    from that lqf_room_iff [OF inv] s have full: "\<not> lq_full q" by simp
    have x: "a \<notin> set ?xs" using r a(2) by (rule lq_fresh)
    from lq_enqueue_ok [OF r a(2) full c pb, of True len] obtain m' q' where
      e: "lq_enqueue True m (Some q) pbuf len (Some a) = Some (0, m', Some q')" "lq_repr m' q' (a # ?xs)"
      "lq_val (lq_nodes m') = (lq_val (lq_nodes m))(a \<mapsto> (pbuf, len))" "lq_size q' = lq_size q" by auto
    have "lq_items m' q' = (pbuf, len) # lq_items m q"
      using x by (simp add: lq_repr_items [OF e(2)] lq_repr_items [OF r] e(3) map_val_upd)
    then show ?thesis
      using e s i a(1) lq_repr_addrs [OF e(2)]
      by (auto simp: lqf_enq_def lqueue_enqueue_front_def lqf_inv_def lqf_contents_def lqf_cap_def)
  qed
  show "\<exists>q'. lqf_enq s i = Some (-1, q') \<and> lqf_inv q' \<and> lqf_contents q' = lqf_contents s
      \<and> lqf_cap q' = lqf_cap s" if "\<not> has_room (lqf_cap s) (lqf_contents s)"
    using that lqf_room_iff [OF inv] lq_enqueue_full [of q pbuf True m len p] adm inv s i
    by (auto simp: lqf_enq_def lqueue_enqueue_front_def lqf_adm_def)
next
  fix s :: lq_state
  assume inv: "lqf_inv s"
  obtain m q where s: "s = (m, q)" by (cases s)
  let ?xs = "lq_addrs m q"
  have r: "lq_repr m q ?xs" using inv s by (simp add: lqf_inv_def)
  show "\<exists>q'. lqf_deq s = Some (0, q', Some x) \<and> lqf_inv q' \<and> lqf_contents q' = xs
      \<and> lqf_cap q' = lqf_cap s" if c: "lqf_contents s = x # xs" for x xs
  proof -
    from c s have "?xs \<noteq> []" by (auto simp: lqf_contents_def lq_items_def)
    then obtain ys l where xs: "?xs = ys @ [l]" by (metis rev_exhaust)
    have l: "l \<notin> set ys" using r xs ring_distinct by (fastforce simp: lq_repr_def)
    from r [unfolded xs] lqueue_dequeue_back_ok [of m q ys l None 0] obtain m' q' v where
      e: "lqueue_dequeue_back m (Some q) (Some None) (Some 0) = Some (0, m', Some q', Some (fst v), Some (snd v))"
      "lq_repr m' q' ys" "lq_val (lq_nodes m) l = Some v" "lq_val (lq_nodes m') = (lq_val (lq_nodes m))(l := None)"
      "lq_size q' = lq_size q" by auto
    have "lq_items m q = lq_items m' q' @ [v]"
      using l e(3) by (simp add: lq_repr_items [OF r] lq_repr_items [OF e(2)] xs e(4) map_val_upd)
    with c s have "x = v" "xs = rev (lq_items m' q')" by (auto simp: lqf_contents_def)
    then show ?thesis
      using e(1,2,5) s lq_repr_addrs [OF e(2)]
      by (auto simp: lqf_deq_def lqf_inv_def lqf_contents_def lqf_cap_def)
  qed
  show "\<exists>q'. lqf_deq s = Some (-1, q', None) \<and> lqf_inv q' \<and> lqf_contents q' = []
      \<and> lqf_cap q' = lqf_cap s" if c: "lqf_contents s = []"
  proof -
    from c s r have "lq_phead q = None" by (auto simp: lqf_contents_def lq_items_def lq_repr_def)
    then show ?thesis using c s inv by (auto simp: lqf_deq_def lqueue_dequeue_back_def)
  qed
qed

subsection \<open>Walking the ring\<close>

lemma lq_info_loop_links:
  assumes "links (lq_nx h) g (ys @ [z])" and "ys \<noteq> []" and "z \<notin> set (tl ys)"
  shows "lq_info_loop h (Some z) (hd ys) rows
    = Some (rows @ map (\<lambda>a. (snd (the (lq_val h a)), fst (the (lq_val h a)))) ys)"
  using assms
proof (induction ys arbitrary: rows)
  case (Cons y ys)
  then have ny: "lq_nx h y = Some (hd (ys @ [z]))" and l: "links (lq_nx h) g (ys @ [z])"
    by (simp_all add: links_Cons)
  then have "h y \<noteq> None" by (intro lq_nx_live) simp
  then obtain n where n: "h y = Some n" "lq_next n = Some (hd (ys @ [z]))"
    "lq_val h y = Some (lq_pqdata n, lq_len n)" by (rule node_at) (use ny in simp)
  show ?case
  proof (cases ys)
    case Nil
    with n show ?thesis by (simp add: lq_info_loop.simps)
  next
    case (Cons y' ys')
    with Cons.prems(3) have "y' \<noteq> z" "z \<notin> set (tl ys)" by (auto dest: in_set_tlD)
    with Cons.IH [OF l] Cons n show ?thesis
      by (subst lq_info_loop.simps) simp
  qed
qed simp

lemma lqueue_info_lists:
  assumes "lq_repr m q xs"
  shows "lqueue_info m (Some q) = Some (Some ((lq_count q, lq_size q), map (\<lambda>v. (snd v, fst v)) (lq_items m q)))"
proof (cases xs)
  case Nil
  with assms show ?thesis by (simp add: lqueue_info_def lq_repr_def lq_items_def lq_addrs_def)
next
  case (Cons x xs')
  with assms have "links (lq_nx (lq_nodes m)) (lq_pv (lq_nodes m)) ((x # xs') @ [x])" "x \<notin> set (tl (x # xs'))"
    and ph: "lq_phead q = Some x" by (auto simp: lq_repr_def ring_def)
  from lq_info_loop_links [OF this(1) _ this(2), of "[]"] show ?thesis
    using Cons ph by (simp add: lqueue_info_def lq_repr_items [OF assms])
qed

lemma lq_destroy_loop_dangles:
  assumes "links (lq_nx (lq_nodes m)) g (ys @ [z])" and "distinct (ys @ [z])" and "lq_nodes m z = None"
    and "lq_phead q = Some (hd (ys @ [z]))"
  shows "lq_destroy_loop destroy m q = None"
  using assms
proof (induction ys arbitrary: m q)
  case Nil
  then show ?case by (simp add: lq_destroy_loop.simps)
next
  case (Cons y ys)
  from Cons.prems(1) have ny: "lq_nx (lq_nodes m) y = Some (hd (ys @ [z]))"
    and l: "links (lq_nx (lq_nodes m)) g (ys @ [z])" by (simp_all add: links_Cons)
  then have "lq_nodes m y \<noteq> None" by (intro lq_nx_live) simp
  then obtain n where n: "lq_nodes m y = Some n" "lq_next n = Some (hd (ys @ [z]))"
    by (rule node_at) (use ny in simp)
  have y: "hd (ys @ [z]) \<noteq> y" "y \<notin> set (ys @ [z])" using Cons.prems(2) by (cases ys; auto)+
  have "lq_destroy_loop destroy (m\<lparr>lq_nodes := (lq_nodes m)(y := None), lq_blocks := b\<rparr>)
      (q\<lparr>lq_phead := Some (hd (ys @ [z]))\<rparr>) = None" for b
  proof (rule Cons.IH)
    show "links (lq_nx (lq_nodes (m\<lparr>lq_nodes := (lq_nodes m)(y := None), lq_blocks := b\<rparr>))) g (ys @ [z])"
      using l y(2) by (subst links_cong [where f' = "lq_nx (lq_nodes m)" and g' = g])
        (auto intro!: lq_nx_upd_other)
  qed (use Cons.prems y in auto)
  then show ?case
    using Cons.prems(4) n y by (subst lq_destroy_loop.simps) (auto split: option.splits bind_split)
qed

text \<open>The list that a ring of at least two nodes is, seen from its head.\<close>

lemma lq_repr_two:
  assumes "lq_repr m q (a # b # xs)"
  obtains na where "lq_nodes m a = Some na" and "lq_next na = Some b"
    and "lq_prev na = Some (last (b # xs))" and "a \<noteq> b" and "a \<notin> set (b # xs)"
    and "links (lq_nx (lq_nodes m)) (lq_pv (lq_nodes m)) (b # xs @ [a])" and "lq_phead q = Some a"
proof -
  have r: "ring (lq_nx (lq_nodes m)) (lq_pv (lq_nodes m)) (a # b # xs)" and ph: "lq_phead q = Some a"
    using assms by (simp_all add: lq_repr_def)
  have "lq_nodes m a \<noteq> None" using lq_repr_live [OF assms] by simp
  then obtain na where "lq_nodes m a = Some na" "lq_next na = lq_nx (lq_nodes m) a"
    "lq_prev na = lq_pv (lq_nodes m) a" by (rule node_at)
  with ring_Cons [OF r] r ph that show ?thesis by (auto simp: ring_def)
qed

subsection \<open>Properties\<close>

text \<open>
  C2. On a linked queue that \<open>lqueue_init\<close> set up, any sequence of
  \<open>lqueue_enqueue_front\<close> and \<open>lqueue_dequeue_back\<close> calls behaves as on a list: items
  (payload pointer and length) leave in the order they entered, a positive \<open>size\<close> bounds the
  queue and \<open>0\<close> or a negative one does not, full and empty queues answer \<open>-1\<close> without a
  change. No call touches a freed node, whatever fresh addresses \<open>malloc\<close> picks. Hypotheses: the
  size fits an \<open>int\<close>; each item that is enqueued has a payload pointer that is not null, \<open>malloc\<close>
  finds a node for it, and a queue without a bound holds fewer than \<open>INT_MAX\<close> items before it.
\<close>

theorem lqueue_runs_as_fifo:
  assumes "lqueue_init (Some q0) n = (0, Some q)" and "in_i32 n"
    and "steps_adm lqf_adm lqf_enq lqf_deq (m, q) os"
  shows "\<exists>s. run_queue lqf_enq lqf_deq (m, q) os
        = Some (fst (run_list (\<lambda>i. (fst i, fst (snd i))) (if n > 0 then Some (nat n) else None) [] os), s)
      \<and> lqf_contents s = snd (run_list (\<lambda>i. (fst i, fst (snd i))) (if n > 0 then Some (nat n) else None) [] os)
      \<and> lq_repr (fst s) (snd s) (lq_addrs (fst s) (snd s))"
proof -
  have q: "lqf_inv (m, q)" "lqf_contents (m, q) = []" "lqf_cap (m, q) = (if n > 0 then Some (nat n) else None)"
    using assms(1,2) by (auto simp: lqueue_init_def lqf_inv_def lq_repr_def lqf_contents_def lq_items_def
        lq_addrs_def lqf_cap_def in_i32_def)
  from lqf.run_refines [OF q(1) assms(3)] show ?thesis
    unfolding q(2,3) lqf_inv_def by blast
qed

theorem lqueue_runs_as_fifo_witness:
  "\<exists>q s. lqueue_init (Some \<lparr>lq_count = 5, lq_size = 5, lq_phead = Some 9\<rparr>) 2 = (0, Some q)
    \<and> run_queue lqf_enq lqf_deq (\<lparr>lq_nodes = Map.empty, lq_blocks = Map.empty\<rparr>, q)
        [Enq (Some 1, 3, Some 10), Enq (Some 2, 4, Some 11), Enq (Some 3, 5, Some 12), Deq, Deq, Deq]
      = Some ([(0, None), (0, None), (-1, None), (0, Some (Some 1, 3)), (0, Some (Some 2, 4)), (-1, None)], s)"
proof -
  let ?start = "\<lparr>lq_count = 5, lq_size = 5, lq_phead = Some 9\<rparr>"
  let ?q = "\<lparr>lq_count = 0, lq_size = 2, lq_phead = None\<rparr>"
  let ?m = "\<lparr>lq_nodes = Map.empty, lq_blocks = Map.empty\<rparr> :: lq_mem"
  let ?os = "[Enq (Some 1, 3, Some 10), Enq (Some 2, 4, Some 11), Enq (Some 3, 5, Some 12), Deq, Deq, Deq]"
  let ?f = "\<lambda>i. (fst i, fst (snd i)) :: ptr \<times> int"
  have i: "lqueue_init (Some ?start) 2 = (0, Some ?q)" by (simp add: lqueue_init_def)
  have n: "in_i32 2" by (simp add: in_i32_def)
  have adm: "steps_adm lqf_adm lqf_enq lqf_deq (?m, ?q) ?os"
    by (simp add: lqf_adm_def lqf_enq_def lqf_deq_def lqueue_enqueue_front_def lq_enqueue_def lq_link_def
        lqueue_dequeue_back_def lq_full_def set_next_def set_prev_def i32_def in_i32_def c_free_def)
  have l: "fst (run_list ?f (if 2 > (0::int) then Some (nat 2) else None) [] ?os)
      = [(0, None), (0, None), (-1, None), (0, Some (Some 1, 3)), (0, Some (Some 2, 4)), (-1, None)]"
    by (simp add: has_room_def)
  from lqueue_runs_as_fifo [OF i n adm, unfolded l] i show ?thesis by blast
qed

text \<open>
  \<open>lqueue_enqueue_back\<close> and \<open>lqueue_dequeue_back\<close> are a stack: what the second takes
  out is the item that the first has just put in, the payload pointer and the length of the
  caller, and the items of the queue are again those of before.
\<close>

theorem lqueue_back_stack:
  assumes "lq_repr m q xs" and "\<not> lq_full q" and "lq_size q \<le> 0 \<longrightarrow> in_i32 (lq_count q + 1)"
    and "lq_nodes m a = None" and "pbuf \<noteq> None"
  shows "\<exists>m1 q1 m2 q2. lqueue_enqueue_back m (Some q) pbuf len (Some a) = Some (0, m1, Some q1)
    \<and> lq_items m1 q1 = lq_items m q @ [(pbuf, len)]
    \<and> lqueue_dequeue_back m1 (Some q1) (Some p0) (Some n0) = Some (0, m2, Some q2, Some pbuf, Some len)
    \<and> lq_items m2 q2 = lq_items m q \<and> lq_repr m2 q2 xs \<and> dom (lq_val (lq_nodes m2)) = dom (lq_val (lq_nodes m))"
proof -
  have x: "a \<notin> set xs" using assms(1,4) by (rule lq_fresh)
  from lq_enqueue_ok [OF assms(1,4,2,3,5), of False len] obtain m1 q1 where
    e: "lq_enqueue False m (Some q) pbuf len (Some a) = Some (0, m1, Some q1)" "lq_repr m1 q1 (xs @ [a])"
    "lq_val (lq_nodes m1) = (lq_val (lq_nodes m))(a \<mapsto> (pbuf, len))" by auto
  from lqueue_dequeue_back_ok [OF e(2), of p0 n0] obtain m2 q2 where
    d: "lqueue_dequeue_back m1 (Some q1) (Some p0) (Some n0) = Some (0, m2, Some q2, Some pbuf, Some len)"
    "lq_repr m2 q2 xs" "lq_val (lq_nodes m2) = (lq_val (lq_nodes m1))(a := None)" by (auto simp: e(3))
  have "lq_val (lq_nodes m) a = None" using assms(4) by (simp add: lq_val_def)
  then have "lq_val (lq_nodes m2) = lq_val (lq_nodes m)" by (auto simp: d(3) e(3))
  then show ?thesis
    using e(1) d x
    by (auto simp: lqueue_enqueue_back_def lq_repr_items [OF assms(1)] lq_repr_items [OF e(2)]
        lq_repr_items [OF d(2)] e(3) map_val_upd)
qed

theorem lqueue_back_stack_witness:
  "\<exists>m1 q1 m2 q2. lqueue_enqueue_back
     \<lparr>lq_nodes = [1 \<mapsto> \<lparr>lq_pqdata = Some 8, lq_len = 6, lq_next = Some 1, lq_prev = Some 1\<rparr>],
      lq_blocks = Map.empty\<rparr> (Some \<lparr>lq_count = 1, lq_size = 0, lq_phead = Some 1\<rparr>) (Some 9) 7 (Some 2)
     = Some (0, m1, Some q1)
   \<and> lqueue_dequeue_back m1 (Some q1) (Some None) (Some 0) = Some (0, m2, Some q2, Some (Some 9), Some 7)
   \<and> lq_items m2 q2 = [(Some 8, 6)]"
proof -
  let ?m = "\<lparr>lq_nodes = [1 \<mapsto> \<lparr>lq_pqdata = Some 8, lq_len = 6, lq_next = Some 1, lq_prev = Some 1\<rparr>],
      lq_blocks = Map.empty\<rparr>"
  let ?q = "\<lparr>lq_count = 1, lq_size = 0, lq_phead = Some 1\<rparr>"
  have r: "lq_repr ?m ?q [1]" "\<not> lq_full ?q" "lq_size ?q \<le> 0 \<longrightarrow> in_i32 (lq_count ?q + 1)"
    and f: "lq_nodes ?m 2 = None" "Some 9 \<noteq> (None :: ptr)"
    by (simp_all add: lq_repr_def in_i32_def lq_full_def ring_single lq_nx_def lq_pv_def)
  have "lq_items ?m ?q = [(Some 8, 6)]" unfolding lq_repr_items [OF r(1)] by (simp add: lq_val_def)
  with lqueue_back_stack [OF r f, of 7 None 0] show ?thesis by auto
qed

text \<open>
  \<open>lqueue_destroy\<close> works on a queue of at most one node: it hands the payload to the
  callback, frees the node and resets the queue. On two nodes or more it has no defined
  behaviour, whatever the callback: the loop moves the head on without unlinking the node it
  frees, the ring leads it back to the first node, and it reads memory it has freed.
\<close>

theorem lqueue_destroy_outcomes:
  assumes "lq_repr m q xs"
  shows "case xs of
      [] \<Rightarrow> lqueue_destroy destroy m (Some q) = Some (m, Some (q\<lparr>lq_count := 0, lq_size := 0\<rparr>))
    | [a] \<Rightarrow> (\<forall>b'. (case destroy of None \<Rightarrow> Some (lq_blocks m)
          | Some f \<Rightarrow> f (fst (the (lq_val (lq_nodes m) a))) (lq_blocks m)) = Some b' \<longrightarrow>
        lqueue_destroy destroy m (Some q)
          = Some (m\<lparr>lq_nodes := (lq_nodes m)(a := None), lq_blocks := b'\<rparr>,
                  Some (q\<lparr>lq_count := 0, lq_size := 0, lq_phead := None\<rparr>)))
    | a # b # _ \<Rightarrow> lqueue_destroy destroy m (Some q) = None"
proof (cases xs)
  case Nil
  with assms show ?thesis by (simp add: lqueue_destroy_def lq_destroy_loop.simps lq_repr_def)
next
  case (Cons a ys)
  show ?thesis
  proof (cases ys)
    case Nil
    have "lq_nodes m a \<noteq> None" using lq_repr_live [OF assms] Cons by simp
    then obtain n where n: "lq_nodes m a = Some n" "lq_next n = lq_nx (lq_nodes m) a"
      "lq_val (lq_nodes m) a = Some (lq_pqdata n, lq_len n)" by (rule node_at)
    have "lq_phead q = Some a" "lq_nx (lq_nodes m) a = Some a"
      using assms Cons Nil by (simp_all add: lq_repr_def ring_single)
    with n show ?thesis
      using Cons Nil by (cases destroy) (auto simp: lqueue_destroy_def lq_destroy_loop.simps)
  next
    case (Cons b zs)
    with \<open>xs = a # ys\<close> assms have r: "lq_repr m q (a # b # zs)" by simp
    from r obtain na where na: "lq_nodes m a = Some na" "lq_next na = Some b" "a \<noteq> b" "a \<notin> set (b # zs)"
      and l: "links (lq_nx (lq_nodes m)) (lq_pv (lq_nodes m)) (b # zs @ [a])" and ph: "lq_phead q = Some a"
      by (rule lq_repr_two)
    have d: "distinct (b # zs)" using r by (auto simp: lq_repr_def ring_def)
    have "lq_destroy_loop destroy (m\<lparr>lq_nodes := (lq_nodes m)(a := None), lq_blocks := bs\<rparr>)
        (q\<lparr>lq_phead := Some b\<rparr>) = None" for bs
    proof (rule lq_destroy_loop_dangles [where ys = "b # zs" and z = a])
      have "links (lq_nx ((lq_nodes m)(a := None))) (lq_pv (lq_nodes m)) (b # zs @ [a])
          = links (lq_nx (lq_nodes m)) (lq_pv (lq_nodes m)) (b # zs @ [a])"
        using na(3,4) by (intro links_cong lq_nx_upd_other) auto
      with l show "links (lq_nx (lq_nodes (m\<lparr>lq_nodes := (lq_nodes m)(a := None), lq_blocks := bs\<rparr>)))
          (lq_pv (lq_nodes m)) ((b # zs) @ [a])" by simp
    qed (use d na in auto)
    then have "lq_destroy_loop destroy m q = None"
      using ph na by (subst lq_destroy_loop.simps) (auto split: option.splits bind_split)
    then show ?thesis using Cons \<open>xs = a # ys\<close> by (simp add: lqueue_destroy_def)
  qed
qed

theorem lqueue_destroy_outcomes_witness:
  "lqueue_destroy (Some lqueue_data_destroy_ext)
     \<lparr>lq_nodes = [1 \<mapsto> \<lparr>lq_pqdata = Some 8, lq_len = 1, lq_next = Some 2, lq_prev = Some 2\<rparr>,
                  2 \<mapsto> \<lparr>lq_pqdata = Some 9, lq_len = 1, lq_next = Some 1, lq_prev = Some 1\<rparr>],
      lq_blocks = [8 \<mapsto> [65], 9 \<mapsto> [66]]\<rparr>
     (Some \<lparr>lq_count = 2, lq_size = 2, lq_phead = Some 1\<rparr>) = None"
proof -
  let ?m = "\<lparr>lq_nodes = [1 \<mapsto> \<lparr>lq_pqdata = Some 8, lq_len = 1, lq_next = Some 2, lq_prev = Some 2\<rparr>,
                  2 \<mapsto> \<lparr>lq_pqdata = Some 9, lq_len = 1, lq_next = Some 1, lq_prev = Some 1\<rparr>],
      lq_blocks = [8 \<mapsto> [65], 9 \<mapsto> [66]]\<rparr>"
  have "lq_repr ?m \<lparr>lq_count = 2, lq_size = 2, lq_phead = Some 1\<rparr> [1, 2]"
    by (simp add: lq_repr_def ring_def in_i32_def lq_nx_def lq_pv_def)
  from lqueue_destroy_outcomes [OF this, of "Some lqueue_data_destroy_ext"] show ?thesis by simp
qed

text \<open>
  \<open>lqueue_dequeue_front\<close> on a queue of two nodes or more frees the first node but leaves
  \<open>phead\<close> pointing to it, and returns \<open>0\<close> without giving the payload to the caller. After
  it neither dequeue function has a defined behaviour any more.
\<close>

theorem lqueue_dequeue_front_dangles:
  assumes "lq_repr m q (a # b # xs)"
  shows "\<exists>m' q' n. lqueue_dequeue_front m (Some q) (Some p0) (Some n0) = Some (0, m', Some q', Some p0, Some n)
    \<and> lq_phead q' = Some a \<and> lq_nodes m' a = None \<and> lq_count q' = lq_count q - 1
    \<and> lqueue_dequeue_front m' (Some q') (Some p0) (Some n0) = None
    \<and> lqueue_dequeue_back m' (Some q') (Some p0) (Some n0) = None"
proof -
  let ?h = "lq_nodes m"
  obtain na where na: "?h a = Some na" "lq_next na = Some b" "lq_prev na = Some (last (b # xs))" "a \<noteq> b"
    "a \<notin> set (b # xs)" and ph: "lq_phead q = Some a" using assms by (rule lq_repr_two)
  let ?l = "last (b # xs)"
  have l: "?l \<in> set (b # xs)" using last_in_set [of "b # xs"] by (simp del: last.simps)
  then have live: "?h ?l \<noteq> None" "?h b \<noteq> None" and la: "?l \<noteq> a"
    using lq_repr_live [OF assms] na(5) by (auto simp del: last.simps)
  have i: "in_i32 (lq_count q - 1)" using assms by (auto simp: lq_repr_def in_i32_def)
  from live(1) obtain h1 where h1: "set_next ?h ?l (Some b) = Some h1" "lq_nx h1 = (lq_nx ?h)(?l := Some b)"
    "lq_pv h1 = lq_pv ?h" "lq_val h1 = lq_val ?h" "dom h1 = dom ?h" by (rule set_next_ok)
  have "h1 a \<noteq> None" "h1 b \<noteq> None" using h1(5) na(1) live(2) by (auto simp: dom_def set_eq_iff)
  from this(1) obtain n1 where n1: "h1 a = Some n1" "lq_next n1 = Some b" "lq_prev n1 = Some ?l"
    by (rule node_at) (use h1 la na in \<open>simp add: lq_nx_def lq_pv_def del: last.simps\<close>)
  from \<open>h1 b \<noteq> None\<close> obtain h2 where h2: "set_prev h1 b (Some ?l) = Some h2" "dom h2 = dom h1"
    by (rule set_prev_ok)
  then have "h2 a \<noteq> None" using n1 by (auto simp: dom_def set_eq_iff)
  then obtain n2 where n2: "h2 a = Some n2" by auto
  have "lqueue_dequeue_front m (Some q) (Some p0) (Some n0)
      = Some (0, m\<lparr>lq_nodes := h2(a := None)\<rparr>, Some (q\<lparr>lq_count := lq_count q - 1\<rparr>), Some p0, Some (lq_len n2))"
    using ph na n1 n2 h1(1) h2(1) i by (simp add: lqueue_dequeue_front_def c_simps)
  with ph show ?thesis
    by (auto simp: lqueue_dequeue_front_def lqueue_dequeue_back_def)
qed

theorem lqueue_dequeue_front_dangles_witness:
  "\<exists>m' q' n. lqueue_dequeue_front
     \<lparr>lq_nodes = [1 \<mapsto> \<lparr>lq_pqdata = Some 8, lq_len = 1, lq_next = Some 2, lq_prev = Some 2\<rparr>,
                  2 \<mapsto> \<lparr>lq_pqdata = Some 9, lq_len = 1, lq_next = Some 1, lq_prev = Some 1\<rparr>],
      lq_blocks = Map.empty\<rparr>
     (Some \<lparr>lq_count = 2, lq_size = 2, lq_phead = Some 1\<rparr>) (Some None) (Some 0) = Some (0, m', Some q', Some None, Some n)
   \<and> lqueue_dequeue_back m' (Some q') (Some None) (Some 0) = None"
proof -
  let ?m = "\<lparr>lq_nodes = [1 \<mapsto> \<lparr>lq_pqdata = Some 8, lq_len = 1, lq_next = Some 2, lq_prev = Some 2\<rparr>,
                  2 \<mapsto> \<lparr>lq_pqdata = Some 9, lq_len = 1, lq_next = Some 1, lq_prev = Some 1\<rparr>],
      lq_blocks = Map.empty\<rparr>"
  have "lq_repr ?m \<lparr>lq_count = 2, lq_size = 2, lq_phead = Some 1\<rparr> [1, 2]"
    by (simp add: lq_repr_def ring_def in_i32_def lq_nx_def lq_pv_def)
  from lqueue_dequeue_front_dangles [OF this, of None 0] show ?thesis by blast
qed

text \<open>
  \<open>lqueue_enqueue_front_ext\<close> and \<open>lqueue_enqueue_back_ext\<close> on a queue with room, with the
  first \<open>malloc\<close> successful: without memory for the payload they return \<open>-10\<close> and leave the
  memory and the queue as they were, with no node leaked; with it they return \<open>0\<close>, and
  the new item, first or last, owns a block with the first \<open>len\<close> bytes of the caller's.
\<close>

theorem lqueue_enqueue_ext_outcomes:
  assumes "lq_repr m q xs" and "\<not> lq_full q" and "lq_size q \<le> 0 \<longrightarrow> in_i32 (lq_count q + 1)"
    and "lq_nodes m a = None" and "lq_blocks m b = Some src" and "0 \<le> len" and "nat len \<le> length src"
  shows "case pd of
      None \<Rightarrow> lq_enqueue_ext front m (Some q) (Some b) len (Some a) pd = Some (-10, m, Some q)
    | Some d \<Rightarrow> \<exists>m' q'. lq_enqueue_ext front m (Some q) (Some b) len (Some a) pd = Some (0, m', Some q')
        \<and> lq_items m' q' = (if front then (pd, len) # lq_items m q else lq_items m q @ [(pd, len)])
        \<and> lq_blocks m' = (lq_blocks m)(d \<mapsto> take (nat len) src)
        \<and> lq_repr m' q' (if front then a # xs else xs @ [a])"
proof (cases pd)
  case None
  with assms show ?thesis by (cases m) (simp add: lq_enqueue_ext_def fun_upd_idem)
next
  case (Some d)
  let ?n = "\<lparr>lq_pqdata = Some d, lq_len = len, lq_next = None, lq_prev = None\<rparr>"
  have x: "a \<notin> set xs" using assms(1,4) by (rule lq_fresh)
  from lq_link_repr [OF assms(1,4,2,3), of front ?n "(lq_blocks m)(d \<mapsto> take (nat len) src)"]
  obtain h q' where h: "lq_link front ((lq_nodes m)(a \<mapsto> ?n)) q a = Some (h, q')"
    "lq_repr (m\<lparr>lq_nodes := h, lq_blocks := (lq_blocks m)(d \<mapsto> take (nat len) src)\<rparr>) q' (if front then a # xs else xs @ [a])"
    "lq_val h = (lq_val (lq_nodes m))(a \<mapsto> (Some d, len))" by auto
  have "lq_items (m\<lparr>lq_nodes := h, lq_blocks := (lq_blocks m)(d \<mapsto> take (nat len) src)\<rparr>) q'
      = (if front then (pd, len) # lq_items m q else lq_items m q @ [(pd, len)])"
    using x Some by (simp add: lq_repr_items [OF h(2)] lq_repr_items [OF assms(1)] h(3) map_val_upd)
  then show ?thesis using Some assms h by (simp add: lq_enqueue_ext_def)
qed

theorem lqueue_enqueue_ext_outcomes_witness:
  "\<exists>m' q'. lq_enqueue_ext True \<lparr>lq_nodes = Map.empty, lq_blocks = [5 \<mapsto> [65, 66, 67]]\<rparr>
      (Some \<lparr>lq_count = 0, lq_size = 1, lq_phead = None\<rparr>) (Some 5) 2 (Some 1) (Some 6) = Some (0, m', Some q')
    \<and> lq_items m' q' = [(Some 6, 2)] \<and> lq_blocks m' = [5 \<mapsto> [65, 66, 67], 6 \<mapsto> [65, 66]]"
proof -
  let ?m = "\<lparr>lq_nodes = Map.empty, lq_blocks = [5 \<mapsto> [65, 66, 67]]\<rparr>"
  let ?q = "\<lparr>lq_count = 0, lq_size = 1, lq_phead = None\<rparr>"
  have r: "lq_repr ?m ?q []" "\<not> lq_full ?q" "lq_size ?q \<le> 0 \<longrightarrow> in_i32 (lq_count ?q + 1)"
    by (simp_all add: lq_repr_def in_i32_def lq_full_def)
  have b: "lq_nodes ?m 1 = None" "lq_blocks ?m 5 = Some [65, 66, 67]" by simp_all
  have "lq_items ?m ?q = []" by (simp add: lq_items_def lq_addrs_def)
  with lqueue_enqueue_ext_outcomes [OF r b, where len = 2 and pd = "Some 6" and front = True] show ?thesis by auto
qed

text \<open>
  \<open>lqueue_info\<close> ends on every queue, and prints the counters and one row per item, in
  queue order.
\<close>

theorem lqueue_info_prints_items:
  assumes "lq_repr m q xs"
  shows "lqueue_info m (Some q) = Some (Some ((lq_count q, lq_size q), map (\<lambda>v. (snd v, fst v)) (lq_items m q)))
    \<and> length (lq_items m q) = nat (lq_count q)"
  using lqueue_info_lists [OF assms] assms by (simp add: lq_repr_items [OF assms] lq_repr_def)

theorem lqueue_info_prints_items_witness:
  "lqueue_info
     \<lparr>lq_nodes = [1 \<mapsto> \<lparr>lq_pqdata = Some 8, lq_len = 6, lq_next = Some 2, lq_prev = Some 2\<rparr>,
                  2 \<mapsto> \<lparr>lq_pqdata = Some 9, lq_len = 7, lq_next = Some 1, lq_prev = Some 1\<rparr>],
      lq_blocks = Map.empty\<rparr> (Some \<lparr>lq_count = 2, lq_size = 5, lq_phead = Some 2\<rparr>)
   = Some (Some ((2, 5), [(7, Some 9), (6, Some 8)]))"
proof -
  let ?m = "\<lparr>lq_nodes = [1 \<mapsto> \<lparr>lq_pqdata = Some 8, lq_len = 6, lq_next = Some 2, lq_prev = Some 2\<rparr>,
                  2 \<mapsto> \<lparr>lq_pqdata = Some 9, lq_len = 7, lq_next = Some 1, lq_prev = Some 1\<rparr>],
      lq_blocks = Map.empty\<rparr>"
  have r: "lq_repr ?m \<lparr>lq_count = 2, lq_size = 5, lq_phead = Some 2\<rparr> [2, 1]"
    by (simp add: lq_repr_def ring_def in_i32_def lq_nx_def lq_pv_def)
  show ?thesis using lqueue_info_prints_items [OF r] lq_repr_items [OF r] by (simp add: lq_val_def)
qed

end
