(* ===== verification/KernelList.thy ===== *)
theory KernelList
  imports NodeRings
begin

section \<open>The intrusive list (\<open>src/queue/klist/list.h\<close>)\<close>

text \<open>
  A \<open>struct list_head\<close> is both the head of a list and the link inside an entry; a list is a
  ring of them. The heap maps the address of a \<open>list_head\<close> to its two pointers, which are
  never null. Entries taken out get the poison addresses, which no live node has, so that a use
  of their pointers has no result. \<open>list_entry\<close> subtracts the offset of the member from an
  address and touches no memory; an entry is named by the address of its link.
\<close>

record list_head =
  lh_next :: addr
  lh_prev :: addr

type_synonym lheap = "list_head heap"

definition LIST_POISON1 :: addr where "LIST_POISON1 = 0x00100100"
definition LIST_POISON2 :: addr where "LIST_POISON2 = 0x00200200"

subsection \<open>Operations\<close>

definition put_next :: "lheap \<Rightarrow> addr \<Rightarrow> addr \<Rightarrow> lheap option" where
  "put_next h a p = do { n \<leftarrow> h a; Some (h(a \<mapsto> n\<lparr>lh_next := p\<rparr>)) }"

definition put_prev :: "lheap \<Rightarrow> addr \<Rightarrow> addr \<Rightarrow> lheap option" where
  "put_prev h a p = do { n \<leftarrow> h a; Some (h(a \<mapsto> n\<lparr>lh_prev := p\<rparr>)) }"

definition INIT_LIST_HEAD :: "lheap \<Rightarrow> addr \<Rightarrow> lheap option" where
  "INIT_LIST_HEAD h l = do { h \<leftarrow> put_next h l l; put_prev h l l }"

definition list_add_between :: "lheap \<Rightarrow> addr \<Rightarrow> addr \<Rightarrow> addr \<Rightarrow> lheap option" where
  "list_add_between h new prev next = do {
     h \<leftarrow> put_prev h next new;
     h \<leftarrow> put_next h new next;
     h \<leftarrow> put_prev h new prev;
     put_next h prev new }"

definition list_add :: "lheap \<Rightarrow> addr \<Rightarrow> addr \<Rightarrow> lheap option" where
  "list_add h new head = do { n \<leftarrow> h head; list_add_between h new head (lh_next n) }"

definition list_add_tail :: "lheap \<Rightarrow> addr \<Rightarrow> addr \<Rightarrow> lheap option" where
  "list_add_tail h new head = do { n \<leftarrow> h head; list_add_between h new (lh_prev n) head }"

definition list_del_between :: "lheap \<Rightarrow> addr \<Rightarrow> addr \<Rightarrow> lheap option" where
  "list_del_between h prev next = do { h \<leftarrow> put_prev h next prev; put_next h prev next }"

definition list_del :: "lheap \<Rightarrow> addr \<Rightarrow> lheap option" where
  "list_del h entry = do {
     n \<leftarrow> h entry;
     h \<leftarrow> list_del_between h (lh_prev n) (lh_next n);
     h \<leftarrow> put_next h entry LIST_POISON1;
     put_prev h entry LIST_POISON2 }"

definition list_empty :: "lheap \<Rightarrow> addr \<Rightarrow> bool option" where
  "list_empty h head = do { n \<leftarrow> h head; Some (lh_next n = head) }"

definition list_splice_nonempty :: "lheap \<Rightarrow> addr \<Rightarrow> addr \<Rightarrow> lheap option" where
  "list_splice_nonempty h list head = do {
     n \<leftarrow> h list;
     let first = lh_next n;
     let last = lh_prev n;
     hd \<leftarrow> h head;
     let at = lh_next hd;
     h \<leftarrow> put_prev h first head;
     h \<leftarrow> put_next h head first;
     h \<leftarrow> put_next h last at;
     put_prev h at last }"

definition list_splice :: "lheap \<Rightarrow> addr \<Rightarrow> addr \<Rightarrow> lheap option" where
  "list_splice h list head = do {
     e \<leftarrow> list_empty h list;
     if \<not> e then list_splice_nonempty h list head else Some h }"

text \<open>
  The loops are macros; the model takes their body as an argument. \<open>list_for_each\<close> reads
  \<open>pos->next\<close> after the body, \<open>list_for_each_safe\<close> has read it before. The body works on
  the list heap and on a state of its own.
\<close>

partial_function (option) for_each_from ::
    "(addr \<Rightarrow> lheap \<Rightarrow> 's \<Rightarrow> (lheap \<times> 's) option) \<Rightarrow> addr \<Rightarrow> addr \<Rightarrow> lheap \<Rightarrow> 's \<Rightarrow> (lheap \<times> 's) option" where
  "for_each_from body head pos h s =
     (if pos \<noteq> head
      then do { (h, s) \<leftarrow> body pos h s; n \<leftarrow> h pos; for_each_from body head (lh_next n) h s }
      else Some (h, s))"

definition list_for_each ::
    "(addr \<Rightarrow> lheap \<Rightarrow> 's \<Rightarrow> (lheap \<times> 's) option) \<Rightarrow> addr \<Rightarrow> lheap \<Rightarrow> 's \<Rightarrow> (lheap \<times> 's) option" where
  "list_for_each body head h s = do { n \<leftarrow> h head; for_each_from body head (lh_next n) h s }"

partial_function (option) for_each_r_from ::
    "(addr \<Rightarrow> lheap \<Rightarrow> 's \<Rightarrow> (lheap \<times> 's) option) \<Rightarrow> addr \<Rightarrow> addr \<Rightarrow> lheap \<Rightarrow> 's \<Rightarrow> (lheap \<times> 's) option" where
  "for_each_r_from body head pos h s =
     (if pos \<noteq> head
      then do { (h, s) \<leftarrow> body pos h s; n \<leftarrow> h pos; for_each_r_from body head (lh_prev n) h s }
      else Some (h, s))"

definition list_for_each_r ::
    "(addr \<Rightarrow> lheap \<Rightarrow> 's \<Rightarrow> (lheap \<times> 's) option) \<Rightarrow> addr \<Rightarrow> lheap \<Rightarrow> 's \<Rightarrow> (lheap \<times> 's) option" where
  "list_for_each_r body head h s = do { n \<leftarrow> h head; for_each_r_from body head (lh_prev n) h s }"

partial_function (option) for_each_safe_from ::
    "(addr \<Rightarrow> lheap \<Rightarrow> 's \<Rightarrow> (lheap \<times> 's) option) \<Rightarrow> addr \<Rightarrow> addr \<Rightarrow> addr \<Rightarrow> lheap \<Rightarrow> 's \<Rightarrow> (lheap \<times> 's) option" where
  "for_each_safe_from body head pos n h s =
     (if pos \<noteq> head
      then do { (h, s) \<leftarrow> body pos h s; m \<leftarrow> h n; for_each_safe_from body head n (lh_next m) h s }
      else Some (h, s))"

definition list_for_each_safe ::
    "(addr \<Rightarrow> lheap \<Rightarrow> 's \<Rightarrow> (lheap \<times> 's) option) \<Rightarrow> addr \<Rightarrow> lheap \<Rightarrow> 's \<Rightarrow> (lheap \<times> 's) option" where
  "list_for_each_safe body head h s = do {
     hd \<leftarrow> h head;
     let pos = lh_next hd;
     m \<leftarrow> h pos;
     for_each_safe_from body head pos (lh_next m) h s }"

text \<open>
  \<open>list_for_each_entry_continue\<close> goes on after the current position;
  \<open>list_for_each_entry\<close> is \<open>list_for_each\<close> with the entry in place of its link.
\<close>

definition list_for_each_entry_continue ::
    "(addr \<Rightarrow> lheap \<Rightarrow> 's \<Rightarrow> (lheap \<times> 's) option) \<Rightarrow> addr \<Rightarrow> addr \<Rightarrow> lheap \<Rightarrow> 's \<Rightarrow> (lheap \<times> 's) option" where
  "list_for_each_entry_continue body head pos h s = do { n \<leftarrow> h pos; for_each_from body head (lh_next n) h s }"

definition list_for_each_entry_continue_reverse ::
    "(addr \<Rightarrow> lheap \<Rightarrow> 's \<Rightarrow> (lheap \<times> 's) option) \<Rightarrow> addr \<Rightarrow> addr \<Rightarrow> lheap \<Rightarrow> 's \<Rightarrow> (lheap \<times> 's) option" where
  "list_for_each_entry_continue_reverse body head pos h s = do { n \<leftarrow> h pos; for_each_r_from body head (lh_prev n) h s }"

subsection \<open>The list of a head\<close>

definition lh_nx :: "lheap \<Rightarrow> addr \<Rightarrow> addr option" where
  "lh_nx h a = map_option lh_next (h a)"

definition lh_pv :: "lheap \<Rightarrow> addr \<Rightarrow> addr option" where
  "lh_pv h a = map_option lh_prev (h a)"

definition is_list :: "lheap \<Rightarrow> addr \<Rightarrow> addr list \<Rightarrow> bool" where
  "is_list h head xs \<longleftrightarrow> ring (lh_nx h) (lh_pv h) (head # xs)"

lemma put_next_ok:
  assumes "h a \<noteq> None"
  obtains h' where "put_next h a p = Some h'" and "lh_nx h' = (lh_nx h)(a \<mapsto> p)" and "lh_pv h' = lh_pv h"
    and "dom h' = dom h"
proof -
  from assms obtain n where "h a = Some n" by auto
  then show ?thesis
    by (intro that [of "h(a \<mapsto> n\<lparr>lh_next := p\<rparr>)"]) (auto simp: put_next_def lh_nx_def lh_pv_def)
qed

lemma put_prev_ok:
  assumes "h a \<noteq> None"
  obtains h' where "put_prev h a p = Some h'" and "lh_pv h' = (lh_pv h)(a \<mapsto> p)" and "lh_nx h' = lh_nx h"
    and "dom h' = dom h"
proof -
  from assms obtain n where "h a = Some n" by auto
  then show ?thesis
    by (intro that [of "h(a \<mapsto> n\<lparr>lh_prev := p\<rparr>)"]) (auto simp: put_prev_def lh_nx_def lh_pv_def)
qed

lemma live_iff: "h a \<noteq> None \<longleftrightarrow> a \<in> dom h"
  by auto

lemma list_node_at:
  assumes "lh_nx h a = Some b" and "lh_pv h a = Some c"
  obtains n where "h a = Some n" and "lh_next n = b" and "lh_prev n = c"
  using assms by (auto simp: lh_nx_def lh_pv_def)

lemma is_list_live: "is_list h head xs \<Longrightarrow> a \<in> set (head # xs) \<Longrightarrow> a \<in> dom h"
  using ring_live(1) [of "lh_nx h" "lh_pv h" "head # xs" a] by (auto simp: is_list_def lh_nx_def)

lemma is_list_head:
  assumes "is_list h head xs"
  obtains n where "h head = Some n" and "lh_next n = hd (xs @ [head])" and "lh_prev n = last (head # xs)"
  using ring_Cons [OF assms [unfolded is_list_def]] list_node_at by metis

lemma INIT_LIST_HEAD_ok:
  assumes "l \<in> dom h"
  shows "\<exists>h'. INIT_LIST_HEAD h l = Some h' \<and> is_list h' l [] \<and> dom h' = dom h"
proof -
  from assms obtain h1 where h1: "put_next h l l = Some h1" "lh_nx h1 = (lh_nx h)(l \<mapsto> l)"
    "lh_pv h1 = lh_pv h" "dom h1 = dom h" by (metis put_next_ok live_iff)
  with assms obtain h2 where h2: "put_prev h1 l l = Some h2" "lh_pv h2 = (lh_pv h1)(l \<mapsto> l)"
    "lh_nx h2 = lh_nx h1" "dom h2 = dom h1" by (metis put_prev_ok live_iff)
  from h1 h2 show ?thesis by (simp add: INIT_LIST_HEAD_def is_list_def ring_single)
qed

text \<open>The general insertion: between the last node of a ring and its first.\<close>

lemma list_add_between_ok:
  assumes r: "ring (lh_nx h) (lh_pv h) (xs @ [l])" and n: "new \<notin> set (xs @ [l])" "new \<in> dom h"
    and b: "b = hd (xs @ [l])"
  shows "\<exists>h'. list_add_between h new l b = Some h' \<and> ring (lh_nx h') (lh_pv h') (xs @ [l, new])
    \<and> dom h' = dom h \<and> (\<forall>x. x \<notin> set (new # xs @ [l]) \<longrightarrow> lh_nx h' x = lh_nx h x \<and> lh_pv h' x = lh_pv h x)"
proof -
  have m: "b \<in> set (xs @ [l])" using b by (cases xs) auto
  have "b \<in> dom h" "l \<in> dom h"
    using ring_live(1) [OF r] m by (auto simp: lh_nx_def)
  from this(1) obtain h1 where h1: "put_prev h b new = Some h1" "lh_pv h1 = (lh_pv h)(b \<mapsto> new)"
    "lh_nx h1 = lh_nx h" "dom h1 = dom h" by (metis put_prev_ok live_iff)
  with n(2) obtain h2 where h2: "put_next h1 new b = Some h2" "lh_nx h2 = (lh_nx h1)(new \<mapsto> b)"
    "lh_pv h2 = lh_pv h1" "dom h2 = dom h1" by (metis put_next_ok live_iff)
  with n(2) h1 obtain h3 where h3: "put_prev h2 new l = Some h3" "lh_pv h3 = (lh_pv h2)(new \<mapsto> l)"
    "lh_nx h3 = lh_nx h2" "dom h3 = dom h2" by (metis put_prev_ok live_iff)
  with \<open>l \<in> dom h\<close> h1 h2 obtain h4 where h4: "put_next h3 l new = Some h4" "lh_nx h4 = (lh_nx h3)(l \<mapsto> new)"
    "lh_pv h4 = lh_pv h3" "dom h4 = dom h3" by (metis put_next_ok live_iff)
  have "ring (lh_nx h4) (lh_pv h4) (xs @ [l, new])"
    by (rule ring_insert [OF r n(1) b]) (use n(1) m h1 h2 h3 h4 in auto)
  then show ?thesis using h1 h2 h3 h4 m by (auto simp: list_add_between_def)
qed

lemma list_add_ok:
  assumes "is_list h head xs" and "new \<notin> set (head # xs)" and "new \<in> dom h"
  shows "\<exists>h'. list_add h new head = Some h' \<and> is_list h' head (new # xs) \<and> dom h' = dom h"
proof -
  obtain n where n: "h head = Some n" "lh_next n = hd (xs @ [head])" using assms(1) by (rule is_list_head)
  have "ring (lh_nx h) (lh_pv h) (xs @ [head])" using assms(1) by (simp add: is_list_def ring_rotate1)
  from list_add_between_ok [OF this _ assms(3) refl] assms(2) obtain h' where
    "list_add_between h new head (hd (xs @ [head])) = Some h'"
    "ring (lh_nx h') (lh_pv h') (xs @ [head, new])" "dom h' = dom h" by auto
  with ring_rotate [of _ _ xs "[head, new]"] n show ?thesis by (auto simp: list_add_def is_list_def)
qed

lemma list_add_tail_ok:
  assumes "is_list h head xs" and "new \<notin> set (head # xs)" and "new \<in> dom h"
  shows "\<exists>h'. list_add_tail h new head = Some h' \<and> is_list h' head (xs @ [new]) \<and> dom h' = dom h"
proof -
  obtain n where n: "h head = Some n" "lh_prev n = last (head # xs)" using assms(1) by (rule is_list_head)
  obtain ys l where yl: "head # xs = ys @ [l]" by (metis list.discI rev_exhaust)
  have b: "head = hd (ys @ [l])" unfolding yl [symmetric] by simp
  have l: "last (head # xs) = l" unfolding yl by simp
  have "ring (lh_nx h) (lh_pv h) (ys @ [l])" using assms(1) by (simp add: is_list_def yl)
  from list_add_between_ok [OF this _ assms(3) b] assms(2) yl obtain h' where
    h': "list_add_between h new l head = Some h'" "ring (lh_nx h') (lh_pv h') (ys @ [l, new])" "dom h' = dom h"
    by auto
  have "ys @ [l, new] = head # xs @ [new]" using yl by (metis append_Cons append_assoc append_Nil)
  with h' n l show ?thesis by (auto simp: list_add_tail_def is_list_def)
qed

text \<open>Deleting an entry closes the ring behind it and poisons the entry.\<close>

lemma list_del_ok:
  assumes "is_list h head (as @ e # bs)"
  shows "\<exists>h'. list_del h e = Some h' \<and> is_list h' head (as @ bs) \<and> dom h' = dom h
    \<and> h' e = Some \<lparr>lh_next = LIST_POISON1, lh_prev = LIST_POISON2\<rparr>
    \<and> (\<forall>x. x \<notin> set (head # as @ e # bs) \<longrightarrow> lh_nx h' x = lh_nx h x \<and> lh_pv h' x = lh_pv h x)"
proof -
  let ?ys = "bs @ head # as"
  obtain zs l where zl: "?ys = zs @ [l]" by (metis append_is_Nil_conv list.discI rev_exhaust)
  let ?b = "hd (zs @ [l])"
  have "ring (lh_nx h) (lh_pv h) ((head # as @ [e]) @ bs)" using assms by (simp add: is_list_def)
  from ring_rotate [OF this] have r: "ring (lh_nx h) (lh_pv h) (zs @ [l, e])"
    using zl by (metis append.assoc append_Cons append_Nil)
  from ring_rotate [of _ _ "zs @ [l]" "[e]"] r have "ring (lh_nx h) (lh_pv h) (e # zs @ [l])" by simp
  from ring_Cons [OF this] have e: "lh_nx h e = Some ?b" "lh_pv h e = Some l" by (simp_all add: hd_append)
  then obtain n where n: "h e = Some n" "lh_next n = ?b" "lh_prev n = l" by (rule list_node_at)
  have d: "e \<notin> set (zs @ [l])" using ring_distinct [OF r] by auto
  have b: "?b \<in> set (zs @ [l])" by (cases zs) auto
  have live: "x \<in> dom h" if "x \<in> set (zs @ [l])" for x
    using ring_live(1) [OF r, of x] that by (auto simp: lh_nx_def)
  from live [OF b] obtain h1 where h1: "put_prev h ?b l = Some h1" "lh_pv h1 = (lh_pv h)(?b \<mapsto> l)"
    "lh_nx h1 = lh_nx h" "dom h1 = dom h" by (metis put_prev_ok live_iff)
  from live [of l] h1 obtain h2 where h2: "put_next h1 l ?b = Some h2" "lh_nx h2 = (lh_nx h1)(l \<mapsto> ?b)"
    "lh_pv h2 = lh_pv h1" "dom h2 = dom h1" by (metis put_next_ok live_iff in_set_conv_decomp)
  have "e \<in> dom h2" using n h1 h2 by auto
  then obtain n2 where n2: "h2 e = Some n2" by auto
  let ?p = "\<lparr>lh_next = LIST_POISON1, lh_prev = LIST_POISON2\<rparr>"
  have run: "list_del h e = Some (h2(e \<mapsto> n2\<lparr>lh_next := LIST_POISON1, lh_prev := LIST_POISON2\<rparr>))"
    using n n2 h1 h2 by (simp add: list_del_def list_del_between_def put_next_def [of _ e] put_prev_def [of _ e])
  let ?h = "h2(e \<mapsto> ?p)"
  have "ring (lh_nx ?h) (lh_pv ?h) (zs @ [l])"
  proof (rule ring_remove [OF r refl])
    fix x
    assume "x \<in> set (zs @ [l])"
    then have "x \<noteq> e" using d by auto
    then have "lh_nx ?h x = lh_nx h2 x" "lh_pv ?h x = lh_pv h2 x" by (simp_all add: lh_nx_def lh_pv_def)
    then show "lh_nx ?h x = (if x = l then Some ?b else lh_nx h x)"
      and "lh_pv ?h x = (if x = ?b then Some l else lh_pv h x)" using h1 h2 by simp_all
  qed
  then have "is_list ?h head (as @ bs)"
    using ring_rotate [of "lh_nx ?h" "lh_pv ?h" bs "head # as"] by (simp add: is_list_def zl [symmetric])
  moreover have "dom ?h = dom h" using h1 h2 n by auto
  moreover have "n2\<lparr>lh_next := LIST_POISON1, lh_prev := LIST_POISON2\<rparr> = ?p" by (cases n2) simp
  moreover have "lh_nx ?h x = lh_nx h x \<and> lh_pv ?h x = lh_pv h x" if x: "x \<notin> set (head # as @ e # bs)" for x
  proof -
    have "set ?ys = set (zs @ [l])" using zl by simp
    with x b have "x \<noteq> l" "x \<noteq> ?b" "x \<noteq> e" by auto
    then have "lh_nx ?h x = lh_nx h2 x" "lh_pv ?h x = lh_pv h2 x" by (simp_all add: lh_nx_def lh_pv_def)
    with h1 h2 \<open>x \<noteq> l\<close> \<open>x \<noteq> ?b\<close> show ?thesis by simp
  qed
  ultimately have "list_del h e = Some ?h \<and> is_list ?h head (as @ bs) \<and> dom ?h = dom h \<and> ?h e = Some ?p
      \<and> (\<forall>x. x \<notin> set (head # as @ e # bs) \<longrightarrow> lh_nx ?h x = lh_nx h x \<and> lh_pv ?h x = lh_pv h x)"
    using run by (simp only: fun_upd_same) blast
  then show ?thesis by blast
qed

lemma list_empty_ok: "is_list h head xs \<Longrightarrow> list_empty h head = Some (xs = [])"
proof -
  assume l: "is_list h head xs"
  then have "head \<notin> set xs" using ring_distinct by (fastforce simp: is_list_def)
  moreover obtain n where "h head = Some n" "lh_next n = hd (xs @ [head])" using l by (rule is_list_head)
  ultimately show ?thesis by (cases xs) (auto simp: list_empty_def)
qed

lemma list_splice_ok:
  assumes "is_list h list as" and "is_list h head bs" and "set (list # as) \<inter> set (head # bs) = {}"
  shows "\<exists>h'. list_splice h list head = Some h' \<and> is_list h' head (as @ bs) \<and> dom h' = dom h"
proof (cases "as = []")
  case True
  with assms list_empty_ok [OF assms(1)] show ?thesis by (simp add: list_splice_def)
next
  case False
  obtain n where n: "h list = Some n" "lh_next n = hd as" "lh_prev n = last as"
    using assms(1) by (rule is_list_head) (use False in simp)
  obtain m where m: "h head = Some m" "lh_next m = hd (bs @ [head])" using assms(2) by (rule is_list_head)
  let ?at = "hd (bs @ [head])"
  have fh: "lh_nx h head = Some ?at" using m by (simp add: lh_nx_def)
  have in_as: "hd as \<in> set as" "last as \<in> set as" using False by auto
  have "?at \<in> set (head # bs)" by (cases bs) auto
  then have live: "hd as \<in> dom h" "last as \<in> dom h" "head \<in> dom h" "?at \<in> dom h"
    using is_list_live [OF assms(1)] is_list_live [OF assms(2)] in_as by auto
  from live(1) obtain h1 where h1: "put_prev h (hd as) head = Some h1" "lh_pv h1 = (lh_pv h)(hd as \<mapsto> head)"
    "lh_nx h1 = lh_nx h" "dom h1 = dom h" by (metis put_prev_ok live_iff)
  from live(3) h1 obtain h2 where h2: "put_next h1 head (hd as) = Some h2" "lh_nx h2 = (lh_nx h1)(head \<mapsto> hd as)"
    "lh_pv h2 = lh_pv h1" "dom h2 = dom h1" by (metis put_next_ok live_iff)
  from live(2) h1 h2 obtain h3 where h3: "put_next h2 (last as) ?at = Some h3" "lh_nx h3 = (lh_nx h2)(last as \<mapsto> ?at)"
    "lh_pv h3 = lh_pv h2" "dom h3 = dom h2" by (metis put_next_ok live_iff)
  from live(4) h1 h2 h3 obtain h4 where h4: "put_prev h3 ?at (last as) = Some h4" "lh_pv h4 = (lh_pv h3)(?at \<mapsto> last as)"
    "lh_nx h4 = lh_nx h3" "dom h4 = dom h3" by (metis put_prev_ok live_iff)
  have "last as \<noteq> head" using assms(3) in_as by auto
  then have "ring (lh_nx h4) (lh_pv h4) (head # as @ bs)"
    by (intro ring_splice [OF assms(1) [unfolded is_list_def] assms(2) [unfolded is_list_def] False assms(3)])
      (use h1 h2 h3 h4 fh in auto)
  moreover have "list_splice h list head = Some h4"
    using list_empty_ok [OF assms(1)] False n m h1 h2 h3 h4
    by (simp add: list_splice_def list_splice_nonempty_def)
  ultimately show ?thesis using h1 h2 h3 h4 by (auto simp: is_list_def)
qed

subsection \<open>Loops over a list\<close>

lemma is_list_links: "is_list h head xs \<Longrightarrow> links (lh_nx h) (lh_pv h) (xs @ [head]) \<and> head \<notin> set xs"
  by (auto simp: is_list_def ring_def links_Cons)

text \<open>A body that leaves the heap alone sees the entries in order.\<close>

lemma for_each_from_fold:
  assumes "links (lh_nx h) g (xs @ [head])" and "head \<notin> set xs"
    and "\<And>x s. x \<in> set xs \<Longrightarrow> body x h s = Some (h, f x s)"
  shows "for_each_from body head (hd (xs @ [head])) h s = Some (h, fold f xs s)"
  using assms
proof (induction xs arbitrary: s)
  case Nil
  then show ?case by (simp add: for_each_from.simps)
next
  case (Cons x xs)
  then have "lh_nx h x = Some (hd (xs @ [head]))" and l: "links (lh_nx h) g (xs @ [head])"
    by (simp_all add: links_Cons)
  then obtain n where "h x = Some n" "lh_next n = hd (xs @ [head])" by (auto simp: lh_nx_def)
  with Cons.IH [OF l] Cons.prems show ?case by (subst for_each_from.simps) simp
qed

lemma links_rev: "links f g xs \<longleftrightarrow> links g f (rev xs)"
proof (induction f g xs rule: links.induct)
  case (3 f g a b xs)
  then show ?case using links_append [of g f "rev xs" b "[a]"] by auto
qed auto

lemma for_each_r_from_fold:
  assumes "links (lh_pv h) g (xs @ [head])" and "head \<notin> set xs"
    and "\<And>x s. x \<in> set xs \<Longrightarrow> body x h s = Some (h, f x s)"
  shows "for_each_r_from body head (hd (xs @ [head])) h s = Some (h, fold f xs s)"
  using assms
proof (induction xs arbitrary: s)
  case Nil
  then show ?case by (simp add: for_each_r_from.simps)
next
  case (Cons x xs)
  then have "lh_pv h x = Some (hd (xs @ [head]))" and l: "links (lh_pv h) g (xs @ [head])"
    by (simp_all add: links_Cons)
  then obtain n where "h x = Some n" "lh_prev n = hd (xs @ [head])" by (auto simp: lh_pv_def)
  with Cons.IH [OF l] Cons.prems show ?case by (subst for_each_r_from.simps) simp
qed

lemma list_for_each_fold:
  assumes "is_list h head xs" and "\<And>x s. x \<in> set xs \<Longrightarrow> body x h s = Some (h, f x s)"
  shows "list_for_each body head h s = Some (h, fold f xs s)"
proof -
  obtain n where n: "h head = Some n" "lh_next n = hd (xs @ [head])" using assms(1) by (rule is_list_head)
  from is_list_links [OF assms(1)] for_each_from_fold [of h "lh_pv h" xs head body f s] assms(2)
  have "for_each_from body head (hd (xs @ [head])) h s = Some (h, fold f xs s)" by blast
  with n show ?thesis by (simp add: list_for_each_def)
qed

lemma list_for_each_r_fold:
  assumes "is_list h head xs" and "\<And>x s. x \<in> set xs \<Longrightarrow> body x h s = Some (h, f x s)"
  shows "list_for_each_r body head h s = Some (h, fold f (rev xs) s)"
proof -
  have "lh_pv h head = Some (last (head # xs))"
    using ring_Cons [OF assms(1) [unfolded is_list_def]] by simp
  moreover have "hd (rev xs @ [head]) = last (head # xs)" by (cases xs rule: rev_cases) auto
  ultimately obtain n where n: "h head = Some n" "lh_prev n = hd (rev xs @ [head])" by (auto simp: lh_pv_def)
  obtain ys l where yl: "head # xs = ys @ [l]" by (metis list.discI rev_exhaust)
  have "ring (lh_nx h) (lh_pv h) (ys @ [l])" using assms(1) by (simp add: is_list_def yl)
  then have r: "links (lh_nx h) (lh_pv h) (head # xs)" by (simp add: ring_snoc yl)
  then have "links (lh_pv h) (lh_nx h) (rev xs @ [head])"
    using links_rev [of "lh_nx h" "lh_pv h" "head # xs"] by simp
  moreover have "head \<notin> set (rev xs)" using is_list_links [OF assms(1)] by simp
  ultimately have "for_each_r_from body head (hd (rev xs @ [head])) h s = Some (h, fold f (rev xs) s)"
    using for_each_r_from_fold [of h "lh_nx h" "rev xs" head body f s] assms(2) by simp
  with n show ?thesis by (simp add: list_for_each_r_def)
qed

subsection \<open>Sequences of operations, and removal while walking\<close>

text \<open>
  A client adds entries in front and behind, and takes entries out; the list of the head
  follows.
\<close>

datatype klist_op = LAdd addr | LAddTail addr | LDel addr

fun klist_step :: "addr \<Rightarrow> lheap \<Rightarrow> klist_op \<Rightarrow> lheap option" where
  "klist_step head h (LAdd a) = list_add h a head"
| "klist_step head h (LAddTail a) = list_add_tail h a head"
| "klist_step head h (LDel a) = list_del h a"

fun klist_run :: "addr \<Rightarrow> lheap \<Rightarrow> klist_op list \<Rightarrow> lheap option" where
  "klist_run head h [] = Some h"
| "klist_run head h (op # os) = do { h \<leftarrow> klist_step head h op; klist_run head h os }"

text \<open>The list: an entry is added once, and only an entry of the list is taken out.\<close>

fun klist_abs :: "addr list \<Rightarrow> klist_op list \<Rightarrow> addr list option" where
  "klist_abs xs [] = Some xs"
| "klist_abs xs (LAdd a # os) = (if a \<in> set xs then None else klist_abs (a # xs) os)"
| "klist_abs xs (LAddTail a # os) = (if a \<in> set xs then None else klist_abs (xs @ [a]) os)"
| "klist_abs xs (LDel a # os) = (if a \<in> set xs then klist_abs (remove1 a xs) os else None)"

fun klist_entry :: "klist_op \<Rightarrow> addr" where
  "klist_entry (LAdd a) = a"
| "klist_entry (LAddTail a) = a"
| "klist_entry (LDel a) = a"

lemma klist_run_abs:
  assumes "is_list h head xs" and "klist_abs xs os = Some ys"
    and "\<forall>op \<in> set os. klist_entry op \<in> dom h - {head}"
  shows "\<exists>h'. klist_run head h os = Some h' \<and> is_list h' head ys \<and> dom h' = dom h"
  using assms
proof (induction xs os arbitrary: h rule: klist_abs.induct)
  case (2 xs a os)
  then have "a \<notin> set (head # xs)" "a \<in> dom h" by (auto split: if_splits)
  from list_add_ok [OF "2.prems"(1) this] obtain h1 where
    "list_add h a head = Some h1" "is_list h1 head (a # xs)" "dom h1 = dom h" by blast
  with "2.IH" [of h1] "2.prems" show ?case by (auto split: if_splits)
next
  case (3 xs a os)
  then have "a \<notin> set (head # xs)" "a \<in> dom h" by (auto split: if_splits)
  from list_add_tail_ok [OF "3.prems"(1) this] obtain h1 where
    "list_add_tail h a head = Some h1" "is_list h1 head (xs @ [a])" "dom h1 = dom h" by blast
  with "3.IH" [of h1] "3.prems" show ?case by (auto split: if_splits)
next
  case (4 xs a os)
  then have "a \<in> set xs" by (auto split: if_splits)
  then obtain ps qs where xs: "xs = ps @ a # qs" "a \<notin> set ps" by (meson split_list_first)
  then have r: "remove1 a xs = ps @ qs" by (simp add: remove1_append)
  from list_del_ok [OF "4.prems"(1) [unfolded xs(1)]] obtain h1 where
    "list_del h a = Some h1" "is_list h1 head (ps @ qs)" "dom h1 = dom h" by blast
  with "4.IH" [of h1] "4.prems" r \<open>a \<in> set xs\<close> show ?case by auto
qed simp

text \<open>The body that takes the entry it is at out of the list and notes it.\<close>

definition del_entry :: "addr \<Rightarrow> lheap \<Rightarrow> addr list \<Rightarrow> (lheap \<times> addr list) option" where
  "del_entry a h s = do { h \<leftarrow> list_del h a; Some (h, s @ [a]) }"

lemma for_each_safe_del:
  assumes "is_list h head (x # xs)"
  shows "\<exists>h'. for_each_safe_from del_entry head x (hd (xs @ [head])) h s = Some (h', s @ x # xs)
    \<and> is_list h' head [] \<and> dom h' = dom h
    \<and> (\<forall>e \<in> set (x # xs). h' e = Some \<lparr>lh_next = LIST_POISON1, lh_prev = LIST_POISON2\<rparr>)
    \<and> (\<forall>y. y \<notin> set (head # x # xs) \<longrightarrow> lh_nx h' y = lh_nx h y \<and> lh_pv h' y = lh_pv h y)"
  using assms
proof (induction xs arbitrary: x h s)
  case (Nil x h s)
  from ring_distinct [OF Nil [unfolded is_list_def]] have "x \<noteq> head" by auto
  from list_del_ok [of h head "[]" x "[]"] Nil obtain h1 where h1:
    "list_del h x = Some h1" "is_list h1 head []" "dom h1 = dom h"
    "h1 x = Some \<lparr>lh_next = LIST_POISON1, lh_prev = LIST_POISON2\<rparr>"
    "\<forall>y. y \<notin> set [head, x] \<longrightarrow> lh_nx h1 y = lh_nx h y \<and> lh_pv h1 y = lh_pv h y" by auto
  from h1(2) obtain m where "h1 head = Some m" "lh_next m = hd ([] @ [head])" by (rule is_list_head)
  with h1 \<open>x \<noteq> head\<close> show ?case
    by (subst for_each_safe_from.simps) (auto simp: del_entry_def for_each_safe_from.simps)
next
  case (Cons y xs x h s)
  from ring_distinct [OF Cons.prems [unfolded is_list_def]] have d: "distinct (head # x # y # xs)" .
  from list_del_ok [of h head "[]" x "y # xs"] Cons.prems obtain h1 where h1:
    "list_del h x = Some h1" "is_list h1 head (y # xs)" "dom h1 = dom h"
    "h1 x = Some \<lparr>lh_next = LIST_POISON1, lh_prev = LIST_POISON2\<rparr>"
    "\<forall>z. z \<notin> set (head # x # y # xs) \<longrightarrow> lh_nx h1 z = lh_nx h z \<and> lh_pv h1 z = lh_pv h z" by auto
  have "links (lh_nx h1) (lh_pv h1) (y # xs @ [head])" using is_list_links [OF h1(2)] by simp
  then have "lh_nx h1 y = Some (hd (xs @ [head]))" by (simp add: links_Cons)
  then obtain m where m: "h1 y = Some m" "lh_next m = hd (xs @ [head])" by (auto simp: lh_nx_def)
  from Cons.IH [OF h1(2), of "s @ [x]"] obtain h' where h':
    "for_each_safe_from del_entry head y (hd (xs @ [head])) h1 (s @ [x]) = Some (h', (s @ [x]) @ y # xs)"
    "is_list h' head []" "dom h' = dom h1"
    "\<forall>e \<in> set (y # xs). h' e = Some \<lparr>lh_next = LIST_POISON1, lh_prev = LIST_POISON2\<rparr>"
    "\<forall>z. z \<notin> set (head # y # xs) \<longrightarrow> lh_nx h' z = lh_nx h1 z \<and> lh_pv h' z = lh_pv h1 z" by blast
  have x: "lh_nx h' x = lh_nx h1 x" "lh_pv h' x = lh_pv h1 x" using h'(5) d by auto
  with h1(4) have "h' x = Some \<lparr>lh_next = LIST_POISON1, lh_prev = LIST_POISON2\<rparr>"
    by (cases "h' x") (auto simp: lh_nx_def lh_pv_def)
  moreover have "for_each_safe_from del_entry head x y h s = Some (h', s @ x # y # xs)"
    using h1(1) h'(1) m d by (subst for_each_safe_from.simps) (simp add: del_entry_def)
  ultimately show ?case using h1 h' d by auto
qed

subsection \<open>Properties\<close>

text \<open>
  C3. Any sequence of \<open>list_add\<close>, \<open>list_add_tail\<close> and \<open>list_del\<close> on a list, in
  which no entry is added twice and only entries of the list are taken out, has a result, and
  leaves the ring of exactly the entries, in exactly the order, that the same sequence of list
  operations gives. No other address becomes live or dead.
\<close>

theorem klist_ops_refine_lists:
  assumes "is_list h head xs" and "klist_abs xs os = Some ys"
    and "\<forall>op \<in> set os. klist_entry op \<in> dom h - {head}"
  shows "\<exists>h'. klist_run head h os = Some h' \<and> is_list h' head ys \<and> dom h' = dom h"
  using assms by (rule klist_run_abs)

theorem klist_ops_refine_lists_witness:
  "\<exists>h'. klist_run 1 [1 \<mapsto> \<lparr>lh_next = 1, lh_prev = 1\<rparr>, 2 \<mapsto> \<lparr>lh_next = 0, lh_prev = 0\<rparr>,
      3 \<mapsto> \<lparr>lh_next = 0, lh_prev = 0\<rparr>, 4 \<mapsto> \<lparr>lh_next = 0, lh_prev = 0\<rparr>]
      [LAdd 2, LAddTail 3, LAdd 4, LDel 2, LAddTail 2] = Some h' \<and> is_list h' 1 [4, 3, 2]"
proof -
  let ?h = "[1 \<mapsto> \<lparr>lh_next = 1, lh_prev = 1\<rparr>, 2 \<mapsto> \<lparr>lh_next = 0, lh_prev = 0\<rparr>,
      3 \<mapsto> \<lparr>lh_next = 0, lh_prev = 0\<rparr>, 4 \<mapsto> \<lparr>lh_next = 0, lh_prev = 0\<rparr>] :: lheap"
  have "is_list ?h 1 []" by (simp add: is_list_def ring_single lh_nx_def lh_pv_def)
  from klist_ops_refine_lists [OF this, of "[LAdd 2, LAddTail 3, LAdd 4, LDel 2, LAddTail 2]" "[4, 3, 2]"]
  show ?thesis by auto
qed

text \<open>
  \<open>list_splice\<close> puts all entries of one list, in order, in front of the entries of
  another, and changes nothing when the first is empty. It leaves the emptied head as it was,
  so a caller that wants to use it again has to initialise it.
\<close>

theorem list_splice_joins:
  assumes "is_list h list as" and "is_list h head bs" and "set (list # as) \<inter> set (head # bs) = {}"
  shows "\<exists>h'. list_splice h list head = Some h' \<and> is_list h' head (as @ bs) \<and> dom h' = dom h"
  using assms by (rule list_splice_ok)

theorem list_splice_joins_witness:
  "\<exists>h'. list_splice [1 \<mapsto> \<lparr>lh_next = 2, lh_prev = 3\<rparr>, 2 \<mapsto> \<lparr>lh_next = 3, lh_prev = 1\<rparr>,
      3 \<mapsto> \<lparr>lh_next = 1, lh_prev = 2\<rparr>, 4 \<mapsto> \<lparr>lh_next = 5, lh_prev = 5\<rparr>,
      5 \<mapsto> \<lparr>lh_next = 4, lh_prev = 4\<rparr>] 1 4 = Some h' \<and> is_list h' 4 [2, 3, 5]"
proof -
  let ?h = "[1 \<mapsto> \<lparr>lh_next = 2, lh_prev = 3\<rparr>, 2 \<mapsto> \<lparr>lh_next = 3, lh_prev = 1\<rparr>,
      3 \<mapsto> \<lparr>lh_next = 1, lh_prev = 2\<rparr>, 4 \<mapsto> \<lparr>lh_next = 5, lh_prev = 5\<rparr>,
      5 \<mapsto> \<lparr>lh_next = 4, lh_prev = 4\<rparr>] :: lheap"
  have "is_list ?h 1 [2, 3]" and "is_list ?h 4 [5]"
    by (simp_all add: is_list_def ring_def lh_nx_def lh_pv_def)
  from list_splice_joins [OF this] show ?thesis by auto
qed

text \<open>
  C5. A walk with \<open>list_for_each_safe\<close> whose body takes the entry it is at out of the
  list ends, visits every entry once and in order, and leaves the head alone with every entry
  poisoned.
\<close>

theorem list_for_each_safe_removes_all:
  assumes "is_list h head xs"
  shows "\<exists>h'. list_for_each_safe del_entry head h [] = Some (h', xs)
    \<and> is_list h' head [] \<and> dom h' = dom h
    \<and> (\<forall>e \<in> set xs. h' e = Some \<lparr>lh_next = LIST_POISON1, lh_prev = LIST_POISON2\<rparr>)"
proof -
  obtain n where n: "h head = Some n" "lh_next n = hd (xs @ [head])" using assms by (rule is_list_head)
  show ?thesis
  proof (cases xs)
    case Nil
    with n assms show ?thesis by (simp add: list_for_each_safe_def for_each_safe_from.simps)
  next
    case (Cons x ys)
    have "links (lh_nx h) (lh_pv h) (x # ys @ [head])" using is_list_links [OF assms] Cons by simp
    then have "lh_nx h x = Some (hd (ys @ [head]))" by (simp add: links_Cons)
    then obtain m where "h x = Some m" "lh_next m = hd (ys @ [head])" by (auto simp: lh_nx_def)
    with n Cons for_each_safe_del [OF assms [unfolded Cons], of "[]"] show ?thesis
      by (auto simp: list_for_each_safe_def)
  qed
qed

theorem list_for_each_safe_removes_all_witness:
  "\<exists>h'. list_for_each_safe del_entry 1 [1 \<mapsto> \<lparr>lh_next = 2, lh_prev = 3\<rparr>, 2 \<mapsto> \<lparr>lh_next = 3, lh_prev = 1\<rparr>,
      3 \<mapsto> \<lparr>lh_next = 1, lh_prev = 2\<rparr>] [] = Some (h', [2, 3]) \<and> is_list h' 1 []"
proof -
  have "is_list [1 \<mapsto> \<lparr>lh_next = 2, lh_prev = 3\<rparr>, 2 \<mapsto> \<lparr>lh_next = 3, lh_prev = 1\<rparr>,
      3 \<mapsto> \<lparr>lh_next = 1, lh_prev = 2\<rparr>] 1 [2, 3]"
    by (simp add: is_list_def ring_def lh_nx_def lh_pv_def)
  from list_for_each_safe_removes_all [OF this] show ?thesis by auto
qed

text \<open>
  The same body under \<open>list_for_each\<close> goes wrong on every list that is not empty: the
  walk follows the poisoned pointer of the entry just taken out, and dereferences it.
\<close>

theorem list_for_each_must_not_remove:
  assumes "is_list h head (x # xs)" and "LIST_POISON1 \<notin> dom h"
  shows "list_for_each del_entry head h s = None"
proof -
  obtain n where n: "h head = Some n" "lh_next n = x" using assms(1) by (rule is_list_head) simp
  have "x \<noteq> head" using ring_distinct [OF assms(1) [unfolded is_list_def]] by auto
  from list_del_ok [of h head "[]" x xs] assms(1) obtain h1 where h1: "list_del h x = Some h1" "dom h1 = dom h"
    "h1 x = Some \<lparr>lh_next = LIST_POISON1, lh_prev = LIST_POISON2\<rparr>" by auto
  have "h1 LIST_POISON1 = None" using assms(2) h1(2) by auto
  moreover have "head \<noteq> LIST_POISON1" using n assms(2) by auto
  ultimately have "for_each_from del_entry head LIST_POISON1 h1 (s @ [x]) = None"
    by (subst for_each_from.simps) (auto simp: del_entry_def list_del_def)
  then have "for_each_from del_entry head x h s = None"
    using h1 \<open>x \<noteq> head\<close> by (subst for_each_from.simps) (simp add: del_entry_def)
  with n show ?thesis by (simp add: list_for_each_def)
qed

theorem list_for_each_must_not_remove_witness:
  "list_for_each del_entry 1 [1 \<mapsto> \<lparr>lh_next = 2, lh_prev = 2\<rparr>, 2 \<mapsto> \<lparr>lh_next = 1, lh_prev = 1\<rparr>] [] = None"
proof -
  have "is_list [1 \<mapsto> \<lparr>lh_next = 2, lh_prev = 2\<rparr>, 2 \<mapsto> \<lparr>lh_next = 1, lh_prev = 1\<rparr>] 1 [2]"
    by (simp add: is_list_def ring_def lh_nx_def lh_pv_def)
  from list_for_each_must_not_remove [OF this] show ?thesis by (simp add: LIST_POISON1_def)
qed

text \<open>
  With a body that leaves the links alone, \<open>list_for_each\<close> ends after visiting every
  entry once from the first to the last, and \<open>list_for_each_r\<close> from the last to the first.
\<close>

theorem list_walks_visit_all:
  assumes "is_list h head xs" and "\<And>x s. x \<in> set xs \<Longrightarrow> body x h s = Some (h, f x s)"
  shows "list_for_each body head h s = Some (h, fold f xs s)
    \<and> list_for_each_r body head h s = Some (h, fold f (rev xs) s)"
proof
  show "list_for_each body head h s = Some (h, fold f xs s)"
    using assms(1) by (rule list_for_each_fold) (rule assms(2))
  show "list_for_each_r body head h s = Some (h, fold f (rev xs) s)"
    using assms(1) by (rule list_for_each_r_fold) (rule assms(2))
qed

theorem list_walks_visit_all_witness:
  "list_for_each_r (\<lambda>x h s. Some (h, s @ [x])) 1
      [1 \<mapsto> \<lparr>lh_next = 2, lh_prev = 3\<rparr>, 2 \<mapsto> \<lparr>lh_next = 3, lh_prev = 1\<rparr>, 3 \<mapsto> \<lparr>lh_next = 1, lh_prev = 2\<rparr>] []
    = Some ([1 \<mapsto> \<lparr>lh_next = 2, lh_prev = 3\<rparr>, 2 \<mapsto> \<lparr>lh_next = 3, lh_prev = 1\<rparr>,
        3 \<mapsto> \<lparr>lh_next = 1, lh_prev = 2\<rparr>], [3, 2])"
proof -
  have "is_list [1 \<mapsto> \<lparr>lh_next = 2, lh_prev = 3\<rparr>, 2 \<mapsto> \<lparr>lh_next = 3, lh_prev = 1\<rparr>,
      3 \<mapsto> \<lparr>lh_next = 1, lh_prev = 2\<rparr>] 1 [2, 3]"
    by (simp add: is_list_def ring_def lh_nx_def lh_pv_def)
  from list_walks_visit_all [OF this, of "\<lambda>x h s. Some (h, s @ [x])" "\<lambda>x s. s @ [x]"]
  show ?thesis by simp
qed

end
