(* ===== verification/Bytes.thy ===== *)
theory Bytes
  imports CPrelude
begin

section \<open>Bytes\<close>

text \<open>
  An \<open>unsigned char\<close> is a byte. What holds of the 256 bytes one by one holds of every byte;
  the tables of the checksums and of the base64 codec are compared with the code that way.
\<close>

unbundle bit_operations_syntax

type_synonym byte = "8 word"

definition all_bytes :: "byte list" where
  "all_bytes = [
    0, 1, 2, 3, 4, 5, 6, 7, 8, 9, 10, 11, 12, 13, 14, 15, 16, 17, 18, 19,
    20, 21, 22, 23, 24, 25, 26, 27, 28, 29, 30, 31, 32, 33, 34, 35, 36, 37, 38, 39,
    40, 41, 42, 43, 44, 45, 46, 47, 48, 49, 50, 51, 52, 53, 54, 55, 56, 57, 58, 59,
    60, 61, 62, 63, 64, 65, 66, 67, 68, 69, 70, 71, 72, 73, 74, 75, 76, 77, 78, 79,
    80, 81, 82, 83, 84, 85, 86, 87, 88, 89, 90, 91, 92, 93, 94, 95, 96, 97, 98, 99,
    100, 101, 102, 103, 104, 105, 106, 107, 108, 109, 110, 111, 112, 113, 114, 115, 116, 117, 118, 119,
    120, 121, 122, 123, 124, 125, 126, 127, 128, 129, 130, 131, 132, 133, 134, 135, 136, 137, 138, 139,
    140, 141, 142, 143, 144, 145, 146, 147, 148, 149, 150, 151, 152, 153, 154, 155, 156, 157, 158, 159,
    160, 161, 162, 163, 164, 165, 166, 167, 168, 169, 170, 171, 172, 173, 174, 175, 176, 177, 178, 179,
    180, 181, 182, 183, 184, 185, 186, 187, 188, 189, 190, 191, 192, 193, 194, 195, 196, 197, 198, 199,
    200, 201, 202, 203, 204, 205, 206, 207, 208, 209, 210, 211, 212, 213, 214, 215, 216, 217, 218, 219,
    220, 221, 222, 223, 224, 225, 226, 227, 228, 229, 230, 231, 232, 233, 234, 235, 236, 237, 238, 239,
    240, 241, 242, 243, 244, 245, 246, 247, 248, 249, 250, 251, 252, 253, 254, 255]"

lemma all_bytes_eq: "all_bytes = map of_nat [0..<256]"
  by code_simp

lemma unat_byte: "unat (b :: byte) < 256"
  using unsigned_less [of b] by simp

lemma all_bytes_nth: "all_bytes ! unat b = b"
  using unat_byte [of b] by (simp add: all_bytes_eq)

lemma length_all_bytes: "length all_bytes = 256"
  by (simp add: all_bytes_eq)

lemma byte_exhaustive: "list_all P all_bytes \<Longrightarrow> P b"
  using all_bytes_nth [of b] unat_byte [of b] by (metis length_all_bytes list_all_length)

text \<open>A function that a table of 256 entries lists.\<close>

lemma byte_table: "map f all_bytes = t \<Longrightarrow> t ! unat b = f b"
  using all_bytes_nth [of b] unat_byte [of b] by (auto simp: length_all_bytes)

text \<open>Reading a table of 256 entries by a byte never leaves it.\<close>

lemma rd_byte: "length t = 256 \<Longrightarrow> rd t (uint b) = Some (t ! unat (b :: byte))"
  using rd_of_nat [of t "unat b"] unat_byte [of b] by simp

text \<open>Exclusive or cancels.\<close>

lemma xor_cancel_right [simp]: "a XOR c = b XOR c \<longleftrightarrow> a = (b :: 'a::len word)"
  by (metis xor.assoc xor.right_neutral xor_self_eq)

lemma xor_cancel_left [simp]: "c XOR a = c XOR b \<longleftrightarrow> a = (b :: 'a::len word)"
  by (metis xor_cancel_right xor.commute)

end
