(* ===== verification/Checksum.thy ===== *)
theory Checksum
  imports Bytes "HOL-Library.Multiset"
begin

section \<open>Checksums (\<open>src/crc\<close>)\<close>

text \<open>
  \<open>crc8.c\<close> has a bitwise and a table-driven CRC-8, \<open>crc16.c\<close> the table-driven Modbus
  CRC-16, \<open>bcc.c\<close> an exclusive-or check. A buffer is the list of bytes from the pointer on; a
  read past its end has no result. The tables are copied from the code; the proofs compare
  them, entry by entry, with the polynomial division they stand for.
\<close>

subsection \<open>CRC-8\<close>

definition crc8_bit :: "byte \<Rightarrow> byte" where
  "crc8_bit crc = (if crc AND 0x80 \<noteq> 0 then push_bit 1 crc XOR 0x07 else push_bit 1 crc)"

text \<open>The inner loop, \<open>n\<close> rounds of it; the code runs eight.\<close>

primrec crc8_bits :: "nat \<Rightarrow> byte \<Rightarrow> byte" where
  "crc8_bits 0 crc = crc"
| "crc8_bits (Suc n) crc = crc8_bits n (crc8_bit crc)"

primrec crc8_loop :: "nat \<Rightarrow> byte list \<Rightarrow> byte \<Rightarrow> byte option" where
  "crc8_loop 0 p crc = Some crc"
| "crc8_loop (Suc len) p crc =
     (case p of [] \<Rightarrow> None | b # p \<Rightarrow> crc8_loop len p (crc8_bits 8 (crc XOR b)))"

definition crc8 :: "byte list \<Rightarrow> byte \<Rightarrow> byte option" where
  "crc8 p len = crc8_loop (unat len) p 0"

definition crc_array :: "byte list" where
  "crc_array = [
   0x00, 0x07, 0x0E, 0x09, 0x1C, 0x1B, 0x12, 0x15, 0x38, 0x3F,
   0x36, 0x31, 0x24, 0x23, 0x2A, 0x2D, 0x70, 0x77, 0x7E, 0x79,
   0x6C, 0x6B, 0x62, 0x65, 0x48, 0x4F, 0x46, 0x41, 0x54, 0x53,
   0x5A, 0x5D, 0xE0, 0xE7, 0xEE, 0xE9, 0xFC, 0xFB, 0xF2, 0xF5,
   0xD8, 0xDF, 0xD6, 0xD1, 0xC4, 0xC3, 0xCA, 0xCD, 0x90, 0x97,
   0x9E, 0x99, 0x8C, 0x8B, 0x82, 0x85, 0xA8, 0xAF, 0xA6, 0xA1,
   0xB4, 0xB3, 0xBA, 0xBD, 0xC7, 0xC0, 0xC9, 0xCE, 0xDB, 0xDC,
   0xD5, 0xD2, 0xFF, 0xF8, 0xF1, 0xF6, 0xE3, 0xE4, 0xED, 0xEA,
   0xB7, 0xB0, 0xB9, 0xBE, 0xAB, 0xAC, 0xA5, 0xA2, 0x8F, 0x88,
   0x81, 0x86, 0x93, 0x94, 0x9D, 0x9A, 0x27, 0x20, 0x29, 0x2E,
   0x3B, 0x3C, 0x35, 0x32, 0x1F, 0x18, 0x11, 0x16, 0x03, 0x04,
   0x0D, 0x0A, 0x57, 0x50, 0x59, 0x5E, 0x4B, 0x4C, 0x45, 0x42,
   0x6F, 0x68, 0x61, 0x66, 0x73, 0x74, 0x7D, 0x7A, 0x89, 0x8E,
   0x87, 0x80, 0x95, 0x92, 0x9B, 0x9C, 0xB1, 0xB6, 0xBF, 0xB8,
   0xAD, 0xAA, 0xA3, 0xA4, 0xF9, 0xFE, 0xF7, 0xF0, 0xE5, 0xE2,
   0xEB, 0xEC, 0xC1, 0xC6, 0xCF, 0xC8, 0xDD, 0xDA, 0xD3, 0xD4,
   0x69, 0x6E, 0x67, 0x60, 0x75, 0x72, 0x7B, 0x7C, 0x51, 0x56,
   0x5F, 0x58, 0x4D, 0x4A, 0x43, 0x44, 0x19, 0x1E, 0x17, 0x10,
   0x05, 0x02, 0x0B, 0x0C, 0x21, 0x26, 0x2F, 0x28, 0x3D, 0x3A,
   0x33, 0x34, 0x4E, 0x49, 0x40, 0x47, 0x52, 0x55, 0x5C, 0x5B,
   0x76, 0x71, 0x78, 0x7F, 0x6A, 0x6D, 0x64, 0x63, 0x3E, 0x39,
   0x30, 0x37, 0x22, 0x25, 0x2C, 0x2B, 0x06, 0x01, 0x08, 0x0F,
   0x1A, 0x1D, 0x14, 0x13, 0xAE, 0xA9, 0xA0, 0xA7, 0xB2, 0xB5,
   0xBC, 0xBB, 0x96, 0x91, 0x98, 0x9F, 0x8A, 0x8D, 0x84, 0x83,
   0xDE, 0xD9, 0xD0, 0xD7, 0xC2, 0xC5, 0xCC, 0xCB, 0xE6, 0xE1,
   0xE8, 0xEF, 0xFA, 0xFD, 0xF4, 0xF3]"

primrec crc8_table_loop :: "nat \<Rightarrow> byte list \<Rightarrow> byte \<Rightarrow> byte option" where
  "crc8_table_loop 0 p crc = Some crc"
| "crc8_table_loop (Suc len) p crc =
     (case p of [] \<Rightarrow> None
      | b # p \<Rightarrow> do { crc \<leftarrow> rd crc_array (uint (crc XOR b)); crc8_table_loop len p crc })"

definition crc8_table :: "byte list \<Rightarrow> byte \<Rightarrow> byte option" where
  "crc8_table p len = crc8_table_loop (unat len) p 0"

subsection \<open>CRC-16\<close>

definition table_crc_hi :: "byte list" where
  "table_crc_hi = [
   0x00, 0xC1, 0x81, 0x40, 0x01, 0xC0, 0x80, 0x41, 0x01, 0xC0,
   0x80, 0x41, 0x00, 0xC1, 0x81, 0x40, 0x01, 0xC0, 0x80, 0x41,
   0x00, 0xC1, 0x81, 0x40, 0x00, 0xC1, 0x81, 0x40, 0x01, 0xC0,
   0x80, 0x41, 0x01, 0xC0, 0x80, 0x41, 0x00, 0xC1, 0x81, 0x40,
   0x00, 0xC1, 0x81, 0x40, 0x01, 0xC0, 0x80, 0x41, 0x00, 0xC1,
   0x81, 0x40, 0x01, 0xC0, 0x80, 0x41, 0x01, 0xC0, 0x80, 0x41,
   0x00, 0xC1, 0x81, 0x40, 0x01, 0xC0, 0x80, 0x41, 0x00, 0xC1,
   0x81, 0x40, 0x00, 0xC1, 0x81, 0x40, 0x01, 0xC0, 0x80, 0x41,
   0x00, 0xC1, 0x81, 0x40, 0x01, 0xC0, 0x80, 0x41, 0x01, 0xC0,
   0x80, 0x41, 0x00, 0xC1, 0x81, 0x40, 0x00, 0xC1, 0x81, 0x40,
   0x01, 0xC0, 0x80, 0x41, 0x01, 0xC0, 0x80, 0x41, 0x00, 0xC1,
   0x81, 0x40, 0x01, 0xC0, 0x80, 0x41, 0x00, 0xC1, 0x81, 0x40,
   0x00, 0xC1, 0x81, 0x40, 0x01, 0xC0, 0x80, 0x41, 0x01, 0xC0,
   0x80, 0x41, 0x00, 0xC1, 0x81, 0x40, 0x00, 0xC1, 0x81, 0x40,
   0x01, 0xC0, 0x80, 0x41, 0x00, 0xC1, 0x81, 0x40, 0x01, 0xC0,
   0x80, 0x41, 0x01, 0xC0, 0x80, 0x41, 0x00, 0xC1, 0x81, 0x40,
   0x00, 0xC1, 0x81, 0x40, 0x01, 0xC0, 0x80, 0x41, 0x01, 0xC0,
   0x80, 0x41, 0x00, 0xC1, 0x81, 0x40, 0x01, 0xC0, 0x80, 0x41,
   0x00, 0xC1, 0x81, 0x40, 0x00, 0xC1, 0x81, 0x40, 0x01, 0xC0,
   0x80, 0x41, 0x00, 0xC1, 0x81, 0x40, 0x01, 0xC0, 0x80, 0x41,
   0x01, 0xC0, 0x80, 0x41, 0x00, 0xC1, 0x81, 0x40, 0x01, 0xC0,
   0x80, 0x41, 0x00, 0xC1, 0x81, 0x40, 0x00, 0xC1, 0x81, 0x40,
   0x01, 0xC0, 0x80, 0x41, 0x01, 0xC0, 0x80, 0x41, 0x00, 0xC1,
   0x81, 0x40, 0x00, 0xC1, 0x81, 0x40, 0x01, 0xC0, 0x80, 0x41,
   0x00, 0xC1, 0x81, 0x40, 0x01, 0xC0, 0x80, 0x41, 0x01, 0xC0,
   0x80, 0x41, 0x00, 0xC1, 0x81, 0x40]"

definition table_crc_lo :: "byte list" where
  "table_crc_lo = [
   0x00, 0xC0, 0xC1, 0x01, 0xC3, 0x03, 0x02, 0xC2, 0xC6, 0x06,
   0x07, 0xC7, 0x05, 0xC5, 0xC4, 0x04, 0xCC, 0x0C, 0x0D, 0xCD,
   0x0F, 0xCF, 0xCE, 0x0E, 0x0A, 0xCA, 0xCB, 0x0B, 0xC9, 0x09,
   0x08, 0xC8, 0xD8, 0x18, 0x19, 0xD9, 0x1B, 0xDB, 0xDA, 0x1A,
   0x1E, 0xDE, 0xDF, 0x1F, 0xDD, 0x1D, 0x1C, 0xDC, 0x14, 0xD4,
   0xD5, 0x15, 0xD7, 0x17, 0x16, 0xD6, 0xD2, 0x12, 0x13, 0xD3,
   0x11, 0xD1, 0xD0, 0x10, 0xF0, 0x30, 0x31, 0xF1, 0x33, 0xF3,
   0xF2, 0x32, 0x36, 0xF6, 0xF7, 0x37, 0xF5, 0x35, 0x34, 0xF4,
   0x3C, 0xFC, 0xFD, 0x3D, 0xFF, 0x3F, 0x3E, 0xFE, 0xFA, 0x3A,
   0x3B, 0xFB, 0x39, 0xF9, 0xF8, 0x38, 0x28, 0xE8, 0xE9, 0x29,
   0xEB, 0x2B, 0x2A, 0xEA, 0xEE, 0x2E, 0x2F, 0xEF, 0x2D, 0xED,
   0xEC, 0x2C, 0xE4, 0x24, 0x25, 0xE5, 0x27, 0xE7, 0xE6, 0x26,
   0x22, 0xE2, 0xE3, 0x23, 0xE1, 0x21, 0x20, 0xE0, 0xA0, 0x60,
   0x61, 0xA1, 0x63, 0xA3, 0xA2, 0x62, 0x66, 0xA6, 0xA7, 0x67,
   0xA5, 0x65, 0x64, 0xA4, 0x6C, 0xAC, 0xAD, 0x6D, 0xAF, 0x6F,
   0x6E, 0xAE, 0xAA, 0x6A, 0x6B, 0xAB, 0x69, 0xA9, 0xA8, 0x68,
   0x78, 0xB8, 0xB9, 0x79, 0xBB, 0x7B, 0x7A, 0xBA, 0xBE, 0x7E,
   0x7F, 0xBF, 0x7D, 0xBD, 0xBC, 0x7C, 0xB4, 0x74, 0x75, 0xB5,
   0x77, 0xB7, 0xB6, 0x76, 0x72, 0xB2, 0xB3, 0x73, 0xB1, 0x71,
   0x70, 0xB0, 0x50, 0x90, 0x91, 0x51, 0x93, 0x53, 0x52, 0x92,
   0x96, 0x56, 0x57, 0x97, 0x55, 0x95, 0x94, 0x54, 0x9C, 0x5C,
   0x5D, 0x9D, 0x5F, 0x9F, 0x9E, 0x5E, 0x5A, 0x9A, 0x9B, 0x5B,
   0x99, 0x59, 0x58, 0x98, 0x88, 0x48, 0x49, 0x89, 0x4B, 0x8B,
   0x8A, 0x4A, 0x4E, 0x8E, 0x8F, 0x4F, 0x8D, 0x4D, 0x4C, 0x8C,
   0x44, 0x84, 0x85, 0x45, 0x87, 0x47, 0x46, 0x86, 0x82, 0x42,
   0x43, 0x83, 0x41, 0x81, 0x80, 0x40]"

primrec crc16_loop :: "nat \<Rightarrow> byte list \<Rightarrow> byte \<Rightarrow> byte \<Rightarrow> (byte \<times> byte) option" where
  "crc16_loop 0 p crc_hi crc_lo = Some (crc_hi, crc_lo)"
| "crc16_loop (Suc len) p crc_hi crc_lo =
     (case p of [] \<Rightarrow> None
      | b # p \<Rightarrow> do {
          let i = uint (crc_hi XOR b);
          h \<leftarrow> rd table_crc_hi i;
          l \<leftarrow> rd table_crc_lo i;
          crc16_loop len p (crc_lo XOR h) l })"

definition crc16 :: "byte list \<Rightarrow> 16 word \<Rightarrow> 16 word option" where
  "crc16 p len = do {
     (crc_hi, crc_lo) \<leftarrow> crc16_loop (unat len) p 0xFF 0xFF;
     Some (push_bit 8 (ucast crc_hi) OR ucast crc_lo) }"

subsection \<open>Exclusive-or check\<close>

text \<open>
  \<open>char\<close> is signed, but \<open>^=\<close> on \<open>char\<close> gives the same eight bits as on bytes. The
  index and the length are \<open>int\<close>.
\<close>

partial_function (option) bcc_loop :: "byte list \<Rightarrow> int \<Rightarrow> int \<Rightarrow> byte \<Rightarrow> byte option" where
  "bcc_loop buf len i crc =
     (if i < len then do { b \<leftarrow> rd buf i; j \<leftarrow> i32 (i + 1); bcc_loop buf len j (crc XOR b) } else Some crc)"

definition bcc :: "byte list \<Rightarrow> int \<Rightarrow> byte option" where
  "bcc buf len = bcc_loop buf len 0 0"

subsection \<open>The tables\<close>

lemma crc8_bits_8: "crc8_bits 8 x = crc8_bit (crc8_bit (crc8_bit (crc8_bit (crc8_bit (crc8_bit (crc8_bit (crc8_bit x)))))))"
  by (simp add: eval_nat_numeral)

lemma crc_array_bits: "map (crc8_bits 8) all_bytes = crc_array"
  unfolding all_bytes_def crc_array_def by (simp add: crc8_bits_8 crc8_bit_def)

lemma rd_crc_array: "rd crc_array (uint b) = Some (crc8_bits 8 b)"
  using byte_table [OF crc_array_bits] rd_byte [of crc_array b] by (simp add: crc_array_def)

lemma crc8_table_loop_eq: "crc8_table_loop n p crc = crc8_loop n p crc"
  by (induction n arbitrary: p crc) (auto simp: rd_crc_array split: list.split)


subsection \<open>The Modbus CRC\<close>

text \<open>
  The reference: the reflected polynomial \<open>0xA001\<close> divided out bit by bit, least
  significant bit first, from the register \<open>0xFFFF\<close>.
\<close>

definition modbus_bit :: "16 word \<Rightarrow> 16 word" where
  "modbus_bit s = (if s AND 1 \<noteq> 0 then drop_bit 1 s XOR 0xA001 else drop_bit 1 s)"

primrec modbus_bits :: "nat \<Rightarrow> 16 word \<Rightarrow> 16 word" where
  "modbus_bits 0 s = s"
| "modbus_bits (Suc n) s = modbus_bits n (modbus_bit s)"

definition modbus_byte :: "byte \<Rightarrow> 16 word \<Rightarrow> 16 word" where
  "modbus_byte b s = modbus_bits 8 (s XOR ucast b)"

definition modbus_crc :: "byte list \<Rightarrow> 16 word" where
  "modbus_crc bs = fold modbus_byte bs 0xFFFF"

text \<open>The register as the code keeps it: \<open>crc_hi\<close> is its low byte.\<close>

definition pack :: "byte \<Rightarrow> byte \<Rightarrow> 16 word" where
  "pack hi lo = push_bit 8 (ucast lo) XOR ucast hi"

definition swap_bytes :: "16 word \<Rightarrow> 16 word" where
  "swap_bytes w = push_bit 8 w OR drop_bit 8 w"

lemma modbus_bit_linear: "modbus_bit (x XOR y) = modbus_bit x XOR modbus_bit y"
proof -
  have odd: "(z AND 1 \<noteq> 0) = bit z 0" for z :: "16 word"
    by (simp add: and_one_eq odd_iff_mod_2_eq_one bit_0)
  show ?thesis
    unfolding modbus_bit_def odd by (auto simp: bit_xor_iff drop_bit_xor ac_simps xor.assoc)
qed

lemma modbus_bits_linear: "modbus_bits n (x XOR y) = modbus_bits n x XOR modbus_bits n y"
  by (induction n arbitrary: x y) (simp_all add: modbus_bit_linear)

lemma modbus_bits_8: "modbus_bits 8 x = modbus_bit (modbus_bit (modbus_bit (modbus_bit (modbus_bit (modbus_bit
    (modbus_bit (modbus_bit x)))))))"
  by (simp add: eval_nat_numeral)

lemma modbus_bits_high: "map (\<lambda>b. modbus_bits 8 (push_bit 8 (ucast b))) all_bytes = map ucast all_bytes"
  unfolding all_bytes_def list.map by (simp add: modbus_bits_8 modbus_bit_def)

lemma modbus_bits_low: "map (\<lambda>b. modbus_bits 8 (ucast b)) all_bytes = map2 pack table_crc_hi table_crc_lo"
  unfolding all_bytes_def table_crc_hi_def table_crc_lo_def list.map
  by (simp add: modbus_bits_8 modbus_bit_def pack_def)

text \<open>Both tables together are one entry of the polynomial division.\<close>

lemma length_tables: "length table_crc_hi = 256" "length table_crc_lo = 256"
  by (simp_all add: table_crc_hi_def table_crc_lo_def)

lemma modbus_entry: "modbus_bits 8 (ucast (b :: byte)) = pack (table_crc_hi ! unat b) (table_crc_lo ! unat b)"
  using byte_table [OF modbus_bits_low, of b] unat_byte [of b] by (simp add: length_tables)

lemma modbus_shift: "modbus_bits 8 (push_bit 8 (ucast (b :: byte))) = ucast b"
  using byte_table [OF modbus_bits_high, of b] unat_byte [of b] by (simp add: length_all_bytes all_bytes_nth)

lemma modbus_step:
  "modbus_byte b (pack hi lo) = pack (lo XOR table_crc_hi ! unat (hi XOR b)) (table_crc_lo ! unat (hi XOR b))"
proof -
  have "pack hi lo XOR ucast b = push_bit 8 (ucast lo) XOR ucast (hi XOR b)"
    by (simp add: pack_def unsigned_xor_eq ac_simps)
  then have "modbus_byte b (pack hi lo) = ucast lo XOR modbus_bits 8 (ucast (hi XOR b))"
    by (simp add: modbus_byte_def modbus_bits_linear modbus_shift del: unsigned_xor_eq)
  then show ?thesis unfolding modbus_entry by (simp add: pack_def unsigned_xor_eq ac_simps)
qed

lemma crc16_loop_Cons [simp]:
  "crc16_loop (Suc n) (b # p) hi lo
    = crc16_loop n p (lo XOR table_crc_hi ! unat (hi XOR b)) (table_crc_lo ! unat (hi XOR b))"
  by (simp add: rd_byte length_tables)

lemma crc16_loop_modbus:
  "n \<le> length p \<Longrightarrow> \<exists>h l. crc16_loop n p hi lo = Some (h, l) \<and> pack h l = fold modbus_byte (take n p) (pack hi lo)"
proof (induction n arbitrary: p hi lo)
  case (Suc n)
  then obtain b q where "p = b # q" by (cases p) auto
  with Suc show ?case by (simp add: modbus_step del: crc16_loop.simps)
qed simp

lemma crc16_loop_short: "length p < n \<Longrightarrow> crc16_loop n p hi lo = None"
proof (induction n arbitrary: p hi lo)
  case (Suc n)
  then show ?case by (cases p) (auto simp del: crc16_loop.simps(2) simp: crc16_loop.simps(2) [of _ "[]"])
qed simp

lemma pack_init: "pack 0xFF 0xFF = 0xFFFF"
  by (simp add: pack_def)

lemma swap_pack: "push_bit 8 (ucast hi) OR ucast lo = swap_bytes (pack hi lo)"
proof (rule bit_word_eqI)
  fix n
  assume "n < LENGTH(16)"
  moreover have "bit (w :: byte) k \<Longrightarrow> k < 8" for w k using bit_imp_le_length [of w k] by simp
  ultimately show "bit (push_bit 8 (ucast hi) OR ucast lo :: 16 word) n = bit (swap_bytes (pack hi lo)) n"
    by (auto simp: bit_simps swap_bytes_def pack_def)
qed

lemma crc16_loop_append:
  "crc16_loop (length xs + n) (xs @ ys) hi lo
    = Option.bind (crc16_loop (length xs) xs hi lo) (\<lambda>(h, l). crc16_loop n ys h l)"
  by (induction xs arbitrary: hi lo) (simp_all del: crc16_loop.simps(2))

text \<open>
  The steps can be undone: whether the polynomial was subtracted shows in the bit that the
  shift has freed. So no two indices share an entry of \<open>table_crc_lo\<close> or of \<open>crc_array\<close>.
\<close>

definition modbus_unbit :: "16 word \<Rightarrow> 16 word" where
  "modbus_unbit s = (if s AND 0x8000 \<noteq> 0 then push_bit 1 (s XOR 0xA001) OR 1 else push_bit 1 s)"

definition modbus_unbyte :: "byte \<Rightarrow> byte" where
  "modbus_unbyte l = ucast (modbus_unbit (modbus_unbit (modbus_unbit (modbus_unbit (modbus_unbit (modbus_unbit
     (modbus_unbit (modbus_unbit (push_bit 8 (ucast l))))))))))"

lemma modbus_unbyte_table: "map modbus_unbyte table_crc_lo = all_bytes"
  unfolding all_bytes_def table_crc_lo_def list.map by (simp add: modbus_unbyte_def modbus_unbit_def)

lemma table_crc_lo_inj: "table_crc_lo ! unat a = table_crc_lo ! unat b \<longleftrightarrow> a = (b :: byte)"
proof -
  have "modbus_unbyte (table_crc_lo ! unat x) = x" for x :: byte
    using modbus_unbyte_table unat_byte [of x] all_bytes_nth [of x] by (metis length_tables(2) nth_map)
  then show ?thesis by metis
qed

definition crc8_unbit :: "byte \<Rightarrow> byte" where
  "crc8_unbit s = (if s AND 1 \<noteq> 0 then drop_bit 1 (s XOR 0x07) OR 0x80 else drop_bit 1 s)"

definition crc8_unbyte :: "byte \<Rightarrow> byte" where
  "crc8_unbyte x = crc8_unbit (crc8_unbit (crc8_unbit (crc8_unbit (crc8_unbit (crc8_unbit (crc8_unbit (crc8_unbit x)))))))"

lemma crc8_unbyte_table: "map crc8_unbyte crc_array = all_bytes"
  unfolding all_bytes_def crc_array_def list.map by (simp add: crc8_unbyte_def crc8_unbit_def)

lemma crc8_bits_inj: "crc8_bits 8 a = crc8_bits 8 b \<longleftrightarrow> a = b"
proof -
  have "crc8_unbyte (crc8_bits 8 x) = x" for x
    using crc8_unbyte_table unat_byte [of x] all_bytes_nth [of x] byte_table [OF crc_array_bits, of x]
    by (metis length_all_bytes length_map nth_map)
  then show ?thesis by metis
qed

subsection \<open>Error detection\<close>

lemma crc8_loop_append:
  "crc8_loop (length xs + n) (xs @ ys) crc = Option.bind (crc8_loop (length xs) xs crc) (crc8_loop n ys)"
  by (induction xs arbitrary: crc) simp_all

lemma crc8_loop_total: "crc8_loop n p crc = None \<longleftrightarrow> length p < n"
  by (induction n arbitrary: p crc) (auto split: list.split)

lemma crc8_loop_inj: "n \<le> length p \<Longrightarrow> crc8_loop n p c = crc8_loop n p d \<longleftrightarrow> c = d"
proof (induction n arbitrary: p c d)
  case (Suc n)
  then obtain b q where "p = b # q" by (cases p) auto
  with Suc show ?case by (simp add: crc8_bits_inj)
qed simp

lemma crc16_loop_inj:
  "n \<le> length p \<Longrightarrow> crc16_loop n p h l = crc16_loop n p h' l' \<longleftrightarrow> h = h' \<and> l = l'"
proof (induction n arbitrary: p h l h' l')
  case (Suc n)
  then obtain b q where "p = b # q" by (cases p) auto
  with Suc show ?case by (auto simp: table_crc_lo_inj simp del: crc16_loop.simps(2))
qed simp

lemma crc16_loop_two: "crc16_loop (Suc (Suc n)) (a # b # p) h l = crc16_loop n p
    (table_crc_lo ! unat (h XOR a) XOR table_crc_hi ! unat (l XOR table_crc_hi ! unat (h XOR a) XOR b))
    (table_crc_lo ! unat (l XOR table_crc_hi ! unat (h XOR a) XOR b))"
  by (simp add: xor.assoc del: crc16_loop.simps(2))

lemma crc16_loop_inj_two:
  assumes "n \<le> length p" and "crc16_loop (Suc (Suc n)) (a # b # p) h l = crc16_loop (Suc (Suc n)) (c # d # p) h l"
  shows "a = c \<and> b = d"
proof -
  from assms have
    1: "table_crc_lo ! unat (l XOR table_crc_hi ! unat (h XOR a) XOR b)
      = table_crc_lo ! unat (l XOR table_crc_hi ! unat (h XOR c) XOR d)" and
    2: "table_crc_lo ! unat (h XOR a) XOR table_crc_hi ! unat (l XOR table_crc_hi ! unat (h XOR a) XOR b)
      = table_crc_lo ! unat (h XOR c) XOR table_crc_hi ! unat (l XOR table_crc_hi ! unat (h XOR c) XOR d)"
    by (simp_all add: crc16_loop_two crc16_loop_inj del: crc16_loop.simps crc16_loop_Cons)
  from 1 have i: "l XOR table_crc_hi ! unat (h XOR a) XOR b = l XOR table_crc_hi ! unat (h XOR c) XOR d"
    by (simp only: table_crc_lo_inj)
  with 2 have "table_crc_lo ! unat (h XOR a) = table_crc_lo ! unat (h XOR c)" by simp
  then have "a = c" by (simp only: table_crc_lo_inj xor_cancel_left)
  with i show ?thesis by (simp add: xor.assoc)
qed

lemma bit_pair:
  "bit (push_bit 8 (ucast (x :: byte) :: 16 word) OR ucast (y :: byte)) k = (if k < 8 then bit y k else k < 16 \<and> bit x (k - 8))"
  using bit_imp_le_length [of y k] bit_imp_le_length [of x "k - 8"] by (auto simp: bit_simps)

lemma pair_high: "ucast (drop_bit 8 (push_bit 8 (ucast h :: 16 word) OR ucast l)) = (h :: byte)" for l :: byte
proof (rule bit_word_eqI)
  fix k assume "k < LENGTH(8)"
  then show "bit (ucast (drop_bit 8 (push_bit 8 (ucast h :: 16 word) OR ucast l)) :: byte) k = bit h k"
    by (simp only: bit_ucast_iff bit_drop_bit_eq comp_def bit_pair) simp
qed

lemma pair_low: "ucast (push_bit 8 (ucast h :: 16 word) OR ucast l) = (l :: byte)" for h :: byte
proof (rule bit_word_eqI)
  fix k assume "k < LENGTH(8)"
  then show "bit (ucast (push_bit 8 (ucast h :: 16 word) OR ucast l) :: byte) k = bit l k"
    by (simp only: bit_ucast_iff bit_pair) simp
qed

lemma crc16_eq_loop:
  assumes "unat len \<le> length p" and "unat len \<le> length q"
  shows "crc16 p len = crc16 q len \<longleftrightarrow> crc16_loop (unat len) p 0xFF 0xFF = crc16_loop (unat len) q 0xFF 0xFF"
proof -
  have inj: "push_bit 8 (ucast h :: 16 word) OR ucast l = push_bit 8 (ucast h') OR ucast l' \<longleftrightarrow> h = h' \<and> l = l'"
    for h l h' l' :: byte
    by (metis pair_high pair_low)
  obtain h l where 1: "crc16_loop (unat len) p 0xFF 0xFF = Some (h, l)"
    using crc16_loop_modbus [OF assms(1)] by blast
  obtain h' l' where "crc16_loop (unat len) q 0xFF 0xFF = Some (h', l')"
    using crc16_loop_modbus [OF assms(2)] by blast
  with 1 show ?thesis by (simp add: crc16_def inj)
qed

lemma bcc_loop_fold:
  "0 \<le> i \<Longrightarrow> int (nat len) \<le> int (length buf) \<Longrightarrow> in_i32 len \<Longrightarrow>
   bcc_loop buf len i crc = Some (fold (\<lambda>b c. c XOR b) (drop (nat i) (take (nat len) buf)) crc)"
proof (induction "nat (len - i)" arbitrary: i crc)
  case 0
  then show ?case by (subst bcc_loop.simps) simp
next
  case (Suc n)
  then have i: "i < len" and n: "n = nat (len - (i + 1))" by simp_all
  have "in_i32 (i + 1)" using Suc.prems i by (auto simp: in_i32_def)
  moreover have "rd buf i = Some (buf ! nat i)" using Suc.prems i by (simp add: c_simps)
  moreover have "drop (nat i) (take (nat len) buf) = buf ! nat i # drop (nat (i + 1)) (take (nat len) buf)"
    using Suc.prems i by (subst Cons_nth_drop_Suc [symmetric]) (simp_all add: nat_add_distrib)
  ultimately show ?case using Suc.hyps(1) [OF n] Suc.prems i by (subst bcc_loop.simps) (simp add: c_simps)
qed

lemma bcc_fold:
  "int (nat len) \<le> int (length buf) \<Longrightarrow> in_i32 len \<Longrightarrow> bcc buf len = Some (fold (\<lambda>b c. c XOR b) (take (nat len) buf) 0)"
  using bcc_loop_fold [of 0 len buf 0] by (simp add: bcc_def)

lemma fold_xor_mset: "mset xs = mset ys \<Longrightarrow> fold (\<lambda>b c. c XOR b) xs (c :: byte) = fold (\<lambda>b c. c XOR b) ys c"
  by (rule fold_permuted_eq [where P = "\<lambda>_. True"]) (auto simp: ac_simps)

lemma fold_xor_start: "fold (\<lambda>b c. c XOR b) xs (c :: byte) = c XOR fold (\<lambda>b c. c XOR b) xs 0"
proof (induction xs arbitrary: c)
  case (Cons x xs)
  from Cons [of "c XOR x"] Cons [of x] show ?case by (simp add: xor.assoc)
qed simp

lemma crc8_detects:
  assumes "a \<noteq> b" and "length xs + length ys + 1 < 2 ^ 8"
  shows "crc8 (xs @ a # ys) (of_nat (length xs + length ys + 1)) \<noteq> crc8 (xs @ b # ys) (of_nat (length xs + length ys + 1))"
proof -
  have n: "unat (of_nat (length xs + length ys + 1) :: byte) = length xs + Suc (length ys)"
    using assms(2) by (simp only: unat_of_nat) simp
  obtain s where "crc8_loop (length xs) xs 0 = Some s" using crc8_loop_total [of "length xs" xs 0] by auto
  then show ?thesis
    unfolding crc8_def n crc8_loop_append using assms(1) by (simp add: crc8_loop_inj crc8_bits_inj)
qed

lemma crc16_detects:
  assumes "c \<noteq> d \<or> e \<noteq> f" and "length xs + length ys + 2 < 2 ^ 16"
  shows "crc16 (xs @ c # e # ys) (of_nat (length xs + length ys + 2)) \<noteq> crc16 (xs @ d # f # ys) (of_nat (length xs + length ys + 2))"
proof -
  have n: "unat (of_nat (length xs + length ys + 2) :: 16 word) = length xs + Suc (Suc (length ys))"
    using assms(2) by (simp only: unat_of_nat) simp
  obtain h l where "crc16_loop (length xs) xs 0xFF 0xFF = Some (h, l)"
    using crc16_loop_modbus [of "length xs" xs] by blast
  then show ?thesis
    using assms(1) crc16_loop_inj_two [of "length ys" ys c e h l d f]
    by (subst crc16_eq_loop) (simp_all only: n crc16_loop_append length_append list.size, auto)
qed

subsection \<open>Properties\<close>

text \<open>
  C6. The table-driven \<open>crc8_table\<close> computes what the bitwise \<open>crc8\<close> computes, on every
  buffer and for every length, and both read past the buffer exactly when the length says so.
\<close>

theorem crc8_table_is_crc8:
  "crc8_table p len = crc8 p len \<and> (crc8 p len = None) = (length p < unat len)"
  by (simp add: crc8_def crc8_table_def crc8_table_loop_eq crc8_loop_total)

text \<open>
  C7. \<open>crc16\<close> is the Modbus CRC: the division of the message by the reflected polynomial
  \<open>0xA001\<close> bit by bit, started at \<open>0xFFFF\<close>, with the two bytes of the result exchanged, so
  that the high byte is the one sent first.
\<close>

theorem crc16_is_modbus:
  "crc16 p len = (if unat len \<le> length p then Some (swap_bytes (modbus_crc (take (unat len) p))) else None)"
proof (cases "unat len \<le> length p")
  case True
  from crc16_loop_modbus [OF True, of "0xFF" "0xFF"] obtain h l where
    "crc16_loop (unat len) p 0xFF 0xFF = Some (h, l)" "pack h l = modbus_crc (take (unat len) p)"
    unfolding pack_init modbus_crc_def by blast
  with True show ?thesis by (simp add: crc16_def swap_pack)
next
  case False
  then show ?thesis by (simp add: crc16_def crc16_loop_short)
qed

text \<open>
  A receiver can check a frame in one pass: the CRC of a message followed by its CRC, high
  byte first, is zero.
\<close>

theorem crc16_residue_zero:
  assumes "length p + 2 < 2 ^ 16" and "crc16 p (of_nat (length p)) = Some c"
  shows "crc16 (p @ [ucast (drop_bit 8 c), ucast c]) (of_nat (length p + 2)) = Some 0"
proof -
  have n: "unat (of_nat (length p) :: 16 word) = length p" "unat (of_nat (length p + 2) :: 16 word) = length p + 2"
    using assms(1) by (simp_all only: unat_of_nat) simp_all
  from assms(2) obtain h l where hl: "crc16_loop (length p) p 0xFF 0xFF = Some (h, l)"
    and c: "c = push_bit 8 (ucast h) OR ucast l"
    unfolding crc16_def n by (auto simp: bind_eq_Some_conv)
  have "ucast (drop_bit 8 c) = h" and "ucast c = l"
    unfolding c by (rule pair_high, rule pair_low)
  moreover have "crc16_loop 2 [h, l] h l = Some (0, 0)"
    by (simp add: numeral_2_eq_2 del: crc16_loop.simps(2)) (simp add: table_crc_hi_def table_crc_lo_def)
  ultimately show ?thesis
    unfolding crc16_def n crc16_loop_append [of p 2] hl by simp
qed

theorem crc16_residue_zero_witness:
  "crc16 [0x52, ucast (drop_bit 8 (0x3EBD :: 16 word)), ucast (0x3EBD :: 16 word)] 3 = Some 0"
proof -
  have "crc16 [0x52] 1 = Some 0x3EBD"
    by (simp add: crc16_def rd_def table_crc_hi_def table_crc_lo_def del: crc16_loop_Cons)
  from crc16_residue_zero [of "[0x52]" "0x3EBD"] this show ?thesis by simp
qed

text \<open>
  \<open>crc8\<close> tells two messages of the same length apart that differ in one byte, and
  \<open>crc16\<close> two that differ in one byte or in two adjacent bytes.
\<close>

theorem crc_detects_byte_errors:
  assumes "a \<noteq> b" and "length xs + length ys + 1 < 2 ^ 8"
    and "c \<noteq> d \<or> e \<noteq> f" and "length us + length vs + 2 < 2 ^ 16"
  shows "crc8 (xs @ a # ys) (of_nat (length xs + length ys + 1)) \<noteq> crc8 (xs @ b # ys) (of_nat (length xs + length ys + 1))
    \<and> crc16 (us @ c # e # vs) (of_nat (length us + length vs + 2)) \<noteq> crc16 (us @ d # f # vs) (of_nat (length us + length vs + 2))"
  using crc8_detects [OF assms(1,2)] crc16_detects [OF assms(3,4)] by blast

theorem crc_detects_byte_errors_witness:
  "crc8 [1, 2, 3] 3 \<noteq> crc8 [1, 9, 3] 3 \<and> crc16 [1, 2, 3, 4] 4 \<noteq> crc16 [1, 7, 8, 4] 4"
  using crc_detects_byte_errors [of 2 9 "[1]" "[3]" 2 7 3 8 "[1]" "[4]"] by simp

text \<open>
  \<open>bcc\<close> of a message followed by its check byte is zero, and it depends only on which
  bytes the message has and how often, so exchanged bytes go unnoticed.
\<close>

theorem bcc_check:
  assumes "in_i32 (int (length xs) + 1)" and "mset xs = mset ys"
  shows "bcc xs (int (length xs)) = bcc ys (int (length ys))
    \<and> bcc (xs @ [the (bcc xs (int (length xs)))]) (int (length xs) + 1) = Some 0"
proof -
  have l: "length xs = length ys" using assms(2) by (rule mset_eq_length)
  have i: "in_i32 (int (length xs))" using assms(1) by (simp add: in_i32_def)
  have x: "bcc xs (int (length xs)) = Some (fold (\<lambda>b c. c XOR b) xs 0)"
    and y: "bcc ys (int (length ys)) = Some (fold (\<lambda>b c. c XOR b) ys 0)"
    using bcc_fold [of "int (length xs)" xs] bcc_fold [of "int (length ys)" ys] i l by simp_all
  moreover have "bcc (xs @ [z]) (int (length xs) + 1) = Some (fold (\<lambda>b c. c XOR b) (xs @ [z]) 0)" for z
    using bcc_fold [of "int (length xs) + 1" "xs @ [z]"] assms(1) by (simp add: nat_add_distrib)
  ultimately show ?thesis using fold_xor_mset [OF assms(2)] by simp
qed

theorem bcc_check_witness:
  "bcc ([0x47, 0x4E, 0x4E] @ [the (bcc [0x47, 0x4E, 0x4E] 3)]) 4 = Some 0"
proof -
  have "in_i32 (int (length [0x47, 0x4E, 0x4E :: byte]) + 1)" by (simp add: in_i32_def)
  from conjunct2 [OF bcc_check [OF this, of "[0x4E, 0x47, 0x4E]"]] show ?thesis by (simp add: add_mset_commute)
qed

end
