(* ===== verification/CString.thy ===== *)
theory CString
  imports Bytes
begin

section \<open>Strings in memory\<close>

text \<open>
  A \<open>char *\<close> is the list of bytes from the pointer to the end of its buffer; the string at it
  is what comes before the first NUL. A library call that would run off the buffer, reading or
  writing, has no result. Positions are counted from the pointer.
\<close>

definition c_str :: "byte list \<Rightarrow> byte list" where
  "c_str p = takeWhile (\<lambda>b. b \<noteq> 0) p"

definition c_strlen :: "byte list \<Rightarrow> int option" where
  "c_strlen p = (if 0 \<in> set p then Some (int (length (c_str p))) else None)"

text \<open>\<open>isspace\<close> in the C locale: tab to carriage return, and the blank.\<close>

definition c_isspace :: "byte \<Rightarrow> bool" where
  "c_isspace b \<longleftrightarrow> b = 32 \<or> (9 \<le> b \<and> b \<le> 13)"

text \<open>\<open>strchr\<close>: the position of a character other than NUL, \<^term>\<open>Some None\<close> if there is none.\<close>

fun c_strchr :: "byte list \<Rightarrow> byte \<Rightarrow> nat option option" where
  "c_strchr [] ch = None"
| "c_strchr (b # p) ch =
     (if b = ch then Some (Some 0)
      else if b = 0 then Some None
      else map_option (map_option Suc) (c_strchr p ch))"

text \<open>Whether \<open>strncmp\<close> of two strings gives \<open>0\<close>.\<close>

fun c_strneq :: "byte list \<Rightarrow> byte list \<Rightarrow> nat \<Rightarrow> bool option" where
  "c_strneq p q 0 = Some True"
| "c_strneq [] q (Suc n) = None"
| "c_strneq (a # p) [] (Suc n) = None"
| "c_strneq (a # p) (b # q) (Suc n) = (if a \<noteq> b then Some False else if a = 0 then Some True else c_strneq p q n)"

text \<open>What \<open>strncpy\<close> writes: at most \<open>n\<close> bytes of the source, and NULs up to \<open>n\<close>.\<close>

fun c_ncpy_bytes :: "byte list \<Rightarrow> nat \<Rightarrow> byte list option" where
  "c_ncpy_bytes src 0 = Some []"
| "c_ncpy_bytes [] (Suc n) = None"
| "c_ncpy_bytes (b # src) (Suc n) =
     (if b = 0 then Some (replicate (Suc n) 0) else map_option ((#) b) (c_ncpy_bytes src n))"

definition c_strncpy :: "byte list \<Rightarrow> byte list \<Rightarrow> nat \<Rightarrow> byte list option" where
  "c_strncpy dst src n = do {
     bs \<leftarrow> c_ncpy_bytes src n;
     if n \<le> length dst then Some (bs @ drop n dst) else None }"

definition c_strcpy :: "byte list \<Rightarrow> byte list \<Rightarrow> byte list option" where
  "c_strcpy dst src =
     (if 0 \<in> set src \<and> length (c_str src) < length dst
      then Some (c_str src @ 0 # drop (Suc (length (c_str src))) dst) else None)"

text \<open>\<open>strcat\<close> writes over the NUL of the first string.\<close>

definition c_strcat :: "byte list \<Rightarrow> byte list \<Rightarrow> byte list option" where
  "c_strcat dst src = do {
     n \<leftarrow> c_strlen dst;
     tl \<leftarrow> c_strcpy (drop (nat n) dst) src;
     Some (take (nat n) dst @ tl) }"

text \<open>\<open>strstr\<close> with a literal that is not empty: the position of the first occurrence.\<close>

fun is_prefix :: "byte list \<Rightarrow> byte list \<Rightarrow> bool" where
  "is_prefix [] ys = True"
| "is_prefix (x # xs) [] = False"
| "is_prefix (x # xs) (y # ys) = (x = y \<and> is_prefix xs ys)"

fun find_sub :: "byte list \<Rightarrow> byte list \<Rightarrow> nat option" where
  "find_sub pat [] = None"
| "find_sub pat (y # ys) = (if is_prefix pat (y # ys) then Some 0 else map_option Suc (find_sub pat ys))"

definition c_strstr :: "byte list \<Rightarrow> byte list \<Rightarrow> nat option option" where
  "c_strstr p pat = (if 0 \<in> set p then Some (find_sub pat (c_str p)) else None)"

subsection \<open>Literals, case and numbers\<close>

text \<open>The bytes of a C literal, without its NUL.\<close>

definition lit :: "string \<Rightarrow> byte list" where
  "lit s = map of_char s"

text \<open>\<open>tolower\<close> and \<open>isdigit\<close> in the C locale.\<close>

definition c_tolower :: "byte \<Rightarrow> byte" where
  "c_tolower b = (if 65 \<le> b \<and> b \<le> 90 then b + 32 else b)"

definition c_isdigit :: "byte \<Rightarrow> bool" where
  "c_isdigit b \<longleftrightarrow> 48 \<le> b \<and> b \<le> 57"

text \<open>
  \<open>atoi\<close>: blanks, an optional sign, and digits up to the first other byte; undefined when
  the number does not fit \<open>int\<close>.
\<close>

definition dec_value :: "byte list \<Rightarrow> int" where
  "dec_value ds = foldl (\<lambda>n d. n * 10 + (uint d - 48)) 0 ds"

fun signed_value :: "byte list \<Rightarrow> int" where
  "signed_value [] = 0"
| "signed_value (b # s) =
     (if b = 45 then - dec_value (takeWhile c_isdigit s)
      else if b = 43 then dec_value (takeWhile c_isdigit s)
      else dec_value (takeWhile c_isdigit (b # s)))"

definition c_atoi :: "byte list \<Rightarrow> int option" where
  "c_atoi p = (if 0 \<in> set p then i32 (signed_value (dropWhile c_isspace (c_str p))) else None)"

text \<open>The value of a hexadecimal digit in either case.\<close>

definition hex_value :: "byte \<Rightarrow> nat option" where
  "hex_value b = (if 48 \<le> b \<and> b \<le> 57 then Some (unat b - 48)
     else if 65 \<le> b \<and> b \<le> 70 then Some (unat b - 55)
     else if 97 \<le> b \<and> b \<le> 102 then Some (unat b - 87) else None)"

lemma hex_value_less: "hex_value b = Some n \<Longrightarrow> n < 16"
  by (auto simp: hex_value_def word_le_nat_alt split: if_splits)

subsection \<open>Facts about strings\<close>

lemma c_str_append [simp]: "0 \<notin> set xs \<Longrightarrow> c_str (xs @ 0 # ys) = xs"
  unfolding c_str_def by (induction xs) auto

lemma c_strlen_append [simp]: "0 \<notin> set xs \<Longrightarrow> c_strlen (xs @ 0 # ys) = Some (int (length xs))"
  by (simp add: c_strlen_def)

lemma c_str_no_NUL: "0 \<notin> set (c_str p)"
  by (auto simp: c_str_def dest: set_takeWhileD)

lemma split_c_str: "0 \<in> set p \<Longrightarrow> \<exists>rest. p = c_str p @ 0 # rest"
proof -
  assume z: "0 \<in> set p"
  then have "dropWhile (\<lambda>b. b \<noteq> 0) p \<noteq> []" by (auto simp: dropWhile_eq_Nil_conv)
  then obtain b rest where d: "dropWhile (\<lambda>b. b \<noteq> 0) p = b # rest" by (cases "dropWhile (\<lambda>b. b \<noteq> 0) p") auto
  then have "b = 0" using hd_dropWhile [of "\<lambda>b. b \<noteq> 0" p] by simp
  then show ?thesis using takeWhile_dropWhile_id [of "\<lambda>b. b \<noteq> 0" p] d unfolding c_str_def by metis
qed

lemma c_strchr_str: "0 \<notin> set xs \<Longrightarrow> ch \<noteq> 0 \<Longrightarrow>
  c_strchr (xs @ 0 # ys) ch = Some (if ch \<in> set xs then Some (length (takeWhile (\<lambda>b. b \<noteq> ch) xs)) else None)"
  by (induction xs) auto

lemma c_ncpy_bytes_str: "0 \<notin> set xs \<Longrightarrow> c_ncpy_bytes (xs @ 0 # ys) n =
   Some (take n xs @ replicate (n - length xs) 0)"
proof (induction xs arbitrary: n)
  case Nil
  then show ?case by (cases n) auto
next
  case (Cons x xs)
  then show ?case by (cases n) auto
qed

lemma c_strneq_str: "0 \<notin> set xs \<Longrightarrow> 0 \<notin> set ks \<Longrightarrow>
  c_strneq (xs @ 0 # ys) (ks @ 0 # zs) (length ks) = Some (take (length ks) xs = ks)"
proof (induction ks arbitrary: xs)
  case (Cons k ks)
  then show ?case by (cases xs) auto
qed simp

end
