(* ===== verification/Base64.thy ===== *)
theory Base64
  imports CString
begin

section \<open>Base64 (\<open>src/encode/base64.c\<close>)\<close>

text \<open>
  Buffers are lists of bytes. \<open>base64_encode\<close> reads from the list of bytes at \<open>in\<close> and
  writes into the caller's buffer \<open>out\<close>; \<open>base64_decode\<close> decodes a NUL-terminated string
  in place. A read or a write outside a buffer or a table has no result. The indices of
  \<open>ENC\<close> are computed on \<open>int\<close> in the code; none reaches 64, so eight bits hold them.
\<close>

definition ENC :: "byte list" where
  "ENC = map of_char ''ABCDEFGHIJKLMNOPQRSTUVWXYZabcdefghijklmnopqrstuvwxyz0123456789+/''"

definition PAD :: byte where
  "PAD = of_char CHR ''=''"

text \<open>The conversion of a \<open>long\<close> to \<open>int\<close> keeps the low 32 bits.\<close>

definition to_int :: "int \<Rightarrow> int" where
  "to_int x = (x + 2 ^ 31) mod 2 ^ 32 - 2 ^ 31"

definition put_enc :: "byte list \<Rightarrow> int \<Rightarrow> byte \<Rightarrow> byte list option" where
  "put_enc out pos k = do { c \<leftarrow> rd ENC (uint k); wr out pos c }"

text \<open>
  The loop of the encoder: \<open>inp\<close> is what is left of the input, \<open>n\<close> the counter \<open>inLen\<close>,
  \<open>pos\<close> the distance of \<open>out\<close> from its start.
\<close>

partial_function (option) enc_loop :: "byte list \<Rightarrow> int \<Rightarrow> byte list \<Rightarrow> int \<Rightarrow> (int \<times> byte list) option" where
  "enc_loop inp n out pos =
     (if n = 0 then Some (pos, out)
      else do {
        a \<leftarrow> rd inp 0;
        out \<leftarrow> put_enc out pos (drop_bit 2 a);
        n \<leftarrow> i32 (n - 1);
        if n = 0
        then do {
          out \<leftarrow> put_enc out (pos + 1) (push_bit 4 (a AND 0x3));
          out \<leftarrow> wr out (pos + 2) PAD;
          out \<leftarrow> wr out (pos + 3) PAD;
          Some (pos + 4, out) }
        else do {
          b \<leftarrow> rd inp 1;
          out \<leftarrow> put_enc out (pos + 1) (push_bit 4 (a AND 0x3) OR drop_bit 4 b);
          n \<leftarrow> i32 (n - 1);
          if n = 0
          then do {
            out \<leftarrow> put_enc out (pos + 2) (push_bit 2 (b AND 0xF));
            out \<leftarrow> wr out (pos + 3) PAD;
            Some (pos + 4, out) }
          else do {
            c \<leftarrow> rd inp 2;
            out \<leftarrow> put_enc out (pos + 2) (push_bit 2 (b AND 0xF) OR drop_bit 6 c);
            out \<leftarrow> put_enc out (pos + 3) (c AND 0x3F);
            n \<leftarrow> i32 (n - 1);
            enc_loop (drop 3 inp) n out (pos + 4) } } })"

definition base64_encode :: "byte list \<Rightarrow> int \<Rightarrow> byte list \<Rightarrow> (int \<times> byte list) option" where
  "base64_encode inp inLen out = do {
     (pos, out) \<leftarrow> enc_loop inp inLen out 0;
     Some (to_int pos, out) }"

subsection \<open>Decoding\<close>

definition dec_table :: "int list" where
  "dec_table = [
    0,0,0,0,0,0,0,0,0,0,0,0,
    0,0,0,0,0,0,0,0,0,0,0,0,
    0,0,0,0,0,0,0,0,0,0,0,0,
    0,0,0,0,0,0,0,62,0,0,0,
    63,52,53,54,55,56,57,58,
    59,60,61,0,0,0,0,0,0,0,0,
    1,2,3,4,5,6,7,8,9,10,11,12,
    13,14,15,16,17,18,19,20,21,
    22,23,24,25,0,0,0,0,0,0,26,
    27,28,29,30,31,32,33,34,35,
    36,37,38,39,40,41,42,43,44,
    45,46,47,48,49,50,51]"

text \<open>\<open>(unsigned char)table[code[i]]\<close>\<close>

definition digit :: "byte list \<Rightarrow> int \<Rightarrow> byte option" where
  "digit code i = do { c \<leftarrow> rd code i; v \<leftarrow> rd dec_table (uint c); Some (word_of_int v) }"

partial_function (option) dec_loop :: "byte list \<Rightarrow> int \<Rightarrow> int \<Rightarrow> int \<Rightarrow> byte list option" where
  "dec_loop code len i j =
     (if i < len - 2
      then do {
        x \<leftarrow> digit code i;
        y \<leftarrow> digit code (i + 1);
        code \<leftarrow> wr code j (push_bit 2 x OR drop_bit 4 y);
        y \<leftarrow> digit code (i + 1);
        z \<leftarrow> digit code (i + 2);
        code \<leftarrow> wr code (j + 1) (push_bit 4 y OR drop_bit 2 z);
        z \<leftarrow> digit code (i + 2);
        w \<leftarrow> digit code (i + 3);
        code \<leftarrow> wr code (j + 2) (push_bit 6 z OR w);
        j \<leftarrow> i32 (j + 3);
        i \<leftarrow> i32 (i + 4);
        dec_loop code len i j }
      else Some code)"

definition base64_decode :: "byte list \<Rightarrow> (int \<times> byte list) option" where
  "base64_decode code = do {
     len \<leftarrow> c_strlen code;
     let outlen =
       (if find_sub [PAD, PAD] (c_str code) \<noteq> None then len div 4 * 3 - 2
        else if find_sub [PAD] (c_str code) \<noteq> None then len div 4 * 3 - 1
        else len div 4 * 3);
     code \<leftarrow> dec_loop code len 0 0;
     Some (to_int outlen, code) }"

subsection \<open>The encoding of RFC 4648\<close>

text \<open>
  Three bytes are a number of 24 bits, read as four digits to the base 64. The digits are the
  letters \<open>A\<close> to \<open>Z\<close>, the letters \<open>a\<close> to \<open>z\<close>, the figures \<open>0\<close> to \<open>9\<close>, \<open>+\<close> and \<open>/\<close>, in
  that order, here by their ASCII codes.
\<close>

definition b64_char :: "nat \<Rightarrow> byte" where
  "b64_char k = (let d = k mod 64 in
     word_of_nat (if d < 26 then 65 + d else if d < 52 then 97 + (d - 26) else if d < 62 then 48 + (d - 52)
       else if d = 62 then 43 else 47))"

fun b64 :: "byte list \<Rightarrow> byte list" where
  "b64 [] = []"
| "b64 [a] = (let v = unat a * 2 ^ 16 in [b64_char (v div 2 ^ 18), b64_char (v div 2 ^ 12), PAD, PAD])"
| "b64 [a, b] = (let v = unat a * 2 ^ 16 + unat b * 2 ^ 8
     in [b64_char (v div 2 ^ 18), b64_char (v div 2 ^ 12), b64_char (v div 2 ^ 6), PAD])"
| "b64 (a # b # c # bs) = (let v = unat a * 2 ^ 16 + unat b * 2 ^ 8 + unat c
     in [b64_char (v div 2 ^ 18), b64_char (v div 2 ^ 12), b64_char (v div 2 ^ 6), b64_char v] @ b64 bs)"

lemma length_b64: "length (b64 bs) = 4 * ((length bs + 2) div 3)"
proof (induction bs rule: b64.induct)
  case (4 a b c bs)
  have "(length (a # b # c # bs) + 2) div 3 = Suc ((length bs + 2) div 3)" by simp
  with 4 show ?case by (simp add: Let_def)
qed (simp_all add: Let_def)

lemma length_ENC: "length ENC = 64"
  by (simp add: ENC_def)

text \<open>The table of the code is that alphabet.\<close>

lemma ENC_b64_chars: "ENC = map b64_char [0..<64]"
  by (simp add: ENC_def b64_char_def Let_def upt_rec)

lemma ENC_nth: "ENC ! (v mod 64) = b64_char v"
proof -
  have "ENC ! (v mod 64) = map b64_char [0..<64] ! (v mod 64)" by (simp only: ENC_b64_chars)
  also have "\<dots> = b64_char (v mod 64)" by simp
  finally show ?thesis by (simp add: b64_char_def)
qed

text \<open>Each byte the code computes is a digit of that number.\<close>

lemma unat_low:
  "unat (a AND 0x3 :: byte) = unat a mod 4" "unat (a AND 0xF :: byte) = unat a mod 16"
  "unat (a AND 0x3F :: byte) = unat a mod 64"
proof -
  have "a AND 0x3 = a mod 4" "a AND 0xF = a mod 16" "a AND 0x3F = a mod 64"
    using take_bit_eq_mask [of 2 a] take_bit_eq_mask [of 4 a] take_bit_eq_mask [of 6 a]
    by (simp_all add: mask_eq_exp_minus_1 take_bit_eq_mod)
  then show "unat (a AND 0x3 :: byte) = unat a mod 4" "unat (a AND 0xF :: byte) = unat a mod 16"
  "unat (a AND 0x3F :: byte) = unat a mod 64"
    by (simp_all add: unat_mod_distrib)
qed

lemma bit_small: "unat (x :: byte) < 2 ^ k \<Longrightarrow> bit x n \<Longrightarrow> n < k"
proof (rule ccontr)
  assume a: "unat x < 2 ^ k" "bit x n" "\<not> n < k"
  then have "bit (take_bit k (unat x)) n" by (simp add: bit_unsigned_iff take_bit_nat_eq_self)
  with a(3) show False by (simp add: bit_take_bit_iff)
qed

text \<open>A shifted byte and one that fits below it do not overlap.\<close>

lemma unat_join:
  assumes "unat x * 2 ^ k + unat y < 256" and "unat (y :: byte) < 2 ^ k"
  shows "unat (push_bit k x OR y) = unat x * 2 ^ k + unat y"
proof -
  have "push_bit k x AND y = 0"
    using bit_small [OF assms(2)] by (intro bit_word_eqI) (fastforce simp: bit_simps)
  then have "push_bit k x OR y = push_bit k x + y" by (simp add: disjunctive_add_eq_or)
  moreover have "unat (push_bit k x) = unat x * 2 ^ k"
    using assms(1) by (simp only: unsigned_push_bit_eq) (simp add: take_bit_nat_eq_self push_bit_eq_mult)
  ultimately show ?thesis using assms(1) by (simp add: unat_plus_if')
qed

lemma unat_drop: "unat (drop_bit k (b :: byte)) = unat b div 2 ^ k"
  by (simp only: unat_drop_bit_eq) (simp add: drop_bit_eq_div)

lemma unat_digits:
  "unat (drop_bit 2 a) = unat a div 4"
  "unat (push_bit 4 (a AND 0x3)) = unat a mod 4 * 16"
  "unat (push_bit 4 (a AND 0x3) OR drop_bit 4 b) = unat a mod 4 * 16 + unat b div 16"
  "unat (push_bit 2 (b AND 0xF)) = unat b mod 16 * 4"
  "unat (push_bit 2 (b AND 0xF) OR drop_bit 6 c) = unat b mod 16 * 4 + unat c div 64"
  "unat (c AND 0x3F) = unat c mod 64" for a b c :: byte
proof -
  have m: "unat a mod 4 < 4" "unat b mod 16 < 16" by simp_all
  have d: "unat b div 16 < 16" "unat c div 64 < 4"
    using unat_byte [of b] unat_byte [of c] by (simp_all add: less_mult_imp_div_less)
  show "unat (drop_bit 2 a) = unat a div 4" by (simp add: unat_drop)
  show "unat (push_bit 4 (a AND 0x3)) = unat a mod 4 * 16"
    using unat_join [of "a AND 0x3" 4 0] m by (simp add: unat_low)
  show "unat (push_bit 4 (a AND 0x3) OR drop_bit 4 b) = unat a mod 4 * 16 + unat b div 16"
    using unat_join [of "a AND 0x3" 4 "drop_bit 4 b"] m d by (simp add: unat_low unat_drop)
  show "unat (push_bit 2 (b AND 0xF)) = unat b mod 16 * 4"
    using unat_join [of "b AND 0xF" 2 0] m by (simp add: unat_low)
  show "unat (push_bit 2 (b AND 0xF) OR drop_bit 6 c) = unat b mod 16 * 4 + unat c div 64"
    using unat_join [of "b AND 0xF" 2 "drop_bit 6 c"] m d by (simp add: unat_low unat_drop)
qed (simp add: unat_low)

lemma put_enc_ok:
  assumes "unat k = v mod 64" and "0 \<le> pos" and "pos < int (length out)"
  shows "put_enc out pos k = Some (out[nat pos := b64_char v])"
proof -
  have "rd ENC (uint k) = Some (ENC ! (v mod 64))"
  proof -
    have "uint k = int (v mod 64)" using assms(1) by (metis of_nat_unat)
    then show ?thesis by (simp only: rd_of_nat) (simp add: length_ENC)
  qed
  with assms(2,3) show ?thesis by (simp add: put_enc_def c_simps ENC_nth)
qed

lemma mod_join: "y < k \<Longrightarrow> (x * k + y) mod (k * m) = x mod m * k + (y :: nat)"
  using mod_mult2_eq [of "x * k + y" k m] by simp

text \<open>The digits of the number three bytes make.\<close>

lemma digits_of:
  fixes a b c :: byte
  defines "v \<equiv> unat a * 2 ^ 16 + unat b * 2 ^ 8 + unat c"
  shows "unat a div 4 = v div 2 ^ 18 mod 64" and "unat a mod 4 * 16 + unat b div 16 = v div 2 ^ 12 mod 64"
    and "unat b mod 16 * 4 + unat c div 64 = v div 2 ^ 6 mod 64" and "unat c mod 64 = v mod 64"
proof -
  have b: "unat a < 256" "unat b < 256" "unat c < 256" by (rule unat_byte)+
  then have v: "v div 2 ^ 8 = unat a * 256 + unat b" unfolding v_def by simp
  show "unat a div 4 = v div 2 ^ 18 mod 64" using b unfolding v_def by simp
  have "v div 2 ^ 12 = (unat a * 256 + unat b) div 16" unfolding v [symmetric] div_mult2_eq [symmetric] by simp
  also have "\<dots> = unat a * 16 + unat b div 16" by simp
  finally have "v div 2 ^ 12 = unat a * 16 + unat b div 16" .
  moreover have "unat b div 16 < 16" using b(2) by simp
  then have "(unat a * 16 + unat b div 16) mod 64 = unat a mod 4 * 16 + unat b div 16"
    using mod_join [of "unat b div 16" 16 "unat a" 4] by simp
  ultimately show "unat a mod 4 * 16 + unat b div 16 = v div 2 ^ 12 mod 64" by simp
  let ?x = "unat a * 256 + unat b"
  have "v div 2 ^ 6 = ?x * 4 + unat c div 64" unfolding v_def by simp
  moreover have "unat c div 64 < 4" using b(3) by simp
  then have "(?x * 4 + unat c div 64) mod 64 = ?x mod 16 * 4 + unat c div 64"
    using mod_join [of "unat c div 64" 4 ?x 16] by simp
  moreover have "?x mod 16 = unat b mod 16" using mod_mult_self1 [of "unat b" "unat a * 16" 16] by (simp add: ac_simps)
  ultimately show "unat b mod 16 * 4 + unat c div 64 = v div 2 ^ 6 mod 64" by simp
  show "unat c mod 64 = v mod 64"
    using mod_mult_self1 [of "unat c" "unat a * 2 ^ 10 + unat b * 4" 64] unfolding v_def by (simp add: algebra_simps)
qed

lemma put_digits:
  fixes a b c :: byte
  assumes "0 \<le> pos" and "pos < int (length out)"
  shows "put_enc out pos (drop_bit 2 a)
      = Some (out[nat pos := b64_char ((unat a * 2 ^ 16 + unat b * 2 ^ 8 + unat c) div 2 ^ 18)])"
    and "put_enc out pos (push_bit 4 (a AND 0x3) OR drop_bit 4 b)
      = Some (out[nat pos := b64_char ((unat a * 2 ^ 16 + unat b * 2 ^ 8 + unat c) div 2 ^ 12)])"
    and "put_enc out pos (push_bit 2 (b AND 0xF) OR drop_bit 6 c)
      = Some (out[nat pos := b64_char ((unat a * 2 ^ 16 + unat b * 2 ^ 8 + unat c) div 2 ^ 6)])"
    and "put_enc out pos (c AND 0x3F)
      = Some (out[nat pos := b64_char (unat a * 2 ^ 16 + unat b * 2 ^ 8 + unat c)])"
  by (rule put_enc_ok [OF _ assms], simp only: unat_digits digits_of)+

text \<open>\<open>xs\<close> written into a buffer from position \<open>p\<close> on.\<close>

definition overlay :: "'a list \<Rightarrow> nat \<Rightarrow> 'a list \<Rightarrow> 'a list" where
  "overlay out p xs = take p out @ xs @ drop (p + length xs) out"

lemma overlay_four:
  "p + 4 \<le> length out \<Longrightarrow> out[p := w, Suc p := x, Suc (Suc p) := y, Suc (Suc (Suc p)) := z] = overlay out p [w, x, y, z]"
  unfolding overlay_def
  by (rule nth_equalityI)
    (auto simp: nth_append nth_list_update nth_Cons' not_less, rule arg_cong [where f = "nth out"], arith)

lemma overlay_overlay:
  "p + length xs + length ys \<le> length out \<Longrightarrow> overlay (overlay out p xs) (p + length xs) ys = overlay out p (xs @ ys)"
  by (simp add: overlay_def ac_simps)

lemma length_overlay: "p + length xs \<le> length out \<Longrightarrow> length (overlay out p xs) = length out"
  by (simp add: overlay_def)

lemma nat_int_plus: "nat (int p + 1) = Suc p" "nat (int p + 2) = Suc (Suc p)" "nat (int p + 3) = Suc (Suc (Suc p))"
  by simp_all

lemma enc_loop_b64:
  assumes "in_i32 (int (length bs))" and "p + length (b64 bs) \<le> length out"
  shows "enc_loop (bs @ rest) (int (length bs)) out (int p) = Some (int (p + length (b64 bs)), overlay out p (b64 bs))"
  using assms
proof (induction bs arbitrary: p out rule: b64.induct)
  case 1
  then show ?case by (simp add: enc_loop.simps overlay_def)
next
  case (2 a)
  then have "p + 4 \<le> length out" by (simp add: Let_def)
  moreover have "push_bit 4 (a AND 3) = push_bit 4 (a AND 3) OR drop_bit 4 0" by simp
  ultimately show ?case
    using put_digits(1) [where a = a and b = 0 and c = 0] put_digits(2) [where a = a and b = 0 and c = 0]
    by (subst enc_loop.simps) (simp add: c_simps in_i32_def nat_int_plus overlay_four Let_def)
next
  case (3 a b)
  then have "p + 4 \<le> length out" by (simp add: Let_def)
  moreover have "push_bit 2 (b AND 0xF) = push_bit 2 (b AND 0xF) OR drop_bit 6 0" by simp
  ultimately show ?case
    using put_digits(1) [where a = a and b = b and c = 0] put_digits(2) [where a = a and b = b and c = 0]
      put_digits(3) [where a = a and b = b and c = 0]
    by (subst enc_loop.simps) (simp add: c_simps in_i32_def nat_int_plus overlay_four Let_def)
next
  case (4 a b c bs)
  let ?v = "unat a * 2 ^ 16 + unat b * 2 ^ 8 + unat c"
  let ?q = "[b64_char (?v div 2 ^ 18), b64_char (?v div 2 ^ 12), b64_char (?v div 2 ^ 6), b64_char ?v]"
  have len: "p + 4 + length (b64 bs) \<le> length out" using "4.prems" by (simp add: Let_def)
  have i: "in_i32 (int (length bs))" "in_i32 (int (length bs) + 1)" "in_i32 (int (length bs) + 2)"
    "in_i32 (1 + int (length bs))" "in_i32 (2 + int (length bs))"
    using "4.prems" by (simp_all add: in_i32_def)
  have "enc_loop ((a # b # c # bs) @ rest) (int (length (a # b # c # bs))) out (int p)
      = enc_loop (bs @ rest) (int (length bs)) (overlay out p ?q) (int p + 4)"
    using len i put_digits [where a = a and b = b and c = c]
    by (subst enc_loop.simps) (simp add: c_simps nat_int_plus overlay_four)
  also have "\<dots> = enc_loop (bs @ rest) (int (length bs)) (overlay out p ?q) (int (p + 4))" by simp
  also have "\<dots> = Some (int (p + 4 + length (b64 bs)), overlay (overlay out p ?q) (p + 4) (b64 bs))"
    using len i by (intro "4.IH") (simp_all add: length_overlay)
  also have "overlay (overlay out p ?q) (p + 4) (b64 bs) = overlay out p (?q @ b64 bs)"
  proof -
    have "length ?q = 4" by simp
    from overlay_overlay [of p ?q "b64 bs" out, unfolded this] len show ?thesis by blast
  qed
  finally show ?case by (simp add: Let_def)
qed

subsection \<open>Decoding what was encoded\<close>

lemma dec_table_ENC: "map (\<lambda>c. rd dec_table (uint c)) ENC = map (\<lambda>k. Some (int k)) [0..<64]"
  by code_simp

lemma dec_table_PAD: "rd dec_table (uint PAD) = Some 0"
  by code_simp

lemma length_dec_table: "length dec_table = 123"
  by (simp add: dec_table_def)

lemma rd_dec_char: "rd dec_table (uint (b64_char v)) = Some (int (v mod 64))"
proof -
  have "map (\<lambda>c. rd dec_table (uint c)) ENC ! (v mod 64) = map (\<lambda>k. Some (int k)) [0..<64] ! (v mod 64)"
    unfolding dec_table_ENC ..
  then show ?thesis by (simp add: length_ENC ENC_nth)
qed

lemma digit_char:
  assumes "i < length code" and "code ! i = b64_char v" and "unat (k :: byte) = v mod 64"
  shows "digit code (int i) = Some k"
proof -
  have "word_of_int (int (v mod 64)) = k" unfolding assms(3) [symmetric] by simp
  with assms(1,2) show ?thesis by (simp add: digit_def rd_dec_char)
qed

lemma digit_PAD: "i < length code \<Longrightarrow> code ! i = PAD \<Longrightarrow> digit code (int i) = Some 0"
  by (simp add: digit_def dec_table_PAD)

lemma masks: "(0x3 :: byte) = mask 2" "(0xF :: byte) = mask 4" "(0x3F :: byte) = mask 6"
  by (simp_all add: mask_eq_exp_minus_1)

lemma undigits:
  "push_bit 2 (drop_bit 2 a) OR drop_bit 4 (push_bit 4 (a AND 0x3) OR drop_bit 4 b) = a"
  "push_bit 4 (push_bit 4 (a AND 0x3) OR drop_bit 4 b) OR drop_bit 2 (push_bit 2 (b AND 0xF) OR drop_bit 6 c) = b"
  "push_bit 6 (push_bit 2 (b AND 0xF) OR drop_bit 6 c) OR (c AND 0x3F) = c" for a b c :: byte
proof -
  have byte_eqI: "x = y" if "\<forall>n \<in> {0, 1, 2, 3, 4, 5, 6, 7}. bit x n = bit y n" for x y :: byte
  proof (rule bit_word_eqI)
    fix n :: nat
    assume "n < LENGTH(8)"
    then have "n \<in> {0, 1, 2, 3, 4, 5, 6, 7}" by auto
    with that show "bit x n = bit y n" by blast
  qed
  show "push_bit 2 (drop_bit 2 a) OR drop_bit 4 (push_bit 4 (a AND 0x3) OR drop_bit 4 b) = a"
    unfolding masks by (rule byte_eqI) (simp add: bit_simps, simp add: numeral_2_eq_2 numeral_3_eq_3)
  show "push_bit 4 (push_bit 4 (a AND 0x3) OR drop_bit 4 b) OR drop_bit 2 (push_bit 2 (b AND 0xF) OR drop_bit 6 c) = b"
    unfolding masks by (rule byte_eqI) (simp add: bit_simps)
  show "push_bit 6 (push_bit 2 (b AND 0xF) OR drop_bit 6 c) OR (c AND 0x3F) = c"
    unfolding masks by (rule byte_eqI) (simp add: bit_simps)
qed

text \<open>The decoder writes whole groups of three; what the padding leaves open is zero.\<close>

fun pad3 :: "byte list \<Rightarrow> byte list" where
  "pad3 [] = []"
| "pad3 [a] = [a, 0, 0]"
| "pad3 [a, b] = [a, b, 0]"
| "pad3 (a # b # c # bs) = a # b # c # pad3 bs"

lemma take_pad3: "take (length xs) (pad3 xs) = xs"
  by (induction xs rule: pad3.induct) simp_all

lemma length_pad3: "length (pad3 xs) = 3 * ((length xs + 2) div 3)"
proof (induction xs rule: pad3.induct)
  case (4 a b c bs)
  have "(length (a # b # c # bs) + 2) div 3 = Suc ((length bs + 2) div 3)" by simp
  with 4 show ?case by simp
qed simp_all

lemma length_pad3_le: "length (pad3 xs) \<le> length (b64 xs)"
  by (simp add: length_pad3 length_b64)

lemma digit_upd: "m \<noteq> n \<Longrightarrow> digit (code[m := v]) (int n) = digit code (int n)"
  by (simp add: digit_def)

lemma overlay_three:
  "p + 3 \<le> length out \<Longrightarrow> out[p := x, Suc p := y, Suc (Suc p) := z] = overlay out p [x, y, z]"
  unfolding overlay_def
  by (rule nth_equalityI)
    (auto simp: nth_append nth_list_update nth_Cons' not_less, rule arg_cong [where f = "nth out"], arith)

text \<open>A round of the loop: the writes stay behind the reads.\<close>

lemma dec_loop_round:
  assumes "digit code (int i) = Some x" "digit code (int (Suc i)) = Some y"
    "digit code (int (Suc (Suc i))) = Some z" "digit code (int (Suc (Suc (Suc i)))) = Some w"
    and "j \<le> i" and "i + 4 \<le> length code" and "int i < len - 2" and "in_i32 (int i + 4)"
  shows "dec_loop code len (int i) (int j)
    = dec_loop (overlay code j [push_bit 2 x OR drop_bit 4 y, push_bit 4 y OR drop_bit 2 z, push_bit 6 z OR w])
        len (int (i + 4)) (int (j + 3))"
proof -
  have s: "int i + 1 = int (Suc i)" "int i + 2 = int (Suc (Suc i))" "int i + 3 = int (Suc (Suc (Suc i)))"
    "int j + 1 = int (Suc j)" "int j + 2 = int (Suc (Suc j))" "int j + 3 = int (j + 3)" "int i + 4 = int (i + 4)"
    by simp_all
  have "in_i32 (int (j + 3))" "in_i32 (int (i + 4))" using assms(5,8) by (simp_all add: in_i32_def)
  then show ?thesis
    using assms(1-7) overlay_three [of j code]
    by (subst dec_loop.simps) (simp only: s, simp add: c_simps digit_upd del: of_nat_Suc of_nat_add)
qed

lemma unat_digit_chars:
  fixes a b c :: byte
  defines "v \<equiv> unat a * 2 ^ 16 + unat b * 2 ^ 8 + unat c"
  shows "unat (drop_bit 2 a) = v div 2 ^ 18 mod 64"
    and "unat (push_bit 4 (a AND 0x3) OR drop_bit 4 b) = v div 2 ^ 12 mod 64"
    and "unat (push_bit 2 (b AND 0xF) OR drop_bit 6 c) = v div 2 ^ 6 mod 64"
    and "unat (c AND 0x3F) = v mod 64"
  unfolding v_def by (simp_all only: unat_digits digits_of)

lemma dec_group:
  assumes "digit code (int i) = Some (drop_bit 2 a)"
    and "digit code (int (i + 1)) = Some (push_bit 4 (a AND 0x3) OR drop_bit 4 b)"
    and "digit code (int (i + 2)) = Some (push_bit 2 (b AND 0xF) OR drop_bit 6 c)"
    and "digit code (int (i + 3)) = Some (c AND 0x3F)"
    and "j \<le> i" and "i + 4 \<le> length code" and "int i < len - 2" and "in_i32 (int i + 4)"
  shows "dec_loop code len (int i) (int j) = dec_loop (overlay code j [a, b, c]) len (int (i + 4)) (int (j + 3))"
proof -
  have "i + 1 = Suc i" "i + 2 = Suc (Suc i)" "i + 3 = Suc (Suc (Suc i))" by simp_all
  from dec_loop_round [OF assms(1) assms(2-4) [unfolded this] assms(5-8)] show ?thesis
    by (simp only: undigits)
qed

lemma window_nth: "take (length ys) (drop i code) = ys \<Longrightarrow> i + length ys \<le> length code \<Longrightarrow> k < length ys \<Longrightarrow> code ! (i + k) = ys ! k"
  by (metis add_leD1 nth_drop nth_take)

lemma digit_window:
  "take (length ys) (drop i code) = ys \<Longrightarrow> i + length ys \<le> length code \<Longrightarrow> k < length ys \<Longrightarrow> ys ! k = b64_char v \<Longrightarrow>
    unat (d :: byte) = v mod 64 \<Longrightarrow> digit code (int (i + k)) = Some d"
  by (rule digit_char) (simp_all add: window_nth)

lemma digit_window_PAD:
  "take (length ys) (drop i code) = ys \<Longrightarrow> i + length ys \<le> length code \<Longrightarrow> k < length ys \<Longrightarrow> ys ! k = PAD \<Longrightarrow>
    digit code (int (i + k)) = Some 0"
  by (rule digit_PAD) (simp_all add: window_nth)

lemma drop_overlay: "p + length xs \<le> q \<Longrightarrow> p \<le> length out \<Longrightarrow> drop q (overlay out p xs) = drop q out"
  by (simp add: overlay_def)

text \<open>The loop ends at the end of the string.\<close>

lemma dec_loop_end: "len - 2 \<le> i \<Longrightarrow> dec_loop code len i j = Some code"
  by (simp add: dec_loop.simps)

lemma dec_loop_b64:
  assumes "take (length (b64 xs)) (drop i code) = b64 xs" and "j \<le> i"
    and "i + length (b64 xs) \<le> length code" and "in_i32 (int (i + length (b64 xs)))"
  shows "dec_loop code (int (i + length (b64 xs))) (int i) (int j) = Some (overlay code j (pad3 xs))"
  using assms
proof (induction xs arbitrary: i j code rule: b64.induct)
  case 1
  then show ?case by (simp add: dec_loop.simps overlay_def)
next
  case (2 a)
  note w = "2.prems"(1,3)
  have "in_i32 (int i + 4)" using "2.prems"(4) by (simp add: Let_def in_i32_def)
  moreover have "digit code (int i) = Some (drop_bit 2 a)"
    using digit_window [OF w, of 0 _ "drop_bit 2 a"] unat_digit_chars(1) [of a 0 0] by (simp add: Let_def)
  moreover have "digit code (int (i + 1)) = Some (push_bit 4 (a AND 0x3) OR drop_bit 4 0)"
    using digit_window [OF w, of 1] unat_digit_chars(2) [of a 0 0] by (simp add: Let_def)
  moreover have "digit code (int (i + 2)) = Some (push_bit 2 (0 AND 0xF) OR drop_bit 6 0)"
    using digit_window_PAD [OF w, of 2] by (simp add: Let_def)
  moreover have "digit code (int (i + 3)) = Some (0 AND 0x3F)"
    using digit_window_PAD [OF w, of 3] by (simp add: Let_def)
  ultimately show ?case
    using dec_group [of code i a 0 0 j "int (i + 4)"] "2.prems"
    by (simp add: Let_def dec_loop_end add.commute [of 4 "int i"])
next
  case (3 a b)
  note w = "3.prems"(1,3)
  have "in_i32 (int i + 4)" using "3.prems"(4) by (simp add: Let_def in_i32_def)
  moreover have "digit code (int i) = Some (drop_bit 2 a)"
    using digit_window [OF w, of 0 _ "drop_bit 2 a"] unat_digit_chars(1) [of a b 0] by (simp add: Let_def)
  moreover have "digit code (int (i + 1)) = Some (push_bit 4 (a AND 0x3) OR drop_bit 4 b)"
    using digit_window [OF w, of 1] unat_digit_chars(2) [of a b 0] by (simp add: Let_def)
  moreover have "digit code (int (i + 2)) = Some (push_bit 2 (b AND 0xF) OR drop_bit 6 0)"
    using digit_window [OF w, of 2] unat_digit_chars(3) [of b 0 a] by (simp add: Let_def)
  moreover have "digit code (int (i + 3)) = Some (0 AND 0x3F)"
    using digit_window_PAD [OF w, of 3] by (simp add: Let_def)
  ultimately show ?case
    using dec_group [of code i a b 0 j "int (i + 4)"] "3.prems"
    by (simp add: Let_def dec_loop_end add.commute [of 4 "int i"])
next
  case (4 a b c bs)
  note w = "4.prems"(1,3)
  let ?c = "overlay code j [a, b, c]"
  have l: "i + 4 + length (b64 bs) \<le> length code" using "4.prems"(3) by (simp add: Let_def)
  have d: "take (length (b64 bs)) (drop (i + 4) ?c) = b64 bs"
  proof -
    have "drop (i + 4) ?c = drop (i + 4) code" using "4.prems"(2) l by (intro drop_overlay) simp_all
    also have "take (length (b64 bs)) \<dots> = drop 4 (take (length (b64 (a # b # c # bs))) (drop i code))"
      by (simp add: Let_def drop_take add.commute [of 4 i])
    finally show ?thesis using "4.prems"(1) by (simp add: Let_def)
  qed
  have "in_i32 (int i + 4)" using "4.prems"(4) by (simp add: Let_def in_i32_def)
  moreover have "digit code (int i) = Some (drop_bit 2 a)"
    using digit_window [OF w, of 0 _ "drop_bit 2 a"] unat_digit_chars(1) [of a b c] by (simp add: Let_def)
  moreover have "digit code (int (i + 1)) = Some (push_bit 4 (a AND 0x3) OR drop_bit 4 b)"
    using digit_window [OF w, of 1] unat_digit_chars(2) [of a b c] by (simp add: Let_def)
  moreover have "digit code (int (i + 2)) = Some (push_bit 2 (b AND 0xF) OR drop_bit 6 c)"
    using digit_window [OF w, of 2] unat_digit_chars(3) [of b c a] by (simp add: Let_def)
  moreover have "digit code (int (i + 3)) = Some (c AND 0x3F)"
    using digit_window [OF w, of 3] unat_digit_chars(4) [of c a b] by (simp add: Let_def)
  ultimately have "dec_loop code (int (i + length (b64 (a # b # c # bs)))) (int i) (int j)
      = dec_loop ?c (int (i + 4 + length (b64 bs))) (int (i + 4)) (int (j + 3))"
    using dec_group [of code i a b c j "int (i + 4 + length (b64 bs))"] "4.prems"(2) l
    by (simp add: Let_def algebra_simps)
  also have "\<dots> = Some (overlay ?c (j + 3) (pad3 bs))"
    using "4.prems" l by (intro "4.IH" [OF refl d]) (simp_all add: length_overlay Let_def in_i32_def)
  also have "overlay ?c (j + 3) (pad3 bs) = overlay code j (pad3 (a # b # c # bs))"
  proof -
    have "length [a, b, c] = 3" by simp
    from overlay_overlay [of j "[a, b, c]" "pad3 bs" code, unfolded this] length_pad3_le [of bs] "4.prems"(2) l
    show ?thesis by simp
  qed
  finally show ?case .
qed

subsection \<open>The string that the encoder leaves\<close>

lemma b64_char_ENC: "b64_char v \<in> set ENC"
  by (simp add: length_ENC flip: ENC_nth)

lemma ENC_no_PAD: "PAD \<notin> set ENC" and ENC_no_NUL: "0 \<notin> set ENC"
  by (simp_all add: ENC_def PAD_def)

lemma b64_char_neq [simp]: "b64_char v \<noteq> PAD" "PAD \<noteq> b64_char v" "b64_char v \<noteq> 0" "PAD \<noteq> 0"
  using b64_char_ENC [of v] ENC_no_PAD ENC_no_NUL by (auto simp: PAD_def)

lemma b64_no_NUL: "0 \<notin> set (b64 bs)"
  by (induction bs rule: b64.induct) (auto simp: Let_def dest: sym)

lemma find_PAD: "find_sub [PAD, PAD] (b64 bs) \<noteq> None \<longleftrightarrow> length bs mod 3 = 1"
    "find_sub [PAD] (b64 bs) \<noteq> None \<longleftrightarrow> length bs mod 3 \<noteq> 0"
proof (induction bs rule: b64.induct)
  case (4 a b c bs)
  have m: "length (a # b # c # bs) mod 3 = length bs mod 3" by simp
  { case 1 then show ?case using 4(1) unfolding m by (simp add: Let_def) }
  { case 2 then show ?case using 4(2) unfolding m by (simp add: Let_def) }
qed (simp_all add: Let_def)

lemma outlen_b64:
  "int (length (b64 bs)) div 4 * 3 - (if length bs mod 3 = 1 then 2 else if length bs mod 3 \<noteq> 0 then 1 else 0)
    = int (length bs)"
proof -
  have "(length bs + 2) div 3 * 3 = length bs + (if length bs mod 3 = 1 then 2 else if length bs mod 3 \<noteq> 0 then 1 else 0)"
    by presburger
  moreover have "int (length (b64 bs)) div 4 = int ((length bs + 2) div 3)" by (simp only: length_b64)
  ultimately show ?thesis by (simp split: if_splits)
qed

lemma base64_decode_b64:
  assumes "in_i32 (int (length (b64 bs)))"
  shows "\<exists>code. base64_decode (b64 bs @ 0 # rest) = Some (int (length bs), code) \<and> take (length bs) code = bs
    \<and> length code = length (b64 bs @ 0 # rest)"
proof -
  let ?code = "b64 bs @ 0 # rest"
  have str: "c_str ?code = b64 bs" using b64_no_NUL by simp
  have len: "c_strlen ?code = Some (int (length (b64 bs)))" using b64_no_NUL by simp
  have n: "length bs \<le> length (b64 bs)" unfolding length_b64 by presburger
  then have r: "to_int (int (length bs)) = int (length bs)" using assms by (simp add: to_int_def in_i32_def)
  have p: "length (pad3 bs) \<le> length (b64 bs)" by (simp add: length_pad3 length_b64)
  have "dec_loop ?code (int (0 + length (b64 bs))) (int 0) (int 0) = Some (overlay ?code 0 (pad3 bs))"
    using assms by (intro dec_loop_b64) simp_all
  then have d: "dec_loop ?code (int (length (b64 bs))) 0 0 = Some (overlay ?code 0 (pad3 bs))" by simp
  have "base64_decode ?code = Some (int (length bs), overlay ?code 0 (pad3 bs))"
    using outlen_b64 [of bs] r unfolding base64_decode_def len str find_PAD by (simp add: d split: if_splits)
  moreover have "take (length bs) (overlay ?code 0 (pad3 bs)) = bs"
  proof -
    have "length bs \<le> length (pad3 bs)" unfolding length_pad3 by presburger
    then show ?thesis using take_pad3 [of bs] by (simp add: overlay_def)
  qed
  ultimately show ?thesis using p by (simp add: length_overlay)
qed

subsection \<open>What the decoder rejects\<close>

lemma digit_Some: "digit code (int i) = Some d \<Longrightarrow> i < length code \<and> unat (code ! i) < 123"
proof -
  assume "digit code (int i) = Some d"
  then obtain c v where c: "rd code (int i) = Some c" and v: "rd dec_table (uint c) = Some v"
    by (auto simp: digit_def bind_eq_Some_conv)
  from v have "uint c < 123" by (simp add: rd_def length_dec_table split: if_splits)
  then have "int (unat c) < 123" by (simp only: of_nat_unat)
  then have "unat c < 123" by linarith
  with c show ?thesis by (auto split: if_splits)
qed

lemma wr_at: "wr xs (int n) v = Some ys \<Longrightarrow> ys = xs[n := v]"
  by (auto split: if_splits)

lemma dec_loop_Some:
  assumes "dec_loop code len (int i) (int j) = Some r" and "int i < len - 2" and "j \<le> i"
  shows "\<exists>d0 d1 d2 d3 code'. digit code (int i) = Some d0 \<and> digit code (int (Suc i)) = Some d1
    \<and> digit code (int (Suc (Suc i))) = Some d2 \<and> digit code (int (Suc (Suc (Suc i)))) = Some d3
    \<and> drop (i + 4) code' = drop (i + 4) code \<and> length code' = length code
    \<and> dec_loop code' len (int (i + 4)) (int (j + 3)) = Some r"
proof -
  have s: "int i + 1 = int (Suc i)" "int i + 2 = int (Suc (Suc i))" "int i + 3 = int (Suc (Suc (Suc i)))"
    "int j + 1 = int (Suc j)" "int j + 2 = int (Suc (Suc j))" "int j + 3 = int (j + 3)" "int i + 4 = int (i + 4)"
    by simp_all
  note u = assms(1) [unfolded dec_loop.simps [of code len "int i" "int j"] s]
  have n: "j \<noteq> Suc i" "j \<noteq> Suc (Suc i)" "Suc j \<noteq> Suc (Suc i)" "j \<noteq> Suc (Suc (Suc i))" "Suc j \<noteq> Suc (Suc (Suc i))"
    using assms(3) by simp_all
  from u assms(2) obtain x y code1 y1 z1 code2 z2 w2 code3 where
    1: "digit code (int i) = Some x" "digit code (int (Suc i)) = Some y"
      "wr code (int j) (push_bit 2 x OR drop_bit 4 y) = Some code1" and
    2: "digit code1 (int (Suc i)) = Some y1" "digit code1 (int (Suc (Suc i))) = Some z1"
      "wr code1 (int (Suc j)) (push_bit 4 y1 OR drop_bit 2 z1) = Some code2" and
    3: "digit code2 (int (Suc (Suc i))) = Some z2" "digit code2 (int (Suc (Suc (Suc i)))) = Some w2"
      "wr code2 (int (Suc (Suc j))) (push_bit 6 z2 OR w2) = Some code3" and
    4: "dec_loop code3 len (int (i + 4)) (int (j + 3)) = Some r"
    by (auto simp only: bind_eq_Some_conv i32_eq_Some_iff simp_thms if_True split: if_splits)
  from 1(3) 2(3) 3(3) have c: "code1 = code[j := push_bit 2 x OR drop_bit 4 y]"
    "code2 = code1[Suc j := push_bit 4 y1 OR drop_bit 2 z1]" "code3 = code2[Suc (Suc j) := push_bit 6 z2 OR w2]"
    by (blast dest: wr_at)+
  have "drop (i + 4) code3 = drop (i + 4) code" "length code3 = length code"
    using assms(3) by (simp_all add: c)
  with 1 2 3 4 n show ?thesis by (auto simp: c digit_upd simp del: of_nat_Suc of_nat_add)
qed

lemma dec_loop_digits:
  assumes "dec_loop code (int (i + 4 * m)) (int i) (int j) = Some r" and "j \<le> i"
  shows "\<forall>k. i \<le> k \<and> k < i + 4 * m \<longrightarrow> k < length code \<and> unat (code ! k) < 123"
  using assms
proof (induction m arbitrary: i j code)
  case (Suc m)
  then have "int i < int (i + 4 * Suc m) - 2" by simp
  from dec_loop_Some [OF Suc.prems(1) this Suc.prems(2)] obtain d0 d1 d2 d3 code' where
    d: "digit code (int i) = Some d0" "digit code (int (Suc i)) = Some d1"
      "digit code (int (Suc (Suc i))) = Some d2" "digit code (int (Suc (Suc (Suc i)))) = Some d3"
    and e: "drop (i + 4) code' = drop (i + 4) code" "length code' = length code"
    and r: "dec_loop code' (int (i + 4 * Suc m)) (int (i + 4)) (int (j + 3)) = Some r" by blast
  have "int (i + 4 * Suc m) = int (i + 4 + 4 * m)" by simp
  from Suc.IH [OF r [unfolded this]] Suc.prems(2)
  have IH: "\<forall>k. i + 4 \<le> k \<and> k < i + 4 + 4 * m \<longrightarrow> k < length code \<and> unat (code' ! k) < 123"
    using e(2) by simp
  have same: "code' ! k = code ! k" if "i + 4 \<le> k" "k < length code" for k
  proof -
    have "code' ! k = drop (i + 4) code' ! (k - (i + 4))" using that e(2) by simp
    also have "\<dots> = code ! k" unfolding e(1) using that by simp
    finally show ?thesis .
  qed
  show ?case
  proof (intro allI impI)
    fix k
    assume k: "i \<le> k \<and> k < i + 4 * Suc m"
    then consider "i + 4 \<le> k" | "k = i" | "k = Suc i" | "k = Suc (Suc i)" | "k = Suc (Suc (Suc i))" by linarith
    then show "k < length code \<and> unat (code ! k) < 123"
    proof cases
      case 1
      with IH k same [of k] show ?thesis by auto
    qed (use d digit_Some in blast)+
  qed
qed simp

subsection \<open>Properties\<close>

text \<open>
  C8. \<open>base64_encode\<close> of \<open>n\<close> input bytes writes exactly their RFC 4648 encoding, padding
  included, at the start of the output buffer, touches nothing behind it, reads nothing behind
  the \<open>n\<close> bytes, and returns the length of the encoding.
\<close>

theorem base64_encode_rfc4648:
  assumes "in_i32 (int (length (b64 bs)))" and "length (b64 bs) \<le> length out"
  shows "base64_encode (bs @ rest) (int (length bs)) out
    = Some (int (length (b64 bs)), b64 bs @ drop (length (b64 bs)) out)"
proof -
  have "length bs \<le> length (b64 bs)" unfolding length_b64 by presburger
  then have "in_i32 (int (length bs))" using assms(1) by (simp add: in_i32_def)
  from enc_loop_b64 [OF this, of 0 out rest] assms
  have "enc_loop (bs @ rest) (int (length bs)) out 0 = Some (int (length (b64 bs)), overlay out 0 (b64 bs))" by simp
  moreover have "to_int (int (length (b64 bs))) = int (length (b64 bs))"
    using assms(1) by (simp add: to_int_def in_i32_def)
  ultimately show ?thesis by (simp add: base64_encode_def overlay_def)
qed

theorem base64_encode_rfc4648_witness:
  "base64_encode [72, 105, 33, 33] 4 (replicate 9 7) = Some (8, [83, 71, 107, 104, 73, 81, 61, 61, 7])"
proof -
  have e: "b64 [72, 105, 33, 33] = [83, 71, 107, 104, 73, 81, 61, 61]"
    by (simp add: b64_char_def PAD_def)
  have "in_i32 (int (length (b64 [72, 105, 33, 33])))" "length (b64 [72, 105, 33, 33]) \<le> length (replicate 9 (7 :: byte))"
    unfolding e by (simp_all add: in_i32_def)
  from base64_encode_rfc4648 [OF this, of "[]"] show ?thesis
    unfolding e by (simp add: eval_nat_numeral)
qed

text \<open>
  C9. Round trip: what \<open>base64_encode\<close> wrote, closed by a NUL as the callers do,
  \<open>base64_decode\<close> turns back in place into the original bytes and returns their number, for
  every input length and whatever lies behind the NUL.
\<close>

theorem base64_round_trip:
  assumes "in_i32 (int (length (b64 bs)))" and "length (b64 bs) < length out"
  shows "\<exists>n out1 out2 code. base64_encode (bs @ rest) (int (length bs)) out = Some (n, out1)
    \<and> wr out1 n 0 = Some out2 \<and> base64_decode out2 = Some (int (length bs), code)
    \<and> take (length bs) code = bs \<and> length code = length out"
proof -
  let ?n = "length (b64 bs)"
  have "length bs \<le> ?n" unfolding length_b64 by presburger
  then have "in_i32 (int (length bs))" using assms(1) by (simp add: in_i32_def)
  from enc_loop_b64 [OF this, of 0 out rest] assms
  have "enc_loop (bs @ rest) (int (length bs)) out 0 = Some (int ?n, overlay out 0 (b64 bs))" by simp
  then have e: "base64_encode (bs @ rest) (int (length bs)) out = Some (int ?n, b64 bs @ drop ?n out)"
    using assms(1) by (simp add: base64_encode_def overlay_def to_int_def in_i32_def)
  have d: "drop ?n out = out ! ?n # drop (Suc ?n) out" using assms(2) by (simp add: Cons_nth_drop_Suc)
  then have "wr (b64 bs @ drop ?n out) (int ?n) 0 = Some (b64 bs @ 0 # drop (Suc ?n) out)"
    using assms(2) by simp
  moreover have "length (b64 bs @ 0 # drop (Suc ?n) out) = length out" using assms(2) by simp
  ultimately show ?thesis
    using e base64_decode_b64 [OF assms(1), of "drop (Suc ?n) out"] by metis
qed

theorem base64_round_trip_witness:
  "\<exists>n out1 out2 code. base64_encode [72, 105, 33, 33] 4 (replicate 9 7) = Some (n, out1)
    \<and> wr out1 n 0 = Some out2 \<and> base64_decode out2 = Some (4, code) \<and> take 4 code = [72, 105, 33, 33]"
proof -
  have e: "b64 [72, 105, 33, 33] = [83, 71, 107, 104, 73, 81, 61, 61]"
    by (simp add: b64_char_def PAD_def)
  have "in_i32 (int (length (b64 [72, 105, 33, 33])))" "length (b64 [72, 105, 33, 33]) < length (replicate 9 (7 :: byte))"
    unfolding e by (simp_all add: in_i32_def)
  from base64_round_trip [OF this, of "[]"] show ?thesis by (simp add: numeral_eq_Suc) blast
qed

text \<open>
  \<open>base64_decode\<close> of a string whose length is a multiple of four has a result only if no
  character lies behind \<open>z\<close> in the ASCII table: for any other the lookup leaves the table of
  123 entries. The decoder does not check its input.
\<close>

theorem base64_decode_reads_in_table:
  assumes "base64_decode code = Some r" and "length (c_str code) = 4 * m" and "b \<in> set (c_str code)"
  shows "unat b < 123"
proof -
  from assms(1) obtain code' where "dec_loop code (int (length (c_str code))) 0 0 = Some code'"
    by (auto simp: base64_decode_def c_strlen_def bind_eq_Some_conv Let_def split: if_splits)
  then have "dec_loop code (int (0 + 4 * m)) (int 0) (int 0) = Some code'" by (simp add: assms(2))
  from dec_loop_digits [OF this] have d: "unat (code ! k) < 123" if "k < 4 * m" for k using that by simp
  from assms(3) obtain k where k: "k < length (c_str code)" "b = c_str code ! k" by (metis in_set_conv_nth)
  then have "b = code ! k" unfolding c_str_def by (simp add: takeWhile_nth)
  with d k(1) assms(2) show ?thesis by simp
qed

theorem base64_decode_reads_in_table_witness:
  "base64_decode [72, 105, 123, 33, 0] = None"
proof (rule ccontr)
  assume "base64_decode [72, 105, 123, 33, 0] \<noteq> None"
  then obtain r where "base64_decode [72, 105, 123, 33, 0] = Some r" by blast
  from base64_decode_reads_in_table [OF this, of 1 123] show False by (simp add: c_str_def)
qed

end
