(* ===== verification/Itoa.thy ===== *)
theory Itoa
  imports CString
begin

section \<open>Number to text (\<open>src/common_itoa.c\<close>)\<close>

text \<open>
  \<open>itoa\<close> writes the digits of a number, least significant first, and then reverses them in
  place. The number is an \<open>int\<close>, the value divided is \<open>unsigned\<close>; negating the least
  \<open>int\<close> overflows, a radix of \<open>0\<close> divides by zero, and \<open>1\<close> never ends: it runs off the
  buffer. \<open>str\<close> is the caller's buffer, \<open>i\<close> the position written next.
\<close>

definition itoa_index :: "byte list" where
  "itoa_index = map of_char ''0123456789ABCDEF'' @ [0]"

definition MINUS :: byte where
  "MINUS = of_char CHR ''-''"

partial_function (option) itoa_digits :: "32 word \<Rightarrow> 32 word \<Rightarrow> byte list \<Rightarrow> int \<Rightarrow> (byte list \<times> int) option" where
  "itoa_digits unum radix str i = do {
     d \<leftarrow> (if radix = 0 then None else Some (unum mod radix));
     ch \<leftarrow> rd itoa_index (uint d);
     str \<leftarrow> wr str i ch;
     i \<leftarrow> i32 (i + 1);
     let unum = unum div radix;
     if unum \<noteq> 0 then itoa_digits unum radix str i else Some (str, i) }"

partial_function (option) itoa_reverse :: "byte list \<Rightarrow> int \<Rightarrow> int \<Rightarrow> int \<Rightarrow> byte list option" where
  "itoa_reverse str i k j =
     (if j \<le> (i - 1) div 2
      then do {
        tmp \<leftarrow> rd str j;
        x \<leftarrow> rd str (i - 1 + k - j);
        str \<leftarrow> wr str j x;
        str \<leftarrow> wr str (i - 1 + k - j) tmp;
        j \<leftarrow> i32 (j + 1);
        itoa_reverse str i k j }
      else Some str)"

definition itoa :: "int \<Rightarrow> byte list \<Rightarrow> int \<Rightarrow> byte list option" where
  "itoa num str radix = do {
     (unum, str, i) \<leftarrow>
       (if radix = 10 \<and> num < 0
        then do { n \<leftarrow> i32 (- num); str \<leftarrow> wr str 0 MINUS; Some (word_of_int n, str, 1) }
        else Some (word_of_int num, str, 0));
     (str, i) \<leftarrow> itoa_digits unum (word_of_int radix) str i;
     str \<leftarrow> wr str i 0;
     c \<leftarrow> rd str 0;
     let k = (if c = MINUS then 1 else 0);
     itoa_reverse str i k k }"

subsection \<open>Positional notation\<close>

text \<open>The digits of a number, most significant first, and what they denote.\<close>

fun digits :: "nat \<Rightarrow> nat \<Rightarrow> nat list" where
  "digits r n = (if n < r \<or> r < 2 then [n] else digits r (n div r) @ [n mod r])"

declare digits.simps [simp del]

definition value_of :: "nat \<Rightarrow> nat list \<Rightarrow> nat" where
  "value_of r ds = foldl (\<lambda>v d. v * r + d) 0 ds"

lemma value_of_digits: "value_of r (digits r n) = n"
proof (induction r n rule: digits.induct)
  case (1 r n)
  then show ?case by (subst digits.simps) (auto simp: value_of_def)
qed

lemma digits_less: "2 \<le> r \<Longrightarrow> d \<in> set (digits r n) \<Longrightarrow> d < r"
proof (induction r n rule: digits.induct)
  case (1 r n)
  then show ?case by (subst (asm) digits.simps) (auto split: if_splits)
qed

lemma digits_not_Nil [simp]: "digits r n \<noteq> []"
  by (subst digits.simps) simp

lemma digits_no_leading_zero: "2 \<le> r \<Longrightarrow> 0 < n \<Longrightarrow> hd (digits r n) \<noteq> 0"
proof (induction r n rule: digits.induct)
  case (1 r n)
  show ?case
  proof (cases "n < r")
    case True
    with 1 show ?thesis by (subst digits.simps) simp
  next
    case False
    with 1 have "hd (digits r (n div r)) \<noteq> 0" by (simp add: div_greater_zero_iff)
    with 1 False show ?thesis by (subst digits.simps) simp
  qed
qed

definition digit_char :: "nat \<Rightarrow> byte" where
  "digit_char d = itoa_index ! d"

subsection \<open>The loops\<close>

lemma length_itoa_index: "length itoa_index = 17"
  by (simp add: itoa_index_def)

text \<open>The first loop appends the digits in reverse.\<close>

lemma itoa_digits_rev:
  assumes "2 \<le> unat r" and "unat r \<le> 16" and "i + length (digits (unat r) (unat n)) \<le> length str"
    and "in_i32 (int (length str))"
  shows "itoa_digits n r str (int i)
    = Some (take i str @ rev (map digit_char (digits (unat r) (unat n))) @ drop (i + length (digits (unat r) (unat n))) str,
            int (i + length (digits (unat r) (unat n))))"
  using assms(3,4)
proof (induction "unat n" arbitrary: n i str rule: less_induct)
  case less
  let ?R = "unat r" and ?N = "unat n"
  have r: "r \<noteq> 0" using assms(1) by auto
  have m: "?N mod ?R < 17" using assms(1,2) by (intro less_trans [OF mod_less_divisor]) auto
  have "uint (n mod r) = int (?N mod ?R)" by (metis of_nat_unat unat_mod_distrib)
  then have ch: "rd itoa_index (uint (n mod r)) = Some (digit_char (?N mod ?R))"
    using m by (simp add: length_itoa_index digit_char_def)
  have z: "n div r = 0 \<longleftrightarrow> ?N < ?R"
  proof -
    have "n div r = 0 \<longleftrightarrow> unat (n div r) = 0" by (simp only: unsigned_eq_0_iff)
    also have "\<dots> \<longleftrightarrow> ?N div ?R = 0" by (simp only: unat_div_distrib)
    also have "\<dots> \<longleftrightarrow> ?N < ?R" using r assms(1) by (simp only: div_eq_0_iff) simp
    finally show ?thesis .
  qed
  have l: "i < length str" using less.prems(1) by (cases "digits ?R ?N") auto
  then have j: "in_i32 (int i + 1)" using less.prems(2) by (simp add: in_i32_def)
  show ?case
  proof (cases "?N < ?R")
    case True
    then have d: "digits ?R ?N = [?N]" by (subst digits.simps) simp
    have "str[i := digit_char ?N] = take i str @ digit_char ?N # drop (Suc i) str"
      using l by (simp add: upd_conv_take_nth_drop)
    with True z ch l j r show ?thesis by (subst itoa_digits.simps) (simp add: d c_simps)
  next
    case False
    then have d: "digits ?R ?N = digits ?R (?N div ?R) @ [?N mod ?R]"
      using assms(1) by (subst digits.simps) simp
    have q: "unat (n div r) = ?N div ?R" by (simp only: unat_div_distrib)
    let ?s = "str[i := digit_char (?N mod ?R)]"
    have "?N div ?R < ?N" using assms(1) False by (intro div_less_dividend) auto
    then have "itoa_digits (n div r) r ?s (int (Suc i))
      = Some (take (Suc i) ?s @ rev (map digit_char (digits ?R (?N div ?R))) @ drop (Suc i + length (digits ?R (?N div ?R))) ?s,
              int (Suc i + length (digits ?R (?N div ?R))))"
      using less.hyps [of "n div r" "Suc i" ?s] less.prems unfolding q by (simp add: d)
    moreover have "take (Suc i) ?s = take i str @ [digit_char (?N mod ?R)]"
      using l by (simp add: take_Suc_conv_app_nth)
    moreover have "itoa_digits n r str (int i) = itoa_digits (n div r) r ?s (int (Suc i))"
      using False z ch l j r by (subst itoa_digits.simps) (simp add: c_simps add.commute)
    ultimately show ?thesis by (simp add: d)
  qed
qed

text \<open>The second loop reverses the positions from \<open>k\<close> to the end of the string.\<close>

lemma itoa_reverse_rev:
  assumes "k \<le> 1" and "k \<le> length P" and "i = k + 2 * (length P - k) + length M" and "in_i32 (int i + 1)"
  shows "itoa_reverse (P @ M @ Q) (int i) (int k) (int (length P)) = Some (P @ rev M @ Q)"
  using assms
proof (induction "length M" arbitrary: P M Q rule: less_induct)
  case less
  let ?j = "length P"
  have cond: "int ?j \<le> (int i - 1) div 2 \<longleftrightarrow> k < length M"
  proof -
    have "a \<le> b div 2 \<longleftrightarrow> 2 * a \<le> b" for a b :: int by presburger
    then show ?thesis using less.prems(2,3) by auto
  qed
  have j1: "k < length M \<Longrightarrow> in_i32 (int ?j + 1)" using less.prems by (simp add: in_i32_def)
  consider (stop) "length M \<le> k" | (one) x where "M = [x]" "k = 0" | (two) x N y where "M = x # N @ [y]"
  proof (cases M)
    case Nil
    with stop show thesis by simp
  next
    case (Cons x M')
    show thesis
    proof (cases M' rule: rev_cases)
      case Nil
      with Cons one stop less.prems(1) show thesis by (cases "k = 0") auto
    next
      case (snoc N y)
      with Cons two show thesis by simp
    qed
  qed
  then show ?case
  proof cases
    case stop
    then have "rev M = M" using less.prems(1) by (cases M rule: rev_cases; cases "butlast M") auto
    with stop cond show ?thesis by (subst itoa_reverse.simps) simp
  next
    case one
    then have "int i - 1 + int k - int ?j = int ?j" using less.prems(3) by simp
    moreover have "\<not> int ?j + 1 \<le> (int i - 1) div 2" using one less.prems(3) by simp
    ultimately show ?thesis
      using one cond j1
      by (subst itoa_reverse.simps) (simp add: c_simps itoa_reverse.simps [where j = "int (length P) + 1"] list_update_append)
  next
    case two
    let ?m = "Suc (?j + length N)"
    have m: "int i - 1 + int k - int ?j = int ?m" using less.prems two by simp
    have P': "length (P @ [y]) = Suc ?j" by simp
    have s1: "(P @ M @ Q) ! ?j = x" "(P @ M @ Q) ! ?m = y" using two by (simp_all add: nth_append)
    have s2: "(P @ M @ Q)[?j := y, ?m := x] = (P @ [y]) @ N @ x # Q"
      using two by (simp add: list_update_append)
    have two': "k < length M" using two less.prems(1) by simp
    have "itoa_reverse (P @ M @ Q) (int i) (int k) (int ?j) = itoa_reverse ((P @ [y]) @ N @ x # Q) (int i) (int k) (int (length (P @ [y])))"
      using cond two' j1 [OF two'] s1 s2 two unfolding P'
      by (subst itoa_reverse.simps)
        (simp only: m if_True, simp add: c_simps int_ops(4) [symmetric] del: of_nat_Suc of_nat_add)
    also have "\<dots> = Some ((P @ [y]) @ rev N @ x # Q)"
      using less.prems two by (intro less.hyps) simp_all
    finally show ?thesis using two by simp
  qed
qed

subsection \<open>The text of a number\<close>

lemma digit_char_neq: "d < 16 \<Longrightarrow> digit_char d \<noteq> MINUS \<and> digit_char d \<noteq> 0"
proof -
  assume "d < 16"
  moreover have "\<forall>d \<in> set [0..<16]. digit_char d \<noteq> MINUS \<and> digit_char d \<noteq> 0"
    by (simp add: digit_char_def itoa_index_def MINUS_def upt_rec_numeral upt_rec)
  ultimately show ?thesis by simp
qed

text \<open>What the documentation of such a function promises.\<close>

definition itoa_text :: "int \<Rightarrow> int \<Rightarrow> byte list" where
  "itoa_text num radix =
     (if radix = 10 \<and> num < 0 then MINUS # map digit_char (digits 10 (nat (- num)))
      else map digit_char (digits (nat radix) (nat (num mod 2 ^ 32))))"

lemma itoa_body:
  assumes "2 \<le> unat r" "unat r \<le> 16" and "k \<le> 1" and "k \<le> length S" and "length S = k"
    and "k + length (digits (unat r) (unat u)) < length str" and "in_i32 (int (length str))"
    and "take k str = S" and "k = 1 \<longrightarrow> S = [MINUS]"
  shows "do {
     (str, i) \<leftarrow> itoa_digits u r str (int k);
     str \<leftarrow> wr str i 0;
     c \<leftarrow> rd str 0;
     let k = (if c = MINUS then 1 else 0);
     itoa_reverse str i k k } = Some (S @ map digit_char (digits (unat r) (unat u)) @ 0 #
       drop (Suc (k + length (digits (unat r) (unat u)))) str)"
proof -
  let ?D = "map digit_char (digits (unat r) (unat u))"
  let ?n = "length (digits (unat r) (unat u))"
  have "itoa_digits u r str (int k) = Some (S @ rev ?D @ drop (k + ?n) str, int (k + ?n))"
    using itoa_digits_rev [OF assms(1,2), of k u str] assms(6-8) by simp
  moreover have d: "drop (k + ?n) str = str ! (k + ?n) # drop (Suc (k + ?n)) str"
    using assms(6) by (simp add: Cons_nth_drop_Suc)
  let ?str = "S @ rev ?D @ 0 # drop (Suc (k + ?n)) str"
  have "wr (S @ rev ?D @ drop (k + ?n) str) (int (k + ?n)) 0 = Some ?str"
    unfolding wr_of_nat d using assms(5) by (simp add: list_update_append)
  moreover have c: "rd ?str 0 = Some (if k = 1 then MINUS else last ?D)"
    using assms(3,5,9) by (cases "k = 1") (auto simp: rd_def nth_append hd_rev [symmetric] hd_conv_nth)
  moreover have "last ?D \<noteq> MINUS"
  proof -
    have "last ?D = digit_char (last (digits (unat r) (unat u)))" by (simp add: last_map)
    moreover have "last (digits (unat r) (unat u)) < 16"
      using digits_less [OF assms(1), of "last (digits (unat r) (unat u))" "unat u"] assms(2) by simp
    ultimately show ?thesis using digit_char_neq by metis
  qed
  moreover have "itoa_reverse ?str (int (k + ?n)) (int k) (int k) = Some (S @ ?D @ 0 # drop (Suc (k + ?n)) str)"
    using itoa_reverse_rev [of k S "k + ?n" "rev ?D" "0 # drop (Suc (k + ?n)) str"] assms
    by (simp add: in_i32_def)
  ultimately show ?thesis using assms(3) by (cases k) auto
qed

lemma unat_word_of_int: "0 \<le> x \<Longrightarrow> x < 2 ^ 32 \<Longrightarrow> unat (word_of_int x :: 32 word) = nat x"
  by (simp add: unsigned_of_int take_bit_int_eq_self)

lemma unat_num: "unat (word_of_int x :: 32 word) = nat (x mod 2 ^ 32)"
  by (simp add: unsigned_of_int take_bit_eq_mod)

text \<open>With radix 1 the quotient never gets smaller.\<close>

lemma itoa_digits_one: "n \<noteq> 0 \<Longrightarrow> 0 \<le> i \<Longrightarrow> itoa_digits n 1 str i = None"
proof (induction "nat (int (length str) - i)" arbitrary: str i rule: less_induct)
  case less
  show ?case
  proof (cases "i < int (length str) \<and> in_i32 (i + 1)")
    case True
    have "rd itoa_index 0 = Some (itoa_index ! 0)" by (simp add: rd_def itoa_index_def)
    moreover have "itoa_digits n 1 (str[nat i := itoa_index ! 0]) (i + 1) = None"
      using True less.prems by (intro less.hyps) auto
    ultimately show ?thesis
      using True less.prems by (subst itoa_digits.simps) (simp add: c_simps)
  next
    case False
    then show ?thesis
      using less.prems by (subst itoa_digits.simps) (auto simp: wr_def i32_def bind_eq_None_conv)
  qed
qed

lemma itoa_digits_zero: "itoa_digits n 0 str i = None"
  by (subst itoa_digits.simps) simp

subsection \<open>Properties\<close>

text \<open>
  C10. For every radix from 2 to 16 and every \<open>int\<close> but the least one in radix 10,
  \<open>itoa\<close> writes the NUL-terminated text of the number: a minus sign for a negative number in
  radix 10, else the digits of its value as \<open>unsigned\<close>. The digits denote the number, none
  reaches the radix, and only the number zero begins with the digit zero. It needs exactly the
  bytes of the text and the NUL.
\<close>

theorem itoa_writes_number:
  assumes "in_i32 num" and "radix = 10 \<longrightarrow> num \<noteq> - (2 ^ 31)" and "2 \<le> radix" and "radix \<le> 16"
    and "ds = digits (nat radix) (if radix = 10 \<and> num < 0 then nat (- num) else nat (num mod 2 ^ 32))"
    and "text = (if radix = 10 \<and> num < 0 then [MINUS] else []) @ map digit_char ds"
    and "length text < length str" and "in_i32 (int (length str))"
  shows "itoa num str radix = Some (text @ 0 # drop (Suc (length text)) str)
    \<and> int (value_of (nat radix) ds) = (if radix = 10 \<and> num < 0 then - num else num mod 2 ^ 32)
    \<and> (\<forall>d \<in> set ds. int d < radix) \<and> (hd ds = 0 \<longrightarrow> ds = [0])"
proof (intro conjI)
  let ?neg = "radix = 10 \<and> num < 0"
  let ?u = "if ?neg then nat (- num) else nat (num mod 2 ^ 32)"
  have R: "unat (word_of_int radix :: 32 word) = nat radix" using assms(3,4) by (simp add: unat_word_of_int)
  show "int (value_of (nat radix) ds) = (if ?neg then - num else num mod 2 ^ 32)"
    unfolding assms(5) value_of_digits by simp
  show "\<forall>d \<in> set ds. int d < radix"
    using digits_less [of "nat radix"] assms(3) unfolding assms(5) by fastforce
  show "hd ds = 0 \<longrightarrow> ds = [0]"
  proof
    assume "hd ds = 0"
    moreover have "2 \<le> nat radix" using assms(3) by simp
    ultimately have "?u = 0" using digits_no_leading_zero [of "nat radix" ?u] unfolding assms(5) by blast
    then show "ds = [0]" using assms(3) unfolding assms(5) by (subst digits.simps) simp
  qed
  show "itoa num str radix = Some (text @ 0 # drop (Suc (length text)) str)"
  proof (cases ?neg)
    case True
    let ?r = "word_of_int radix :: 32 word" and ?n = "word_of_int (- num) :: 32 word"
    have U: "unat ?n = nat (- num)" using assms(1) True by (intro unat_word_of_int) (simp_all add: in_i32_def)
    have i: "in_i32 (- num)" using assms(1,2) True by (simp add: in_i32_def)
    have ds: "ds = digits (unat ?r) (unat ?n)" unfolding R U assms(5) using True by simp
    obtain a str' where str: "str = a # str'" using assms(7) by (cases str) auto
    have "itoa num str radix = do {
       (str, i) \<leftarrow> itoa_digits ?n ?r (str[0 := MINUS]) (int 1);
       str \<leftarrow> wr str i 0;
       c \<leftarrow> rd str 0;
       let k = (if c = MINUS then 1 else 0);
       itoa_reverse str i k k }"
      using True i by (simp add: itoa_def c_simps str)
    also have "\<dots> = Some ([MINUS] @ map digit_char (digits (unat ?r) (unat ?n))
        @ 0 # drop (Suc (1 + length (digits (unat ?r) (unat ?n)))) (str[0 := MINUS]))"
      using assms(3,4,7,8) True ds by (intro itoa_body) (simp_all add: R assms(6) str)
    finally show ?thesis using True by (simp add: assms(6) ds str)
  next
    case False
    let ?r = "word_of_int radix :: 32 word" and ?n = "word_of_int num :: 32 word"
    have ds: "ds = digits (unat ?r) (unat ?n)" unfolding R unat_num [of num] assms(5) using False by auto
    have "itoa num str radix = do {
       (str, i) \<leftarrow> itoa_digits ?n ?r str (int 0);
       str \<leftarrow> wr str i 0;
       c \<leftarrow> rd str 0;
       let k = (if c = MINUS then 1 else 0);
       itoa_reverse str i k k }"
      unfolding itoa_def using False by (simp only: if_False bind.bind_lunit prod.case int_ops(1))
    also have "\<dots> = Some ([] @ map digit_char (digits (unat ?r) (unat ?n))
        @ 0 # drop (Suc (0 + length (digits (unat ?r) (unat ?n)))) str)"
      using assms(3,4,7,8) False ds by (intro itoa_body) (simp_all add: R assms(6))
    finally show ?thesis unfolding assms(6) ds using False by auto
  qed
qed

theorem itoa_writes_number_witness:
  "itoa (- 1205) [7, 7, 7, 7, 7, 7, 7, 7] 10 = Some [45, 49, 50, 48, 53, 0, 7, 7]"
proof -
  have d: "digits 10 1205 = [1, 2, 0, 5]" by (simp add: digits.simps)
  have c: "MINUS = 45" "digit_char (Suc 0) = 49" "digit_char 2 = 50" "digit_char 0 = 48" "digit_char 5 = 53"
    by (simp_all add: MINUS_def digit_char_def itoa_index_def)
  have "in_i32 (- 1205)" "in_i32 (int (length [7, 7, 7, 7, 7, 7, 7, 7 :: byte]))" by (simp_all add: in_i32_def)
  from itoa_writes_number [OF this(1) _ _ _ refl refl _ this(2), of 10]
  show ?thesis by (simp add: d c)
qed

text \<open>
  \<open>itoa\<close> has no meaning in radix 10 for the least \<open>int\<close>, whose negation overflows
  before the cast to \<open>unsigned\<close>; in radix 0, which it divides by; and in radix 1 for every
  number but zero, where it writes zeros until it leaves the buffer, whatever its size.
\<close>

theorem itoa_undefined:
  "itoa (- (2 ^ 31)) str 10 = None \<and> itoa num str 0 = None
    \<and> (word_of_int num \<noteq> (0 :: 32 word) \<longrightarrow> itoa num str 1 = None)"
  by (simp add: itoa_def i32_def in_i32_def itoa_digits_zero itoa_digits_one)

theorem itoa_undefined_witness: "itoa 5 (replicate 100 7) 1 = None"
  using itoa_undefined [of "replicate 100 7" 5] by simp

end
