(* ===== verification/KvConfig.thy ===== *)
theory KvConfig
  imports CString
begin

section \<open>Key-value files (\<open>src/parsekv.c\<close>)\<close>

text \<open>
  A configuration file has lines \<open>key=value\<close>. The first functions work on one line, a string
  in a buffer; a \<open>char *\<close> result is a position in it. \<open>file_get_value\<close> and
  \<open>file_update_value\<close> work on files: the world holds the contents of the files by name and
  counts the streams that are open.
\<close>

abbreviation EQ :: byte where "EQ \<equiv> 61"
abbreviation NL :: byte where "NL \<equiv> 10"

definition KV_SIZE :: nat where "KV_SIZE = 256"

subsection \<open>One line\<close>

text \<open>
  \<open>strncpy\<close> within one buffer; it may not copy between places that overlap.
\<close>

definition c_strncpy_within :: "byte list \<Rightarrow> nat \<Rightarrow> nat \<Rightarrow> nat \<Rightarrow> byte list option" where
  "c_strncpy_within buf d s n = do {
     bs \<leftarrow> c_ncpy_bytes (drop s buf) n;
     let m = min n (Suc (length (c_str (drop s buf))));
     if (d + n \<le> s \<or> s + m \<le> d) \<and> d + n \<le> length buf
     then Some (take d buf @ bs @ drop (d + n) buf) else None }"

partial_function (option) kv_trim_end :: "byte list \<Rightarrow> int \<Rightarrow> (byte list \<times> int) option" where
  "kv_trim_end str j =
     (if j > 0
      then do {
        c \<leftarrow> rd str j;
        if c_isspace c then do { str \<leftarrow> wr str j 0; kv_trim_end str (j - 1) } else Some (str, j) }
      else Some (str, j))"

partial_function (option) kv_skip :: "byte list \<Rightarrow> int \<Rightarrow> int \<Rightarrow> int option" where
  "kv_skip str j i =
     (if i < j
      then do { c \<leftarrow> rd str i; if c_isspace c then kv_skip str j (i + 1) else Some i }
      else Some i)"

definition kv_del_blank :: "byte list option \<Rightarrow> byte list option option" where
  "kv_del_blank p = (case p of None \<Rightarrow> Some None
     | Some str \<Rightarrow> do {
         len \<leftarrow> c_strlen str;
         (str, j) \<leftarrow> kv_trim_end str (len - 1);
         i \<leftarrow> kv_skip str j 0;
         str \<leftarrow> (if i \<noteq> 0 then c_strncpy_within str 0 (nat i) (nat len) else Some str);
         Some (Some str) })"

fun kv_get_key_from :: "byte list \<Rightarrow> nat option" where
  "kv_get_key_from [] = None"
| "kv_get_key_from (b # p) = (if c_isspace b \<and> b \<noteq> 0 then map_option Suc (kv_get_key_from p) else Some 0)"

definition kv_get_key :: "byte list option \<Rightarrow> nat option option" where
  "kv_get_key p = (case p of None \<Rightarrow> Some None | Some str \<Rightarrow> map_option Some (kv_get_key_from str))"

definition kv_get_value :: "byte list \<Rightarrow> nat option option" where
  "kv_get_value str = do {
     res \<leftarrow> c_strchr str EQ;
     case res of None \<Rightarrow> Some None | Some i \<Rightarrow> Some (Some (i + 1)) }"

definition kv_is_key_equal :: "byte list option \<Rightarrow> byte list option \<Rightarrow> bool option" where
  "kv_is_key_equal s k = (case (s, k) of (Some str, Some key) \<Rightarrow> do {
         len \<leftarrow> c_strlen key;
         i \<leftarrow> kv_get_key_from str;
         let pstr = drop i str;
         e \<leftarrow> c_strneq pstr key (nat len);
         if \<not> e then Some False
         else do {
           c \<leftarrow> rd pstr len;
           q \<leftarrow> (if c_isspace c then map_option (\<lambda>r. r \<noteq> None) (c_strchr pstr EQ) else Some False);
           Some (q \<or> c = EQ) } }
     | _ \<Rightarrow> Some False)"

text \<open>
  \<open>kv_parse_kv_to_kv\<close> fills two buffers of the caller; \<open>strncpy\<close> of the exact length writes
  no NUL, so that the result depends on what the buffers held.
\<close>

definition kv_parse_kv_to_kv :: "byte list \<Rightarrow> byte list \<Rightarrow> byte list \<Rightarrow> (int \<times> byte list \<times> byte list) option" where
  "kv_parse_kv_to_kv str key value = do {
     res \<leftarrow> c_strchr str EQ;
     case res of None \<Rightarrow> Some (-1, key, value)
     | Some i \<Rightarrow> do {
         key \<leftarrow> c_strncpy key str i;
         k \<leftarrow> kv_del_blank (Some key);
         key \<leftarrow> k;
         n \<leftarrow> c_strlen (drop (i + 1) str);
         value \<leftarrow> c_strncpy value (drop (i + 1) str) (nat n);
         v \<leftarrow> kv_del_blank (Some value);
         value \<leftarrow> v;
         Some (0, key, value) } }"

definition kv_change_value :: "byte list \<Rightarrow> byte list option \<Rightarrow> (int \<times> byte list) option" where
  "kv_change_value str v = do {
     p \<leftarrow> kv_get_value str;
     case (v, p) of
       (Some value, Some i) \<Rightarrow> do { tl \<leftarrow> c_strcpy (drop i str) value; Some (0, take i str @ tl) }
     | _ \<Rightarrow> Some (-1, str) }"

subsection \<open>Streams\<close>

text \<open>
  A stream open for reading: what is left of the file, and the end-of-file indicator.
  \<open>fgets\<close> with room for \<open>n\<close> bytes takes at most \<open>n - 1\<close> and stops behind a newline; at the
  end of the file it leaves the buffer alone.
\<close>

record kv_stream =
  ks_rest :: "byte list"
  ks_eof :: bool

fun line_of :: "nat \<Rightarrow> byte list \<Rightarrow> byte list" where
  "line_of 0 bs = []"
| "line_of (Suc n) [] = []"
| "line_of (Suc n) (b # bs) = b # (if b = NL then [] else line_of n bs)"

definition c_fgets :: "byte list \<Rightarrow> nat \<Rightarrow> kv_stream \<Rightarrow> (byte list \<times> kv_stream) option" where
  "c_fgets buf n f =
     (if ks_rest f = [] then Some (buf, f\<lparr>ks_eof := True\<rparr>)
      else do {
        let l = line_of (n - 1) (ks_rest f);
        if n \<le> length buf
        then Some (l @ 0 # drop (Suc (length l)) buf,
          f\<lparr>ks_rest := drop (length l) (ks_rest f),
            ks_eof := ks_eof f \<or> (length l < n - 1 \<and> last l \<noteq> NL)\<rparr>)
        else None })"

record kv_world =
  kw_files :: "byte list \<rightharpoonup> byte list"
  kw_open :: int

subsection \<open>Reading a value\<close>

partial_function (option) get_loop :: "byte list \<Rightarrow> byte list \<Rightarrow> kv_stream \<Rightarrow> (byte list \<times> bool) option" where
  "get_loop key linebuf f =
     (if \<not> ks_eof f
      then do {
        (linebuf, f) \<leftarrow> c_fgets linebuf KV_SIZE f;
        e \<leftarrow> kv_is_key_equal (Some linebuf) (Some key);
        if e then Some (linebuf, True) else get_loop key linebuf f }
      else Some (linebuf, False))"

text \<open>
  The stream is closed only when the key was found. \<open>value\<close> is the caller's buffer, which
  \<open>strncpy\<close> does not terminate.
\<close>

definition file_get_value ::
    "kv_world \<Rightarrow> byte list option \<Rightarrow> byte list option \<Rightarrow> byte list option \<Rightarrow> (int \<times> kv_world \<times> byte list option) option" where
  "file_get_value w pfile pkey pvalue = (case (pfile, pkey, pvalue) of
     (Some file, Some key, Some value) \<Rightarrow>
       (case kw_files w (c_str file) of None \<Rightarrow> Some (-2, w, pvalue)
        | Some content \<Rightarrow> do {
            let w = w\<lparr>kw_open := kw_open w + 1\<rparr>;
            (linebuf, key_flag) \<leftarrow> get_loop key (replicate KV_SIZE 0) \<lparr>ks_rest = content, ks_eof = False\<rparr>;
            if \<not> key_flag then Some (-3, w, pvalue)
            else do {
              r \<leftarrow> kv_get_value linebuf;
              res \<leftarrow> r;
              n \<leftarrow> c_strlen (drop res linebuf);
              value \<leftarrow> c_strncpy value (drop res linebuf) (nat n);
              v \<leftarrow> kv_del_blank (Some value);
              Some (0, w\<lparr>kw_open := kw_open w - 1\<rparr>, v) } })
     | _ \<Rightarrow> Some (-1, w, pvalue))"

subsection \<open>Updating a value\<close>

definition update_line :: "byte list \<Rightarrow> byte list \<Rightarrow> byte list option" where
  "update_line linebuf value = do {
     (r, linebuf) \<leftarrow> kv_change_value linebuf (Some value);
     len \<leftarrow> c_strlen linebuf;
     c \<leftarrow> rd linebuf (len - 1);
     if c \<noteq> NL then do { linebuf \<leftarrow> wr linebuf len NL; wr linebuf (len + 1) 0 } else Some linebuf }"

partial_function (option) update_loop ::
    "byte list \<Rightarrow> byte list \<Rightarrow> byte list \<Rightarrow> bool \<Rightarrow> kv_stream \<Rightarrow> (byte list \<times> bool) option" where
  "update_loop key value filebuf key_flag f =
     (if \<not> ks_eof f
      then do {
        (linebuf, f) \<leftarrow> c_fgets (replicate KV_SIZE 0) KV_SIZE f;
        e \<leftarrow> kv_is_key_equal (Some linebuf) (Some key);
        linebuf \<leftarrow> (if e then update_line linebuf value else Some linebuf);
        filebuf \<leftarrow> c_strcat filebuf linebuf;
        update_loop key value filebuf (key_flag \<or> e) f }
      else Some (filebuf, key_flag))"

text \<open>
  \<open>mode\<close> says whether the calls of \<open>fopen\<close> for writing and of \<open>malloc\<close> succeed; writes of the
  streams do. \<open>filesize\<close> is an \<open>int\<close>: the \<open>long\<close> of \<open>ftell\<close> is cut to 32 bits, adding
  \<open>KV_SIZE\<close> may overflow, and \<open>malloc\<close> cannot serve a negative size, which is a huge
  \<open>size_t\<close>. An absent key is appended at the end of the file as it is, even when the last line
  has no newline.
\<close>

definition long_to_int :: "int \<Rightarrow> int" where
  "long_to_int x = (x + 2 ^ 31) mod 2 ^ 32 - 2 ^ 31"

record kv_mode =
  km_create :: bool
  km_malloc :: bool
  km_rewrite :: bool

definition file_update_value ::
    "kv_mode \<Rightarrow> kv_world \<Rightarrow> byte list option \<Rightarrow> byte list option \<Rightarrow> byte list option \<Rightarrow> (int \<times> kv_world) option" where
  "file_update_value mode w pfile pkey pvalue = (case (pfile, pkey, pvalue) of
     (Some file, Some key, Some value) \<Rightarrow>
       (if kw_files w (c_str file) = None \<and> \<not> km_create mode then Some (-2, w)
        else do {
          let content = (case kw_files w (c_str file) of None \<Rightarrow> [] | Some c \<Rightarrow> c);
          let w = w\<lparr>kw_files := (kw_files w)(c_str file \<mapsto> content), kw_open := kw_open w + 1\<rparr>;
          filesize \<leftarrow> i32 (long_to_int (int (length content)) + int KV_SIZE);
          if \<not> km_malloc mode \<or> filesize < 0 then Some (-3, w)
          else do {
            (filebuf, key_flag) \<leftarrow> update_loop key value (replicate (nat filesize) 0) False
                                     \<lparr>ks_rest = content, ks_eof = False\<rparr>;
            if \<not> key_flag
            then Some (0, w\<lparr>kw_files := (kw_files w)(c_str file \<mapsto> content @ c_str key @ EQ # c_str value @ [NL]),
                            kw_open := kw_open w - 1\<rparr>)
            else if km_rewrite mode
            then Some (0, w\<lparr>kw_files := (kw_files w)(c_str file \<mapsto> c_str filebuf), kw_open := kw_open w - 1\<rparr>)
            else Some (-4, w\<lparr>kw_open := kw_open w - 1\<rparr>) } })
     | _ \<Rightarrow> Some (-1, w))"

subsection \<open>Lines and keys\<close>

text \<open>
  What a file means: a list of lines, each ended by a newline. A line belongs to a key if its
  text before the first \<open>=\<close>, leading blanks aside, is the key, or the key and a blank and
  more.
\<close>

definition file_of :: "byte list list \<Rightarrow> byte list" where
  "file_of ls = concat (map (\<lambda>l. l @ [NL]) ls)"

definition key_matches :: "byte list \<Rightarrow> byte list \<Rightarrow> bool" where
  "key_matches k l = (EQ \<in> set l \<and>
     (let a = dropWhile c_isspace (takeWhile (\<lambda>b. b \<noteq> EQ) l); t = drop (length k) a
      in take (length k) a = k \<and> (t = [] \<or> c_isspace (hd t))))"

definition wf_line :: "byte list \<Rightarrow> bool" where
  "wf_line l \<longleftrightarrow> NL \<notin> set l \<and> 0 \<notin> set l \<and> length l + 2 \<le> KV_SIZE"

definition set_value :: "byte list \<Rightarrow> byte list \<Rightarrow> byte list \<Rightarrow> byte list" where
  "set_value k v l = (if key_matches k l then takeWhile (\<lambda>b. b \<noteq> EQ) l @ EQ # v else l)"

definition update_lines :: "byte list \<Rightarrow> byte list \<Rightarrow> byte list list \<Rightarrow> byte list list" where
  "update_lines k v ls =
     (if list_ex (key_matches k) ls then map (set_value k v) ls else ls @ [k @ EQ # v])"

lemma blanks: "c_isspace NL" "\<not> c_isspace EQ" "\<not> c_isspace 0"
  by (simp_all add: c_isspace_def)

lemma kv_get_key_from_str: "0 \<notin> set s \<Longrightarrow> kv_get_key_from (s @ 0 # r) = Some (length (takeWhile c_isspace s))"
  by (induction s) (auto simp: blanks)

lemma take_eq_le: "take (length k) p = k \<Longrightarrow> length k \<le> length p"
proof -
  assume "take (length k) p = k"
  then have "min (length p) (length k) = length k" by (metis length_take)
  then show ?thesis by simp
qed

text \<open>How the code compares: on the whole line, blanks skipped, newline included.\<close>

lemma kv_is_key_equal_str:
  assumes "0 \<notin> set s" and "0 \<notin> set k"
  shows "kv_is_key_equal (Some (s @ 0 # r)) (Some (k @ 0 # r'))
    = Some (let p = dropWhile c_isspace s in take (length k) p = k
        \<and> (length k < length p \<and> (c_isspace (p ! length k) \<and> EQ \<in> set p \<or> p ! length k = EQ)))"
proof -
  let ?p = "dropWhile c_isspace s"
  have d: "drop (length (takeWhile c_isspace s)) (s @ 0 # r) = ?p @ 0 # r"
    by (simp add: dropWhile_eq_drop length_takeWhile_le)
  have p: "0 \<notin> set ?p" using assms(1) by (auto dest: set_dropWhileD)
  have q: "c_strchr (?p @ 0 # r) EQ = Some (if EQ \<in> set ?p then Some (length (takeWhile (\<lambda>b. b \<noteq> EQ) ?p)) else None)"
    using p by (simp add: c_strchr_str)
  show ?thesis
  proof (cases "take (length k) ?p = k")
    case True
    then have l: "length k \<le> length ?p" by (rule take_eq_le)
    have "rd (?p @ 0 # r) (int (length k)) = Some (if length k < length ?p then ?p ! length k else 0)"
      using l by (auto simp: nth_append)
    then show ?thesis
      using assms True l
      by (simp add: kv_is_key_equal_def kv_get_key_from_str d c_strneq_str p q blanks Let_def del: drop_append)
  next
    case False
    then show ?thesis
      using assms by (simp add: kv_is_key_equal_def kv_get_key_from_str d c_strneq_str p Let_def del: drop_append)
  qed
qed

lemma dropWhile_blank_EQ: "dropWhile c_isspace (a @ EQ # b) = dropWhile c_isspace a @ EQ # b"
  by (induction a) (auto simp: blanks)

lemma takeWhile_EQ: "EQ \<notin> set a \<Longrightarrow> takeWhile (\<lambda>b. b \<noteq> EQ) (a @ EQ # b) = a"
  by (induction a) auto

lemma key_matches_line:
  assumes "0 \<notin> set l" and "0 \<notin> set k" and "EQ \<notin> set k"
  shows "kv_is_key_equal (Some ((l @ [NL]) @ 0 # r)) (Some (k @ 0 # r')) = Some (key_matches k l)"
proof (cases "EQ \<in> set l")
  case False
  then have "EQ \<notin> set (dropWhile c_isspace (l @ [NL]))" by (auto dest: set_dropWhileD)
  moreover from this have "length k < length (dropWhile c_isspace (l @ [NL])) \<Longrightarrow> dropWhile c_isspace (l @ [NL]) ! length k \<noteq> EQ"
    by (metis nth_mem)
  ultimately show ?thesis
    using kv_is_key_equal_str [of "l @ [NL]" k r r'] assms False by (auto simp: key_matches_def Let_def)
next
  case True
  then obtain a b where ab: "l = a @ EQ # b" "EQ \<notin> set a" by (meson split_list_first)
  let ?a = "dropWhile c_isspace a"
  have p: "dropWhile c_isspace (l @ [NL]) = ?a @ EQ # b @ [NL]" by (simp add: ab dropWhile_blank_EQ)
  have t: "take (length k) (?a @ EQ # b @ [NL]) = k \<longleftrightarrow> take (length k) ?a = k"
  proof (cases "length k \<le> length ?a")
    case False
    then have "EQ \<in> set (take (length k) (?a @ EQ # b @ [NL]))" by (auto simp: take_Cons')
    then have "take (length k) (?a @ EQ # b @ [NL]) \<noteq> k" by (metis assms(3))
    moreover have "length (take (length k) ?a) \<noteq> length k" using False by simp
    then have "take (length k) ?a \<noteq> k" by auto
    ultimately show ?thesis by simp
  qed simp
  have n: "length k \<le> length ?a \<Longrightarrow> (?a @ EQ # b @ [NL]) ! length k = (if drop (length k) ?a = [] then EQ else hd (drop (length k) ?a))"
    by (simp add: nth_append hd_drop_conv_nth)
  note le = take_eq_le [of k ?a]
  have c: "kv_is_key_equal (Some ((l @ [NL]) @ 0 # r)) (Some (k @ 0 # r'))
    = Some (take (length k) ?a = k \<and> (length k < length ?a + Suc (Suc (length b))
        \<and> (c_isspace ((?a @ EQ # b @ [NL]) ! length k) \<or> (?a @ EQ # b @ [NL]) ! length k = EQ)))"
    using kv_is_key_equal_str [of "l @ [NL]" k r r'] assms(1,2) unfolding p Let_def t by simp
  have m: "key_matches k l \<longleftrightarrow> take (length k) ?a = k \<and> (drop (length k) ?a = [] \<or> c_isspace (hd (drop (length k) ?a)))"
    unfolding key_matches_def Let_def ab takeWhile_EQ [OF ab(2)] by simp
  have "hd (drop (length k) ?a) \<noteq> EQ" if "drop (length k) ?a \<noteq> []"
    using hd_in_set [OF that] ab(2) by (metis in_set_dropD set_dropWhileD)
  then show ?thesis
    unfolding c m using n le blanks by (cases "drop (length k) ?a = []") auto
qed

lemma key_matches_EQ: "EQ \<notin> set a \<Longrightarrow> key_matches k (a @ EQ # b) \<longleftrightarrow> key_matches k (a @ EQ # b')"
  by (simp add: key_matches_def takeWhile_EQ)

lemma key_matches_new: "EQ \<notin> set k \<Longrightarrow> k = [] \<or> \<not> c_isspace (hd k) \<Longrightarrow> key_matches k (k @ EQ # v)"
  by (cases k) (auto simp: key_matches_def takeWhile_EQ)

subsection \<open>Reading lines\<close>

lemma line_of_newline: "NL \<notin> set l \<Longrightarrow> length l < n \<Longrightarrow> line_of n (l @ NL # rest) = l @ [NL]"
proof (induction l arbitrary: n)
  case Nil
  then show ?case by (cases n) auto
next
  case (Cons b l)
  then show ?case by (cases n) auto
qed

lemma c_fgets_line:
  assumes "wf_line l" and "KV_SIZE \<le> length buf" and "\<not> ks_eof f" and "ks_rest f = (l @ [NL]) @ rest"
  shows "c_fgets buf KV_SIZE f = Some ((l @ [NL]) @ 0 # drop (Suc (length l + 1)) buf, f\<lparr>ks_rest := rest\<rparr>)"
proof -
  have "line_of (KV_SIZE - 1) (ks_rest f) = l @ [NL]"
  proof -
    have "length l < KV_SIZE - 1" using assms(1) unfolding wf_line_def by linarith
    then show ?thesis using line_of_newline [of l "KV_SIZE - 1" rest] assms(1,4) by (simp add: wf_line_def)
  qed
  then show ?thesis using assms by (simp add: c_fgets_def Let_def)
qed

lemma c_fgets_end: "ks_rest f = [] \<Longrightarrow> c_fgets buf n f = Some (buf, f\<lparr>ks_eof := True\<rparr>)"
  by (simp add: c_fgets_def)

lemma file_of_simps [simp]: "file_of [] = []" "file_of (l # ls) = (l @ [NL]) @ file_of ls"
    "file_of (ls @ ms) = file_of ls @ file_of ms"
  by (simp_all add: file_of_def)

lemma file_of_no_NUL: "\<forall>l \<in> set ls. 0 \<notin> set l \<Longrightarrow> 0 \<notin> set (file_of ls)"
  by (induction ls) auto

text \<open>No key but the empty one is in the empty string that the last, failing read leaves.\<close>

lemma empty_line_no_key: "k \<noteq> [] \<Longrightarrow> 0 \<notin> set k \<Longrightarrow> kv_is_key_equal (Some (0 # r)) (Some (k @ 0 # r')) = Some False"
  using kv_is_key_equal_str [of "[]" k r r'] by simp

lemma c_strcat_str:
  assumes "0 \<notin> set s" and "0 \<notin> set t" and "length s + length t < length (s @ 0 # r)"
  shows "c_strcat (s @ 0 # r) (t @ 0 # r') = Some ((s @ t) @ 0 # drop (Suc (length s + length t)) (s @ 0 # r))"
  using assms by (simp add: c_strcat_def c_strcpy_def)

lemma kv_get_value_str:
  assumes "EQ \<notin> set a" and "0 \<notin> set a" and "0 \<notin> set b"
  shows "kv_get_value (a @ EQ # b @ 0 # r) = Some (Some (Suc (length a)))"
proof -
  have "c_strchr ((a @ EQ # b) @ 0 # r) EQ = Some (Some (length a))"
    using assms by (subst c_strchr_str) (auto simp: takeWhile_EQ)
  then show ?thesis by (simp add: kv_get_value_def)
qed

lemma update_line_str:
  assumes "EQ \<notin> set a" and "0 \<notin> set a" and "0 \<notin> set b" and "0 \<notin> set v" and "NL \<notin> set v"
    and "length a + length v + 3 \<le> length (a @ EQ # b @ 0 # r)"
  shows "\<exists>r''. update_line (a @ EQ # b @ 0 # r) (v @ 0 # r') = Some ((a @ EQ # v @ [NL]) @ 0 # r'')
    \<and> length ((a @ EQ # v @ [NL]) @ 0 # r'') = length (a @ EQ # b @ 0 # r)"
proof -
  let ?buf = "a @ EQ # b @ 0 # r"
  let ?r = "drop (length v + 1) (b @ 0 # r)"
  have "Suc (length v) < length (b @ 0 # r)" using assms(6) by simp
  then obtain c r'' where r: "?r = c # r''" by (cases ?r) auto
  have ch: "kv_change_value ?buf (Some (v @ 0 # r')) = Some (0, (a @ EQ # v) @ 0 # ?r)"
    using assms by (simp add: kv_change_value_def kv_get_value_str c_strcpy_def)
  have len: "c_strlen ((a @ EQ # v) @ 0 # ?r) = Some (int (length (a @ EQ # v)))"
    using assms by (subst c_strlen_append) auto
  have last: "rd ((a @ EQ # v) @ 0 # ?r) (int (length (a @ EQ # v)) - 1) = Some (last (EQ # v))"
  proof -
    have "int (length (a @ EQ # v)) - 1 = int (length a + length v)" by simp
    then show ?thesis by (simp only: rd_of_nat) (simp add: nth_append last_conv_nth)
  qed
  have "v \<noteq> [] \<Longrightarrow> last v \<noteq> NL" using assms(5) by (metis last_in_set)
  then have "last (EQ # v) \<noteq> NL" by simp
  moreover have "wr ((a @ EQ # v) @ 0 # ?r) (int (length (a @ EQ # v))) NL = Some ((a @ EQ # v) @ NL # ?r)"
    by (simp only: wr_of_nat) (simp add: list_update_append)
  moreover have "wr ((a @ EQ # v) @ NL # ?r) (int (length (a @ EQ # v)) + 1) 0 = Some ((a @ EQ # v @ [NL]) @ 0 # r'')"
  proof -
    have "int (length (a @ EQ # v)) + 1 = int (Suc (length (a @ EQ # v)))" by simp
    then show ?thesis unfolding r by (simp only: wr_of_nat) (simp add: list_update_append)
  qed
  ultimately have "update_line ?buf (v @ 0 # r') = Some ((a @ EQ # v @ [NL]) @ 0 # r'')"
    unfolding update_line_def ch by (simp only: bind.bind_lunit prod.case len last simp_thms if_True)
  moreover have "length ?r = Suc (length r'')" unfolding r by simp
  then have "length ((a @ EQ # v @ [NL]) @ 0 # r'') = length ?buf" using assms(6) by simp
  ultimately show ?thesis by blast
qed

text \<open>The room an update needs: in the line buffer, and in the buffer for the whole file.\<close>

definition fits :: "byte list \<Rightarrow> byte list \<Rightarrow> byte list list \<Rightarrow> bool" where
  "fits k v ls \<longleftrightarrow> (\<forall>l \<in> set ls. wf_line l \<and> length (set_value k v l) + 2 \<le> KV_SIZE)
     \<and> length (file_of (map (set_value k v) ls)) < length (file_of ls) + KV_SIZE"

definition key_ok :: "byte list \<Rightarrow> bool" where
  "key_ok k \<longleftrightarrow> k \<noteq> [] \<and> 0 \<notin> set k \<and> EQ \<notin> set k \<and> NL \<notin> set k \<and> \<not> c_isspace (hd k)"

definition value_ok :: "byte list \<Rightarrow> bool" where
  "value_ok v \<longleftrightarrow> 0 \<notin> set v \<and> NL \<notin> set v"

lemma set_value_no_NUL: "0 \<notin> set l \<Longrightarrow> value_ok v \<Longrightarrow> 0 \<notin> set (set_value k v l)"
  by (auto simp: set_value_def value_ok_def dest: set_takeWhileD)

lemma update_step:
  assumes "wf_line l" and "key_ok k" and "value_ok v" and "length (set_value k v l) + 2 \<le> KV_SIZE"
    and "length buf = KV_SIZE"
  shows "\<exists>r''. (if key_matches k l then update_line ((l @ [NL]) @ 0 # drop (Suc (length l + 1)) buf) (v @ 0 # r')
      else Some ((l @ [NL]) @ 0 # drop (Suc (length l + 1)) buf)) = Some ((set_value k v l @ [NL]) @ 0 # r'')"
proof (cases "key_matches k l")
  case True
  then have "EQ \<in> set l" by (simp add: key_matches_def)
  then obtain a b where l: "l = a @ EQ # b" "EQ \<notin> set a" by (meson split_list_first)
  let ?r = "drop (Suc (length l + 1)) buf"
  have len: "length (a @ EQ # (b @ [NL]) @ 0 # ?r) = KV_SIZE"
    using assms(1,5) by (simp add: l wf_line_def KV_SIZE_def)
  have sv: "set_value k v l = a @ EQ # v" unfolding set_value_def using True by (simp add: l takeWhile_EQ)
  have "\<exists>r''. update_line (a @ EQ # (b @ [NL]) @ 0 # ?r) (v @ 0 # r') = Some ((a @ EQ # v @ [NL]) @ 0 # r'')
    \<and> length ((a @ EQ # v @ [NL]) @ 0 # r'') = length (a @ EQ # (b @ [NL]) @ 0 # ?r)"
    using assms(1-4) len unfolding sv
    by (intro update_line_str) (auto simp: l wf_line_def value_ok_def)
  then show ?thesis using True sv unfolding l by auto
qed (auto simp: set_value_def)

lemma update_loop_lines:
  assumes "\<forall>l \<in> set ls. wf_line l \<and> length (set_value k v l) + 2 \<le> KV_SIZE"
    and "key_ok k" and "value_ok v" and "0 \<notin> set s"
    and "length s + length (file_of (map (set_value k v) ls)) < length (s @ 0 # r)"
  shows "\<exists>r''. update_loop (k @ 0 # rk) (v @ 0 # rv) (s @ 0 # r) flag \<lparr>ks_rest = file_of ls, ks_eof = False\<rparr>
    = Some ((s @ file_of (map (set_value k v) ls)) @ 0 # r'', flag \<or> list_ex (key_matches k) ls)"
  using assms
proof (induction ls arbitrary: s r flag)
  case Nil
  let ?z = "replicate KV_SIZE (0 :: byte)"
  have "?z = 0 # replicate (KV_SIZE - 1) 0" by (simp add: KV_SIZE_def flip: replicate_Suc)
  then have "kv_is_key_equal (Some ?z) (Some (k @ 0 # rk)) = Some False" "c_strcat (s @ 0 # r) ?z = Some (s @ 0 # r)"
    using empty_line_no_key [of k "replicate (KV_SIZE - 1) 0" rk] Nil c_strcat_str [of s "[]" r "replicate (KV_SIZE - 1) 0"]
    by (simp_all add: key_ok_def)
  then show ?case
    by (subst update_loop.simps) (simp add: c_fgets_end update_loop.simps [where f = "\<lparr>ks_rest = [], ks_eof = True\<rparr>"])
next
  case (Cons l ls)
  let ?f = "\<lparr>ks_rest = file_of (l # ls), ks_eof = False\<rparr>"
  let ?buf = "replicate KV_SIZE (0 :: byte)"
  have wf: "wf_line l" "length (set_value k v l) + 2 \<le> KV_SIZE" using Cons.prems(1) by simp_all
  from wf(1) have fg: "c_fgets ?buf KV_SIZE ?f = Some ((l @ [NL]) @ 0 # drop (Suc (length l + 1)) ?buf, ?f\<lparr>ks_rest := file_of ls\<rparr>)"
    by (intro c_fgets_line) simp_all
  have e: "kv_is_key_equal (Some ((l @ [NL]) @ 0 # drop (Suc (length l + 1)) ?buf)) (Some (k @ 0 # rk)) = Some (key_matches k l)"
    using wf(1) Cons.prems(2) by (intro key_matches_line) (auto simp: wf_line_def key_ok_def)
  obtain r1 where u: "(if key_matches k l then update_line ((l @ [NL]) @ 0 # drop (Suc (length l + 1)) ?buf) (v @ 0 # rv)
      else Some ((l @ [NL]) @ 0 # drop (Suc (length l + 1)) ?buf)) = Some ((set_value k v l @ [NL]) @ 0 # r1)"
    using update_step [OF wf(1) Cons.prems(2,3) wf(2), of ?buf rv] by auto
  let ?t = "set_value k v l @ [NL]"
  let ?r = "drop (Suc (length s + length ?t)) (s @ 0 # r)"
  have t: "0 \<notin> set ?t" using set_value_no_NUL [of l v k] wf(1) Cons.prems(3) by (simp add: wf_line_def)
  have c: "c_strcat (s @ 0 # r) (?t @ 0 # r1) = Some ((s @ ?t) @ 0 # ?r)"
    using Cons.prems(4,5) t by (intro c_strcat_str) simp_all
  have "\<exists>r''. update_loop (k @ 0 # rk) (v @ 0 # rv) ((s @ ?t) @ 0 # ?r) (flag \<or> key_matches k l) \<lparr>ks_rest = file_of ls, ks_eof = False\<rparr>
    = Some (((s @ ?t) @ file_of (map (set_value k v) ls)) @ 0 # r'', (flag \<or> key_matches k l) \<or> list_ex (key_matches k) ls)"
    using Cons.prems t by (intro Cons.IH) simp_all
  moreover have "update_loop (k @ 0 # rk) (v @ 0 # rv) (s @ 0 # r) flag ?f
    = update_loop (k @ 0 # rk) (v @ 0 # rv) ((s @ ?t) @ 0 # ?r) (flag \<or> key_matches k l) \<lparr>ks_rest = file_of ls, ks_eof = False\<rparr>"
    by (subst update_loop.simps, simp only: fg e u c bind.bind_lunit prod.case, simp)
  ultimately show ?case by (simp add: disj_assoc)
qed

subsection \<open>Trimming\<close>

lemma kv_trim_end_blanks:
  assumes "v \<noteq> []" and "\<not> c_isspace (last v)" and "\<forall>x \<in> set bl. c_isspace x"
  shows "kv_trim_end (v @ bl @ 0 # r) (int (length v + length bl) - 1)
    = Some (v @ replicate (length bl) 0 @ 0 # r, int (length v) - 1)"
  using assms(3)
proof (induction bl arbitrary: r rule: rev_induct)
  case Nil
  have "rd (v @ 0 # r) (int (length v) - 1) = Some (last v)"
    using assms(1) by (cases v rule: rev_cases) (simp_all add: rd_def nth_append)
  then show ?case using assms(2) by (subst kv_trim_end.simps) simp
next
  case (snoc x bl)
  let ?j = "length v + length bl"
  have j: "int (length v + length (bl @ [x])) - 1 = int ?j" by simp
  have e: "v @ (bl @ [x]) @ 0 # r = (v @ bl) @ x # 0 # r" by simp
  have "rd ((v @ bl) @ x # 0 # r) (int ?j) = Some x" by (simp only: rd_of_nat) (simp add: nth_append)
  moreover have "wr ((v @ bl) @ x # 0 # r) (int ?j) 0 = Some ((v @ bl) @ 0 # 0 # r)"
    by (simp only: wr_of_nat) (simp add: list_update_append)
  moreover have "c_isspace x" using snoc.prems by simp
  moreover have "0 < int (length v) + int (length bl)" using assms(1) by (cases v) auto
  ultimately have "kv_trim_end (v @ (bl @ [x]) @ 0 # r) (int (length v + length (bl @ [x])) - 1)
    = kv_trim_end (v @ bl @ 0 # 0 # r) (int ?j - 1)"
    unfolding j e by (subst kv_trim_end.simps) simp
  also have "\<dots> = Some (v @ replicate (length bl) 0 @ 0 # 0 # r, int (length v) - 1)"
    using snoc by simp
  finally show ?case by (simp add: replicate_append_same [symmetric])
qed

text \<open>Blanks behind a text that does not begin with one are cut off.\<close>

lemma kv_del_blank_end:
  assumes "v \<noteq> []" and "\<not> c_isspace (hd v)" and "\<not> c_isspace (last v)" and "\<forall>x \<in> set bl. c_isspace x"
    and "0 \<notin> set v"
  shows "kv_del_blank (Some (v @ bl @ 0 # r)) = Some (Some (v @ replicate (length bl) 0 @ 0 # r))"
proof -
  have "0 \<notin> set (v @ bl)" using assms(4,5) blanks(3) by auto
  then have "c_strlen ((v @ bl) @ 0 # r) = Some (int (length (v @ bl)))" by (rule c_strlen_append)
  then have len: "c_strlen (v @ bl @ 0 # r) = Some (int (length v + length bl))" by simp
  have sk: "kv_skip (v @ replicate (length bl) 0 @ 0 # r) (int (length v) - 1) 0 = Some 0"
    using assms(1,2) by (subst kv_skip.simps) (cases v, simp_all add: rd_def)
  show ?thesis
    unfolding kv_del_blank_def using kv_trim_end_blanks [OF assms(1,3,4)] sk by (simp add: len)
qed

text \<open>
  A leading blank makes \<open>strncpy\<close> copy a string onto itself with an offset, which the C
  standard leaves undefined.
\<close>

lemma kv_skip_blanks:
  assumes "\<forall>x \<in> set bl. c_isspace x" and "v \<noteq> []" and "\<not> c_isspace (hd v)" and "i \<le> length bl"
  shows "kv_skip (bl @ v @ 0 # r) (int (length bl + length v) - 1) (int i) = Some (int (length bl))"
  using assms(4)
proof (induction "length bl - i" arbitrary: i)
  case 0
  then have "i = length bl" by simp
  then show ?case using assms(2,3) by (subst kv_skip.simps) (cases v, simp_all add: nth_append)
next
  case (Suc n)
  then have i: "i < length bl" by simp
  then have "c_isspace ((bl @ v @ 0 # r) ! i)" using assms(1) by (simp add: nth_append)
  moreover have "int i < int (length bl + length v) - 1" using i assms(2) by (cases v) auto
  moreover have "kv_skip (bl @ v @ 0 # r) (int (length bl + length v) - 1) (int (Suc i)) = Some (int (length bl))"
    using Suc by (intro Suc.hyps(1)) simp_all
  ultimately show ?case using i by (subst kv_skip.simps) (simp add: add.commute)
qed

lemma kv_del_blank_leading:
  assumes "bl \<noteq> []" and "\<forall>x \<in> set bl. c_isspace x" and "v \<noteq> []" and "\<not> c_isspace (hd v)" and "\<not> c_isspace (last v)"
    and "0 \<notin> set v"
  shows "kv_del_blank (Some (bl @ v @ 0 # r)) = None"
proof -
  have z: "0 \<notin> set (bl @ v)" using assms(2,6) blanks(3) by auto
  then have len: "c_strlen (bl @ v @ 0 # r) = Some (int (length (bl @ v)))"
    using c_strlen_append [OF z, of r] by simp
  have "kv_trim_end ((bl @ v) @ [] @ 0 # r) (int (length (bl @ v) + length ([] :: byte list)) - 1)
      = Some ((bl @ v) @ replicate (length ([] :: byte list)) 0 @ 0 # r, int (length (bl @ v)) - 1)"
    using assms(3,5) by (intro kv_trim_end_blanks) simp_all
  then have tr: "kv_trim_end (bl @ v @ 0 # r) (int (length (bl @ v)) - 1) = Some (bl @ v @ 0 # r, int (length (bl @ v)) - 1)"
    by simp
  have sk: "kv_skip (bl @ v @ 0 # r) (int (length (bl @ v)) - 1) 0 = Some (int (length bl))"
    using kv_skip_blanks [OF assms(2-4), of 0 r] by simp
  have "c_strncpy_within (bl @ v @ 0 # r) 0 (length bl) (length (bl @ v)) = None"
    using assms(1,3) by (auto simp: c_strncpy_within_def bind_eq_None_conv Let_def)
  then show ?thesis
    unfolding kv_del_blank_def using assms(1) by (simp add: len tr sk del: length_append append_assoc)
qed

subsection \<open>The line of a key\<close>

text \<open>What \<open>file_get_value\<close> looks for: the value in the first line of the key.\<close>

fun lookup_line :: "byte list \<Rightarrow> byte list list \<Rightarrow> byte list option" where
  "lookup_line k [] = None"
| "lookup_line k (l # ls) = (if key_matches k l then Some l else lookup_line k ls)"

lemma get_loop_lines:
  assumes "\<forall>l \<in> set ls. wf_line l" and "key_ok k" and "length buf = KV_SIZE"
    and "kv_is_key_equal (Some buf) (Some (k @ 0 # rk)) = Some False"
  shows "\<exists>r. get_loop (k @ 0 # rk) buf \<lparr>ks_rest = file_of ls, ks_eof = False\<rparr>
    = Some (case lookup_line k ls of None \<Rightarrow> (r, False) | Some l \<Rightarrow> ((l @ [NL]) @ 0 # r, True))"
  using assms(1,3,4)
proof (induction ls arbitrary: buf)
  case Nil
  then show ?case
    by (subst get_loop.simps) (simp add: c_fgets_end get_loop.simps [where f = "\<lparr>ks_rest = [], ks_eof = True\<rparr>"])
next
  case (Cons l ls)
  let ?f = "\<lparr>ks_rest = file_of (l # ls), ks_eof = False\<rparr>"
  let ?b = "(l @ [NL]) @ 0 # drop (Suc (length l + 1)) buf"
  have wf: "wf_line l" using Cons.prems(1) by simp
  then have fg: "c_fgets buf KV_SIZE ?f = Some (?b, ?f\<lparr>ks_rest := file_of ls\<rparr>)"
    using Cons.prems(2) by (intro c_fgets_line) simp_all
  have e: "kv_is_key_equal (Some ?b) (Some (k @ 0 # rk)) = Some (key_matches k l)"
    using wf assms(2) by (intro key_matches_line) (auto simp: wf_line_def key_ok_def)
  have step: "get_loop (k @ 0 # rk) buf ?f = (if key_matches k l then Some (?b, True)
      else get_loop (k @ 0 # rk) ?b \<lparr>ks_rest = file_of ls, ks_eof = False\<rparr>)"
    by (subst get_loop.simps, simp only: fg e bind.bind_lunit prod.case, simp)
  show ?case
  proof (cases "key_matches k l")
    case True
    with step show ?thesis by auto
  next
    case False
    have "length ?b = KV_SIZE" using wf Cons.prems(2) by (simp add: wf_line_def KV_SIZE_def)
    from Cons.IH [OF _ this] Cons.prems(1) e False step show ?thesis by simp
  qed
qed

subsection \<open>Updating and reading back\<close>

lemma file_update_ok:
  assumes "key_ok k" and "value_ok v" and "fits k v ls" and "0 \<notin> set name" and "kw_files w name = Some (file_of ls)"
    and "length (file_of ls) + KV_SIZE < 2 ^ 31"
  shows "file_update_value mode w (Some (name @ 0 # rn)) (Some (k @ 0 # rk)) (Some (v @ 0 # rv))
    = Some (if \<not> km_malloc mode then (-3, w\<lparr>kw_open := kw_open w + 1\<rparr>)
        else if list_ex (key_matches k) ls \<and> \<not> km_rewrite mode then (-4, w)
        else (0, w\<lparr>kw_files := (kw_files w)(name \<mapsto> file_of (update_lines k v ls))\<rparr>))"
proof -
  let ?new = "file_of (map (set_value k v) ls)" and ?n = "length (file_of ls) + KV_SIZE"
  have nul: "0 \<notin> set ?new"
    using assms(2,3) set_value_no_NUL by (intro file_of_no_NUL) (auto simp: fits_def wf_line_def)
  have size: "i32 (long_to_int (int (length (file_of ls))) + int KV_SIZE) = Some (int ?n)"
    using assms(6) by (simp add: long_to_int_def i32_def in_i32_def)
  have buf: "replicate ?n (0 :: byte) = [] @ 0 # replicate (?n - 1) 0"
    by (simp add: KV_SIZE_def flip: replicate_Suc)
  have "\<exists>r''. update_loop (k @ 0 # rk) (v @ 0 # rv) ([] @ 0 # replicate (?n - 1) 0) False
      \<lparr>ks_rest = file_of ls, ks_eof = False\<rparr> = Some (([] @ ?new) @ 0 # r'', False \<or> list_ex (key_matches k) ls)"
    using assms(1-3) by (intro update_loop_lines) (auto simp: fits_def KV_SIZE_def)
  then obtain r'' where l: "update_loop (k @ 0 # rk) (v @ 0 # rv) (replicate ?n 0) False
      \<lparr>ks_rest = file_of ls, ks_eof = False\<rparr> = Some (?new @ 0 # r'', list_ex (key_matches k) ls)"
    unfolding buf by auto
  have same: "(kw_files w)(name \<mapsto> file_of ls) = kw_files w" using assms(5) by (rule map_upd_triv)
  have run: "file_update_value mode w (Some (name @ 0 # rn)) (Some (k @ 0 # rk)) (Some (v @ 0 # rv))
    = Some (if \<not> km_malloc mode then (-3, w\<lparr>kw_open := kw_open w + 1\<rparr>)
        else if \<not> list_ex (key_matches k) ls then (0, w\<lparr>kw_files := (kw_files w)(name \<mapsto> file_of ls @ k @ EQ # v @ [NL])\<rparr>)
        else if km_rewrite mode then (0, w\<lparr>kw_files := (kw_files w)(name \<mapsto> ?new)\<rparr>) else (-4, w))"
    using assms(1,2,4,5) nul
    by (simp add: file_update_value_def size l same Let_def key_ok_def value_ok_def del: of_nat_add)
  show ?thesis unfolding run by (simp add: update_lines_def file_of_def)
qed

lemma file_get_ok:
  assumes "key_ok k" and "\<forall>l \<in> set ls. wf_line l" and "0 \<notin> set name" and "kw_files w name = Some (file_of ls)"
    and "lookup_line k ls = Some (a @ EQ # v)" and "EQ \<notin> set a"
    and "v \<noteq> []" and "\<not> c_isspace (hd v)" and "\<not> c_isspace (last v)" and "length v + 2 \<le> n"
  shows "file_get_value w (Some (name @ 0 # rn)) (Some (k @ 0 # rk)) (Some (replicate n 0))
    = Some (0, w, Some (v @ replicate (n - length v) 0))"
proof -
  have "a @ EQ # v \<in> set ls" using assms(5) by (induction k ls rule: lookup_line.induct) (auto split: if_splits)
  then have z: "0 \<notin> set a" "0 \<notin> set v" using assms(2) by (auto simp: wf_line_def)
  have "replicate KV_SIZE (0 :: byte) = 0 # replicate (KV_SIZE - 1) 0" by (simp add: KV_SIZE_def flip: replicate_Suc)
  then have "kv_is_key_equal (Some (replicate KV_SIZE 0)) (Some (k @ 0 # rk)) = Some False"
    using empty_line_no_key assms(1) by (simp add: key_ok_def)
  then have "\<exists>r. get_loop (k @ 0 # rk) (replicate KV_SIZE 0) \<lparr>ks_rest = file_of ls, ks_eof = False\<rparr>
    = Some (case lookup_line k ls of None \<Rightarrow> (r, False) | Some l \<Rightarrow> ((l @ [NL]) @ 0 # r, True))"
    using assms(1,2) by (intro get_loop_lines) simp_all
  then obtain r where g: "get_loop (k @ 0 # rk) (replicate KV_SIZE 0) \<lparr>ks_rest = file_of ls, ks_eof = False\<rparr>
    = Some (a @ EQ # (v @ [NL]) @ 0 # r, True)" using assms(5) by auto
  have gv: "kv_get_value (a @ EQ # (v @ [NL]) @ 0 # r) = Some (Some (Suc (length a)))"
    using assms(6) z by (intro kv_get_value_str) auto
  have d: "drop (Suc (length a)) (a @ EQ # (v @ [NL]) @ 0 # r) = (v @ [NL]) @ 0 # r" by simp
  have len: "c_strlen ((v @ [NL]) @ 0 # r) = Some (int (length (v @ [NL])))" using z by (intro c_strlen_append) auto
  have "c_ncpy_bytes ((v @ [NL]) @ 0 # r) (length (v @ [NL])) = Some (v @ [NL])"
    using z by (subst c_ncpy_bytes_str) auto
  moreover have "drop (length (v @ [NL])) (replicate n (0 :: byte)) = 0 # replicate (n - length v - 2) 0"
    using assms(10) by (simp add: Suc_diff_Suc flip: replicate_Suc)
  ultimately have cp: "c_strncpy (replicate n 0) ((v @ [NL]) @ 0 # r) (length (v @ [NL]))
      = Some (v @ [NL] @ 0 # replicate (n - length v - 2) 0)"
    using assms(10) by (simp add: c_strncpy_def)
  have "kv_del_blank (Some (v @ [NL] @ 0 # replicate (n - length v - 2) 0))
      = Some (Some (v @ replicate (length [NL]) 0 @ 0 # replicate (n - length v - 2) 0))"
    using assms(7-9) z blanks by (intro kv_del_blank_end) auto
  also have "v @ replicate (length [NL]) 0 @ 0 # replicate (n - length v - 2) 0 = v @ replicate (n - length v) (0 :: byte)"
  proof -
    obtain m where "n = length v + 2 + m" using le_Suc_ex [OF assms(10)] by blast
    then show ?thesis by simp
  qed
  finally have db: "kv_del_blank (Some (v @ [NL] @ 0 # replicate (n - length v - 2) 0)) = Some (Some (v @ replicate (n - length v) 0))" .
  have nn: "nat (int (length (v @ [NL]))) = length (v @ [NL])" by simp
  show ?thesis
    unfolding file_get_value_def using assms(3,4)
    by (simp only: prod.case option.case c_str_append Let_def g bind.bind_lunit simp_thms if_False gv d len nn cp db) simp
qed

text \<open>The first line of a key after an update holds the new value.\<close>

lemma lookup_update:
  assumes "key_ok k" and "EQ \<notin> set k"
  shows "\<exists>a. lookup_line k (update_lines k v ls) = Some (a @ EQ # v) \<and> EQ \<notin> set a"
proof (cases "list_ex (key_matches k) ls")
  case True
  then have "\<exists>a. lookup_line k (map (set_value k v) ls) = Some (a @ EQ # v) \<and> EQ \<notin> set a"
  proof (induction ls)
    case (Cons l ls)
    show ?case
    proof (cases "key_matches k l")
      case True
      then have "EQ \<in> set l" by (simp add: key_matches_def)
      then obtain a b where l: "l = a @ EQ # b" "EQ \<notin> set a" by (meson split_list_first)
      then have sv: "set_value k v l = a @ EQ # v" using True by (simp add: set_value_def takeWhile_EQ)
      moreover have "key_matches k (a @ EQ # v)" using True l key_matches_EQ [of a k b v] by simp
      ultimately show ?thesis using l(2) by simp
    next
      case False
      with Cons show ?thesis by (simp add: set_value_def)
    qed
  qed simp
  with True show ?thesis by (simp add: update_lines_def)
next
  case False
  then have "lookup_line k (ls @ [k @ EQ # v]) = Some (k @ EQ # v)"
    using assms key_matches_new [of k v] by (induction ls) (auto simp: key_ok_def)
  with False assms show ?thesis by (auto simp: update_lines_def)
qed

subsection \<open>Properties\<close>

text \<open>
  C11. \<open>file_update_value\<close> on an existing file of lines. When \<open>malloc\<close> succeeds, and the second
  \<open>fopen\<close> where the key is present, it returns \<open>0\<close>: the key has its new value in every line of
  the key, a line \<open>key=value\<close> is appended when there is none, all other lines and their order
  stay as they are, and every stream it opened is closed. When \<open>malloc\<close> fails it returns \<open>-3\<close>
  with the file as it was and one more stream left open; when the second \<open>fopen\<close> fails, \<open>-4\<close>
  with file and streams as they were. Hypotheses: each line, old and with its new value, fits the
  buffer of 256 bytes with its newline and NUL and has no NUL; the file grows by less than 256
  bytes; its size plus 256 is below \<open>2^31\<close>; the key is not empty, does not begin with a blank
  and has no \<open>=\<close>; key and value have no newline.
\<close>

theorem file_update_refines_lines:
  assumes "key_ok k" and "value_ok v" and "fits k v ls" and "0 \<notin> set name" and "kw_files w name = Some (file_of ls)"
    and "length (file_of ls) + KV_SIZE < 2 ^ 31"
  shows "file_update_value mode w (Some (name @ 0 # rn)) (Some (k @ 0 # rk)) (Some (v @ 0 # rv))
    = Some (if \<not> km_malloc mode then (-3, w\<lparr>kw_open := kw_open w + 1\<rparr>)
        else if list_ex (key_matches k) ls \<and> \<not> km_rewrite mode then (-4, w)
        else (0, w\<lparr>kw_files := (kw_files w)(name \<mapsto> file_of (update_lines k v ls))\<rparr>))"
  using assms by (rule file_update_ok)

theorem file_update_refines_lines_witness:
  "file_update_value \<lparr>km_create = False, km_malloc = True, km_rewrite = True\<rparr>
      \<lparr>kw_files = [[102] \<mapsto> [97, 61, 49, 10, 98, 61, 50, 10]], kw_open = 0\<rparr>
      (Some [102, 0]) (Some [98, 0]) (Some [55, 56, 0])
    = Some (0, \<lparr>kw_files = [[102] \<mapsto> [97, 61, 49, 10, 98, 61, 55, 56, 10]], kw_open = 0\<rparr>)"
proof -
  let ?ls = "[[97, 61, 49], [98, 61, 50]] :: byte list list"
  have m: "\<not> key_matches [98] [97, 61, 49]" "key_matches [98] [98, 61, 50]"
    by (simp_all add: key_matches_def c_isspace_def Let_def)
  have s: "set_value [98] [55, 56] [97, 61, 49] = [97, 61, 49]" "set_value [98] [55, 56] [98, 61, 50] = [98, 61, 55, 56]"
    by (simp_all add: set_value_def m)
  have "key_ok [98]" "value_ok [55, 56]" "fits [98] [55, 56] ?ls"
    by (simp_all add: key_ok_def value_ok_def fits_def wf_line_def KV_SIZE_def c_isspace_def s)
  from file_update_refines_lines [OF this, of "[102]" "\<lparr>kw_files = [[102] \<mapsto> file_of ?ls], kw_open = 0\<rparr>"
      "\<lparr>km_create = False, km_malloc = True, km_rewrite = True\<rparr>"]
  show ?thesis by (simp add: update_lines_def m s file_of_def KV_SIZE_def)
qed

text \<open>
  C12. Round trip: after \<open>file_update_value\<close>, when its \<open>malloc\<close> and its second \<open>fopen\<close>
  succeed, a call of \<open>file_get_value\<close> with the same key fills a zeroed buffer with the value,
  returns \<open>0\<close> and leaves files and streams as they are. Hypotheses: those of C11 on the
  existing file, its size, key and value; the line \<open>key=value\<close> fits the buffer of 256 bytes too;
  the value is not empty and has no blank at its ends; the buffer is two bytes longer.
\<close>

theorem file_update_then_get:
  assumes "key_ok k" and "value_ok v" and "fits k v ls" and "0 \<notin> set name" and "kw_files w name = Some (file_of ls)"
    and "v \<noteq> []" and "\<not> c_isspace (hd v)" and "\<not> c_isspace (last v)" and "length v + 2 \<le> n"
    and "length k + length v + 3 \<le> KV_SIZE" and "length (file_of ls) + KV_SIZE < 2 ^ 31"
  shows "\<exists>w'. file_update_value \<lparr>km_create = c, km_malloc = True, km_rewrite = True\<rparr> w
        (Some (name @ 0 # rn)) (Some (k @ 0 # rk)) (Some (v @ 0 # rv)) = Some (0, w')
    \<and> file_get_value w' (Some (name @ 0 # rn)) (Some (k @ 0 # rk)) (Some (replicate n 0))
      = Some (0, w', Some (v @ replicate (n - length v) 0))"
proof -
  let ?w = "w\<lparr>kw_files := (kw_files w)(name \<mapsto> file_of (update_lines k v ls))\<rparr>"
  have wf: "\<forall>l \<in> set (update_lines k v ls). wf_line l"
  proof -
    have "wf_line (set_value k v l)" if "l \<in> set ls" for l
      using that assms(2,3) by (auto simp: fits_def wf_line_def set_value_def value_ok_def dest: set_takeWhileD)
    moreover have "wf_line (k @ EQ # v)" using assms(1,2,10) by (simp add: wf_line_def key_ok_def value_ok_def)
    ultimately show ?thesis using assms(3) by (auto simp: update_lines_def fits_def)
  qed
  obtain a where "lookup_line k (update_lines k v ls) = Some (a @ EQ # v)" "EQ \<notin> set a"
    using lookup_update [OF assms(1)] assms(1) by (auto simp: key_ok_def)
  then have "file_get_value ?w (Some (name @ 0 # rn)) (Some (k @ 0 # rk)) (Some (replicate n 0))
      = Some (0, ?w, Some (v @ replicate (n - length v) 0))"
    using assms wf by (intro file_get_ok) simp_all
  moreover have "file_update_value \<lparr>km_create = c, km_malloc = True, km_rewrite = True\<rparr> w
      (Some (name @ 0 # rn)) (Some (k @ 0 # rk)) (Some (v @ 0 # rv)) = Some (0, ?w)"
    using file_update_ok [OF assms(1-5) assms(11), of "\<lparr>km_create = c, km_malloc = True, km_rewrite = True\<rparr>"] by simp
  ultimately show ?thesis by blast
qed

theorem file_update_then_get_witness:
  "\<exists>w'. file_update_value \<lparr>km_create = False, km_malloc = True, km_rewrite = True\<rparr>
      \<lparr>kw_files = [[102] \<mapsto> [97, 61, 49, 10]], kw_open = 0\<rparr> (Some [102, 0]) (Some [98, 0]) (Some [55, 56, 0]) = Some (0, w')
    \<and> file_get_value w' (Some [102, 0]) (Some [98, 0]) (Some [0, 0, 0, 0, 0]) = Some (0, w', Some [55, 56, 0, 0, 0])"
proof -
  let ?ls = "[[97, 61, 49]] :: byte list list"
  have m: "\<not> key_matches [98] [97, 61, 49]" by (simp add: key_matches_def c_isspace_def Let_def)
  have s: "set_value [98] [55, 56] [97, 61, 49] = [97, 61, 49]" by (simp add: set_value_def m)
  have r: "[0, 0, 0, 0, 0] = replicate 5 (0 :: byte)" "[55, 56, 0, 0, 0] = [55, 56] @ replicate (5 - length [55, 56 :: byte]) (0 :: byte)"
    by (simp_all add: numeral_eq_Suc)
  have "key_ok [98]" "value_ok [55, 56]" "fits [98] [55, 56] ?ls"
    by (simp_all add: key_ok_def value_ok_def fits_def wf_line_def KV_SIZE_def c_isspace_def s)
  from file_update_then_get [OF this, of "[102]" "\<lparr>kw_files = [[102] \<mapsto> file_of ?ls], kw_open = 0\<rparr>" 5]
  show ?thesis unfolding r by (simp add: c_isspace_def KV_SIZE_def file_of_def)
qed

text \<open>
  \<open>file_get_value\<close> of a key that no line has returns \<open>-3\<close> and leaves its stream open,
  so that every such call loses a file descriptor; the buffer is not touched.
\<close>

theorem file_get_missing_leaks:
  assumes "key_ok k" and "\<forall>l \<in> set ls. wf_line l" and "0 \<notin> set name" and "kw_files w name = Some (file_of ls)"
    and "\<not> list_ex (key_matches k) ls"
  shows "file_get_value w (Some (name @ 0 # rn)) (Some (k @ 0 # rk)) (Some value)
    = Some (-3, w\<lparr>kw_open := kw_open w + 1\<rparr>, Some value)"
proof -
  have l: "lookup_line k ls = None" using assms(5) by (induction ls) auto
  have "replicate KV_SIZE (0 :: byte) = 0 # replicate (KV_SIZE - 1) 0" by (simp add: KV_SIZE_def flip: replicate_Suc)
  then have "kv_is_key_equal (Some (replicate KV_SIZE 0)) (Some (k @ 0 # rk)) = Some False"
    using empty_line_no_key assms(1) by (simp add: key_ok_def)
  then have "\<exists>r. get_loop (k @ 0 # rk) (replicate KV_SIZE 0) \<lparr>ks_rest = file_of ls, ks_eof = False\<rparr>
    = Some (case lookup_line k ls of None \<Rightarrow> (r, False) | Some l \<Rightarrow> ((l @ [NL]) @ 0 # r, True))"
    using assms(1,2) by (intro get_loop_lines) simp_all
  then obtain r where "get_loop (k @ 0 # rk) (replicate KV_SIZE 0) \<lparr>ks_rest = file_of ls, ks_eof = False\<rparr> = Some (r, False)"
    unfolding l by auto
  then show ?thesis using assms(3,4) by (simp add: file_get_value_def Let_def)
qed

theorem file_get_missing_leaks_witness:
  "file_get_value \<lparr>kw_files = [[102] \<mapsto> [97, 61, 49, 10]], kw_open = 0\<rparr> (Some [102, 0]) (Some [98, 0]) (Some [9])
    = Some (-3, \<lparr>kw_files = [[102] \<mapsto> [97, 61, 49, 10]], kw_open = 1\<rparr>, Some [9])"
proof -
  have m: "\<not> key_matches [98] [97, 61, 49]" by (simp add: key_matches_def c_isspace_def Let_def)
  have "key_ok [98]" by (simp add: key_ok_def c_isspace_def)
  from file_get_missing_leaks [OF this, of "[[97, 61, 49]]" "[102]"
      "\<lparr>kw_files = [[102] \<mapsto> [97, 61, 49, 10]], kw_open = 0\<rparr>" "[]" "[]" "[9]"]
  show ?thesis using m by (simp add: wf_line_def KV_SIZE_def)
qed

end
