(* ===== verification/Calendar.thy ===== *)
theory Calendar
  imports CPrelude
begin

section \<open>UTC to Beijing time (\<open>src/time/localtime.c\<close>, \<open>src/uart/read_gps.c\<close>)\<close>

text \<open>
  \<open>utc2btc\<close>, which both files have, adds eight hours to a broken-down time in place. The
  lengths of the months are a global table that the function changes: it sets February to 29
  in a leap year and never sets it back. \<open>tm_mon\<close> counts from 0, \<open>tm_year\<close> from 1900.
\<close>

record tm =
  tm_sec :: int
  tm_min :: int
  tm_hour :: int
  tm_mday :: int
  tm_mon :: int
  tm_year :: int

definition date_mday0 :: "int list" where
  "date_mday0 = [31, 28, 31, 30, 31, 30, 31, 31, 30, 31, 30, 31]"

text \<open>The adjustment of the table, for a date in February.\<close>

definition set_february :: "int list \<Rightarrow> tm \<Rightarrow> int list option" where
  "set_february date_mday t =
     (if tm_mon t = 1
      then do {
        year \<leftarrow> i32 (tm_year t + 1900);
        if year smod 400 = 0 \<or> (year smod 4 = 0 \<and> year smod 100 \<noteq> 0)
        then wr date_mday 1 29 else Some date_mday }
      else Some date_mday)"

definition utc2btc :: "int list \<Rightarrow> tm \<Rightarrow> (int list \<times> tm) option" where
  "utc2btc date_mday t = do {
     h \<leftarrow> i32 (tm_hour t + 8);
     let t = t\<lparr>tm_hour := h\<rparr>;
     if h \<ge> 24
     then do {
       d \<leftarrow> i32 (tm_mday t + 1);
       let t = t\<lparr>tm_hour := h - 24, tm_mday := d\<rparr>;
       date_mday \<leftarrow> set_february date_mday t;
       n \<leftarrow> rd date_mday (tm_mon t);
       if tm_mday t > n
       then do {
         m \<leftarrow> i32 (tm_mon t + 1);
         let t = t\<lparr>tm_mday := 1, tm_mon := m\<rparr>;
         if m > 11
         then do { y \<leftarrow> i32 (tm_year t + 1); Some (date_mday, t\<lparr>tm_mon := 0, tm_year := y\<rparr>) }
         else Some (date_mday, t) }
       else Some (date_mday, t) }
     else Some (date_mday, t) }"

subsection \<open>The calendar\<close>

text \<open>The Gregorian calendar: leap years, the length of a month, and the days since year 0.\<close>

definition leap :: "int \<Rightarrow> bool" where
  "leap y \<longleftrightarrow> 400 dvd y \<or> (4 dvd y \<and> \<not> 100 dvd y)"

definition month_len :: "int \<Rightarrow> int \<Rightarrow> int" where
  "month_len y m =
     (if m = 1 then if leap y then 29 else 28
      else if m = 3 \<or> m = 5 \<or> m = 8 \<or> m = 10 then 30 else 31)"

definition days_before_year :: "int \<Rightarrow> int" where
  "days_before_year y = 365 * y + (y - 1) div 4 - (y - 1) div 100 + (y - 1) div 400"

definition days_before_month :: "int \<Rightarrow> int \<Rightarrow> int" where
  "days_before_month y m = sum_list (map (\<lambda>i. month_len y (int i)) [0..<nat m])"

definition hours_of :: "tm \<Rightarrow> int" where
  "hours_of t = 24 * (days_before_year (tm_year t + 1900) + days_before_month (tm_year t + 1900) (tm_mon t) + tm_mday t) + tm_hour t"

definition valid_tm :: "tm \<Rightarrow> bool" where
  "valid_tm t \<longleftrightarrow> 0 \<le> tm_hour t \<and> tm_hour t < 24 \<and> 0 \<le> tm_mon t \<and> tm_mon t < 12 \<and>
     1 \<le> tm_mday t \<and> tm_mday t \<le> month_len (tm_year t + 1900) (tm_mon t)
     \<and> - (2 ^ 31) \<le> tm_year t \<and> tm_year t + 1901 < 2 ^ 31"

lemma smod_0_iff: "(x :: int) smod k = 0 \<longleftrightarrow> k dvd x"
  by (simp add: smod_int_alt_def sgn_if flip: dvd_eq_mod_eq_0)

lemma div_pred: "0 < k \<Longrightarrow> (y :: int) div k = (y - 1) div k + (if k dvd y then 1 else 0)"
proof -
  assume k: "0 < k"
  show ?thesis
  proof (cases "k dvd y")
    case True
    then obtain q where y: "y = k * q" by (elim dvdE)
    have "(k * q - 1) div k = q - 1"
      using k by (intro int_div_pos_eq [of _ _ _ "k - 1"]) (auto simp: algebra_simps)
    with True k show ?thesis by (simp add: y)
  next
    case False
    then have "y mod k \<noteq> 0" by (simp add: dvd_eq_mod_eq_0)
    then have r: "0 \<le> y mod k - 1" "y mod k - 1 < k" using k pos_mod_sign [of k y] pos_mod_bound [of k y] by linarith+
    have "(y - 1) div k = y div k"
      by (rule int_div_pos_eq [of _ _ _ "y mod k - 1"]) (use r div_mult_mod_eq [of y k] in \<open>simp_all add: algebra_simps\<close>)
    with False show ?thesis by simp
  qed
qed

lemma next_year: "days_before_year (y + 1) = days_before_year y + (if leap y then 366 else 365)"
proof -
  have "400 dvd y \<Longrightarrow> 100 dvd y" "100 dvd y \<Longrightarrow> 4 dvd y"
    using dvd_trans [of 100 400 y] dvd_trans [of 4 100 y] by simp_all
  with div_pred [of 4 y] div_pred [of 100 y] div_pred [of 400 y] show ?thesis
    by (auto simp: days_before_year_def leap_def)
qed

lemma next_month: "0 \<le> m \<Longrightarrow> days_before_month y (m + 1) = days_before_month y m + month_len y m"
  by (simp add: days_before_month_def nat_add_distrib)

lemma month_cases: "0 \<le> m \<Longrightarrow> m < 12 \<Longrightarrow> m \<in> {0, 1, 2, 3, 4, 5, 6, 7, 8, 9, 10, 11 :: int}"
  by simp arith

lemma whole_year: "days_before_month y 12 = (if leap y then 366 else 365)"
  by (simp add: days_before_month_def month_len_def upt_rec numeral_eq_Suc)

lemma month_len_bounds: "28 \<le> month_len y m \<and> month_len y m \<le> 31"
  by (simp add: month_len_def)

text \<open>The table of the code has the lengths of the calendar, leap years aside.\<close>

lemma rd_month_len: "0 \<le> m \<Longrightarrow> m < 12 \<Longrightarrow> m = 1 \<longrightarrow> \<not> leap y \<Longrightarrow> rd date_mday0 m = Some (month_len y m)"
  using month_cases [of m] by (auto simp: month_len_def rd_def date_mday0_def)

text \<open>A later day of the month makes the total bigger by the difference; so does the hour.\<close>

lemma utc2btc_same_day:
  "valid_tm t \<Longrightarrow> tm_hour t < 16 \<Longrightarrow> utc2btc tab t = Some (tab, t\<lparr>tm_hour := tm_hour t + 8\<rparr>)"
  by (simp add: utc2btc_def valid_tm_def c_simps in_i32_def Let_def)

text \<open>Past midnight, with a table that has the right February.\<close>

lemma utc2btc_next_day:
  assumes "valid_tm t" and "16 \<le> tm_hour t"
  shows "\<exists>tab. utc2btc date_mday0 t = Some (tab,
    if tm_mday t < month_len (tm_year t + 1900) (tm_mon t)
    then t\<lparr>tm_hour := tm_hour t - 16, tm_mday := tm_mday t + 1\<rparr>
    else if tm_mon t < 11 then t\<lparr>tm_hour := tm_hour t - 16, tm_mday := 1, tm_mon := tm_mon t + 1\<rparr>
    else t\<lparr>tm_hour := tm_hour t - 16, tm_mday := 1, tm_mon := 0, tm_year := tm_year t + 1\<rparr>)
    \<and> (tab = date_mday0 \<or> tab = date_mday0[1 := 29])"
proof -
  let ?y = "tm_year t + 1900" and ?m = "tm_mon t"
  have b: "0 \<le> ?m" "?m < 12" "tm_mday t \<le> month_len ?y ?m" "1 \<le> tm_mday t" "month_len ?y ?m \<le> 31"
    using assms(1) month_len_bounds [of ?y ?m] by (auto simp: valid_tm_def)
  have i: "in_i32 (tm_hour t + 8)" "in_i32 (tm_mday t + 1)" "in_i32 ?y" "in_i32 (?m + 1)" "in_i32 (tm_year t + 1)"
    using assms(1) b by (simp_all add: valid_tm_def in_i32_def)
  have l: "(?y smod 400 = 0 \<or> ?y smod 4 = 0 \<and> ?y smod 100 \<noteq> 0) \<longleftrightarrow> leap ?y"
    unfolding smod_0_iff leap_def by blast
  let ?tab = "if ?m = 1 \<and> leap ?y then date_mday0[1 := 29] else date_mday0"
  have tab: "set_february date_mday0 (t\<lparr>tm_hour := h, tm_mday := d\<rparr>) = Some ?tab" for h d
    using i(3) by (auto simp: set_february_def l c_simps date_mday0_def wr_def)
  have n: "rd ?tab ?m = Some (month_len ?y ?m)"
    proof (cases "?m = 1 \<and> leap ?y")
    case True
    then show ?thesis by (simp add: rd_def date_mday0_def month_len_def)
  next
    case False
    then show ?thesis using rd_month_len [OF b(1,2), of ?y] by auto
  qed
  have h: "24 \<le> tm_hour t + 8" "tm_hour t + 8 - 24 = tm_hour t - 16" using assms(2) by simp_all
  have tabs: "?tab = date_mday0 \<or> ?tab = date_mday0[1 := 29]" by simp
  have "utc2btc date_mday0 t = Some (?tab,
    if tm_mday t < month_len ?y ?m
    then t\<lparr>tm_hour := tm_hour t - 16, tm_mday := tm_mday t + 1\<rparr>
    else if ?m < 11 then t\<lparr>tm_hour := tm_hour t - 16, tm_mday := 1, tm_mon := ?m + 1\<rparr>
    else t\<lparr>tm_hour := tm_hour t - 16, tm_mday := 1, tm_mon := 0, tm_year := tm_year t + 1\<rparr>)"
    using h(1) i by (simp add: utc2btc_def c_simps Let_def h(2) tab n)
  with tabs show ?thesis by blast
qed

subsection \<open>What the conversion does to the instant\<close>

lemma valid_tm_hour: "valid_tm t \<Longrightarrow> 0 \<le> h \<Longrightarrow> h < 24 \<Longrightarrow> valid_tm (t\<lparr>tm_hour := h\<rparr>)"
  by (simp add: valid_tm_def)

lemma first_of_month: "0 \<le> m \<Longrightarrow> m < 12 \<Longrightarrow> 1 \<le> month_len y m"
  using month_len_bounds [of y m] by simp

text \<open>
  C13. Eight hours later. For every valid time whose year leaves room for one more, and a table in
  its initial state, \<open>utc2btc\<close> returns a valid time that is exactly eight hours later on the
  Gregorian calendar, whatever day, month or year ends in between; minutes and seconds are kept.
\<close>

theorem utc2btc_adds_eight_hours:
  assumes "valid_tm t" and "tm_year t + 1902 < 2 ^ 31"
  shows "\<exists>tab t'. utc2btc date_mday0 t = Some (tab, t') \<and> valid_tm t' \<and> hours_of t' = hours_of t + 8
    \<and> tm_min t' = tm_min t \<and> tm_sec t' = tm_sec t"
proof (cases "tm_hour t < 16")
  case True
  then show ?thesis
    using assms utc2btc_same_day [of t date_mday0] valid_tm_hour [of t "tm_hour t + 8"]
    by (simp add: hours_of_def valid_tm_def)
next
  case False
  then have l: "16 \<le> tm_hour t" by simp
  let ?y = "tm_year t + 1900"
  have b: "0 \<le> tm_mon t" "tm_mon t < 12" "tm_hour t < 24" "1 \<le> tm_mday t" "tm_mday t \<le> month_len ?y (tm_mon t)"
    "- (2 ^ 31) \<le> tm_year t"
    using assms(1) by (simp_all add: valid_tm_def)
  have y: "days_before_year (tm_year t + 1 + 1900) = days_before_year ?y + days_before_month ?y 11 + month_len ?y 11"
    using next_year [of ?y] whole_year [of ?y] next_month [of 11 ?y] by (simp add: algebra_simps)
  have m11: "tm_mon t = 11" if "\<not> tm_mon t < 11" using b(2) that by simp
  have m0: "days_before_month y' 0 = 0" for y' by (simp add: days_before_month_def)
  from utc2btc_next_day [OF assms(1) l] obtain tab where
    r: "utc2btc date_mday0 t = Some (tab,
    if tm_mday t < month_len ?y (tm_mon t)
    then t\<lparr>tm_hour := tm_hour t - 16, tm_mday := tm_mday t + 1\<rparr>
    else if tm_mon t < 11 then t\<lparr>tm_hour := tm_hour t - 16, tm_mday := 1, tm_mon := tm_mon t + 1\<rparr>
    else t\<lparr>tm_hour := tm_hour t - 16, tm_mday := 1, tm_mon := 0, tm_year := tm_year t + 1\<rparr>)" by blast
  consider "tm_mday t < month_len ?y (tm_mon t)"
    | "tm_mday t = month_len ?y (tm_mon t)" "tm_mon t < 11"
    | "tm_mday t = month_len ?y (tm_mon t)" "tm_mon t = 11" using b m11 by linarith
  then show ?thesis
  proof cases
    case 1
    with r l b assms show ?thesis by (simp add: hours_of_def valid_tm_def)
  next
    case 2
    with r l b assms first_of_month [of "tm_mon t + 1" ?y] next_month [OF b(1), of ?y] show ?thesis
      by (simp add: hours_of_def valid_tm_def)
  next
    case 3
    with r l b assms y first_of_month [of 0 "tm_year t + 1 + 1900"] show ?thesis
      by (simp add: hours_of_def valid_tm_def m0)
  qed
qed

text \<open>The last hour of a year.\<close>

definition new_years_eve :: tm where
  "new_years_eve = \<lparr>tm_sec = 5, tm_min = 30, tm_hour = 23, tm_mday = 31, tm_mon = 11, tm_year = 119\<rparr>"

theorem utc2btc_adds_eight_hours_witness:
  "\<exists>tab t'. utc2btc date_mday0 new_years_eve = Some (tab, t') \<and> valid_tm t' \<and> hours_of t' = hours_of new_years_eve + 8
    \<and> tm_min t' = tm_min new_years_eve \<and> tm_sec t' = tm_sec new_years_eve"
  by (rule utc2btc_adds_eight_hours) (simp_all add: new_years_eve_def valid_tm_def month_len_def)

text \<open>
  The table remembers a leap year. Once \<open>utc2btc\<close> has converted a time of a leap February, the
  month has 29 days in every later call: from 16:00 on 28 February of a year that is not a leap
  year, the next call gives 29 February, which does not exist, instead of 1 March.
\<close>

theorem utc2btc_stale_february:
  assumes "valid_tm t" and "leap (tm_year t + 1900)" and "tm_mon t = 1" and "16 \<le> tm_hour t"
    and "valid_tm u" and "\<not> leap (tm_year u + 1900)" and "tm_mon u = 1" and "tm_mday u = 28" and "16 \<le> tm_hour u"
  shows "\<exists>tab t' u'. utc2btc date_mday0 t = Some (tab, t') \<and> utc2btc tab u = Some (tab, u')
    \<and> tm_mday u' = 29 \<and> tm_mon u' = 1 \<and> tm_year u' = tm_year u \<and> \<not> valid_tm u'"
proof -
  have lp: "(x smod 400 = 0 \<or> x smod 4 = 0 \<and> x smod 100 \<noteq> 0) \<longleftrightarrow> leap x" for x :: int
    unfolding smod_0_iff leap_def by blast
  have it: "in_i32 (tm_hour t + 8)" "in_i32 (tm_mday t + 1)" "in_i32 (tm_year t + 1900)" "tm_mday t \<le> 29"
    and iu: "in_i32 (tm_hour u + 8)" "in_i32 (tm_year u + 1900)"
    using assms month_len_bounds [of "tm_year t + 1900" 1]
    by (simp_all add: valid_tm_def in_i32_def month_len_def)
  have s: "set_february date_mday0 (t\<lparr>tm_hour := h, tm_mday := d\<rparr>) = Some (date_mday0[1 := 29])" for h d
    using it(3) assms(2,3) by (simp add: set_february_def lp c_simps wr_def date_mday0_def)
  have r: "rd (date_mday0[Suc 0 := 29]) 1 = Some 29" by (simp add: rd_def date_mday0_def)
  have f: "utc2btc date_mday0 t = Some (date_mday0[1 := 29],
     if tm_mday t + 1 > 29 then t\<lparr>tm_hour := tm_hour t - 16, tm_mday := 1, tm_mon := 2\<rparr>
     else t\<lparr>tm_hour := tm_hour t - 16, tm_mday := tm_mday t + 1\<rparr>)"
    using it assms(3,4) by (simp add: utc2btc_def c_simps Let_def s [simplified] r in_i32_def)
  have n: "set_february (date_mday0[1 := 29]) (u\<lparr>tm_hour := h, tm_mday := d\<rparr>) = Some (date_mday0[1 := 29])" for h d
    using iu(2) assms(6,7) by (simp add: set_february_def lp c_simps)
  have "utc2btc (date_mday0[1 := 29]) u = Some (date_mday0[1 := 29], u\<lparr>tm_hour := tm_hour u - 16, tm_mday := 29\<rparr>)"
    using iu assms(7,8,9) by (simp add: utc2btc_def c_simps Let_def n [simplified] r in_i32_def)
  with f assms(6,7) show ?thesis by (simp add: valid_tm_def month_len_def)
qed

theorem utc2btc_stale_february_witness:
  "\<exists>tab t' u'. utc2btc date_mday0 \<lparr>tm_sec = 0, tm_min = 0, tm_hour = 16, tm_mday = 1, tm_mon = 1, tm_year = 120\<rparr> = Some (tab, t')
    \<and> utc2btc tab \<lparr>tm_sec = 0, tm_min = 0, tm_hour = 20, tm_mday = 28, tm_mon = 1, tm_year = 121\<rparr> = Some (tab, u')
    \<and> tm_mday u' = 29 \<and> tm_mon u' = 1
    \<and> tm_year u' = tm_year \<lparr>tm_sec = 0, tm_min = 0, tm_hour = 20, tm_mday = 28, tm_mon = 1, tm_year = 121\<rparr> \<and> \<not> valid_tm u'"
  by (rule utc2btc_stale_february)
    (simp_all add: valid_tm_def month_len_def leap_def)

end
