(* ===== verification/CFloat.thy ===== *)
theory CFloat
  imports CString
begin

section \<open>Floating point as a parameter\<close>

text \<open>
  The components that compute with \<open>double\<close> take its operations as an argument: the value of a
  text (\<open>atof\<close>, \<open>strtod\<close>), conversions to and from integers, where \<^term>\<open>None\<close> stands for a value
  that does not fit, arithmetic and comparison, and the text of a number in the format \<open>%1.<n>g\<close>.
  What is proved holds for every such record; what a theorem needs of one it says.
\<close>

record 'f float_ops =
  fo_atof :: "byte list \<Rightarrow> 'f"
  fo_of_int :: "int \<Rightarrow> 'f"
  fo_to_int :: "'f \<Rightarrow> int option"
  fo_sub :: "'f \<Rightarrow> 'f \<Rightarrow> 'f"
  fo_mul :: "'f \<Rightarrow> 'f \<Rightarrow> 'f"
  fo_single :: "'f \<Rightarrow> 'f"

record 'f num_ops = "'f float_ops" +
  no_le :: "'f \<Rightarrow> 'f \<Rightarrow> bool"
  no_abs :: "'f \<Rightarrow> 'f"
  no_epsilon :: 'f
  no_finite :: "'f \<Rightarrow> bool"
  no_to_ll :: "'f \<Rightarrow> int option"
  no_printg :: "nat \<Rightarrow> 'f \<Rightarrow> byte list"

definition c_atof :: "('f, 'a) float_ops_scheme \<Rightarrow> byte list \<Rightarrow> 'f option" where
  "c_atof fo p = (if 0 \<in> set p then Some (fo_atof fo (c_str p)) else None)"

subsection \<open>How much of a text is a number\<close>

text \<open>
  How many bytes \<open>strtod\<close> takes of a text of digits, signs, points and exponents: an optional
  sign, digits with an optional point, at least one digit in all, and an exponent if digits
  follow it. \<open>0\<close> stands for no conversion.
\<close>

definition digits :: "byte list \<Rightarrow> byte list" where
  "digits s = takeWhile c_isdigit s"

definition after_digits :: "byte list \<Rightarrow> byte list" where
  "after_digits s = dropWhile c_isdigit s"

fun unsign :: "byte list \<Rightarrow> byte list" where
  "unsign (b # s) = (if b = 43 \<or> b = 45 then s else b # s)"
| "unsign [] = []"

fun exponent_len :: "byte list \<Rightarrow> nat" where
  "exponent_len (b # s) =
     (if (b = 101 \<or> b = 69) \<and> digits (unsign s) \<noteq> []
      then 1 + (length s - length (unsign s)) + length (digits (unsign s)) else 0)"
| "exponent_len [] = 0"

text \<open>The digits with their point, and what follows them.\<close>

definition mantissa_len :: "byte list \<Rightarrow> nat" where
  "mantissa_len s = (case after_digits s of
     b # r \<Rightarrow> if b = 46 \<and> (digits s \<noteq> [] \<or> digits r \<noteq> []) then length (digits s) + 1 + length (digits r)
               else length (digits s)
   | [] \<Rightarrow> length (digits s))"

definition strtod_len :: "byte list \<Rightarrow> nat" where
  "strtod_len s = (let u = unsign s; m = mantissa_len u in
     if m = 0 then 0 else (length s - length u) + m + exponent_len (drop m u))"

text \<open>\<open>strtoll\<close> in radix 10: an optional sign and digits, saturating; and how much it takes.\<close>

definition LLONG_MAX :: int where "LLONG_MAX = 9223372036854775807"
definition LLONG_MIN :: int where "LLONG_MIN = -9223372036854775808"

definition saturate_ll :: "int \<Rightarrow> int" where
  "saturate_ll n = (if n > LLONG_MAX then LLONG_MAX else if n < LLONG_MIN then LLONG_MIN else n)"

definition strtoll_len :: "byte list \<Rightarrow> nat" where
  "strtoll_len s = (let u = unsign s in
     if digits u = [] then 0 else (length s - length u) + length (digits u))"

definition strtoll :: "byte list \<Rightarrow> int" where
  "strtoll s = saturate_ll (signed_value s)"

text \<open>Facts about their lengths.\<close>

lemma length_unsign: "length (unsign s) \<le> length s"
  by (cases s) auto

lemma length_digits: "length (digits s) + length (after_digits s) = length s"
  unfolding digits_def after_digits_def using takeWhile_dropWhile_id [of c_isdigit s] length_append by metis

lemma exponent_len_le: "exponent_len s \<le> length s"
proof (cases s)
  case (Cons b r)
  then show ?thesis using length_unsign [of r] length_digits [of "unsign r"] by (simp, linarith)
qed simp

lemma mantissa_len_le: "mantissa_len s \<le> length s"
proof (cases "after_digits s")
  case Nil
  then show ?thesis using length_digits [of s] by (simp add: mantissa_len_def)
next
  case (Cons b r)
  then show ?thesis using length_digits [of s] length_digits [of r] by (simp add: mantissa_len_def)
qed

lemma strtod_len_le: "strtod_len s \<le> length s"
  using length_unsign [of s] mantissa_len_le [of "unsign s"] exponent_len_le [of "drop (mantissa_len (unsign s)) (unsign s)"]
  by (auto simp: strtod_len_def Let_def)

end
