(* ===== verification/GpsParser.thy ===== *)
theory GpsParser
  imports CFloat Calendar
begin

section \<open>The NMEA receiver (\<open>src/uart/read_gps.c\<close>)\<close>

text \<open>
  The program reads a serial line into \<open>rx_buf\<close>, cuts it into sentences, checks the checksum of
  each one and keeps the last position in the global \<open>mgps\<close>. A pointer into the buffer is an
  offset from its start, so that \<open>buf[len-3]\<close> of a sentence at offset \<open>p\<close> is the byte at
  \<open>p + len - 3\<close>, wherever in the buffer that is. The functions write into the buffer, and return
  it. The floating point operations are an argument: what \<open>atof\<close> makes of a text, and the
  arithmetic of \<open>double\<close>.
\<close>

record 'f gps_info =
  latitude :: 'f
  longitude :: 'f
  latitude_degree :: int
  latitude_minute :: int
  latitude_second :: int
  longitude_degree :: int
  longitude_minute :: int
  longitude_second :: int
  speed :: 'f
  direction :: 'f
  height :: 'f
  satellite :: int
  position_sn :: byte
  position_ew :: byte
  date_tm :: tm
  date_day :: "byte list"
  date_year :: "byte list"

text \<open>The globals: \<open>mgps\<close>, \<open>flag_send\<close> and the table of the months.\<close>

record 'f gps_state =
  mgps :: "'f gps_info"
  flag_send :: bool
  date_mday :: "int list"

subsection \<open>Filling in the derived fields\<close>

text \<open>Degrees, minutes and seconds of a coordinate \<open>dddmm.mmmm\<close>.\<close>

definition split_degrees :: "'f float_ops \<Rightarrow> 'f \<Rightarrow> (int \<times> int \<times> int) option" where
  "split_degrees fo x = do {
     n \<leftarrow> fo_to_int fo x;
     let deg = n sdiv 100;
     m \<leftarrow> i32 (deg * 100);
     let dd = fo_sub fo x (fo_of_int fo m);
     min \<leftarrow> fo_to_int fo dd;
     sec \<leftarrow> fo_to_int fo (fo_mul fo (fo_sub fo dd (fo_of_int fo min)) (fo_of_int fo 60));
     Some (deg, min, sec) }"

text \<open>Two digits at a position; \<open>char\<close> is signed.\<close>

definition two_digits :: "byte list \<Rightarrow> int \<Rightarrow> int option" where
  "two_digits pbuf i = do {
     a \<leftarrow> rd pbuf i;
     b \<leftarrow> rd pbuf (i + 1);
     Some ((sint a - 48) * 10 + (sint b - 48)) }"

definition fix_date :: "int list \<Rightarrow> 'f gps_info \<Rightarrow> (int list \<times> 'f gps_info) option" where
  "fix_date tab gps = do {
     nd \<leftarrow> c_strlen (date_day gps);
     if nd = 0 then Some (tab, gps)
     else do {
       ny \<leftarrow> c_strlen (date_year gps);
       if ny = 0 then Some (tab, gps)
       else do {
         hour \<leftarrow> two_digits (date_day gps) 0;
         min \<leftarrow> two_digits (date_day gps) 2;
         sec \<leftarrow> two_digits (date_day gps) 4;
         mday \<leftarrow> two_digits (date_year gps) 0;
         mon \<leftarrow> two_digits (date_year gps) 2;
         year \<leftarrow> two_digits (date_year gps) 4;
         (tab, t) \<leftarrow> utc2btc tab ((date_tm gps)\<lparr>tm_hour := hour, tm_min := min, tm_sec := sec,
                       tm_mday := mday, tm_mon := mon - 1, tm_year := year + 100\<rparr>);
         Some (tab, gps\<lparr>date_tm := t\<rparr>) } } }"

definition fix_gps_info :: "'f float_ops \<Rightarrow> int list \<Rightarrow> 'f gps_info \<Rightarrow> (int list \<times> 'f gps_info) option" where
  "fix_gps_info fo tab gps = do {
     (d, m, s) \<leftarrow> split_degrees fo (latitude gps);
     let gps = gps\<lparr>latitude_degree := d, latitude_minute := m, latitude_second := s\<rparr>;
     (d, m, s) \<leftarrow> split_degrees fo (longitude gps);
     fix_date tab (gps\<lparr>longitude_degree := d, longitude_minute := m, longitude_second := s\<rparr>) }"

subsection \<open>The two sentences\<close>

text \<open>
  \<open>while(buf[i++] != ',');\<close> moves \<open>i\<close> behind the next comma; it does not stop at a NUL. The
  number of bytes it skips in what follows position \<open>i\<close>:
\<close>

fun comma_after :: "byte list \<Rightarrow> int option" where
  "comma_after [] = None"
| "comma_after (b # bs) = (if b = 44 then Some 1 else map_option ((+) 1) (comma_after bs))"

definition next_item :: "byte list \<Rightarrow> int \<Rightarrow> (int \<times> byte) option" where
  "next_item rx i = do { n \<leftarrow> comma_after (drop (nat i) rx); b \<leftarrow> rd rx (i + n); Some (i + n, b) }"

definition parse_gnrmc :: "'f float_ops \<Rightarrow> 'f gps_info \<Rightarrow> byte list \<Rightarrow> int \<Rightarrow> 'f gps_info option" where
  "parse_gnrmc fo gps rx p = do {
     strx \<leftarrow> c_strstr (drop (nat p) rx) (lit ''A,'');
     case strx of None \<Rightarrow> Some gps
     | Some k \<Rightarrow> do {
         b \<leftarrow> rd rx p;
         gps \<leftarrow> (if b \<noteq> 44
                 then do {
                   d \<leftarrow> (if k = 0 then None else c_strncpy (replicate 16 0) (drop (nat p) rx) (k - 1));
                   Some (gps\<lparr>date_day := d\<rparr>) }
                 else Some gps);
         let i = p + int k + 2;
         b \<leftarrow> rd rx i;
         gps \<leftarrow> (if b \<noteq> 44 then do { x \<leftarrow> c_atof fo (drop (nat i) rx); Some (gps\<lparr>latitude := x\<rparr>) } else Some gps);
         (i, b) \<leftarrow> next_item rx i;
         let gps = (if b \<noteq> 44 then gps\<lparr>position_sn := b\<rparr> else gps);
         (i, b) \<leftarrow> next_item rx i;
         gps \<leftarrow> (if b \<noteq> 44 then do { x \<leftarrow> c_atof fo (drop (nat i) rx); Some (gps\<lparr>longitude := x\<rparr>) } else Some gps);
         (i, b) \<leftarrow> next_item rx i;
         let gps = (if b \<noteq> 44 then gps\<lparr>position_ew := b\<rparr> else gps);
         (i, b) \<leftarrow> next_item rx i;
         gps \<leftarrow> (if b \<noteq> 44
                 then do { x \<leftarrow> c_atof fo (drop (nat i) rx);
                           Some (gps\<lparr>speed := fo_single fo (fo_mul fo x (fo_atof fo (lit ''1.85'')))\<rparr>) }
                 else Some gps);
         (i, b) \<leftarrow> next_item rx i;
         gps \<leftarrow> (if b \<noteq> 44
                 then do { x \<leftarrow> c_atof fo (drop (nat i) rx); Some (gps\<lparr>direction := fo_single fo x\<rparr>) }
                 else Some gps);
         (i, b) \<leftarrow> next_item rx i;
         if b \<noteq> 44
         then do { d \<leftarrow> c_strncpy (replicate 16 0) (drop (nat i) rx) 6; Some (gps\<lparr>date_year := d\<rparr>) }
         else Some gps } }"

fun skip_items :: "nat \<Rightarrow> byte list \<Rightarrow> int \<Rightarrow> int option" where
  "skip_items 0 rx i = Some i"
| "skip_items (Suc n) rx i = do { k \<leftarrow> comma_after (drop (nat i) rx); skip_items n rx (i + k) }"

definition parse_gngga :: "'f float_ops \<Rightarrow> 'f gps_info \<Rightarrow> byte list \<Rightarrow> int \<Rightarrow> 'f gps_info option" where
  "parse_gngga fo gps rx p = do {
     i \<leftarrow> skip_items 5 rx p;
     b \<leftarrow> rd rx i;
     if b = 48 then Some gps
     else do {
       (i, b) \<leftarrow> next_item rx i;
       gps \<leftarrow> (if b \<noteq> 44 then do { n \<leftarrow> c_atoi (drop (nat i) rx); Some (gps\<lparr>satellite := n\<rparr>) } else Some gps);
       (i, b) \<leftarrow> next_item rx i;
       (i, b) \<leftarrow> next_item rx i;
       if b \<noteq> 44
       then do { x \<leftarrow> c_atof fo (drop (nat i) rx); Some (gps\<lparr>height := fo_single fo x\<rparr>) }
       else Some gps } }"

subsection \<open>One packet\<close>

definition hex_str :: "byte list" where
  "hex_str = lit ''0123456789ABCDEF''"

text \<open>\<open>bcc\<close>: the exclusive or of \<open>len\<close> bytes from offset \<open>p\<close>.\<close>

fun bcc_from :: "byte list \<Rightarrow> int \<Rightarrow> nat \<Rightarrow> byte \<Rightarrow> byte option" where
  "bcc_from rx p 0 crc = Some crc"
| "bcc_from rx p (Suc n) crc = do { b \<leftarrow> rd rx p; bcc_from rx (p + 1) n (crc XOR b) }"

definition nmea_bcc :: "byte list \<Rightarrow> int \<Rightarrow> int \<Rightarrow> byte option" where
  "nmea_bcc rx p len = bcc_from rx p (nat len) 0"

definition crc_str :: "byte \<Rightarrow> (byte \<times> byte) option" where
  "crc_str crc = do {
     a \<leftarrow> rd hex_str (uint (drop_bit 4 (crc AND 0xF0)));
     b \<leftarrow> rd hex_str (uint (crc AND 0x0F));
     Some (a, b) }"

text \<open>\<open>strncasecmp(crc_str, buf+len-2, 2)\<close> is zero; the second bytes are read if the first agree.\<close>

definition crc_matches :: "byte \<times> byte \<Rightarrow> byte list \<Rightarrow> int \<Rightarrow> bool option" where
  "crc_matches c rx q = do {
     a \<leftarrow> rd rx q;
     if c_tolower (fst c) \<noteq> c_tolower a then Some False
     else do { b \<leftarrow> rd rx (q + 1); Some (c_tolower (snd c) = c_tolower b) } }"

text \<open>The sentence at \<open>p\<close> with its checksum cut off: dispatch on its name.\<close>

definition dispatch :: "'f float_ops \<Rightarrow> byte list \<Rightarrow> 'f gps_state \<Rightarrow> int \<Rightarrow> 'f gps_state option" where
  "dispatch fo rx st p = do {
     rmc \<leftarrow> c_strneq (lit ''GNRMC'') (drop (nat (p + 1)) rx) 5;
     if rmc
     then do { g \<leftarrow> parse_gnrmc fo (mgps st) rx (p + 7); Some (st\<lparr>mgps := g\<rparr>) }
     else do {
       gga \<leftarrow> c_strneq (lit ''GNGGA'') (drop (nat (p + 1)) rx) 5;
       if gga
       then do {
         g \<leftarrow> parse_gngga fo (mgps st) rx (p + 7);
         if flag_send st
         then do {
           (tab, g) \<leftarrow> fix_gps_info fo (date_mday st) g;
           Some (st\<lparr>mgps := g, date_mday := tab, flag_send := False\<rparr>) }
         else Some (st\<lparr>mgps := g\<rparr>) }
       else Some st } }"

definition parse_packet :: "'f float_ops \<Rightarrow> byte list \<Rightarrow> 'f gps_state \<Rightarrow> int \<Rightarrow> (byte list \<times> 'f gps_state) option" where
  "parse_packet fo rx st p = do {
     len \<leftarrow> c_strlen (drop (nat p) rx);
     star \<leftarrow> rd rx (p + len - 3);
     if star \<noteq> 42 then Some (rx, st)
     else do {
       crc \<leftarrow> nmea_bcc rx (p + 1) (len - 4);
       s \<leftarrow> crc_str crc;
       ok \<leftarrow> crc_matches s rx (p + len - 2);
       if \<not> ok then Some (rx, st)
       else do {
         rx \<leftarrow> wr rx (p + len - 3) 0;
         st \<leftarrow> dispatch fo rx st p;
         Some (rx, st) } } }"

subsection \<open>Cutting the buffer into packets\<close>

text \<open>The search for a dollar reads \<open>buf[i]\<close> before it compares \<open>i\<close> with the length.\<close>

function find_dollar :: "byte list \<Rightarrow> int \<Rightarrow> int \<Rightarrow> int \<Rightarrow> int option" where
  "find_dollar rx p len i = do {
     b \<leftarrow> rd rx (p + i);
     if b \<noteq> 36 \<and> i < len then find_dollar rx p len (i + 1) else Some i }"
  by pat_completeness auto
termination by (relation "measure (\<lambda>(rx, p, len, i). nat (len - i))") auto

function parse_lines :: "'f float_ops \<Rightarrow> byte list \<Rightarrow> 'f gps_state \<Rightarrow> int \<Rightarrow> int \<Rightarrow> int \<Rightarrow> int \<Rightarrow>
    (byte list \<times> 'f gps_state \<times> int) option" where
  "parse_lines fo rx st p len i istart =
     (if i < len
      then do {
        b \<leftarrow> rd rx (p + i);
        if b = 13
        then do {
          rx \<leftarrow> wr rx (p + i) 0;
          (rx, st) \<leftarrow> parse_packet fo rx st (p + istart);
          lf \<leftarrow> (if i + 1 < len then do { c \<leftarrow> rd rx (p + i + 1); Some (c = 10) } else Some False);
          if lf then parse_lines fo rx st p len (i + 3) (i + 2)
          else parse_lines fo rx st p len (i + 2) (i + 1) }
        else parse_lines fo rx st p len (i + 1) istart }
      else Some (rx, st, istart))"
  by pat_completeness auto
termination by (relation "measure (\<lambda>(fo, rx, st, p, len, i, istart). nat (len - i))") auto

declare find_dollar.simps [simp del] parse_lines.simps [simp del]

definition parse_buf :: "'f float_ops \<Rightarrow> byte list \<Rightarrow> 'f gps_state \<Rightarrow> int \<Rightarrow> int \<Rightarrow>
    (byte list \<times> 'f gps_state \<times> int) option" where
  "parse_buf fo rx st p len = do {
     i \<leftarrow> find_dollar rx p len 0;
     if i \<ge> len then Some (rx, st, len) else parse_lines fo rx st p len i i }"

subsection \<open>The receive loop of \<open>main\<close>\<close>

definition BUF_SIZE :: int where "BUF_SIZE = 2048"
definition MIN_SIZE :: int where "MIN_SIZE = 64"

record 'f receiver =
  rx_buf :: "byte list"
  read_pos :: int
  write_pos :: int
  globals :: "'f gps_state"

text \<open>
  Making room moves what is not parsed yet to the front with \<open>memcpy\<close>, which must not be given
  overlapping parts; an empty part is no part.
\<close>

definition make_room :: "'f receiver \<Rightarrow> 'f receiver option" where
  "make_room r =
     (if BUF_SIZE - 1 - write_pos r < MIN_SIZE
      then let n = write_pos r - read_pos r in
        if 0 < n \<and> read_pos r < n then None
        else Some (r\<lparr>rx_buf := take (nat n) (drop (nat (read_pos r)) (rx_buf r)) @ drop (nat n) (rx_buf r),
                     read_pos := 0, write_pos := n\<rparr>)
      else Some r)"

text \<open>
  What \<open>dread\<close> delivered, at most the room that is left, is stored behind \<open>write_pos\<close> with a NUL
  after it, and parsed.
\<close>

definition store_bytes :: "byte list \<Rightarrow> int \<Rightarrow> byte list \<Rightarrow> byte list option" where
  "store_bytes buf i bs = (if 0 \<le> i \<and> i + int (length bs) \<le> int (length buf)
     then Some (take (nat i) buf @ bs @ drop (nat i + length bs) buf) else None)"

definition receive :: "'f float_ops \<Rightarrow> byte list \<Rightarrow> 'f receiver \<Rightarrow> 'f receiver option" where
  "receive fo bs r = do {
     buf \<leftarrow> store_bytes (rx_buf r) (write_pos r) bs;
     buf \<leftarrow> wr buf (write_pos r + int (length bs)) 0;
     let w = write_pos r + int (length bs);
     (buf, st, n) \<leftarrow> parse_buf fo buf (globals r) (read_pos r) (w - read_pos r);
     Some (r\<lparr>rx_buf := buf, globals := st, write_pos := w, read_pos := read_pos r + n\<rparr>) }"

text \<open>
  One turn of the loop, after what the serial line and the timer did: bytes arrived, nothing came
  in time, a read failed (with the descriptor a new \<open>init_uart\<close> would give, negative on failure),
  or the alarm went off. More than five failures open the line again; \<^term>\<open>Inr\<close> is \<open>exit\<close>.
\<close>

datatype line_event = Got "byte list" | Timeout | Failed int | Alarm

record 'f main_state = "'f receiver" +
  uart_fd :: int
  num_errors :: int

definition itmer_func :: "'f gps_state \<Rightarrow> 'f gps_state" where
  "itmer_func st = st\<lparr>flag_send := True\<rparr>"

definition gps_turn :: "'f float_ops \<Rightarrow> line_event \<Rightarrow> 'f main_state \<Rightarrow> ('f main_state + int) option" where
  "gps_turn fo ev m = (case ev of
     Alarm \<Rightarrow> Some (Inl (m\<lparr>globals := itmer_func (globals m)\<rparr>))
   | _ \<Rightarrow> do {
       r \<leftarrow> make_room (receiver.truncate m);
       let m = m\<lparr>rx_buf := rx_buf r, read_pos := read_pos r, write_pos := write_pos r\<rparr>;
       case ev of
         Got bs \<Rightarrow> do {
           r \<leftarrow> receive fo bs (receiver.truncate m);
           Some (Inl (m\<lparr>rx_buf := rx_buf r, read_pos := read_pos r, write_pos := write_pos r, globals := globals r\<rparr>)) }
       | Timeout \<Rightarrow> Some (Inl m)
       | Failed fd \<Rightarrow> do {
           n \<leftarrow> i32 (num_errors m + 1);
           if n > 5
           then if fd < 0 then Some (Inr (-1)) else Some (Inl (m\<lparr>uart_fd := fd, num_errors := 0\<rparr>))
           else Some (Inl (m\<lparr>num_errors := n\<rparr>)) }
       | Alarm \<Rightarrow> Some (Inl m) })"

text \<open>The first shot of the timer: how many seconds are left to a multiple of \<open>near_seconds\<close>.\<close>

definition set_interval_timer :: "int \<Rightarrow> int \<Rightarrow> int \<Rightarrow> (int \<times> int) option" where
  "set_interval_timer now seconds near_seconds = do {
     diff \<leftarrow> c_rem (now + near_seconds) near_seconds;
     Some (seconds, near_seconds - diff) }"

subsection \<open>Checksums\<close>

definition xor_all :: "byte list \<Rightarrow> byte" where
  "xor_all bs = fold (\<lambda>b c. c XOR b) bs 0"

definition hex_byte :: "byte \<Rightarrow> byte \<Rightarrow> byte option" where
  "hex_byte a b = do { x \<leftarrow> hex_value a; y \<leftarrow> hex_value b; Some (of_nat (16 * x + y)) }"

lemma hex_str_eq: "hex_str = [48,49,50,51,52,53,54,55,56,57,65,66,67,68,69,70]"
  by (simp add: hex_str_def lit_def)

lemma hex_digit_iff: "n < 16 \<Longrightarrow> c_tolower (hex_str ! n) = c_tolower b \<longleftrightarrow> hex_value b = Some n"
proof -
  assume n: "n < 16"
  have "list_all (\<lambda>b. list_all (\<lambda>n. c_tolower (hex_str ! n) = c_tolower b \<longleftrightarrow> hex_value b = Some n) [0..<16]) all_bytes"
    unfolding hex_str_eq by code_simp
  from byte_exhaustive [OF this] n show ?thesis by (simp add: list_all_iff)
qed

lemma crc_str_digits: "crc_str c = Some (hex_str ! (unat c div 16), hex_str ! (unat c mod 16))"
proof -
  have "list_all (\<lambda>c. crc_str c = Some (hex_str ! (unat c div 16), hex_str ! (unat c mod 16))) all_bytes"
    unfolding hex_str_eq crc_str_def by code_simp
  from byte_exhaustive [OF this] show ?thesis .
qed

lemma hex_byte_iff:
  "hex_byte a b = Some c \<longleftrightarrow> hex_value a = Some (unat c div 16) \<and> hex_value b = Some (unat c mod 16)"
proof
  assume "hex_byte a b = Some c"
  then obtain x y where h: "hex_value a = Some x" "hex_value b = Some y" "c = of_nat (16 * x + y)"
    by (auto simp: hex_byte_def split: Option.bind_splits)
  moreover have "unat c = 16 * x + y"
    using hex_value_less [OF h(1)] hex_value_less [OF h(2)] by (subst h(3)) (simp add: unat_of_nat del: of_nat_add of_nat_mult)
  ultimately show "hex_value a = Some (unat c div 16) \<and> hex_value b = Some (unat c mod 16)"
    using hex_value_less [OF h(2)] by simp
qed (simp add: hex_byte_def del: of_nat_add of_nat_mult)

lemma crc_matches_iff:
  assumes "crc_str c = Some s" and "rd rx q = Some a" and "rd rx (q + 1) = Some b"
  shows "crc_matches s rx q = Some (hex_byte a b = Some c)"
  using assms unat_byte [of c] by (auto simp: crc_matches_def crc_str_digits hex_byte_iff hex_digit_iff)

lemma bcc_from_fold:
  "bcc_from (pre @ bs @ rest) (int (length pre)) (length bs) c = Some (fold (\<lambda>b c. c XOR b) bs c)"
proof (induction bs arbitrary: pre c)
  case (Cons b bs)
  from Cons.IH [of "pre @ [b]"] show ?case by (simp add: add.commute)
qed simp

lemma rd_append: "0 \<le> j \<Longrightarrow> rd (pre @ xs) (int (length pre) + j) = rd xs j"
  by (simp add: rd_def nth_append nat_add_distrib)

lemma wr_append: "0 \<le> j \<Longrightarrow> wr (pre @ xs) (int (length pre) + j) v = map_option ((@) pre) (wr xs j v)"
  by (auto simp: wr_def list_update_append nat_add_distrib)

text \<open>
  A sentence is taken exactly when its checksum is right. For a string \<open>$body*hh\<close> in the
  buffer, \<open>parse_packet\<close> dispatches it, with the checksum cut off, when the two digits, in either
  case, are the exclusive or of the bytes of the body; for any other two bytes it changes nothing.
\<close>

theorem parse_packet_checksum:
  assumes "0 \<notin> set body" and "d \<noteq> 0" and "h1 \<noteq> 0" and "h2 \<noteq> 0"
  shows "parse_packet fo (pre @ (d # body @ [42, h1, h2]) @ 0 # post) st (int (length pre)) =
    (if hex_byte h1 h2 = Some (xor_all body)
     then map_option (Pair (pre @ (d # body @ [0, h1, h2]) @ 0 # post))
       (dispatch fo (pre @ (d # body @ [0, h1, h2]) @ 0 # post) st (int (length pre)))
     else Some (pre @ (d # body @ [42, h1, h2]) @ 0 # post, st))"
proof -
  let ?l = "d # body @ [42, h1, h2]"
  let ?rx = "pre @ ?l @ 0 # post"
  have len: "c_strlen (drop (nat (int (length pre))) ?rx) = Some (int (length body) + 4)"
    using assms c_strlen_append [of ?l post] by simp
  have star: "rd ?rx (int (length pre) + (int (length body) + 4) - 3) = Some 42"
    using rd_append [of "int (length body) + 1" pre "?l @ 0 # post"] by (simp add: rd_def nat_add_distrib nth_append)
  have h: "rd ?rx (int (length pre) + (int (length body) + 4) - 2) = Some h1"
    "rd ?rx (int (length pre) + (int (length body) + 4) - 2 + 1) = Some h2"
    using rd_append [of "int (length body) + 2" pre "?l @ 0 # post"] rd_append [of "int (length body) + 3" pre "?l @ 0 # post"]
    by (simp_all add: rd_def nat_add_distrib nth_append algebra_simps)
  have crc: "nmea_bcc ?rx (int (length pre) + 1) (int (length body) + 4 - 4) = Some (xor_all body)"
    using bcc_from_fold [of "pre @ [d]" body "42 # h1 # h2 # 0 # post" 0] by (simp add: nmea_bcc_def xor_all_def add.commute)
  have w: "wr ?rx (int (length pre) + (int (length body) + 4) - 3) 0 = Some (pre @ (d # body @ [0, h1, h2]) @ 0 # post)"
    using wr_append [of "int (length body) + 1" pre "?l @ 0 # post" 0] by (simp add: wr_def nat_add_distrib list_update_append)
  obtain s where s: "crc_str (xor_all body) = Some s" using crc_str_digits by blast
  show ?thesis
    unfolding parse_packet_def len bind.bind_lunit crc s star crc_matches_iff [OF s h] w
    by (simp add: map_conv_bind_option comp_def)
qed

text \<open>Floating point for the examples: whole numbers and no fractions; and a first state.\<close>

definition int_ops :: "int float_ops" where
  "int_ops = \<lparr>fo_atof = (\<lambda>s. dec_value (takeWhile c_isdigit s)), fo_of_int = (\<lambda>i. i), fo_to_int = i32,
     fo_sub = (-), fo_mul = (*), fo_single = (\<lambda>x. x)\<rparr>"

definition fresh :: "int main_state" where
  "fresh = \<lparr>rx_buf = map (\<lambda>_. 0) [0..<2048], read_pos = 0, write_pos = 0,
     globals = \<lparr>mgps = \<lparr>latitude = 0, longitude = 0, latitude_degree = 0, latitude_minute = 0, latitude_second = 0,
         longitude_degree = 0, longitude_minute = 0, longitude_second = 0, speed = 0, direction = 0, height = 0,
         satellite = 0, position_sn = 0, position_ew = 0,
         date_tm = \<lparr>tm_sec = 0, tm_min = 0, tm_hour = 0, tm_mday = 0, tm_mon = 0, tm_year = 0\<rparr>,
         date_day = replicate 16 0, date_year = replicate 16 0\<rparr>,
       flag_send = False, date_mday = date_mday0\<rparr>, uart_fd = 3, num_errors = 0\<rparr>"

theorem parse_packet_checksum_witness:
  "parse_packet int_ops ([7] @ (36 # [71, 80] @ [42, 49, 55]) @ 0 # [9]) (globals fresh) (int (length [7 :: byte])) =
    (if hex_byte 49 55 = Some (xor_all [71, 80])
     then map_option (Pair ([7] @ (36 # [71, 80] @ [0, 49, 55]) @ 0 # [9]))
       (dispatch int_ops ([7] @ (36 # [71, 80] @ [0, 49, 55]) @ 0 # [9]) (globals fresh) (int (length [7 :: byte])))
     else Some ([7] @ (36 # [71, 80] @ [42, 49, 55]) @ 0 # [9], globals fresh))"
  by (rule parse_packet_checksum) simp_all

subsection \<open>Framing\<close>




definition frames :: "byte list list \<Rightarrow> byte list" where
  "frames ls = concat (map (\<lambda>l. l @ [13, 10]) ls)"

lemma frames_simps [simp]: "frames [] = []" "frames (l # ls) = l @ 13 # 10 # frames ls"
  by (simp_all add: frames_def)







subsection \<open>The receive loop stays in its buffer\<close>

lemma parse_packet_length: "parse_packet fo rx st p = Some (rx', st') \<Longrightarrow> length rx' = length rx"
  by (auto simp: parse_packet_def wr_length split: Option.bind_splits if_splits)

lemma parse_lines_result:
  "parse_lines fo rx st p len i s = Some (rx', st', n) \<Longrightarrow> s \<le> len \<Longrightarrow> s \<le> i \<Longrightarrow>
     length rx' = length rx \<and> s \<le> n \<and> n \<le> len"
proof (induction fo rx st p len i s arbitrary: rx' st' n rule: parse_lines.induct)
  case (1 fo rx st p len i s)
  note ih = 1(1-3) and prems = 1(4-6)
  show ?case
  proof (cases "i < len")
    case False
    with prems show ?thesis by (subst (asm) parse_lines.simps) simp
  next
    case True
    with prems(1) obtain b where b: "rd rx (p + i) = Some b"
      by (subst (asm) parse_lines.simps) (auto split: Option.bind_splits)
    show ?thesis
    proof (cases "b = 13")
      case False
      with prems True b ih(3) [OF True b False, of rx' st' n] show ?thesis
        by (subst (asm) parse_lines.simps) simp
    next
      case True
      from prems(1) \<open>i < len\<close> b True obtain r1 r2 st2 lf where
        w: "wr rx (p + i) 0 = Some r1" and k: "parse_packet fo r1 st (p + s) = Some (r2, st2)"
        and lf: "(if i + 1 < len then do { c \<leftarrow> rd r2 (p + i + 1); Some (c = 10) } else Some False) = Some lf"
        and r: "(if lf then parse_lines fo r2 st2 p len (i + 3) (i + 2) else parse_lines fo r2 st2 p len (i + 2) (i + 1))
          = Some (rx', st', n)"
        by (subst (asm) parse_lines.simps) (auto split: Option.bind_splits)
      have l: "length r2 = length rx" using wr_length [OF w] parse_packet_length [OF k] by simp
      show ?thesis
      proof (cases lf)
        case True
        then have "i + 1 < len" using lf by (auto split: if_splits)
        with ih(1) [OF \<open>i < len\<close> b \<open>b = 13\<close> w k refl lf True, of rx' st' n] r True l prems(3) show ?thesis by simp
      next
        case False
        with ih(2) [OF \<open>i < len\<close> b \<open>b = 13\<close> w k refl lf False, of rx' st' n] r l prems(3) \<open>i < len\<close> show ?thesis by simp
      qed
    qed
  qed
qed

lemma find_dollar_nonneg: "find_dollar rx p len i = Some n \<Longrightarrow> i \<le> n"
proof (induction rx p len i rule: find_dollar.induct)
  case (1 rx p len i)
  from 1(2) show ?case
    by (subst (asm) find_dollar.simps) (auto split: Option.bind_splits if_splits dest: 1(1))
qed

lemma parse_buf_result:
  assumes "parse_buf fo rx st p len = Some (rx', st', n)" and "0 \<le> len"
  shows "length rx' = length rx \<and> 0 \<le> n \<and> n \<le> len"
proof -
  from assms(1) obtain i where i: "find_dollar rx p len 0 = Some i"
    "(if i \<ge> len then Some (rx, st, len) else parse_lines fo rx st p len i i) = Some (rx', st', n)"
    by (auto simp: parse_buf_def split: Option.bind_splits)
  with find_dollar_nonneg [OF i(1)] parse_lines_result [of fo rx st p len i i rx' st' n] assms(2)
  show ?thesis by (auto split: if_splits)
qed

definition rx_inv :: "'f receiver \<Rightarrow> bool" where
  "rx_inv r \<longleftrightarrow> int (length (rx_buf r)) = BUF_SIZE \<and> 0 \<le> read_pos r \<and> read_pos r \<le> write_pos r \<and> write_pos r < BUF_SIZE"

lemma make_room_inv [c_inv]: "make_room r = Some r' \<Longrightarrow> rx_inv r \<Longrightarrow> rx_inv r'"
  by (auto simp: make_room_def rx_inv_def Let_def split: if_splits)

lemma store_in_bounds [c_inv]:
  "rx_inv r \<Longrightarrow> int (length bs) < BUF_SIZE - write_pos r \<Longrightarrow>
   \<exists>buf. store_bytes (rx_buf r) (write_pos r) bs = Some buf \<and> int (length buf) = BUF_SIZE
     \<and> wr buf (write_pos r + int (length bs)) 0 \<noteq> None"
  by (auto simp: store_bytes_def rx_inv_def wr_def min_def)

lemma receive_inv [c_inv]:
  assumes "receive fo bs r = Some r'" and "rx_inv r" and "int (length bs) < BUF_SIZE - write_pos r"
  shows "rx_inv r'"
proof -
  let ?w = "write_pos r + int (length bs)"
  from store_in_bounds [OF assms(2,3)] obtain buf where buf: "store_bytes (rx_buf r) (write_pos r) bs = Some buf" "int (length buf) = BUF_SIZE"
    by blast
  with assms(1) obtain buf1 buf2 st n where b: "wr buf ?w 0 = Some buf1"
    "parse_buf fo buf1 (globals r) (read_pos r) (?w - read_pos r) = Some (buf2, st, n)"
    "r' = r\<lparr>rx_buf := buf2, globals := st, write_pos := ?w, read_pos := read_pos r + n\<rparr>"
    by (auto simp: receive_def Let_def split: Option.bind_splits)
  from parse_buf_result [OF b(2)] wr_length [OF b(1)] buf(2) b(3) assms(2,3) show ?thesis
    by (simp add: rx_inv_def)
qed

text \<open>
  The states \<open>main\<close> reaches: from an empty buffer, by turns in which \<open>dread\<close> delivers no more than
  the room it was given.
\<close>

definition room :: "'f receiver \<Rightarrow> int" where
  "room r = (case make_room r of Some r' \<Rightarrow> BUF_SIZE - 1 - write_pos r' | None \<Rightarrow> 0)"

fun delivers :: "line_event \<Rightarrow> 'f receiver \<Rightarrow> bool" where
  "delivers (Got bs) r = (int (length bs) \<le> room r)"
| "delivers _ r = True"

inductive gps_reach :: "'f float_ops \<Rightarrow> 'f main_state \<Rightarrow> bool" for fo where
  start: "length (rx_buf m) = 2048 \<Longrightarrow> read_pos m = 0 \<Longrightarrow> write_pos m = 0 \<Longrightarrow> num_errors m = 0 \<Longrightarrow> gps_reach fo m"
| turn: "gps_reach fo m \<Longrightarrow> delivers ev (receiver.truncate m) \<Longrightarrow> gps_turn fo ev m = Some (Inl m') \<Longrightarrow> gps_reach fo m'"

lemma rx_inv_truncate: "rx_inv (receiver.truncate m) \<longleftrightarrow>
   int (length (rx_buf m)) = BUF_SIZE \<and> 0 \<le> read_pos m \<and> read_pos m \<le> write_pos m \<and> write_pos m < BUF_SIZE"
  by (simp add: rx_inv_def receiver.defs)

lemma gps_turn_inv:
  assumes "gps_turn fo ev m = Some (Inl m')" and "rx_inv (receiver.truncate m)" and "delivers ev (receiver.truncate m)"
    and "0 \<le> num_errors m" and "num_errors m \<le> 5"
  shows "rx_inv (receiver.truncate m') \<and> 0 \<le> num_errors m' \<and> num_errors m' \<le> 5"
proof (cases ev)
  case (Got bs)
  from assms(1) Got obtain r r2 where r: "make_room (receiver.truncate m) = Some r"
    and r2: "receive fo bs (receiver.truncate (m\<lparr>rx_buf := rx_buf r, read_pos := read_pos r, write_pos := write_pos r\<rparr>)) = Some r2"
    and m': "m' = m\<lparr>rx_buf := rx_buf r2, read_pos := read_pos r2, write_pos := write_pos r2, globals := globals r2\<rparr>"
    by (auto simp: gps_turn_def split: Option.bind_splits)
  have i: "rx_inv (receiver.truncate (m\<lparr>rx_buf := rx_buf r, read_pos := read_pos r, write_pos := write_pos r\<rparr>))"
    using make_room_inv [OF r assms(2)] by (simp add: rx_inv_def receiver.defs)
  from receive_inv [OF r2 i] assms(3) Got r have "rx_inv r2" by (simp add: room_def receiver.defs)
  with m' assms(4,5) show ?thesis by (simp add: rx_inv_def receiver.defs)
next
  case Timeout
  with assms show ?thesis
    by (auto simp: gps_turn_def rx_inv_def receiver.defs split: Option.bind_splits dest: make_room_inv)
next
  case (Failed fd)
  from assms(1) Failed obtain r where r: "make_room (receiver.truncate m) = Some r"
    by (auto simp: gps_turn_def split: Option.bind_splits)
  from make_room_inv [OF r assms(2)] have "rx_inv r" .
  with assms Failed r show ?thesis
    by (auto simp: gps_turn_def rx_inv_def receiver.defs i32_def Let_def split: Option.bind_splits if_splits)
next
  case Alarm
  with assms show ?thesis by (auto simp: gps_turn_def rx_inv_def receiver.defs)
qed

text \<open>
  The positions of the receive loop. In every state \<open>main\<close> reaches by turns that have a result, the
  positions are in order inside the 2048 bytes, the count of failures is at most five, and what
  \<open>dread\<close> may deliver next fits with its NUL. A turn has no result when \<open>make_room\<close> would copy between
  parts that overlap, or when parsing a sentence leaves the buffer or an array.
\<close>

theorem gps_receive_invariant:
  assumes "gps_reach fo m"
  shows "rx_inv (receiver.truncate m) \<and> 0 \<le> num_errors m \<and> num_errors m \<le> 5
    \<and> (\<forall>r bs. make_room (receiver.truncate m) = Some r \<and> int (length bs) \<le> room (receiver.truncate m) \<longrightarrow>
        (\<exists>buf. store_bytes (rx_buf r) (write_pos r) bs = Some buf \<and> wr buf (write_pos r + int (length bs)) 0 \<noteq> None))"
proof -
  have i: "rx_inv (receiver.truncate m) \<and> 0 \<le> num_errors m \<and> num_errors m \<le> 5"
    using assms by (induction rule: gps_reach.induct) (auto simp: rx_inv_truncate BUF_SIZE_def dest: gps_turn_inv)
  have "\<exists>buf. store_bytes (rx_buf r) (write_pos r) bs = Some buf \<and> wr buf (write_pos r + int (length bs)) 0 \<noteq> None"
    if r: "make_room (receiver.truncate m) = Some r" and l: "int (length bs) \<le> room (receiver.truncate m)" for r bs
  proof -
    have "rx_inv r" using make_room_inv [OF r] i by blast
    moreover have "int (length bs) < BUF_SIZE - write_pos r" using l by (simp add: room_def r)
    ultimately show ?thesis using store_in_bounds by blast
  qed
  with i show ?thesis by blast
qed

lemma fresh_turns: "gps_reach int_ops fresh" "gps_turn int_ops (Failed 4) fresh = Some (Inl (fresh\<lparr>num_errors := 1\<rparr>))"
  by (rule gps_reach.start; simp add: fresh_def)
    (simp add: fresh_def gps_turn_def make_room_def BUF_SIZE_def MIN_SIZE_def receiver.defs i32_def in_i32_def)

theorem gps_receive_invariant_witness:
  "gps_reach int_ops (fresh\<lparr>num_errors := 1\<rparr>) \<and> rx_inv (receiver.truncate (fresh\<lparr>num_errors := 1\<rparr>))"
proof -
  have r: "gps_reach int_ops (fresh\<lparr>num_errors := 1\<rparr>)"
    by (rule gps_reach.turn [OF fresh_turns(1) _ fresh_turns(2)]) simp
  with gps_receive_invariant [OF r] show ?thesis by blast
qed

subsection \<open>The fields of a position sentence\<close>

lemma comma_after_field: "44 \<notin> set xs \<Longrightarrow> comma_after (xs @ 44 # ys) = Some (int (length xs) + 1)"
  by (induction xs) auto

text \<open>
  A position in the buffer after \<open>pre\<close>, with the field \<open>xs\<close> and then \<open>ys\<close> to come. The byte the
  code looks at there is a comma only if the field is empty.
\<close>

lemma next_item_field:
  assumes "44 \<notin> set xs" and "rx = pre @ xs @ 44 # zs @ 44 # ys" and "i = int (length pre)"
    and "j = int (length (pre @ xs @ [44]))"
  shows "next_item rx i = Some (j, hd (zs @ [44]))"
proof -
  have "rd rx j = Some (hd (zs @ [44]))"
    using rd_append [of 0 "pre @ xs @ [44]" "zs @ 44 # ys"] assms(2,4) by (cases zs) (simp_all add: rd_def)
  with assms show ?thesis by (simp add: next_item_def comma_after_field algebra_simps)
qed

lemma field_start:
  assumes "44 \<notin> set xs" and "rx = pre @ xs @ 44 # ys" and "i = int (length pre)"
  shows "rd rx i = Some (hd (xs @ [44]))"
  using assms by (cases xs) auto

lemma field_empty: "44 \<notin> set xs \<Longrightarrow> hd (xs @ [44]) = 44 \<longleftrightarrow> xs = []"
  by (cases xs) auto

lemma atof_field:
  assumes "\<And>x y. fo_atof fo (x @ 44 # y) = fo_atof fo x"
    and "0 \<notin> set xs" and "0 \<in> set ys" and "i = int (length pre)" and "rx = pre @ xs @ 44 # ys"
  shows "c_atof fo (drop (nat i) rx) = Some (fo_atof fo xs)"
proof -
  have "c_str (xs @ 44 # ys) = xs @ 44 # c_str ys"
    using assms(2) by (induction xs) (simp_all add: c_str_def)
  with assms show ?thesis by (simp add: c_atof_def)
qed

lemma drop_prefix: "rx = pre @ ys \<Longrightarrow> drop (nat (int (length pre))) rx = ys"
  by simp

lemma find_status:
  "65 \<notin> set t \<Longrightarrow> find_sub (lit ''A,'') (t @ 65 # 44 # ys) = Some (length t)"
  by (induction t) (auto simp: lit_def)

text \<open>What a valid sentence with these fields says; an empty field says nothing.\<close>

definition rmc_update :: "'f float_ops \<Rightarrow> 'f gps_info \<Rightarrow> byte list \<Rightarrow> byte list \<Rightarrow> byte list \<Rightarrow> byte list \<Rightarrow>
    byte list \<Rightarrow> byte list \<Rightarrow> byte list \<Rightarrow> byte list \<Rightarrow> 'f gps_info" where
  "rmc_update fo g time lat ns lon ew knots course date = g\<lparr>
     date_day := (if time = [] then date_day g else time @ replicate (16 - length time) 0),
     latitude := (if lat = [] then latitude g else fo_atof fo lat),
     position_sn := (if ns = [] then position_sn g else hd ns),
     longitude := (if lon = [] then longitude g else fo_atof fo lon),
     position_ew := (if ew = [] then position_ew g else hd ew),
     speed := (if knots = [] then speed g else fo_single fo (fo_mul fo (fo_atof fo knots) (fo_atof fo (lit ''1.85'')))),
     direction := (if course = [] then direction g else fo_single fo (fo_atof fo course)),
     date_year := (if date = [] then date_year g else date @ replicate 10 0)\<rparr>"

definition rmc_text :: "byte list \<Rightarrow> byte list \<Rightarrow> byte list \<Rightarrow> byte list \<Rightarrow> byte list \<Rightarrow> byte list \<Rightarrow> byte list \<Rightarrow>
    byte list \<Rightarrow> byte list \<Rightarrow> byte list" where
  "rmc_text time lat ns lon ew knots course date rem =
     time @ 44 # 65 # 44 # lat @ 44 # ns @ 44 # lon @ 44 # ew @ 44 # knots @ 44 # course @ 44 # date @ 44 # rem"

text \<open>The run of \<open>parse_gnrmc\<close> over eight positions, whatever lies between them.\<close>

lemma parse_gnrmc_run:
  assumes "c_strstr (drop (nat p) rx) (lit ''A,'') = Some (Some (Suc (length time)))"
    and "rd rx p = Some (hd (time @ [44]))"
    and "time \<noteq> [] \<Longrightarrow> c_strncpy (replicate 16 0) (drop (nat p) rx) (length time) = Some (time @ replicate (16 - length time) 0)"
    and "p + int (Suc (length time)) + 2 = p1"
    and "rd rx p1 = Some (hd (lat @ [44]))" and "c_atof fo (drop (nat p1) rx) = Some (fo_atof fo lat)"
    and "next_item rx p1 = Some (p2, hd (ns @ [44]))"
    and "next_item rx p2 = Some (p3, hd (lon @ [44]))" and "c_atof fo (drop (nat p3) rx) = Some (fo_atof fo lon)"
    and "next_item rx p3 = Some (p4, hd (ew @ [44]))"
    and "next_item rx p4 = Some (p5, hd (knots @ [44]))" and "c_atof fo (drop (nat p5) rx) = Some (fo_atof fo knots)"
    and "next_item rx p5 = Some (p6, hd (course @ [44]))" and "c_atof fo (drop (nat p6) rx) = Some (fo_atof fo course)"
    and "next_item rx p6 = Some (p7, hd (date @ [44]))"
    and "date \<noteq> [] \<Longrightarrow> c_strncpy (replicate 16 0) (drop (nat p7) rx) 6 = Some (date @ replicate 10 0)"
    and e: "\<forall>xs \<in> {time, lat, ns, lon, ew, knots, course, date}. hd (xs @ [44]) = 44 \<longleftrightarrow> xs = []"
  shows "parse_gnrmc fo g rx p = Some (rmc_update fo g time lat ns lon ew knots course date)"
proof -
  have h: "hd (xs @ [44]) = (if xs = [] then 44 else hd xs)" for xs :: "byte list" by simp
  show ?thesis
    unfolding parse_gnrmc_def assms(1,2,4) bind.bind_lunit option.case Let_def assms(5,7) prod.case
    using e by (simp add: assms rmc_update_def h)
qed

text \<open>
  A valid RMC sentence is read field by field: with a status \<open>A\<close>, fields without commas, at most
  16 characters of time and a date of six digits, \<open>parse_gnrmc\<close> stores each field that is not empty
  and keeps the old value for one that is, for every \<open>atof\<close> that stops at a comma.
\<close>

theorem parse_gnrmc_fields:
  assumes atof: "\<And>x y. fo_atof fo (x @ 44 # y) = fo_atof fo x"
    and fields: "\<forall>xs \<in> {time, lat, ns, lon, ew, knots, course, date}. 44 \<notin> set xs \<and> 0 \<notin> set xs" and rem: "0 \<notin> set rem"
    and status: "65 \<notin> set time" and "length time \<le> 16" and "date = [] \<or> length date = 6"
  shows "parse_gnrmc fo g (pre @ rmc_text time lat ns lon ew knots course date rem @ 0 # post) (int (length pre)) =
    Some (rmc_update fo g time lat ns lon ew knots course date)"
proof -
  let ?P1 = "pre @ time @ [44, 65, 44]" let ?P2 = "?P1 @ lat @ [44]" let ?P3 = "?P2 @ ns @ [44]"
  let ?P4 = "?P3 @ lon @ [44]" let ?P5 = "?P4 @ ew @ [44]" let ?P6 = "?P5 @ knots @ [44]" let ?P7 = "?P6 @ course @ [44]"
  let ?rx = "pre @ rmc_text time lat ns lon ew knots course date rem @ 0 # post"
  have nocomma: "44 \<notin> set lat" "44 \<notin> set ns" "44 \<notin> set lon" "44 \<notin> set ew" "44 \<notin> set knots" "44 \<notin> set course" "44 \<notin> set date" "44 \<notin> set time"
    and nonul: "0 \<notin> set time" "0 \<notin> set lat" "0 \<notin> set ns" "0 \<notin> set lon" "0 \<notin> set ew" "0 \<notin> set knots" "0 \<notin> set course" "0 \<notin> set date"
    using fields by simp_all
  show ?thesis
  proof (rule parse_gnrmc_run)
    show "c_strstr (drop (nat (int (length pre))) ?rx) (lit ''A,'') = Some (Some (Suc (length time)))"
      using find_status [of "time @ [44]" "lat @ 44 # ns @ 44 # lon @ 44 # ew @ 44 # knots @ 44 # course @ 44 # date @ 44 # rem"]
        status nonul rem c_str_append [of "rmc_text time lat ns lon ew knots course date rem" post]
      by (simp add: c_strstr_def rmc_text_def)
    show "rd ?rx (int (length pre)) = Some (hd (time @ [44]))"
      using nocomma by (intro field_start) (simp_all add: rmc_text_def)
    show "c_strncpy (replicate 16 0) (drop (nat (int (length pre))) ?rx) (length time) = Some (time @ replicate (16 - length time) 0)"
      using nonul rem c_ncpy_bytes_str [of "rmc_text time lat ns lon ew knots course date rem" post "length time"] assms(5)
      by (simp add: c_strncpy_def rmc_text_def)
    show "int (length pre) + int (Suc (length time)) + 2 = int (length ?P1)" by simp
    show "rd ?rx (int (length ?P1)) = Some (hd (lat @ [44]))"
      using nocomma by (intro field_start [where pre = ?P1]) (simp_all add: rmc_text_def)
    show "c_atof fo (drop (nat (int (length ?P1))) ?rx) = Some (fo_atof fo lat)"
      using nonul rem by (intro atof_field [OF atof, where pre = ?P1]) (simp_all add: rmc_text_def)
    show "next_item ?rx (int (length ?P1)) = Some (int (length ?P2), hd (ns @ [44]))"
      using nocomma by (intro next_item_field [where pre = ?P1 and xs = lat]) (simp_all add: rmc_text_def)
    show "next_item ?rx (int (length ?P2)) = Some (int (length ?P3), hd (lon @ [44]))"
      using nocomma by (intro next_item_field [where pre = ?P2 and xs = ns]) (simp_all add: rmc_text_def)
    show "c_atof fo (drop (nat (int (length ?P3))) ?rx) = Some (fo_atof fo lon)"
      using nonul rem by (intro atof_field [OF atof, where pre = ?P3]) (simp_all add: rmc_text_def)
    show "next_item ?rx (int (length ?P3)) = Some (int (length ?P4), hd (ew @ [44]))"
      using nocomma by (intro next_item_field [where pre = ?P3 and xs = lon]) (simp_all add: rmc_text_def)
    show "next_item ?rx (int (length ?P4)) = Some (int (length ?P5), hd (knots @ [44]))"
      using nocomma by (intro next_item_field [where pre = ?P4 and xs = ew]) (simp_all add: rmc_text_def)
    show "c_atof fo (drop (nat (int (length ?P5))) ?rx) = Some (fo_atof fo knots)"
      using nonul rem by (intro atof_field [OF atof, where pre = ?P5]) (simp_all add: rmc_text_def)
    show "next_item ?rx (int (length ?P5)) = Some (int (length ?P6), hd (course @ [44]))"
      using nocomma by (intro next_item_field [where pre = ?P5 and xs = knots]) (simp_all add: rmc_text_def)
    show "c_atof fo (drop (nat (int (length ?P6))) ?rx) = Some (fo_atof fo course)"
      using nonul rem by (intro atof_field [OF atof, where pre = ?P6]) (simp_all add: rmc_text_def)
    show "next_item ?rx (int (length ?P6)) = Some (int (length ?P7), hd (date @ [44]))"
      using nocomma by (intro next_item_field [where pre = ?P6 and xs = course]) (simp_all add: rmc_text_def)
    show "c_strncpy (replicate 16 0) (drop (nat (int (length ?P7))) ?rx) 6 = Some (date @ replicate 10 0)" if "date \<noteq> []"
    proof -
      have "drop (nat (int (length ?P7))) ?rx = (date @ 44 # rem) @ 0 # post"
        by (rule drop_prefix) (simp add: rmc_text_def)
      with that nonul rem assms(6) c_ncpy_bytes_str [of "date @ 44 # rem" post 6] show ?thesis
        by (simp add: c_strncpy_def)
    qed
    show "\<forall>xs \<in> {time, lat, ns, lon, ew, knots, course, date}. hd (xs @ [44]) = 44 \<longleftrightarrow> xs = []"
      using fields field_empty by blast
  qed
qed

lemma int_ops_atof: "fo_atof int_ops (x @ 44 # y) = fo_atof int_ops x"
proof -
  have "takeWhile c_isdigit (x @ 44 # y) = takeWhile c_isdigit x"
    by (induction x) (simp_all add: c_isdigit_def)
  then show ?thesis by (simp add: int_ops_def)
qed

text \<open>An instance: a time, both coordinates and a date, no speed.\<close>

theorem parse_gnrmc_fields_witness:
  "parse_gnrmc int_ops (mgps (globals fresh))
      ([36, 44] @ rmc_text (lit ''092927.0'') (lit ''2235.9'') (lit ''N'') (lit ''11400.1'') (lit ''E'') [] (lit ''74'')
        (lit ''151216'') (lit '',D'') @ 0 # [7]) (int (length [36, 44 :: byte])) =
    Some (rmc_update int_ops (mgps (globals fresh)) (lit ''092927.0'') (lit ''2235.9'') (lit ''N'') (lit ''11400.1'') (lit ''E'') []
      (lit ''74'') (lit ''151216''))"
  by (rule parse_gnrmc_fields)
    (rule int_ops_atof, simp_all add: lit_def)

end
