(* ===== verification/JsonData.thy ===== *)
theory JsonData
  imports CFloat
begin

section \<open>JSON items (\<open>src/json/mkey_str2j/cJSON.c\<close>, \<open>cJSON.h\<close>)\<close>

text \<open>
  A JSON item. Its fields are a record; the chain of its children, which the code links by \<open>next\<close>
  and \<open>prev\<close>, is a list here (the links are modelled with the operations that change them). A
  string is the list of its bytes before the NUL, a null pointer \<^term>\<open>None\<close>. An allocation takes
  from a number \<open>mem\<close> of allocations that will succeed: every function gives up at the first one
  that fails, so that the number says all there is to say about the allocator.
\<close>

record 'f item_data =
  jtype :: int
  valuestring :: "byte list option"
  valueint :: int
  valuedouble :: 'f
  jstring :: "byte list option"

datatype 'f cJSON = Item (item: "'f item_data") (child: "'f cJSON list")

definition cJSON_Invalid :: int where "cJSON_Invalid = 0"
definition cJSON_Bool :: int where "cJSON_Bool = 1"
definition cJSON_Int :: int where "cJSON_Int = 2"
definition cJSON_NULL :: int where "cJSON_NULL = 4"
definition cJSON_Number :: int where "cJSON_Number = 8"
definition cJSON_String :: int where "cJSON_String = 16"
definition cJSON_Array :: int where "cJSON_Array = 32"
definition cJSON_Object :: int where "cJSON_Object = 64"
definition cJSON_Raw :: int where "cJSON_Raw = 128"
definition cJSON_IsReference :: int where "cJSON_IsReference = 256"
definition cJSON_StringIsConst :: int where "cJSON_StringIsConst = 512"

lemmas json_types = cJSON_Invalid_def cJSON_Bool_def cJSON_Int_def cJSON_NULL_def cJSON_Number_def
  cJSON_String_def cJSON_Array_def cJSON_Object_def cJSON_Raw_def cJSON_IsReference_def cJSON_StringIsConst_def

text \<open>\<open>item->type & 0xFF\<close>, what the \<open>cJSON_Is\<close> functions compare.\<close>

definition type_of :: "('f, 'a) item_data_scheme \<Rightarrow> int" where
  "type_of d = jtype d AND 0xFF"

definition alloc :: "nat \<Rightarrow> nat option" where
  "alloc mem = (if mem = 0 then None else Some (mem - 1))"

subsection \<open>Creating items\<close>

definition cJSON_New_Item :: "('f, 'a) float_ops_scheme \<Rightarrow> 'f item_data" where
  "cJSON_New_Item fo = \<lparr>jtype = 0, valuestring = None, valueint = 0, valuedouble = fo_of_int fo 0, jstring = None\<rparr>"

text \<open>
  Each function returns the item, or a null pointer, and what is left of \<open>mem\<close>.
\<close>

definition create :: "('f, 'a) float_ops_scheme \<Rightarrow> nat \<Rightarrow> ('f item_data \<Rightarrow> 'f item_data) \<Rightarrow> 'f cJSON option \<times> nat" where
  "create fo mem f = (case alloc mem of None \<Rightarrow> (None, mem) | Some mem \<Rightarrow> (Some (Item (f (cJSON_New_Item fo)) []), mem))"

definition cJSON_CreateNull :: "('f, 'a) float_ops_scheme \<Rightarrow> nat \<Rightarrow> 'f cJSON option \<times> nat" where
  "cJSON_CreateNull fo mem = create fo mem (\<lambda>d. d\<lparr>jtype := cJSON_NULL\<rparr>)"

definition cJSON_CreateTrue :: "('f, 'a) float_ops_scheme \<Rightarrow> nat \<Rightarrow> 'f cJSON option \<times> nat" where
  "cJSON_CreateTrue fo mem = create fo mem (\<lambda>d. d\<lparr>jtype := cJSON_Bool, valueint := 1\<rparr>)"

definition cJSON_CreateFalse :: "('f, 'a) float_ops_scheme \<Rightarrow> nat \<Rightarrow> 'f cJSON option \<times> nat" where
  "cJSON_CreateFalse fo mem = create fo mem (\<lambda>d. d\<lparr>jtype := cJSON_Bool, valueint := 0\<rparr>)"

definition cJSON_CreateBool :: "('f, 'a) float_ops_scheme \<Rightarrow> nat \<Rightarrow> int \<Rightarrow> 'f cJSON option \<times> nat" where
  "cJSON_CreateBool fo mem b = create fo mem (\<lambda>d. d\<lparr>jtype := cJSON_Bool, valueint := b\<rparr>)"

definition cJSON_CreateInt :: "('f, 'a) float_ops_scheme \<Rightarrow> nat \<Rightarrow> int \<Rightarrow> 'f cJSON option \<times> nat" where
  "cJSON_CreateInt fo mem n =
     create fo mem (\<lambda>d. d\<lparr>jtype := cJSON_Int, valuedouble := fo_of_int fo n, valueint := n\<rparr>)"

text \<open>
  The saturating conversion of \<open>cJSON_CreateNumber\<close>, \<open>cJSON_SetNumberHelper\<close> and \<open>parse_number\<close>.
  A number that is not a number fails both comparisons, and its conversion is undefined.
\<close>

definition to_ll :: "('f, 'a) num_ops_scheme \<Rightarrow> 'f \<Rightarrow> int option" where
  "to_ll fo x =
     (if no_le fo (fo_of_int fo LLONG_MAX) x then Some LLONG_MAX
      else if no_le fo x (fo_of_int fo LLONG_MIN) then Some LLONG_MIN
      else no_to_ll fo x)"

definition cJSON_CreateNumber :: "('f, 'a) num_ops_scheme \<Rightarrow> nat \<Rightarrow> 'f \<Rightarrow> ('f cJSON option \<times> nat) option" where
  "cJSON_CreateNumber fo mem x = (case alloc mem of None \<Rightarrow> Some (None, mem)
   | Some mem \<Rightarrow> do {
       n \<leftarrow> to_ll fo x;
       Some (Some (Item ((cJSON_New_Item fo)\<lparr>jtype := cJSON_Number, valuedouble := x, valueint := n\<rparr>) []), mem) })"

text \<open>\<open>cJSON_strdup\<close> of a string or of a null pointer.\<close>

definition cJSON_strdup :: "nat \<Rightarrow> byte list option \<Rightarrow> byte list option \<times> nat" where
  "cJSON_strdup mem s = (case s of None \<Rightarrow> (None, mem)
   | Some bs \<Rightarrow> (case alloc mem of None \<Rightarrow> (None, mem) | Some mem \<Rightarrow> (Some bs, mem)))"

definition create_text :: "('f, 'a) float_ops_scheme \<Rightarrow> nat \<Rightarrow> int \<Rightarrow> byte list option \<Rightarrow> 'f cJSON option \<times> nat" where
  "create_text fo mem t s = (case alloc mem of None \<Rightarrow> (None, mem)
   | Some mem \<Rightarrow> (case cJSON_strdup mem s of
       (None, mem) \<Rightarrow> (None, mem)
     | (Some v, mem) \<Rightarrow> (Some (Item ((cJSON_New_Item fo)\<lparr>jtype := t, valuestring := Some v\<rparr>) []), mem)))"

definition cJSON_CreateString :: "('f, 'a) float_ops_scheme \<Rightarrow> nat \<Rightarrow> byte list option \<Rightarrow> 'f cJSON option \<times> nat" where
  "cJSON_CreateString fo mem s = create_text fo mem cJSON_String s"

definition cJSON_CreateRaw :: "('f, 'a) float_ops_scheme \<Rightarrow> nat \<Rightarrow> byte list option \<Rightarrow> 'f cJSON option \<times> nat" where
  "cJSON_CreateRaw fo mem s = create_text fo mem cJSON_Raw s"

definition cJSON_CreateStringReference :: "('f, 'a) float_ops_scheme \<Rightarrow> nat \<Rightarrow> byte list option \<Rightarrow> 'f cJSON option \<times> nat" where
  "cJSON_CreateStringReference fo mem s =
     create fo mem (\<lambda>d. d\<lparr>jtype := cJSON_String OR cJSON_IsReference, valuestring := s\<rparr>)"

definition cJSON_CreateArray :: "('f, 'a) float_ops_scheme \<Rightarrow> nat \<Rightarrow> 'f cJSON option \<times> nat" where
  "cJSON_CreateArray fo mem = create fo mem (\<lambda>d. d\<lparr>jtype := cJSON_Array\<rparr>)"

definition cJSON_CreateObject :: "('f, 'a) float_ops_scheme \<Rightarrow> nat \<Rightarrow> 'f cJSON option \<times> nat" where
  "cJSON_CreateObject fo mem = create fo mem (\<lambda>d. d\<lparr>jtype := cJSON_Object\<rparr>)"

text \<open>References take the chain of another item.\<close>

definition with_children :: "'f cJSON list \<Rightarrow> 'f cJSON option \<times> nat \<Rightarrow> 'f cJSON option \<times> nat" where
  "with_children cs r = (case r of (None, mem) \<Rightarrow> (None, mem) | (Some a, mem) \<Rightarrow> (Some (Item (item a) cs), mem))"

definition cJSON_CreateObjectReference :: "('f, 'a) float_ops_scheme \<Rightarrow> nat \<Rightarrow> 'f cJSON list \<Rightarrow> 'f cJSON option \<times> nat" where
  "cJSON_CreateObjectReference fo mem cs =
     with_children cs (create fo mem (\<lambda>d. d\<lparr>jtype := cJSON_Object OR cJSON_IsReference\<rparr>))"

definition cJSON_CreateArrayReference :: "('f, 'a) float_ops_scheme \<Rightarrow> nat \<Rightarrow> 'f cJSON list \<Rightarrow> 'f cJSON option \<times> nat" where
  "cJSON_CreateArrayReference fo mem cs =
     with_children cs (create fo mem (\<lambda>d. d\<lparr>jtype := cJSON_Array OR cJSON_IsReference\<rparr>))"

text \<open>
  The four array constructors: they link one created item per element, and delete what they have
  when an item cannot be created.
\<close>

fun create_all :: "(nat \<Rightarrow> 'a \<Rightarrow> ('f cJSON option \<times> nat) option) \<Rightarrow> nat \<Rightarrow> 'a list \<Rightarrow> ('f cJSON list option \<times> nat) option" where
  "create_all mk mem [] = Some (Some [], mem)"
| "create_all mk mem (x # xs) = do {
     (n, mem) \<leftarrow> mk mem x;
     case n of None \<Rightarrow> Some (None, mem)
     | Some n \<Rightarrow> do {
         (ns, mem) \<leftarrow> create_all mk mem xs;
         Some (map_option ((#) n) ns, mem) } }"

text \<open>\<open>numbers\<close> is an array of at least \<open>count\<close> elements, or a null pointer.\<close>

definition create_array :: "('f, 'b) float_ops_scheme \<Rightarrow> (nat \<Rightarrow> 'a \<Rightarrow> ('f cJSON option \<times> nat) option) \<Rightarrow> nat \<Rightarrow>
    'a list option \<Rightarrow> int \<Rightarrow> ('f cJSON option \<times> nat) option" where
  "create_array fo mk mem numbers count = (case numbers of None \<Rightarrow> Some (None, mem)
   | Some xs \<Rightarrow>
      if count < 0 then Some (None, mem)
      else (case cJSON_CreateArray fo mem of
          (None, mem) \<Rightarrow> Some (None, mem)
        | (Some a, mem) \<Rightarrow>
            do {
              (ns, mem) \<leftarrow> create_all mk mem (take (nat count) xs);
              case ns of None \<Rightarrow> Some (None, mem)
              | Some ns \<Rightarrow> if nat count \<le> length xs then Some (Some (Item (item a) ns), mem) else None }))"

definition cJSON_CreateIntArray :: "('f, 'a) float_ops_scheme \<Rightarrow> nat \<Rightarrow> int list option \<Rightarrow> int \<Rightarrow> ('f cJSON option \<times> nat) option" where
  "cJSON_CreateIntArray fo = create_array fo (\<lambda>mem n. Some (cJSON_CreateInt fo mem n))"

definition cJSON_CreateDoubleArray :: "('f, 'a) num_ops_scheme \<Rightarrow> nat \<Rightarrow> 'f list option \<Rightarrow> int \<Rightarrow> ('f cJSON option \<times> nat) option" where
  "cJSON_CreateDoubleArray fo = create_array fo (cJSON_CreateNumber fo)"

text \<open>A \<open>float\<close> widens to \<open>double\<close> without change.\<close>

definition cJSON_CreateFloatArray :: "('f, 'a) num_ops_scheme \<Rightarrow> nat \<Rightarrow> 'f list option \<Rightarrow> int \<Rightarrow> ('f cJSON option \<times> nat) option" where
  "cJSON_CreateFloatArray fo = create_array fo (cJSON_CreateNumber fo)"

definition cJSON_CreateStringArray :: "('f, 'a) float_ops_scheme \<Rightarrow> nat \<Rightarrow> byte list option list option \<Rightarrow> int \<Rightarrow> ('f cJSON option \<times> nat) option" where
  "cJSON_CreateStringArray fo = create_array fo (\<lambda>mem s. Some (cJSON_CreateString fo mem s))"

subsection \<open>Looking at an item\<close>

definition has_type :: "int \<Rightarrow> ('f, 'a) item_data_scheme option \<Rightarrow> bool" where
  "has_type t p = (case p of None \<Rightarrow> False | Some d \<Rightarrow> type_of d = t)"

definition cJSON_IsInvalid :: "('f, 'a) item_data_scheme option \<Rightarrow> bool" where
  "cJSON_IsInvalid p = has_type cJSON_Invalid p"

definition cJSON_IsFalse :: "('f, 'a) item_data_scheme option \<Rightarrow> bool" where
  "cJSON_IsFalse p = (case p of None \<Rightarrow> False | Some d \<Rightarrow> type_of d = cJSON_Bool \<and> valueint d = 0)"

definition cJSON_IsTrue :: "('f, 'a) item_data_scheme option \<Rightarrow> bool" where
  "cJSON_IsTrue p = (case p of None \<Rightarrow> False | Some d \<Rightarrow> type_of d = cJSON_Bool \<and> valueint d \<noteq> 0)"

definition cJSON_IsBool :: "('f, 'a) item_data_scheme option \<Rightarrow> bool" where
  "cJSON_IsBool p = has_type cJSON_Bool p"

definition cJSON_IsNull :: "('f, 'a) item_data_scheme option \<Rightarrow> bool" where
  "cJSON_IsNull p = has_type cJSON_NULL p"

definition cJSON_IsInt :: "('f, 'a) item_data_scheme option \<Rightarrow> bool" where
  "cJSON_IsInt p = has_type cJSON_Int p"

definition cJSON_IsNumber :: "('f, 'a) item_data_scheme option \<Rightarrow> bool" where
  "cJSON_IsNumber p = (case p of None \<Rightarrow> False | Some d \<Rightarrow> type_of d = cJSON_Number \<or> type_of d = cJSON_Int)"

definition cJSON_IsString :: "('f, 'a) item_data_scheme option \<Rightarrow> bool" where
  "cJSON_IsString p = has_type cJSON_String p"

definition cJSON_IsArray :: "('f, 'a) item_data_scheme option \<Rightarrow> bool" where
  "cJSON_IsArray p = has_type cJSON_Array p"

definition cJSON_IsObject :: "('f, 'a) item_data_scheme option \<Rightarrow> bool" where
  "cJSON_IsObject p = has_type cJSON_Object p"

definition cJSON_IsRaw :: "('f, 'a) item_data_scheme option \<Rightarrow> bool" where
  "cJSON_IsRaw p = has_type cJSON_Raw p"

definition cJSON_GetStringValue :: "('f, 'a) item_data_scheme option \<Rightarrow> byte list option" where
  "cJSON_GetStringValue p = (if \<not> cJSON_IsString p then None else Option.bind p valuestring)"

definition cJSON_GetIntValue :: "('f, 'a) item_data_scheme option \<Rightarrow> int" where
  "cJSON_GetIntValue p = (case p of Some d \<Rightarrow> if cJSON_IsInt p then valueint d else 0 | None \<Rightarrow> 0)"

text \<open>The value for an item that is no number is a NaN, a parameter here.\<close>

definition cJSON_GetNumberValue :: "'f \<Rightarrow> ('f, 'a) item_data_scheme option \<Rightarrow> 'f" where
  "cJSON_GetNumberValue nan p = (case p of Some d \<Rightarrow> if cJSON_IsNumber p then valuedouble d else nan | None \<Rightarrow> nan)"

definition cJSON_SetNumberHelper :: "('f, 'a) num_ops_scheme \<Rightarrow> ('f, 'b) item_data_scheme \<Rightarrow> 'f \<Rightarrow> ('f, 'b) item_data_scheme option" where
  "cJSON_SetNumberHelper fo d x = do { n \<leftarrow> to_ll fo x; Some (d\<lparr>valueint := n, valuedouble := x\<rparr>) }"

text \<open>
  \<open>cJSON_SetValuestring\<close>: the returned pointer and the item. A string that is not longer is copied
  over the old one, for which the old one must not be null.
\<close>

definition cJSON_SetValuestring :: "nat \<Rightarrow> ('f, 'b) item_data_scheme \<Rightarrow> byte list \<Rightarrow>
    (byte list option \<times> ('f, 'b) item_data_scheme \<times> nat) option" where
  "cJSON_SetValuestring mem d s =
     (if jtype d AND cJSON_String = 0 \<or> jtype d AND cJSON_IsReference \<noteq> 0 then Some (None, d, mem)
      else do {
        old \<leftarrow> valuestring d;
        if length s \<le> length old then Some (Some s, d\<lparr>valuestring := Some s\<rparr>, mem)
        else (case cJSON_strdup mem (Some s) of
            (None, mem) \<Rightarrow> Some (None, d, mem)
          | (Some c, mem) \<Rightarrow> Some (Some c, d\<lparr>valuestring := Some c\<rparr>, mem)) })"

subsection \<open>Comparing names\<close>

fun ci_diff :: "byte list \<Rightarrow> byte list \<Rightarrow> int" where
  "ci_diff [] [] = 0"
| "ci_diff (a # s) [] = uint (c_tolower a)"
| "ci_diff [] (b # t) = - uint (c_tolower b)"
| "ci_diff (a # s) (b # t) =
     (if c_tolower a = c_tolower b then if a = 0 then 0 else ci_diff s t
      else uint (c_tolower a) - uint (c_tolower b))"

definition case_insensitive_strcmp :: "byte list option \<Rightarrow> byte list option \<Rightarrow> int" where
  "case_insensitive_strcmp p q = (case (p, q) of (Some s, Some t) \<Rightarrow> ci_diff s t | _ \<Rightarrow> 1)"

lemma c_tolower_nonzero: "a \<noteq> 0 \<Longrightarrow> uint (c_tolower a) \<noteq> 0"
proof -
  have "list_all (\<lambda>a. a \<noteq> 0 \<longrightarrow> uint (c_tolower a) \<noteq> 0) all_bytes" by code_simp
  from byte_exhaustive [OF this] show "a \<noteq> 0 \<Longrightarrow> uint (c_tolower a) \<noteq> 0" by blast
qed

lemma c_tolower_zero: "uint (c_tolower a) = 0 \<longleftrightarrow> a = 0" "c_tolower 0 = 0"
proof -
  show z: "c_tolower 0 = 0" by (simp add: c_tolower_def)
  show "uint (c_tolower a) = 0 \<longleftrightarrow> a = 0" using c_tolower_nonzero [of a] z by auto
qed

lemma ci_diff_texts:
  "ci_diff s t = 0 \<longleftrightarrow> map c_tolower (takeWhile (\<lambda>c. c \<noteq> 0) s) = map c_tolower (takeWhile (\<lambda>c. c \<noteq> 0) t)"
proof (induction s t rule: ci_diff.induct)
  case (4 a s b t)
  have "c_tolower a = c_tolower b \<Longrightarrow> a = 0 \<longleftrightarrow> b = 0" using c_tolower_zero(1) [of a] c_tolower_zero(1) [of b] by auto
  moreover have "uint (c_tolower a) - uint (c_tolower b) = 0 \<longleftrightarrow> c_tolower a = c_tolower b" by (simp add: word_uint_eq_iff)
  ultimately show ?case using 4 c_tolower_zero(2) by auto
qed (simp_all add: c_tolower_zero)

lemma takeWhile_all_text: "0 \<notin> set s \<Longrightarrow> takeWhile (\<lambda>c. c \<noteq> (0 :: byte)) s = s"
  by (induction s) auto

lemma ci_diff_eq_0: "0 \<notin> set s \<Longrightarrow> 0 \<notin> set t \<Longrightarrow> ci_diff s t = 0 \<longleftrightarrow> map c_tolower s = map c_tolower t"
  by (simp add: ci_diff_texts takeWhile_all_text)

text \<open>Names that differ in case only compare as equal; a null pointer is equal to nothing.\<close>

lemma case_insensitive_strcmp_eq_0:
  "0 \<notin> set s \<Longrightarrow> 0 \<notin> set t \<Longrightarrow>
   case_insensitive_strcmp (Some s) (Some t) = 0 \<longleftrightarrow> map c_tolower s = map c_tolower t"
  by (simp add: case_insensitive_strcmp_def ci_diff_eq_0)

end
