(* ===== verification/JsonBuffer.thy ===== *)
theory JsonBuffer
  imports JsonData
begin

section \<open>The buffers of the JSON parser and printer, and numbers\<close>

text \<open>
  \<open>parse_buffer\<close>: the input, how much of it may be read, where the parser is and how deep it has
  nested; \<open>pmem\<close> stands for the allocator of its hooks.
\<close>

record parse_buffer =
  content :: "byte list"
  blength :: nat
  offset :: nat
  depth :: nat
  pmem :: nat

definition can_read :: "parse_buffer \<Rightarrow> nat \<Rightarrow> bool" where
  "can_read b n \<longleftrightarrow> offset b + n \<le> blength b"

definition can_access_at_index :: "parse_buffer \<Rightarrow> nat \<Rightarrow> bool" where
  "can_access_at_index b i \<longleftrightarrow> offset b + i < blength b"

text \<open>\<open>buffer_at_offset(buffer)[i]\<close>\<close>

definition peek :: "parse_buffer \<Rightarrow> nat \<Rightarrow> byte option" where
  "peek b i = rd (content b) (int (offset b + i))"

text \<open>Skipping everything up to the blank; the last byte of the input is never skipped.\<close>

function skip_blanks :: "parse_buffer \<Rightarrow> parse_buffer option" where
  "skip_blanks b =
     (if can_access_at_index b 0
      then do { c \<leftarrow> peek b 0; if c \<le> 32 then skip_blanks (b\<lparr>offset := offset b + 1\<rparr>) else Some b }
      else Some b)"
  by pat_completeness auto
termination by (relation "measure (\<lambda>b. blength b - offset b)") (auto simp: can_access_at_index_def)

declare skip_blanks.simps [simp del]

definition buffer_skip_whitespace :: "parse_buffer \<Rightarrow> parse_buffer option" where
  "buffer_skip_whitespace b =
     (if \<not> can_access_at_index b 0 then Some b
      else do {
        b \<leftarrow> skip_blanks b;
        Some (if offset b = blength b then b\<lparr>offset := offset b - 1\<rparr> else b) })"

definition skip_utf8_bom :: "parse_buffer \<Rightarrow> parse_buffer option option" where
  "skip_utf8_bom b =
     (if offset b \<noteq> 0 then Some None
      else if can_access_at_index b 4
      then do {
        same \<leftarrow> c_strneq (drop (offset b) (content b)) [0xEF, 0xBB, 0xBF] 3;
        Some (Some (if same then b\<lparr>offset := offset b + 3\<rparr> else b)) }
      else Some (Some b))"

subsection \<open>Reading a number\<close>

definition number_char :: "byte \<Rightarrow> bool" where
  "number_char c \<longleftrightarrow> c_isdigit c \<or> c = 43 \<or> c = 45 \<or> c = 101 \<or> c = 69 \<or> c = 46"

text \<open>The copy into \<open>number_c_string\<close>, of 63 bytes at most. The decimal point is the point.\<close>

fun number_chars :: "parse_buffer \<Rightarrow> nat \<Rightarrow> nat \<Rightarrow> byte list option" where
  "number_chars b 0 i = Some []"
| "number_chars b (Suc n) i =
     (if can_access_at_index b i
      then do {
        c \<leftarrow> peek b i;
        if number_char c then do { cs \<leftarrow> number_chars b n (i + 1); Some (c # cs) } else Some [] }
      else Some [])"

definition is_integer :: "byte list \<Rightarrow> bool" where
  "is_integer cs \<longleftrightarrow> (\<forall>c \<in> set cs. c \<noteq> 101 \<and> c \<noteq> 69 \<and> c \<noteq> 46)"

definition parse_number :: "('f, 'a) num_ops_scheme \<Rightarrow> 'f item_data \<Rightarrow> parse_buffer \<Rightarrow> (bool \<times> 'f item_data \<times> parse_buffer) option" where
  "parse_number fo d b = do {
     cs \<leftarrow> number_chars b 63 0;
     let n = strtod_len cs;
     let number = fo_atof fo cs;
     if n = 0 then Some (False, d, b)
     else do {
       let d = d\<lparr>valuedouble := number, jtype := cJSON_Number\<rparr>;
       if is_integer cs
       then do {
         let d = d\<lparr>jtype := cJSON_Int, valueint := strtoll cs\<rparr>;
         if strtoll_len cs = 0 then Some (False, d, b) else Some (True, d, b\<lparr>offset := offset b + n\<rparr>) }
       else do {
         v \<leftarrow> to_ll fo number;
         Some (True, d\<lparr>valueint := v\<rparr>, b\<lparr>offset := offset b + n\<rparr>) } } }"

subsection \<open>The output buffer\<close>

text \<open>
  \<open>printbuffer\<close>: the bytes of the block are optional, \<^term>\<open>None\<close> for one that was never written;
  the block is null after a failed reallocation. \<open>p_realloc\<close> says whether the hooks have a
  \<open>realloc\<close>.
\<close>

record printbuffer =
  p_buffer :: "byte option list option"
  p_length :: nat
  p_offset :: nat
  p_depth :: nat
  p_noalloc :: bool
  p_format :: bool
  p_realloc :: bool
  p_mem :: nat

definition INT_MAX :: nat where "INT_MAX = 2147483647"

text \<open>A new block, which keeps what is copied of the old one.\<close>

definition grow :: "printbuffer \<Rightarrow> byte option list \<Rightarrow> nat \<Rightarrow> (bool \<times> printbuffer) option" where
  "grow p buf newsize = (case alloc (p_mem p) of
     None \<Rightarrow> Some (False, p\<lparr>p_buffer := None, p_length := 0\<rparr>)
   | Some mem \<Rightarrow> do {
       kept \<leftarrow> (if p_realloc p then Some (take newsize buf)
                else if p_offset p + 1 \<le> length buf \<and> p_offset p + 1 \<le> newsize then Some (take (p_offset p + 1) buf)
                else None);
       Some (True, p\<lparr>p_buffer := Some (kept @ map (\<lambda>_. None) [length kept..<newsize]), p_length := newsize, p_mem := mem\<rparr>) })"

definition ensure :: "printbuffer \<Rightarrow> nat \<Rightarrow> (bool \<times> printbuffer) option" where
  "ensure p needed = (case p_buffer p of None \<Rightarrow> Some (False, p)
   | Some buf \<Rightarrow>
      if p_length p > 0 \<and> p_offset p \<ge> p_length p then Some (False, p)
      else if needed > INT_MAX then Some (False, p)
      else let needed = needed + p_offset p + 1 in
        if needed \<le> p_length p then Some (True, p)
        else if p_noalloc p then Some (False, p)
        else if needed > INT_MAX div 2
          then if needed \<le> INT_MAX then grow p buf INT_MAX else Some (False, p)
        else grow p buf (needed * 2))"

text \<open>Writing bytes from index \<open>i\<close> behind the current offset on.\<close>

definition put_at :: "printbuffer \<Rightarrow> nat \<Rightarrow> byte list \<Rightarrow> printbuffer option" where
  "put_at p i bs = (case p_buffer p of None \<Rightarrow> None
   | Some buf \<Rightarrow> let k = p_offset p + i in
       if k + length bs \<le> length buf
       then Some (p\<lparr>p_buffer := Some (take k buf @ map Some bs @ drop (k + length bs) buf)\<rparr>) else None)"

definition advance :: "nat \<Rightarrow> printbuffer \<Rightarrow> printbuffer" where
  "advance n p = p\<lparr>p_offset := p_offset p + n\<rparr>"

text \<open>\<open>strlen\<close> of what has been written; a byte never written has no value.\<close>

fun out_strlen :: "byte option list \<Rightarrow> nat option" where
  "out_strlen [] = None"
| "out_strlen (None # bs) = None"
| "out_strlen (Some b # bs) = (if b = 0 then Some 0 else map_option Suc (out_strlen bs))"

definition update_offset :: "printbuffer \<Rightarrow> printbuffer option" where
  "update_offset p = (case p_buffer p of None \<Rightarrow> Some p
   | Some buf \<Rightarrow> do { n \<leftarrow> out_strlen (drop (p_offset p) buf); Some (advance n p) })"

subsection \<open>Writing a number\<close>

text \<open>The digits of a number, and \<open>%lld\<close>.\<close>

fun nat_text :: "nat \<Rightarrow> byte list" where
  "nat_text n = (if n < 10 then [of_nat (48 + n)] else nat_text (n div 10) @ [of_nat (48 + n mod 10)])"

declare nat_text.simps [simp del]

definition int_text :: "int \<Rightarrow> byte list" where
  "int_text n = (if n < 0 then 45 # nat_text (nat (- n)) else nat_text (nat n))"

definition compare_double :: "('f, 'a) num_ops_scheme \<Rightarrow> 'f \<Rightarrow> 'f \<Rightarrow> bool" where
  "compare_double fo a b =
     (let max_val = (if no_le fo (no_abs fo b) (no_abs fo a) \<and> \<not> no_le fo (no_abs fo a) (no_abs fo b) then no_abs fo a else no_abs fo b)
      in no_le fo (no_abs fo (fo_sub fo a b)) (fo_mul fo max_val (no_epsilon fo)))"

text \<open>
  What \<open>print_number\<close> formats; \<open>sscanf\<close> with \<open>%lg\<close> reads what \<open>strtod\<close> reads. The type is compared
  with its flags.
\<close>

definition number_text :: "('f, 'a) num_ops_scheme \<Rightarrow> 'f item_data \<Rightarrow> byte list" where
  "number_text fo d =
     (if jtype d = cJSON_Int then int_text (valueint d)
      else if \<not> no_finite fo (valuedouble d) then lit ''null''
      else let t = no_printg fo 15 (valuedouble d) in
        if strtod_len t = 0 \<or> \<not> compare_double fo (fo_atof fo t) (valuedouble d)
        then no_printg fo 17 (valuedouble d) else t)"

text \<open>\<open>number_buffer\<close> has 26 bytes, which \<open>sprintf\<close> has already filled when the length is checked.\<close>

definition print_number :: "('f, 'a) num_ops_scheme \<Rightarrow> 'f item_data \<Rightarrow> printbuffer \<Rightarrow> (bool \<times> printbuffer) option" where
  "print_number fo d p = do {
     let t = number_text fo d;
     if length t \<ge> 26 then None
     else do {
       (ok, p) \<leftarrow> ensure p (length t + 1);
       if \<not> ok then Some (False, p)
       else do { p \<leftarrow> put_at p 0 (t @ [0]); Some (True, advance (length t) p) } } }"

subsection \<open>What is left of the input\<close>

definition wf_buf :: "parse_buffer \<Rightarrow> bool" where
  "wf_buf b \<longleftrightarrow> blength b \<le> length (content b) \<and> offset b \<le> blength b"

definition rest :: "parse_buffer \<Rightarrow> byte list" where
  "rest b = drop (offset b) (take (blength b) (content b))"

lemma length_rest: "wf_buf b \<Longrightarrow> length (rest b) = blength b - offset b"
  by (simp add: wf_buf_def rest_def)

lemma access_rest: "wf_buf b \<Longrightarrow> can_access_at_index b i \<longleftrightarrow> i < length (rest b)"
  by (auto simp: length_rest can_access_at_index_def wf_buf_def)

lemma read_rest: "wf_buf b \<Longrightarrow> can_read b n \<longleftrightarrow> n \<le> length (rest b)"
  by (auto simp: length_rest can_read_def wf_buf_def)

lemma peek_rest: "wf_buf b \<Longrightarrow> i < length (rest b) \<Longrightarrow> peek b i = Some (rest b ! i)"
  by (auto simp: peek_def rest_def wf_buf_def rd_def nat_add_distrib)

lemma rest_advance: "rest (b\<lparr>offset := offset b + n\<rparr>) = drop n (rest b)"
  by (simp add: rest_def add.commute)

lemma wf_advance: "wf_buf b \<Longrightarrow> n \<le> length (rest b) \<Longrightarrow> wf_buf (b\<lparr>offset := offset b + n\<rparr>)"
  by (auto simp: wf_buf_def rest_def)

lemma rest_more [simp]: "rest (b\<lparr>depth := d\<rparr>) = rest b" "rest (b\<lparr>pmem := m\<rparr>) = rest b"
  "wf_buf (b\<lparr>depth := d\<rparr>) = wf_buf b" "wf_buf (b\<lparr>pmem := m\<rparr>) = wf_buf b"
  by (simp_all add: rest_def wf_buf_def)

text \<open>Blanks, and the white space skipper in terms of what is left.\<close>

definition blank :: "byte \<Rightarrow> bool" where
  "blank c \<longleftrightarrow> c \<le> 32"

lemma skip_blanks_rest:
  "wf_buf b \<Longrightarrow> skip_blanks b = Some (b\<lparr>offset := offset b + length (takeWhile blank (rest b))\<rparr>)"
proof (induction b rule: skip_blanks.induct)
  case (1 b)
  show ?case
  proof (cases "rest b")
    case Nil
    with 1(2) show ?thesis by (subst skip_blanks.simps) (simp add: access_rest)
  next
    case (Cons c cs)
    have a: "can_access_at_index b 0" and p: "peek b 0 = Some c"
      using 1(2) Cons by (simp_all add: access_rest peek_rest)
    show ?thesis
    proof (cases "blank c")
      case True
      let ?b = "b\<lparr>offset := offset b + 1\<rparr>"
      have r: "rest ?b = cs" and w: "wf_buf ?b"
        using Cons 1(2) wf_advance [of b 1] rest_advance [of b 1] by simp_all
      have "skip_blanks ?b = Some (?b\<lparr>offset := offset ?b + length (takeWhile blank cs)\<rparr>)"
        using 1(1) [OF a p True [unfolded blank_def] w] r by simp
      then show ?thesis using a p True [unfolded blank_def] True Cons by (subst skip_blanks.simps) simp
    next
      case False
      then show ?thesis using a p Cons False [unfolded blank_def] by (subst skip_blanks.simps) simp
    qed
  qed
qed

lemma skip_ws_to:
  assumes "wf_buf b" and "rest b = ws @ c # cs" and "\<forall>w \<in> set ws. blank w" and "\<not> blank c"
  shows "buffer_skip_whitespace b = Some (b\<lparr>offset := offset b + length ws\<rparr>)"
proof -
  have "takeWhile blank (ws @ c # cs) = ws" using assms(3,4) by (simp add: takeWhile_append2)
  moreover have "offset b + length ws < blength b"
    using assms(1,2) length_rest [of b] by (simp add: wf_buf_def)
  ultimately show ?thesis using assms(1,2) skip_blanks_rest [OF assms(1)]
    by (simp add: buffer_skip_whitespace_def access_rest)
qed

lemma skip_ws_none: "wf_buf b \<Longrightarrow> rest b = c # cs \<Longrightarrow> \<not> blank c \<Longrightarrow> buffer_skip_whitespace b = Some b"
  using skip_ws_to [of b "[]" c cs] by simp

text \<open>In any case the skipper stays inside the input, and leaves a byte of it if there was one.\<close>

lemma skip_ws_safe:
  assumes "wf_buf b"
  shows "\<exists>n. buffer_skip_whitespace b = Some (b\<lparr>offset := offset b + n\<rparr>) \<and> (if rest b = [] then n = 0 else n < length (rest b))"
proof (cases "rest b")
  case Nil
  with assms show ?thesis by (intro exI [of _ 0]) (simp add: buffer_skip_whitespace_def access_rest)
next
  case (Cons c cs)
  let ?k = "length (takeWhile blank (rest b))"
  have k: "?k \<le> length (rest b)" by (rule length_takeWhile_le)
  have l: "length (rest b) = blength b - offset b" "offset b \<le> blength b" "0 < length (rest b)"
    using assms Cons length_rest [OF assms] by (simp_all add: wf_buf_def)
  show ?thesis
  proof (cases "?k = length (rest b)")
    case True
    with assms Cons l show ?thesis
      by (intro exI [of _ "?k - 1"]) (simp add: buffer_skip_whitespace_def access_rest skip_blanks_rest)
  next
    case False
    with assms Cons l k show ?thesis
      by (intro exI [of _ ?k]) (simp add: buffer_skip_whitespace_def access_rest skip_blanks_rest)
  qed
qed

end
