(* ===== verification/JsonNumber.thy ===== *)
theory JsonNumber
  imports JsonBuffer
begin

section \<open>Numbers in JSON text\<close>

text \<open>
  What \<open>parse_number\<close> reads of an input, and that the decimal text of a \<open>long long\<close> is read back
  as the same integer.
\<close>

lemma number_chars_rest:
  "wf_buf b \<Longrightarrow> number_chars b n i = Some (takeWhile number_char (take n (drop i (rest b))))"
proof (induction n arbitrary: i)
  case (Suc n)
  show ?case
  proof (cases "i < length (rest b)")
    case True
    then have "drop i (rest b) = rest b ! i # drop (Suc i) (rest b)" by (simp add: Cons_nth_drop_Suc)
    with True Suc show ?thesis by (simp add: access_rest peek_rest)
  next
    case False
    with Suc.prems show ?thesis by (simp add: access_rest)
  qed
qed simp

subsection \<open>Digits\<close>

lemma dec_value_snoc: "dec_value (ds @ [d]) = dec_value ds * 10 + (uint d - 48)"
  by (simp add: dec_value_def)

lemma digit_byte: "n < 10 \<Longrightarrow> uint (of_nat (48 + n) :: byte) = int (48 + n) \<and> c_isdigit (of_nat (48 + n))"
proof -
  assume n: "n < 10"
  then have "unat (of_nat (48 + n) :: byte) = 48 + n"
    by (simp add: unat_of_nat del: of_nat_add)
  moreover from this have "uint (of_nat (48 + n) :: byte) = int (48 + n)" by (simp only: uint_nat)
  ultimately show ?thesis using n unfolding c_isdigit_def word_le_nat_alt by simp
qed

lemma nat_text_digits: "\<forall>c \<in> set (nat_text n). c_isdigit c"
proof (induction n rule: nat_text.induct)
  case (1 n)
  then show ?case using digit_byte [of n] digit_byte [of "n mod 10"]
    by (subst nat_text.simps) (auto simp del: of_nat_add)
qed

lemma nat_text_nonempty: "nat_text n \<noteq> []"
  by (subst nat_text.simps) simp

lemma nat_text_value: "dec_value (nat_text n) = int n"
proof (induction n rule: nat_text.induct)
  case (1 n)
  have "int n = int (n div 10) * 10 + (int (48 + n mod 10) - 48)" by presburger
  with 1 show ?case using digit_byte [of n] digit_byte [of "n mod 10"] dec_value_snoc [of "nat_text (n div 10)" "of_nat (48 + n mod 10)"]
    by (subst nat_text.simps) (auto simp: dec_value_def [of "[_]"] simp del: of_nat_add of_nat_mod)
qed

lemma nat_text_length: "n < 10 ^ k \<Longrightarrow> 0 < k \<Longrightarrow> length (nat_text n) \<le> k"
proof (induction n arbitrary: k rule: nat_text.induct)
  case (1 n)
  show ?case
  proof (cases "n < 10")
    case True
    then show ?thesis using "1.prems" by (subst nat_text.simps) simp
  next
    case False
    then obtain j where k: "k = Suc j" "0 < j" using "1.prems" by (cases k; cases "k - 1") auto
    then have "n div 10 < 10 ^ j" using "1.prems" by (simp add: less_mult_imp_div_less mult.commute)
    with "1.IH" [OF False this k(2)] False k show ?thesis by (subst nat_text.simps) simp
  qed
qed

lemma digits_nat_text: "digits (nat_text n) = nat_text n" "after_digits (nat_text n) = []"
  unfolding digits_def after_digits_def using nat_text_digits [of n]
  by (simp_all add: takeWhile_eq_all_conv dropWhile_eq_Nil_conv)

lemma unsign_nat_text: "unsign (nat_text n) = nat_text n"
proof (cases "nat_text n")
  case (Cons c cs)
  then have "c_isdigit c" using nat_text_digits [of n] by simp
  then show ?thesis using Cons by (auto simp: c_isdigit_def)
qed (simp add: nat_text_nonempty)

lemma int_text_digits: "\<forall>c \<in> set (int_text n). c_isdigit c \<or> c = 45"
  using nat_text_digits by (auto simp: int_text_def)

lemma int_text_chars: "\<forall>c \<in> set (int_text n). number_char c" "is_integer (int_text n)"
  using int_text_digits [of n] by (auto simp: number_char_def is_integer_def c_isdigit_def)

lemma int_text_nonempty: "int_text n \<noteq> []"
  by (simp add: int_text_def nat_text_nonempty)

lemma int_text_hd: "c_isdigit (hd (int_text n)) \<or> hd (int_text n) = 45"
  using int_text_digits [of n] int_text_nonempty [of n] hd_in_set by blast

lemma int_text_len: "strtod_len (int_text n) = length (int_text n)" "strtoll_len (int_text n) = length (int_text n)"
  by (auto simp: strtod_len_def strtoll_len_def int_text_def mantissa_len_def unsign_nat_text digits_nat_text nat_text_nonempty)

lemma takeWhile_nat_text: "takeWhile c_isdigit (nat_text n) = nat_text n"
  using digits_nat_text(1) [of n] by (simp add: digits_def)

lemma signed_value_int_text: "signed_value (int_text n) = n"
proof (cases "n < 0")
  case True
  then show ?thesis by (simp add: int_text_def takeWhile_nat_text nat_text_value)
next
  case False
  obtain c cs where c: "nat_text (nat n) = c # cs" using nat_text_nonempty by (cases "nat_text (nat n)") auto
  then have "c_isdigit c" using nat_text_digits [of "nat n"] by simp
  then have "c \<noteq> 45" "c \<noteq> 43" by (auto simp: c_isdigit_def)
  then have "signed_value (c # cs) = dec_value (takeWhile c_isdigit (c # cs))" by (simp only: signed_value.simps if_False)
  then show ?thesis using False takeWhile_nat_text [of "nat n"] nat_text_value [of "nat n"] c by (simp add: int_text_def)
qed

definition in_ll :: "int \<Rightarrow> bool" where
  "in_ll n \<longleftrightarrow> LLONG_MIN \<le> n \<and> n \<le> LLONG_MAX"

lemma strtoll_int_text: "in_ll n \<Longrightarrow> strtoll (int_text n) = n"
  by (simp add: strtoll_def signed_value_int_text saturate_ll_def in_ll_def)

lemma int_text_length: "in_ll n \<Longrightarrow> length (int_text n) \<le> 20"
proof -
  assume n: "in_ll n"
  then have "length (nat_text (nat (- n))) \<le> 19 \<and> length (nat_text (nat n)) \<le> 19"
    by (auto simp: in_ll_def LLONG_MAX_def LLONG_MIN_def intro!: nat_text_length)
  then show ?thesis by (simp add: int_text_def)
qed

subsection \<open>Parsing\<close>

text \<open>A text of number characters that ends where the input does not go on with one.\<close>

lemma number_chars_text:
  assumes "wf_buf b" and "rest b = t @ r" and "\<forall>c \<in> set t. number_char c" and "length t \<le> 63"
    and "r = [] \<or> \<not> number_char (hd r)"
  shows "number_chars b 63 0 = Some t"
proof -
  have "takeWhile number_char (take (63 - length t) r) = []"
    using assms(5) by (cases r; cases "63 - length t") auto
  moreover have "take 63 t = t" using assms(4) by simp
  ultimately show ?thesis using assms(1,2,3) by (simp add: number_chars_rest)
qed

lemma parse_number_int:
  assumes "wf_buf b" and "rest b = int_text n @ r" and "r = [] \<or> \<not> number_char (hd r)" and "in_ll n"
  shows "parse_number fo d b = Some (True, d\<lparr>valuedouble := fo_atof fo (int_text n), jtype := cJSON_Int, valueint := n\<rparr>,
    b\<lparr>offset := offset b + length (int_text n)\<rparr>)"
  using number_chars_text [OF assms(1,2) int_text_chars(1) _ assms(3)] int_text_length [OF assms(4)]
  by (simp add: parse_number_def Let_def int_text_len int_text_nonempty int_text_chars(2) strtoll_int_text [OF assms(4)])

text \<open>A number that is no integer: \<open>t\<close> must be one \<open>strtod\<close> takes as a whole.\<close>

lemma parse_number_double:
  assumes "wf_buf b" and "rest b = t @ r" and "r = [] \<or> \<not> number_char (hd r)" and "\<forall>c \<in> set t. number_char c"
    and "length t \<le> 63" and "t \<noteq> []" and "strtod_len t = length t" and "\<not> is_integer t" and "to_ll fo (fo_atof fo t) = Some v"
  shows "parse_number fo d b = Some (True, d\<lparr>valuedouble := fo_atof fo t, jtype := cJSON_Number, valueint := v\<rparr>,
    b\<lparr>offset := offset b + length t\<rparr>)"
  using number_chars_text [OF assms(1,2,4,5,3)] assms(6-9) by (simp add: parse_number_def Let_def)

text \<open>
  In any input \<open>parse_number\<close> stays inside, and moves on by at least a byte when it succeeds. The
  value of a text must convert to \<open>long long\<close>, which the saturation provides for every number.
\<close>

definition converts :: "('f, 'a) num_ops_scheme \<Rightarrow> bool" where
  "converts fo \<longleftrightarrow> (\<forall>t. to_ll fo (fo_atof fo t) \<noteq> None)"

lemma parse_number_safe:
  assumes "wf_buf b" and "converts fo"
  shows "\<exists>ok d' n. parse_number fo d b = Some (ok, d', b\<lparr>offset := offset b + n\<rparr>) \<and> n \<le> length (rest b)
    \<and> (ok \<longrightarrow> 0 < n) \<and> (\<not> ok \<longrightarrow> n = 0) \<and> jstring d' = jstring d"
proof -
  let ?t = "takeWhile number_char (take 63 (rest b))"
  have t: "number_chars b 63 0 = Some ?t" using number_chars_rest [OF assms(1), of 63 0] by simp
  have l: "strtod_len ?t \<le> length (rest b)"
    using strtod_len_le [of ?t] length_takeWhile_le [of number_char "take 63 (rest b)"] by simp
  let ?i = "d\<lparr>valuedouble := fo_atof fo ?t, jtype := cJSON_Int, valueint := strtoll ?t\<rparr>"
  obtain v where v: "to_ll fo (fo_atof fo ?t) = Some v" using assms(2) by (auto simp: converts_def)
  consider "strtod_len ?t = 0" | "strtod_len ?t > 0" "is_integer ?t" "strtoll_len ?t = 0"
    | "strtod_len ?t > 0" "is_integer ?t" "strtoll_len ?t > 0" | "strtod_len ?t > 0" "\<not> is_integer ?t" by blast
  then show ?thesis
  proof cases
    case 1
    with t show ?thesis by (intro exI [of _ False] exI [of _ d] exI [of _ 0]) (simp add: parse_number_def)
  next
    case 2
    with t show ?thesis by (intro exI [of _ False] exI [of _ ?i] exI [of _ 0]) (simp add: parse_number_def Let_def)
  next
    case 3
    with t l show ?thesis by (intro exI [of _ True] exI [of _ ?i] exI [of _ "strtod_len ?t"]) (simp add: parse_number_def Let_def)
  next
    case 4
    with t l v show ?thesis by (intro exI [of _ True]
      exI [of _ "d\<lparr>valuedouble := fo_atof fo ?t, jtype := cJSON_Number, valueint := v\<rparr>"] exI [of _ "strtod_len ?t"])
      (simp add: parse_number_def Let_def)
  qed
qed

end
