(* ===== verification/JsonString.thy ===== *)
theory JsonString
  imports JsonBuffer
begin

section \<open>Strings in JSON text\<close>

text \<open>
  \<open>parse_string\<close> with the escapes and UTF-16 literals, and \<open>print_string_ptr\<close>. The pointers into
  the input are offsets from its start.
\<close>

subsection \<open>UTF-16 literals\<close>

text \<open>Four hexadecimal digits; any other byte makes the whole \<open>0\<close>. \<open>n\<close> digits are to come.\<close>

fun hex4_from :: "byte list \<Rightarrow> nat \<Rightarrow> nat \<Rightarrow> 32 word \<Rightarrow> 32 word option" where
  "hex4_from s q 0 h = Some h"
| "hex4_from s q (Suc n) h = do {
     c \<leftarrow> rd s (int q);
     if 48 \<le> c \<and> c \<le> 57 then hex4_from s (q + 1) n (if n > 0 then push_bit 4 (h + (ucast c - 48)) else h + (ucast c - 48))
     else if 65 \<le> c \<and> c \<le> 70 then hex4_from s (q + 1) n (if n > 0 then push_bit 4 (h + (10 + ucast c - 65)) else h + (10 + ucast c - 65))
     else if 97 \<le> c \<and> c \<le> 102 then hex4_from s (q + 1) n (if n > 0 then push_bit 4 (h + (10 + ucast c - 97)) else h + (10 + ucast c - 97))
     else Some 0 }"

definition parse_hex4 :: "byte list \<Rightarrow> nat \<Rightarrow> 32 word option" where
  "parse_hex4 s q = hex4_from s q 4 0"

text \<open>
  The code point of the literal at \<open>p\<close>, with the length of the literal; \<^term>\<open>Some None\<close> is a
  failure. \<open>e\<close> is the end of the string.
\<close>

definition utf16_code_point :: "byte list \<Rightarrow> nat \<Rightarrow> nat \<Rightarrow> (nat \<times> 64 word) option option" where
  "utf16_code_point s p e =
     (if int e - int p < 6 then Some None
      else do {
        first \<leftarrow> parse_hex4 s (p + 2);
        if 0xDC00 \<le> first \<and> first \<le> 0xDFFF then Some None
        else if 0xD800 \<le> first \<and> first \<le> 0xDBFF
        then if int e - int (p + 6) < 6 then Some None
          else do {
            c0 \<leftarrow> rd s (int (p + 6));
            if c0 \<noteq> 92 then Some None
            else do {
              c1 \<leftarrow> rd s (int (p + 7));
              if c1 \<noteq> 117 then Some None
              else do {
                second \<leftarrow> parse_hex4 s (p + 8);
                if second < 0xDC00 \<or> second > 0xDFFF then Some None
                else Some (Some (12, 0x10000 + ucast (push_bit 10 (first AND 0x3FF) OR (second AND 0x3FF)))) } } }
        else Some (Some (6, ucast first)) })"

text \<open>The continuation bytes, written from the last one back, and the rest of the code point.\<close>

fun utf8_tail :: "nat \<Rightarrow> 64 word \<Rightarrow> byte list \<Rightarrow> 64 word \<times> byte list" where
  "utf8_tail 0 cp acc = (cp, acc)"
| "utf8_tail (Suc n) cp acc = utf8_tail n (drop_bit 6 cp) (ucast ((cp OR 0x80) AND 0xBF) # acc)"

definition utf8_bytes :: "nat \<Rightarrow> 64 word \<Rightarrow> 64 word \<Rightarrow> byte list" where
  "utf8_bytes len first_byte_mark cp = (case utf8_tail (len - 1) cp [] of
     (cp, tail) \<Rightarrow> (if len > 1 then ucast ((cp OR first_byte_mark) AND 0xFF) else ucast (cp AND 0x7F)) # tail)"

definition utf8_encode :: "64 word \<Rightarrow> byte list option" where
  "utf8_encode cp =
     (if cp < 0x80 then Some (utf8_bytes 1 0 cp)
      else if cp < 0x800 then Some (utf8_bytes 2 0xC0 cp)
      else if cp < 0x10000 then Some (utf8_bytes 3 0xE0 cp)
      else if cp \<le> 0x10FFFF then Some (utf8_bytes 4 0xF0 cp)
      else None)"

text \<open>The sequence length, \<open>0\<close> for a failure, and the bytes written.\<close>

definition utf16_literal_to_utf8 :: "byte list \<Rightarrow> nat \<Rightarrow> nat \<Rightarrow> (nat \<times> byte list) option" where
  "utf16_literal_to_utf8 s p e = do {
     r \<leftarrow> utf16_code_point s p e;
     case r of None \<Rightarrow> Some (0, [])
     | Some (n, cp) \<Rightarrow> (case utf8_encode cp of None \<Rightarrow> Some (0, []) | Some bs \<Rightarrow> Some (n, bs)) }"

subsection \<open>Reading a string\<close>

text \<open>
  The first pass looks for the closing quote and counts the escapes; \<^term>\<open>Some None\<close> when the
  input ends before.
\<close>

function string_end :: "byte list \<Rightarrow> nat \<Rightarrow> nat \<Rightarrow> nat \<Rightarrow> (nat \<times> nat) option option" where
  "string_end s len e skipped =
     (if e < len
      then do {
        c \<leftarrow> rd s (int e);
        if c = 34 then Some (Some (e, skipped))
        else if c = 92 then if e + 1 \<ge> len then Some None else string_end s len (e + 2) (skipped + 1)
        else string_end s len (e + 1) skipped }
      else Some None)"
  by pat_completeness auto
termination by (relation "measure (\<lambda>(s, len, e, skipped). len - e)") auto

definition simple_escape :: "byte \<Rightarrow> byte option" where
  "simple_escape c =
     (if c = 98 then Some 8 else if c = 102 then Some 12 else if c = 110 then Some 10
      else if c = 114 then Some 13 else if c = 116 then Some 9
      else if c = 34 \<or> c = 92 \<or> c = 47 then Some c else None)"

text \<open>Writing to the output, a block of \<open>cap\<close> bytes.\<close>

definition emit :: "nat \<Rightarrow> byte list \<Rightarrow> byte list \<Rightarrow> byte list option" where
  "emit cap out bs = (if length out + length bs \<le> cap then Some (out @ bs) else None)"

text \<open>
  The second pass. \<^term>\<open>Inl p\<close> is a failure at \<open>p\<close>.
\<close>

function unescape :: "byte list \<Rightarrow> nat \<Rightarrow> nat \<Rightarrow> nat \<Rightarrow> byte list \<Rightarrow> (nat + byte list) option" where
  "unescape s e cap p out =
     (if p < e
      then do {
        c \<leftarrow> rd s (int p);
        if c \<noteq> 92 then do { out \<leftarrow> emit cap out [c]; unescape s e cap (p + 1) out }
        else do {
          x \<leftarrow> rd s (int (p + 1));
          if x = 117
          then do {
            (n, bs) \<leftarrow> utf16_literal_to_utf8 s p e;
            out \<leftarrow> emit cap out bs;
            if n = 0 then Some (Inl p) else unescape s e cap (p + n) out }
          else (case simple_escape x of
              None \<Rightarrow> Some (Inl p)
            | Some y \<Rightarrow> do { out \<leftarrow> emit cap out [y]; unescape s e cap (p + 2) out }) } }
      else Some (Inr out))"
  by pat_completeness auto
termination by (relation "measure (\<lambda>(s, e, cap, p, out). e - p)") auto

declare string_end.simps [simp del] unescape.simps [simp del]

text \<open>
  \<open>parse_string\<close>: the block has room for the distance from the opening to the closing quote less the
  number of escapes, and a NUL. A reader of the result sees it up to its first NUL.
\<close>

definition parse_string :: "'f item_data \<Rightarrow> parse_buffer \<Rightarrow> (bool \<times> 'f item_data \<times> parse_buffer) option" where
  "parse_string d b = do {
     q \<leftarrow> peek b 0;
     if q \<noteq> 34 then Some (False, d, b\<lparr>offset := offset b + 1\<rparr>)
     else do {
       r \<leftarrow> string_end (content b) (blength b) (offset b + 1) 0;
       case r of None \<Rightarrow> Some (False, d, b\<lparr>offset := offset b + 1\<rparr>)
       | Some (e, skipped) \<Rightarrow>
           let allocation_length = e - offset b - skipped in
           (case alloc (pmem b) of None \<Rightarrow> Some (False, d, b\<lparr>offset := offset b + 1\<rparr>)
            | Some mem \<Rightarrow> do {
                r \<leftarrow> unescape (content b) e (allocation_length + 1) (offset b + 1) [];
                case r of Inl p \<Rightarrow> Some (False, d, b\<lparr>offset := p, pmem := mem\<rparr>)
                | Inr out \<Rightarrow> do {
                    out \<leftarrow> emit (allocation_length + 1) out [0];
                    Some (True, d\<lparr>jtype := cJSON_String, valuestring := Some (c_str out)\<rparr>,
                          b\<lparr>offset := e + 1, pmem := mem\<rparr>) } }) } }"

subsection \<open>Writing a string\<close>

definition short_escape :: "byte \<Rightarrow> byte option" where
  "short_escape c =
     (if c = 34 then Some 34 else if c = 92 then Some 92 else if c = 8 then Some 98 else if c = 12 then Some 102
      else if c = 10 then Some 110 else if c = 13 then Some 114 else if c = 9 then Some 116 else None)"

text \<open>How many more characters than bytes the escapes take.\<close>

fun escape_characters :: "byte list \<Rightarrow> nat" where
  "escape_characters [] = 0"
| "escape_characters (c # s) =
     (if short_escape c \<noteq> None then 1 else if c < 32 then 5 else 0) + escape_characters s"

definition hex_digit :: "byte \<Rightarrow> byte" where
  "hex_digit n = (if n < 10 then 48 + n else 87 + n)"

text \<open>One byte as it is written; \<open>%04x\<close> of a byte has two leading zeros.\<close>

definition escape_char :: "byte \<Rightarrow> byte list" where
  "escape_char c =
     (if c > 31 \<and> c \<noteq> 34 \<and> c \<noteq> 92 then [c]
      else 92 # (case short_escape c of Some x \<Rightarrow> [x]
                 | None \<Rightarrow> [117, 48, 48, hex_digit (drop_bit 4 c), hex_digit (c AND 15)]))"

definition escape_text :: "byte list \<Rightarrow> byte list" where
  "escape_text s = concat (map escape_char s)"

text \<open>
  \<open>print_string_ptr\<close> of a string or of a null pointer. The closing quote is written where the
  count of the first pass puts it.
\<close>

definition print_string_ptr :: "byte list option \<Rightarrow> printbuffer \<Rightarrow> (bool \<times> printbuffer) option" where
  "print_string_ptr input p = (case input of
     None \<Rightarrow> do {
       (ok, p) \<leftarrow> ensure p 3;
       if \<not> ok then Some (False, p) else do { p \<leftarrow> put_at p 0 [34, 34, 0]; Some (True, p) } }
   | Some s \<Rightarrow> do {
       let output_length = length s + escape_characters s;
       (ok, p) \<leftarrow> ensure p (output_length + 3);
       if \<not> ok then Some (False, p)
       else if escape_characters s = 0
       then do {
         p \<leftarrow> put_at p 0 (34 # s);
         p \<leftarrow> put_at p (output_length + 1) [34, 0];
         Some (True, p) }
       else do {
         p \<leftarrow> put_at p 0 (34 # escape_text s);
         p \<leftarrow> put_at p (output_length + 1) [34, 0];
         Some (True, p) } })"

definition print_string :: "'f item_data \<Rightarrow> printbuffer \<Rightarrow> (bool \<times> printbuffer) option" where
  "print_string d p = print_string_ptr (valuestring d) p"

end
