(* ===== verification/JsonEscapes.thy ===== *)
theory JsonEscapes
  imports JsonString
begin

section \<open>Escapes in JSON strings\<close>

text \<open>
  Facts about \<open>parse_string\<close> and the UTF-16 literals: their value against a reference in natural
  numbers, that the block \<open>parse_string\<close> allocates is always large enough, and that it reads back
  what \<open>print_string_ptr\<close> writes.
\<close>

subsection \<open>Four hexadecimal digits\<close>

lemma hex4_step:
  assumes "rd s (int q) = Some c"
  shows "hex4_from s q (Suc n) (of_nat v) = (case hex_value c of None \<Rightarrow> Some 0
    | Some d \<Rightarrow> hex4_from s (q + 1) n (if n > 0 then of_nat (16 * (v + d)) else of_nat (v + d)))"
proof -
  have p: "push_bit 4 (of_nat x :: 32 word) = of_nat (16 * x)" for x by (simp add: push_bit_eq_mult mult.commute)
  have d: "of_nat v + (ucast c - 48) = (of_nat (v + (unat c - 48)) :: 32 word)" if "48 \<le> c"
    using that by (simp add: of_nat_diff word_le_nat_alt)
  have u: "of_nat v + (10 + ucast c - 65) = (of_nat (v + (unat c - 55)) :: 32 word)" if "65 \<le> c"
    using that by (simp add: of_nat_diff word_le_nat_alt)
  have l: "of_nat v + (10 + ucast c - 97) = (of_nat (v + (unat c - 87)) :: 32 word)" if "97 \<le> c"
    using that by (simp add: of_nat_diff word_le_nat_alt)
  consider (1) "48 \<le> c \<and> c \<le> 57" | (2) "65 \<le> c \<and> c \<le> 70" "\<not> (48 \<le> c \<and> c \<le> 57)"
    | (3) "97 \<le> c \<and> c \<le> 102" "\<not> (48 \<le> c \<and> c \<le> 57)" "\<not> (65 \<le> c \<and> c \<le> 70)"
    | (4) "\<not> (48 \<le> c \<and> c \<le> 57)" "\<not> (65 \<le> c \<and> c \<le> 70)" "\<not> (97 \<le> c \<and> c \<le> 102)" by argo
  then show ?thesis
  proof cases
    case 1
    then show ?thesis by (simp only: hex4_from.simps assms bind.bind_lunit hex_value_def if_True d p option.case simp_thms)
  next
    case 2
    then show ?thesis by (simp only: hex4_from.simps assms bind.bind_lunit hex_value_def if_True if_False u p option.case simp_thms)
  next
    case 3
    then show ?thesis by (simp only: hex4_from.simps assms bind.bind_lunit hex_value_def if_True if_False l p option.case simp_thms)
  next
    case 4
    then show ?thesis by (simp only: hex4_from.simps assms bind.bind_lunit hex_value_def if_False option.case)
  qed
qed

text \<open>The number four digits stand for, and \<open>0\<close> when one of them is none.\<close>

definition hex4_value :: "byte \<Rightarrow> byte \<Rightarrow> byte \<Rightarrow> byte \<Rightarrow> nat" where
  "hex4_value a b c d = (case (hex_value a, hex_value b, hex_value c, hex_value d) of
     (Some w, Some x, Some y, Some z) \<Rightarrow> 16 * (16 * (16 * w + x) + y) + z | _ \<Rightarrow> 0)"

lemma hex4_value_less: "hex4_value a b c d < 65536"
  using hex_value_less [of a] hex_value_less [of b] hex_value_less [of c] hex_value_less [of d]
  by (fastforce simp: hex4_value_def split: option.splits)

lemma parse_hex4_value:
  assumes "q + 4 \<le> length s"
  shows "parse_hex4 s q = Some (of_nat (hex4_value (s ! q) (s ! (q + 1)) (s ! (q + 2)) (s ! (q + 3))))"
proof -
  have r: "rd s (int q) = Some (s ! q)" "rd s (int (q + 1)) = Some (s ! (q + 1))"
    "rd s (int (q + 1 + 1)) = Some (s ! (q + 2))" "rd s (int (q + 1 + 1 + 1)) = Some (s ! (q + 3))"
    using assms by (simp_all add: rd_def nat_add_distrib eval_nat_numeral)
  have "hex4_from s q (Suc (Suc (Suc (Suc 0)))) (of_nat 0)
    = Some (of_nat (hex4_value (s ! q) (s ! (q + 1)) (s ! (q + 2)) (s ! (q + 3))))"
    by (simp only: hex4_step [OF r(1)] hex4_step [OF r(2)] hex4_step [OF r(3)] hex4_step [OF r(4)] hex4_from.simps(1)
        hex4_value_def zero_less_Suc less_irrefl if_True if_False prod.case add_0 split: option.splits)
      simp
  then show ?thesis by (simp add: parse_hex4_def numeral_eq_Suc)
qed

subsection \<open>UTF-8\<close>

text \<open>The UTF-8 form of a code point.\<close>

definition utf8 :: "nat \<Rightarrow> byte list" where
  "utf8 n = map of_nat
     (if n < 0x80 then [n]
      else if n < 0x800 then [0xC0 + n div 64, 0x80 + n mod 64]
      else if n < 0x10000 then [0xE0 + n div 4096, 0x80 + n div 64 mod 64, 0x80 + n mod 64]
      else [0xF0 + n div 262144, 0x80 + n div 4096 mod 64, 0x80 + n div 64 mod 64, 0x80 + n mod 64])"

lemma byte_of_low: "(of_nat (take_bit 64 n) :: byte) = of_nat n"
  by (simp add: word_of_nat_eq_iff)

lemma continuation_byte: "(ucast ((of_nat n OR 0x80) AND 0xBF :: 64 word) :: byte) = of_nat (0x80 + n mod 64)"
proof -
  have t: "list_all (\<lambda>b :: byte. (b OR 0x80) AND 0xBF = of_nat (0x80 + unat b mod 64)) all_bytes" by code_simp
  have "(ucast ((of_nat n OR 0x80) AND 0xBF :: 64 word) :: byte) = (of_nat n OR 0x80) AND 0xBF"
    by (simp add: unsigned_and_eq unsigned_or_eq unsigned_of_nat byte_of_low)
  also have "\<dots> = of_nat (0x80 + unat (of_nat n :: byte) mod 64)" using byte_exhaustive [OF t] .
  also have "unat (of_nat n :: byte) mod 64 = n mod 64"
    by (simp add: unat_of_nat take_bit_eq_mod mod_mod_cancel)
  finally show ?thesis .
qed

lemma first_byte:
  assumes "n < k" and "(m, k) \<in> {(0xC0, 32), (0xE0, 16), (0xF0, 8)}"
  shows "(ucast ((of_nat n OR of_nat m) AND 0xFF :: 64 word) :: byte) = of_nat (m + n)"
proof -
  have t: "list_all (\<lambda>n. (of_nat n OR 0xC0 :: byte) AND 0xFF = of_nat (0xC0 + n)) [0..<32]"
    "list_all (\<lambda>n. (of_nat n OR 0xE0 :: byte) AND 0xFF = of_nat (0xE0 + n)) [0..<16]"
    "list_all (\<lambda>n. (of_nat n OR 0xF0 :: byte) AND 0xFF = of_nat (0xF0 + n)) [0..<8]"
    by code_simp+
  have "(ucast ((of_nat n OR of_nat m) AND 0xFF :: 64 word) :: byte) = (of_nat n OR of_nat m) AND 0xFF"
    by (simp add: unsigned_and_eq unsigned_or_eq unsigned_of_nat byte_of_low)
  also have "\<dots> = of_nat (m + n)" using assms t by (auto simp: list_all_iff)
  finally show ?thesis .
qed

lemma drop_6: "n < 2 ^ 64 \<Longrightarrow> drop_bit 6 (of_nat n :: 64 word) = of_nat (n div 64)"
proof -
  assume n: "n < 2 ^ 64"
  then have "n div 64 < 2 ^ 64" using div_le_dividend [of n 64] by linarith
  with n have "unat (drop_bit 6 (of_nat n :: 64 word)) = unat (of_nat (n div 64) :: 64 word)"
    unfolding unat_drop_bit_eq unat_of_nat by (simp add: take_bit_nat_eq_self drop_bit_eq_div)
  then show ?thesis by (simp only: word_unat_eq_iff)
qed

lemma utf8_tail_1: "n < 2 ^ 64 \<Longrightarrow> utf8_tail 1 (of_nat n) acc = (of_nat (n div 64), of_nat (0x80 + n mod 64) # acc)"
  by (simp only: utf8_tail.simps One_nat_def continuation_byte drop_6)

lemma utf8_tail_Suc:
  "n < 2 ^ 64 \<Longrightarrow> utf8_tail (Suc k) (of_nat n) acc = utf8_tail k (of_nat (n div 64)) (of_nat (0x80 + n mod 64) # acc)"
  by (simp only: utf8_tail.simps One_nat_def continuation_byte drop_6)

lemma utf8_encode_code_point:
  assumes "n \<le> 0x10FFFF"
  shows "utf8_encode (of_nat n) = Some (utf8 n)"
proof -
  have l: "(of_nat n :: 64 word) < of_nat k \<longleftrightarrow> n < k" "(of_nat n :: 64 word) \<le> of_nat k \<longleftrightarrow> n \<le> k" if "k < 2 ^ 64" for k
    using assms that by (simp_all add: word_less_nat_alt word_le_nat_alt unat_of_nat take_bit_nat_eq_self)
  have c: "(of_nat n :: 64 word) < 0x80 \<longleftrightarrow> n < 0x80" "(of_nat n :: 64 word) < 0x800 \<longleftrightarrow> n < 0x800"
    "(of_nat n :: 64 word) < 0x10000 \<longleftrightarrow> n < 0x10000" "(of_nat n :: 64 word) \<le> 0x10FFFF"
    using l(1) [of "0x80"] l(1) [of "0x800"] l(1) [of "0x10000"] l(2) [of "0x10FFFF"] assms by simp_all
  have b: "n < 2 ^ 64" "n div 64 < 2 ^ 64" "n div 64 div 64 < 2 ^ 64" using assms by simp_all
  have k: "(2 :: nat) - 1 = 1" "(3 :: nat) - 1 = Suc 1" "(4 :: nat) - 1 = Suc (Suc 1)"
    "(1 :: nat) < 2" "(1 :: nat) < 3" "(1 :: nat) < 4" by simp_all
  have d: "n div 64 div 64 = n div 4096" "n div 64 div 64 div 64 = n div 262144" "n div 4096 div 64 = n div 262144" by (simp_all add: div_mult2_eq [symmetric])
  consider "n < 0x80" | "0x80 \<le> n" "n < 0x800" | "0x800 \<le> n" "n < 0x10000" | "0x10000 \<le> n" by linarith
  then show ?thesis
  proof cases
    case 1
    have t: "list_all (\<lambda>n. (of_nat n :: byte) AND 0x7F = of_nat n) [0..<128]" by code_simp
    have "(ucast (of_nat n AND 0x7F :: 64 word) :: byte) = of_nat n AND 0x7F"
      by (simp add: unsigned_and_eq unsigned_of_nat byte_of_low)
    with 1 t c show ?thesis by (simp add: utf8_encode_def utf8_bytes_def utf8_def list_all_iff)
  next
    case 2
    then have f: "n div 64 < 32" by simp
    then have g: "(ucast ((of_nat (n div 64) OR 0xC0) AND 0xFF :: 64 word) :: byte) = of_nat (0xC0 + n div 64)"
      using first_byte [of "n div 64" 32 "0xC0"] by simp
    from 2 b have "utf8_bytes 2 0xC0 (of_nat n) = utf8 n"
      by (simp only: utf8_bytes_def utf8_def k utf8_tail_1 prod.case if_True g of_nat_numeral) simp
    with 2 c show ?thesis by (simp add: utf8_encode_def)
  next
    case 3
    then have f: "n div 4096 < 16" by simp
    then have g: "(ucast ((of_nat (n div 4096) OR 0xE0) AND 0xFF :: 64 word) :: byte) = of_nat (0xE0 + n div 4096)"
      using first_byte [of "n div 4096" 16 "0xE0"] by simp
    from 3 b have "utf8_bytes 3 0xE0 (of_nat n) = utf8 n"
      by (simp only: utf8_bytes_def utf8_def k utf8_tail_Suc utf8_tail_1 d prod.case if_True g of_nat_numeral) simp
    with 3 c show ?thesis by (simp add: utf8_encode_def)
  next
    case 4
    then have f: "n div 262144 < 8" using assms by simp
    then have g: "(ucast ((of_nat (n div 262144) OR 0xF0) AND 0xFF :: 64 word) :: byte) = of_nat (0xF0 + n div 262144)"
      using first_byte [of "n div 262144" 8 "0xF0"] by simp
    from 4 b have "utf8_bytes 4 0xF0 (of_nat n) = utf8 n"
      by (simp only: utf8_bytes_def utf8_def k utf8_tail_Suc utf8_tail_1 d prod.case if_True g of_nat_numeral) simp
    with 4 c show ?thesis by (simp add: utf8_encode_def)
  qed
qed

subsection \<open>Literals\<close>

text \<open>The code point of a surrogate pair.\<close>

definition pair_value :: "nat \<Rightarrow> nat \<Rightarrow> nat" where
  "pair_value hi lo = 0x10000 + 1024 * (hi - 0xD800) + (lo - 0xDC00)"

lemma of_nat_compare:
  assumes "v < 65536" and "k < 65536"
  shows "(of_nat v :: 32 word) \<le> of_nat k \<longleftrightarrow> v \<le> k" "(of_nat v :: 32 word) < of_nat k \<longleftrightarrow> v < k"
    "(of_nat k :: 32 word) \<le> of_nat v \<longleftrightarrow> k \<le> v" "(of_nat k :: 32 word) < of_nat v \<longleftrightarrow> k < v"
  using assms by (simp_all add: word_less_nat_alt word_le_nat_alt unat_of_nat take_bit_nat_eq_self)

lemma low_bits:
  assumes "k \<le> v" and "v < k + 1024" and "k mod 1024 = 0" and "k < 65536"
  shows "(of_nat v :: 32 word) AND 0x3FF = of_nat (v - k)"
proof -
  have "(of_nat v :: 32 word) AND mask 10 = of_nat (take_bit 10 v)"
    by (simp only: take_bit_of_nat flip: take_bit_eq_mask)
  moreover have "v mod 1024 = v - k"
  proof -
    from assms(3) have "1024 dvd k" by (simp add: dvd_eq_mod_eq_0)
    then obtain j where "k = 1024 * j" by (elim dvdE)
    then show ?thesis using assms(1,2) by (simp add: mod_nat_eqI)
  qed
  ultimately show ?thesis by (simp add: take_bit_eq_mod mask_numeral)
qed

lemma ucast_of_nat: "v < 2 ^ 32 \<Longrightarrow> (ucast (of_nat v :: 32 word) :: 64 word) = of_nat v"
  by (simp add: unsigned_of_nat take_bit_nat_eq_self)

lemma pair_word:
  assumes "0xD800 \<le> hi" "hi \<le> 0xDBFF" "0xDC00 \<le> lo" "lo \<le> 0xDFFF"
  shows "0x10000 + ucast (push_bit 10 ((of_nat hi :: 32 word) AND 0x3FF) OR (of_nat lo AND 0x3FF)) = (of_nat (pair_value hi lo) :: 64 word)"
proof -
  let ?x = "hi - 0xD800" and ?y = "lo - 0xDC00"
  have x: "?x < 1024" and y: "?y < 1024" using assms by simp_all
  have "push_bit 10 (of_nat ?x :: 32 word) OR of_nat ?y = push_bit 10 (of_nat ?x) + of_nat ?y"
  proof (rule disjunctive_add_eq_or [symmetric])
    have "(of_nat ?y :: 32 word) = take_bit 10 (of_nat ?y)"
      using y by (simp add: word_unat_eq_iff unsigned_take_bit_eq unat_of_nat take_bit_nat_eq_self)
    then have "push_bit 10 (of_nat ?x :: 32 word) AND of_nat ?y = push_bit 10 (of_nat ?x) AND take_bit 10 (of_nat ?y)" by simp
    also have "\<dots> = 0" by (rule bit_eqI) (auto simp: bit_simps)
    finally show "push_bit 10 (of_nat ?x :: 32 word) AND of_nat ?y = 0" .
  qed
  also have "\<dots> = of_nat (1024 * ?x + ?y)" by (simp add: push_bit_eq_mult mult.commute)
  finally have "push_bit 10 ((of_nat hi :: 32 word) AND 0x3FF) OR (of_nat lo AND 0x3FF) = of_nat (1024 * ?x + ?y)"
    using low_bits [of "0xD800" hi] low_bits [of "0xDC00" lo] assms by simp
  moreover have "1024 * ?x + ?y < 2 ^ 32" using x y by simp
  ultimately have "ucast (push_bit 10 ((of_nat hi :: 32 word) AND 0x3FF) OR (of_nat lo AND 0x3FF)) = (of_nat (1024 * ?x + ?y) :: 64 word)"
    using ucast_of_nat by metis
  then show ?thesis by (simp add: pair_value_def)
qed

text \<open>
  What a literal at \<open>p\<close> gives, from the values of its digits. A literal of a low surrogate, of a
  high surrogate that no low one follows, and of which the string has less than six bytes, fails.
\<close>

definition literal_utf8 :: "byte list \<Rightarrow> nat \<Rightarrow> nat \<Rightarrow> nat \<times> byte list" where
  "literal_utf8 s p e = (let v = (\<lambda>q. hex4_value (s ! q) (s ! (q + 1)) (s ! (q + 2)) (s ! (q + 3))) in
     if e < p + 6 \<or> 0xDC00 \<le> v (p + 2) \<and> v (p + 2) \<le> 0xDFFF then (0, [])
     else if 0xD800 \<le> v (p + 2) \<and> v (p + 2) \<le> 0xDBFF
     then if e < p + 12 \<or> s ! (p + 6) \<noteq> 92 \<or> s ! (p + 7) \<noteq> 117 \<or> v (p + 8) < 0xDC00 \<or> v (p + 8) > 0xDFFF then (0, [])
          else (12, utf8 (pair_value (v (p + 2)) (v (p + 8))))
     else (6, utf8 (v (p + 2))))"

lemma utf16_literal_value:
  assumes "e \<le> length s"
  shows "utf16_literal_to_utf8 s p e = Some (literal_utf8 s p e)"
proof (cases "e < p + 6")
  case True
  then show ?thesis by (simp add: utf16_literal_to_utf8_def utf16_code_point_def literal_utf8_def)
next
  case False
  define v where "v q = hex4_value (s ! q) (s ! (q + 1)) (s ! (q + 2)) (s ! (q + 3))" for q
  have h: "parse_hex4 s q = Some (of_nat (v q))" if "q + 4 \<le> e" for q
    unfolding v_def using that assms by (intro parse_hex4_value) simp
  have vl: "v q < 65536" for q unfolding v_def by (rule hex4_value_less)
  have cmp: "(0xDC00 :: 32 word) \<le> of_nat (v q) \<longleftrightarrow> 0xDC00 \<le> v q" "(of_nat (v q) :: 32 word) \<le> 0xDFFF \<longleftrightarrow> v q \<le> 0xDFFF"
    "(0xD800 :: 32 word) \<le> of_nat (v q) \<longleftrightarrow> 0xD800 \<le> v q" "(of_nat (v q) :: 32 word) \<le> 0xDBFF \<longleftrightarrow> v q \<le> 0xDBFF"
    "(of_nat (v q) :: 32 word) < 0xDC00 \<longleftrightarrow> v q < 0xDC00" "(0xDFFF :: 32 word) < of_nat (v q) \<longleftrightarrow> 0xDFFF < v q" for q
    using of_nat_compare [OF vl [of q]] of_nat_compare [OF vl [of q], of "0xDC00"] of_nat_compare [OF vl [of q], of "0xDFFF"]
      of_nat_compare [OF vl [of q], of "0xD800"] of_nat_compare [OF vl [of q], of "0xDBFF"] by simp_all
  have u: "utf8_encode (ucast (of_nat (v q) :: 32 word)) = Some (utf8 (v q))" for q
    using utf8_encode_code_point [of "v q"] vl [of q] ucast_of_nat [of "v q"] by simp
  have pr: "utf8_encode (0x10000 + ucast (push_bit 10 ((of_nat (v q) :: 32 word) AND 0x3FF) OR (of_nat (v r) AND 0x3FF)))
    = Some (utf8 (pair_value (v q) (v r)))" if "0xD800 \<le> v q" "v q \<le> 0xDBFF" "0xDC00 \<le> v r" "v r \<le> 0xDFFF" for q r
    unfolding pair_word [OF that] using that by (intro utf8_encode_code_point) (simp add: pair_value_def)
  have r: "rd s (int (p + 6)) = Some (s ! (p + 6))" "rd s (int (p + 7)) = Some (s ! (p + 7))" if "\<not> e < p + 12"
    using that assms by (auto simp: rd_def nat_add_distrib)
  have lit: "literal_utf8 s p e =
     (if 0xDC00 \<le> v (p + 2) \<and> v (p + 2) \<le> 0xDFFF then (0, [])
     else if 0xD800 \<le> v (p + 2) \<and> v (p + 2) \<le> 0xDBFF
     then if e < p + 12 \<or> s ! (p + 6) \<noteq> 92 \<or> s ! (p + 7) \<noteq> 117 \<or> v (p + 8) < 0xDC00 \<or> v (p + 8) > 0xDFFF then (0, [])
          else (12, utf8 (pair_value (v (p + 2)) (v (p + 8))))
     else (6, utf8 (v (p + 2))))"
    using False unfolding literal_utf8_def Let_def v_def by (simp only: simp_thms)
  consider "0xDC00 \<le> v (p + 2) \<and> v (p + 2) \<le> 0xDFFF"
    | "\<not> (0xDC00 \<le> v (p + 2) \<and> v (p + 2) \<le> 0xDFFF)" "\<not> (0xD800 \<le> v (p + 2) \<and> v (p + 2) \<le> 0xDBFF)"
    | "0xD800 \<le> v (p + 2) \<and> v (p + 2) \<le> 0xDBFF" "e < p + 12"
    | "0xD800 \<le> v (p + 2) \<and> v (p + 2) \<le> 0xDBFF" "\<not> e < p + 12" by blast
  then show ?thesis
  proof cases
    case 1
    then show ?thesis unfolding lit using False
      by (simp add: utf16_literal_to_utf8_def utf16_code_point_def h [of "p + 2", simplified] cmp)
  next
    case 2
    then show ?thesis unfolding lit using False
      by (auto simp add: utf16_literal_to_utf8_def utf16_code_point_def h [of "p + 2", simplified] cmp u)
  next
    case 3
    then show ?thesis unfolding lit using False
      by (simp add: utf16_literal_to_utf8_def utf16_code_point_def h [of "p + 2", simplified] cmp)
  next
    case 4
    then show ?thesis unfolding lit using False
      by (simp add: utf16_literal_to_utf8_def utf16_code_point_def h [of "p + 2", simplified] h [of "p + 8", simplified] cmp
        r [simplified] pr [of "p + 2" "p + 8", simplified])
  qed
qed

lemma utf8_length: "length (utf8 n) \<le> 4" "n < 0x10000 \<Longrightarrow> length (utf8 n) \<le> 3"
  by (simp_all add: utf8_def)

lemma literal_utf8_size:
  assumes "literal_utf8 s p e = (n, bs)"
  shows "n = 0 \<and> bs = [] \<or> n = 6 \<and> length bs \<le> 3 \<and> p + 6 \<le> e \<or> n = 12 \<and> length bs \<le> 4 \<and> p + 12 \<le> e"
  using assms utf8_length hex4_value_less by (auto simp: literal_utf8_def Let_def split: if_splits)

subsection \<open>The estimate of the output size\<close>

text \<open>Where the escapes of the first pass begin, between a position it visits and the closing quote.\<close>

function esc_at :: "byte list \<Rightarrow> nat \<Rightarrow> nat \<Rightarrow> nat list" where
  "esc_at s e E = (if e < E then if s ! e = 92 then e # esc_at s (e + 2) E else esc_at s (e + 1) E else [])"
  by pat_completeness auto
termination by (relation "measure (\<lambda>(s, e, E). E - e)") auto

declare esc_at.simps [simp del]

lemma string_end_result:
  "len \<le> length s \<Longrightarrow> string_end s len e k = Some r \<Longrightarrow>
   (case r of None \<Rightarrow> True | Some (E, k') \<Rightarrow> e \<le> E \<and> E < len \<and> s ! E = 34 \<and> k' = k + length (esc_at s e E))"
proof (induction s len e k rule: string_end.induct)
  case (1 s len e k)
  show ?case
  proof (cases "e < len")
    case False
    with 1(4) show ?thesis by (subst (asm) string_end.simps) simp
  next
    case True
    then have rd: "rd s (int e) = Some (s ! e)" using 1(3) by simp
    consider "s ! e = 34" | "s ! e = 92" "e + 1 \<ge> len" | "s ! e = 92" "\<not> e + 1 \<ge> len" | "s ! e \<noteq> 34" "s ! e \<noteq> 92" by blast
    then show ?thesis
    proof cases
      case 1
      with True rd \<open>string_end s len e k = Some r\<close> show ?thesis by (subst (asm) string_end.simps) (auto simp: esc_at.simps)
    next
      case 2
      with True rd \<open>string_end s len e k = Some r\<close> show ?thesis by (subst (asm) string_end.simps) auto
    next
      case 3
      then have "string_end s len (e + 2) (k + 1) = Some r"
        using True rd \<open>string_end s len e k = Some r\<close> by (subst (asm) string_end.simps) simp
      with 1(1) [OF True rd _ 3] 1(3) 3 show ?thesis by (auto simp: esc_at.simps [of s e] split: option.splits)
    next
      case 4
      then have "string_end s len (e + 1) k = Some r"
        using True rd \<open>string_end s len e k = Some r\<close> by (subst (asm) string_end.simps) simp
      with 1(2) [OF True rd 4] 1(3) 4 show ?thesis by (auto simp: esc_at.simps [of s e] split: option.splits)
    qed
  qed
qed

lemma string_end_total: "len \<le> length s \<Longrightarrow> string_end s len e k \<noteq> None"
proof (induction s len e k rule: string_end.induct)
  case (1 s len e k)
  then show ?case by (subst string_end.simps) auto
qed

lemma esc_at_ge: "q \<in> set (esc_at s e E) \<Longrightarrow> e \<le> q \<and> q < E \<and> s ! q = 92"
proof (induction s e E rule: esc_at.induct)
  case (1 s e E)
  then show ?case by (subst (asm) (3) esc_at.simps) (fastforce split: if_splits)
qed

lemma filter_length_mono:
  "\<forall>x \<in> set xs. P x \<longrightarrow> Q x \<Longrightarrow> length (filter P xs) \<le> length (filter Q xs)"
  by (induction xs) auto

text \<open>Two escapes never begin side by side.\<close>

lemma esc_at_window: "length (filter (\<lambda>q. p \<le> q \<and> q < p + 2 * m) (esc_at s e E)) \<le> m"
proof (induction s e E arbitrary: p m rule: esc_at.induct)
  case (1 s e E)
  show ?case
  proof (cases "e < E \<and> s ! e = 92")
    case True
    show ?thesis
    proof (cases "p \<le> e \<and> e < p + 2 * m")
      case win: True
      then obtain k where m: "m = Suc k" by (cases m) auto
      have "length (filter (\<lambda>q. p \<le> q \<and> q < p + 2 * m) (esc_at s (e + 2) E))
        \<le> length (filter (\<lambda>q. e + 2 \<le> q \<and> q < e + 2 + 2 * k) (esc_at s (e + 2) E))"
      proof (rule filter_length_mono)
        show "\<forall>q \<in> set (esc_at s (e + 2) E). p \<le> q \<and> q < p + 2 * m \<longrightarrow> e + 2 \<le> q \<and> q < e + 2 + 2 * k"
          using esc_at_ge [of _ s "e + 2" E] win m by fastforce
      qed
      also have "\<dots> \<le> k" using 1(1) True by blast
      finally have "length (filter (\<lambda>q. p \<le> q \<and> q < p + 2 * m) (esc_at s (e + 2) E)) \<le> k" .
      then show ?thesis using True win m by (subst esc_at.simps) simp
    next
      case False
      with True 1(1) [of p m] show ?thesis by (subst esc_at.simps) auto
    qed
  next
    case False
    with 1(2) [of p m] show ?thesis by (subst esc_at.simps) auto
  qed
qed

text \<open>How many escapes begin at \<open>p\<close> or later; a step of the second pass sees few of them.\<close>

definition escs :: "byte list \<Rightarrow> nat \<Rightarrow> nat \<Rightarrow> nat \<Rightarrow> nat" where
  "escs s start E p = length (filter (\<lambda>q. p \<le> q) (esc_at s start E))"

lemma escs_start: "escs s start E start = length (esc_at s start E)"
proof -
  have "filter (\<lambda>q. start \<le> q) (esc_at s start E) = esc_at s start E"
    using esc_at_ge by (fastforce simp: filter_id_conv)
  then show ?thesis by (simp add: escs_def)
qed

lemma escs_step: "escs s start E p \<le> m + escs s start E (p + 2 * m)"
proof -
  have "length (filter (\<lambda>q. p \<le> q) xs)
    = length (filter (\<lambda>q. p \<le> q \<and> q < p + 2 * m) xs) + length (filter (\<lambda>q. p + 2 * m \<le> q) xs)" for xs :: "nat list"
    by (induction xs) auto
  then show ?thesis using esc_at_window [of p m s start E] unfolding escs_def by simp
qed

lemma escs_plain: "s ! p \<noteq> 92 \<Longrightarrow> escs s start E p = escs s start E (p + 1)"
proof -
  assume p: "s ! p \<noteq> 92"
  then have "p \<le> q \<longleftrightarrow> p + 1 \<le> q" if "q \<in> set (esc_at s start E)" for q
    using esc_at_ge [OF that] by (cases "p = q") auto
  then show ?thesis unfolding escs_def by (intro arg_cong [of _ _ length] filter_cong refl) blast
qed

lemma escs_end: "E \<le> p \<Longrightarrow> escs s start E p = 0"
  using esc_at_ge by (fastforce simp: escs_def filter_empty_conv)

lemma escs_le: "p \<le> E + 1 \<Longrightarrow> p + escs s start E p \<le> E + 1"
  using escs_step [of s start E p "E - p"] escs_end [of E "p + 2 * (E - p)"] escs_end [of E p]
  by (cases "p \<le> E") auto

text \<open>
  The second pass stays in its block: at \<open>p\<close> it has written no more than the way it has come less
  the escapes it has passed, whatever the digits of the literals it jumps over look like.
\<close>

lemma unescape_safe:
  assumes "E < length s" and "s ! E = 34" and "cap = E + 2 - start - tot" and "tot = escs s start E start"
  shows "start \<le> p \<Longrightarrow> p \<le> E + 1 \<Longrightarrow> length out + tot + start \<le> p + escs s start E p \<Longrightarrow>
    \<exists>r. unescape s E cap p out = Some r \<and>
      (case r of Inl q \<Rightarrow> start \<le> q \<and> q < E | Inr out' \<Rightarrow> length out' < cap)"
proof (induction "E + 1 - p" arbitrary: p out rule: less_induct)
  case less
  have tot: "tot + start \<le> E + 1" if "start \<le> E + 1"
    using escs_le [of start E s start] that assms(4) by simp
  have cap: "cap = E + 2 - start - tot" "start \<le> E + 1" using assms(3) less.prems by simp_all
  have room: "length out' < cap" if "q \<le> E + 1" "length out' + tot + start \<le> q + escs s start E q" for q out'
    using escs_le [OF that(1), of s start] that(2) cap tot by simp
  show ?case
  proof (cases "p < E")
    case False
    then show ?thesis using room [OF less.prems(2,3)] by (subst unescape.simps) simp
  next
    case True
    then have rd: "rd s (int p) = Some (s ! p)" "rd s (int (p + 1)) = Some (s ! (p + 1))"
      using assms(1) by (auto simp: rd_def nat_add_distrib)
    have em: "emit cap out bs = Some (out @ bs)"
      and step: "\<exists>r. unescape s E cap (p + k) (out @ bs) = Some r \<and>
        (case r of Inl q \<Rightarrow> start \<le> q \<and> q < E | Inr out' \<Rightarrow> length out' < cap)"
      if "0 < k" "p + k \<le> E + 1" "escs s start E p + length bs \<le> k + escs s start E (p + k)" for k bs
    proof -
      have i: "length (out @ bs) + tot + start \<le> p + k + escs s start E (p + k)" using less.prems(3) that(3) by simp
      from room [OF that(2) i] show "emit cap out bs = Some (out @ bs)" by (simp add: emit_def)
      show "\<exists>r. unescape s E cap (p + k) (out @ bs) = Some r \<and>
        (case r of Inl q \<Rightarrow> start \<le> q \<and> q < E | Inr out' \<Rightarrow> length out' < cap)"
        using less.hyps [of "p + k" "out @ bs"] that(1,2) i less.prems(1) True by simp
    qed
    show ?thesis
    proof (cases "s ! p = 92")
      case False
      then have "escs s start E p + length [s ! p] \<le> 1 + escs s start E (p + 1)" by (simp add: escs_plain)
      from em [OF _ _ this] step [OF _ _ this] rd False True show ?thesis
        by (subst unescape.simps) (simp del: of_nat_add)
    next
      case esc: True
      show ?thesis
      proof (cases "s ! (p + 1) = 117")
        case False
        have "escs s start E p + length [y] \<le> 2 + escs s start E (p + 2)" for y :: byte
          using escs_step [of s start E p 1] by simp
        from em [OF _ _ this] step [OF _ _ this] rd False True esc less.prems(1) show ?thesis
          by (subst unescape.simps) (auto simp del: of_nat_add split: option.splits)
      next
        case lit: True
        obtain n bs where l: "literal_utf8 s p E = (n, bs)" by fastforce
        then have u: "utf16_literal_to_utf8 s p E = Some (n, bs)"
          using utf16_literal_value [of E s p] assms(1) by simp
        from literal_utf8_size [OF l] consider "n = 0" "bs = []" | "0 < n" "p + n \<le> E" "escs s start E p + length bs \<le> n + escs s start E (p + n)"
          using escs_step [of s start E p 3] escs_step [of s start E p 6] by fastforce
        then show ?thesis
        proof cases
          case 1
          have "length out < cap" using room [OF less.prems(2,3)] .
          with 1 rd esc lit u True less.prems(1) show ?thesis
            by (subst unescape.simps) (simp add: emit_def del: of_nat_add)
        next
          case 2
          from em [OF 2(1) _ 2(3)] step [OF 2(1) _ 2(3)] 2(1,2) rd esc lit u True show ?thesis
            by (subst unescape.simps) (simp del: of_nat_add)
        qed
      qed
    qed
  qed
qed

subsection \<open>Reading a string stays in bounds\<close>

text \<open>The same input, further on.\<close>

definition moves :: "parse_buffer \<Rightarrow> parse_buffer \<Rightarrow> bool" where
  "moves b b' \<longleftrightarrow> content b' = content b \<and> blength b' = blength b \<and> offset b \<le> offset b' \<and> offset b' \<le> blength b"

lemma moves_refl: "wf_buf b \<Longrightarrow> moves b b"
  by (simp add: moves_def wf_buf_def)

lemma moves_trans: "moves a b \<Longrightarrow> moves b c \<Longrightarrow> moves a c"
  by (simp add: moves_def)

lemma moves_wf: "wf_buf b \<Longrightarrow> moves b b' \<Longrightarrow> wf_buf b'"
  by (simp add: moves_def wf_buf_def)

lemma moves_rest: "wf_buf b \<Longrightarrow> moves b b' \<Longrightarrow> length (rest b') \<le> length (rest b)"
  using moves_wf [of b b'] by (auto simp: length_rest moves_def)

lemma rest_offset: "wf_buf b \<Longrightarrow> rest b \<noteq> [] \<longleftrightarrow> offset b < blength b"
  using length_rest [of b] by (simp add: wf_buf_def flip: length_greater_0_conv)

lemma parse_string_safe:
  assumes "wf_buf b" and "rest b \<noteq> []"
  shows "\<exists>ok d' b'. parse_string d b = Some (ok, d', b') \<and> moves b b' \<and> depth b' = depth b
    \<and> (ok \<longrightarrow> offset b < offset b') \<and> jstring d' = jstring d"
proof -
  let ?s = "content b" and ?p = "offset b + 1"
  have o: "offset b < blength b" "blength b \<le> length ?s" using assms rest_offset by (auto simp: wf_buf_def)
  obtain q where q: "peek b 0 = Some q" using peek_rest [OF assms(1), of 0] assms(2) by auto
  obtain r where r: "string_end ?s (blength b) ?p 0 = Some r" using string_end_total [OF o(2)] by fast
  consider "q \<noteq> 34" | "q = 34" "r = None" | "q = 34" "pmem b = 0" | E k where "q = 34" "r = Some (E, k)" "pmem b \<noteq> 0"
    by (cases r) auto
  then show ?thesis
  proof cases
    case (4 E k)
    have E: "?p \<le> E" "E < blength b" "?s ! E = 34" "k = escs ?s ?p E ?p"
      using string_end_result [OF o(2) r] 4 by (simp_all add: escs_start)
    have cap: "E - offset b - k + 1 = E + 2 - ?p - k" and i: "length ([] :: byte list) + k + ?p \<le> ?p + escs ?s ?p E ?p"
      using E escs_le [of ?p E ?s ?p] by simp_all
    from E obtain u where u: "unescape ?s E (E - offset b - k + 1) ?p [] = Some u"
      "case u of Inl q \<Rightarrow> ?p \<le> q \<and> q < E | Inr out' \<Rightarrow> length out' < E - offset b - k + 1"
      using unescape_safe [OF _ E(3) cap E(4) le_refl _ i] o by auto
    then show ?thesis
      using q r 4 E o by (cases u) (auto simp: parse_string_def Let_def alloc_def emit_def moves_def)
  qed (use q r o in \<open>auto simp: parse_string_def alloc_def moves_def split: option.splits\<close>)
qed

subsection \<open>A written string is read back\<close>

definition string_text :: "byte list \<Rightarrow> byte list" where
  "string_text s = 34 # escape_text s @ [34]"

lemma rd_append_at: "rd (P @ c # R) (int (length P)) = Some c"
  by simp

lemma hex_digits_of_control:
  "c < 32 \<Longrightarrow> hex4_value 48 48 (hex_digit (drop_bit 4 c)) (hex_digit (c AND 15)) = unat c \<and>
     hex_digit (drop_bit 4 c) \<notin> {34, 92} \<and> hex_digit (c AND 15) \<notin> {34, 92}"
proof -
  have "list_all (\<lambda>c. c < 32 \<longrightarrow> hex4_value 48 48 (hex_digit (drop_bit 4 c)) (hex_digit (c AND 15)) = unat c \<and>
     hex_digit (drop_bit 4 c) \<notin> {34, 92} \<and> hex_digit (c AND 15) \<notin> {34, 92}) all_bytes" by code_simp
  from byte_exhaustive [OF this] show "c < 32 \<Longrightarrow> ?thesis" by blast
qed

lemma short_escape_inverse: "short_escape c = Some x \<Longrightarrow> x \<noteq> 117 \<and> simple_escape x = Some c"
  by (auto simp: short_escape_def simple_escape_def split: if_splits)

text \<open>The three forms of a byte.\<close>

lemma escape_char_cases:
  obtains (plain) "escape_char c = [c]" "c \<noteq> 34" "c \<noteq> 92"
  | (short) x where "escape_char c = [92, x]" "x \<noteq> 117" "simple_escape x = Some c" "short_escape c = Some x"
  | (unicode) h l where "escape_char c = [92, 117, 48, 48, h, l]" "hex4_value 48 48 h l = unat c" "c < 32"
      "h \<noteq> 34" "h \<noteq> 92" "l \<noteq> 34" "l \<noteq> 92" "short_escape c = None"
proof (cases "c > 31 \<and> c \<noteq> 34 \<and> c \<noteq> 92")
  case True
  then show ?thesis using plain by (simp add: escape_char_def)
next
  case False
  show ?thesis
  proof (cases "short_escape c")
    case None
    then have "c < 32" using False by (auto simp: short_escape_def not_less word_less_nat_alt word_le_nat_alt split: if_splits)
    with None False show ?thesis using unicode hex_digits_of_control [of c] by (simp add: escape_char_def)
  next
    case (Some x)
    with False show ?thesis using short [of x] short_escape_inverse [OF Some] by (simp add: escape_char_def)
  qed
qed

lemma escape_text_simps [simp]: "escape_text [] = []" "escape_text (c # s) = escape_char c @ escape_text s"
  by (simp_all add: escape_text_def)

fun escapes :: "byte list \<Rightarrow> nat" where
  "escapes [] = 0"
| "escapes (c # s) = (if escape_char c = [c] then 0 else 1) + escapes s"

lemma string_end_step:
  "e < len \<Longrightarrow> rd s (int e) = Some c \<Longrightarrow> c \<noteq> 34 \<Longrightarrow> c \<noteq> 92 \<Longrightarrow> string_end s len e k = string_end s len (e + 1) k"
  "e + 1 < len \<Longrightarrow> rd s (int e) = Some 92 \<Longrightarrow> string_end s len e k = string_end s len (e + 2) (k + 1)"
  by (subst string_end.simps; simp)+

lemma string_end_plain:
  "34 \<notin> set xs \<Longrightarrow> 92 \<notin> set xs \<Longrightarrow> length P + length xs < len \<Longrightarrow>
   string_end (P @ xs @ R) len (length P) k = string_end (P @ xs @ R) len (length P + length xs) k"
proof (induction xs arbitrary: P)
  case (Cons x xs)
  have "string_end (P @ (x # xs) @ R) len (length P) k = string_end (P @ (x # xs) @ R) len (length P + 1) k"
    using Cons.prems by (intro string_end_step(1)) auto
  also have "\<dots> = string_end ((P @ [x]) @ xs @ R) len (length (P @ [x])) k" by simp
  also have "\<dots> = string_end ((P @ [x]) @ xs @ R) len (length (P @ [x]) + length xs) k"
    using Cons.prems by (intro Cons.IH) auto
  finally show ?case by simp
qed simp

text \<open>The first pass over a written string finds its end.\<close>

lemma string_end_text:
  "length P + length (escape_text s) < len \<Longrightarrow>
   string_end (P @ escape_text s @ 34 # R) len (length P) k = Some (Some (length P + length (escape_text s), k + escapes s))"
proof (induction s arbitrary: P k)
  case Nil
  then show ?case by (subst string_end.simps) simp
next
  case (Cons c s)
  let ?T = "escape_text s @ 34 # R"
  have one: "string_end (P @ escape_char c @ ?T) len (length P) k = string_end (P @ escape_char c @ ?T) len (length (P @ escape_char c)) k'"
    if "k' = k + (if escape_char c = [c] then 0 else 1)" for k'
  proof (cases rule: escape_char_cases [of c])
    case plain
    then show ?thesis using Cons.prems that string_end_plain [of "[c]" P len ?T k] by simp
  next
    case (short x)
    then have "string_end (P @ escape_char c @ ?T) len (length P) k = string_end (P @ escape_char c @ ?T) len (length P + 2) (k + 1)"
      using Cons.prems by (intro string_end_step(2)) auto
    then show ?thesis using that short by simp
  next
    case (unicode h l)
    then have "string_end (P @ escape_char c @ ?T) len (length P) k = string_end (P @ escape_char c @ ?T) len (length P + 2) (k + 1)"
      using Cons.prems by (intro string_end_step(2)) auto
    also have "\<dots> = string_end ((P @ [92, 117]) @ [48, 48, h, l] @ ?T) len (length (P @ [92, 117])) (k + 1)"
      using unicode by simp
    also have "\<dots> = string_end ((P @ [92, 117]) @ [48, 48, h, l] @ ?T) len (length (P @ [92, 117]) + length [48, 48, h, l]) (k + 1)"
      by (rule string_end_plain) (use unicode Cons.prems in auto)
    finally show ?thesis using that unicode by simp
  qed
  show ?case
    using one [OF refl] Cons.IH [of "P @ escape_char c" "k + (if escape_char c = [c] then 0 else 1)"] Cons.prems
    by simp
qed

lemma escape_lengths: "length s + escapes s \<le> length (escape_text s)"
proof (induction s)
  case (Cons c s)
  then show ?case by (cases rule: escape_char_cases [of c]) auto
qed simp

lemma unescape_text:
  "E = length P + length (escape_text s) \<Longrightarrow> length out + length s \<le> cap \<Longrightarrow>
   unescape (P @ escape_text s @ 34 # R) E cap (length P) out = Some (Inr (out @ s))"
proof (induction s arbitrary: P out)
  case Nil
  then show ?case by (subst unescape.simps) simp
next
  case (Cons c s)
  let ?S = "P @ escape_char c @ escape_text s @ 34 # R"
  have em: "emit cap out [c] = Some (out @ [c])" using Cons.prems by (simp add: emit_def)
  have "unescape ?S E cap (length P) out = unescape ?S E cap (length (P @ escape_char c)) (out @ [c])"
  proof (cases rule: escape_char_cases [of c])
    case plain
    then show ?thesis using Cons.prems em by (subst unescape.simps) simp
  next
    case (short x)
    have "rd ?S (int (length P)) = Some 92" "rd ?S (int (length P + 1)) = Some x" using short by (simp_all add: nth_append rd_def nat_add_distrib)
    then show ?thesis using Cons.prems em short by (subst unescape.simps) (simp del: of_nat_add)
  next
    case (unicode h l)
    have r: "rd ?S (int (length P)) = Some 92" "rd ?S (int (length P + 1)) = Some 117"
      using unicode by (simp_all add: nth_append rd_def nat_add_distrib)
    have v: "hex4_value (?S ! (length P + 2)) (?S ! (length P + 2 + 1)) (?S ! (length P + 2 + 2)) (?S ! (length P + 2 + 3)) = unat c"
      using unicode by (simp add: nth_append nth_Cons')
    have c: "unat c < 32" using unicode(3) by (simp add: word_less_nat_alt)
    have "literal_utf8 ?S (length P) E = (6, utf8 (unat c))"
      using c Cons.prems unicode(1) unfolding literal_utf8_def Let_def v by simp
    also have "utf8 (unat c) = [c]" using c by (simp add: utf8_def)
    finally have "utf16_literal_to_utf8 ?S (length P) E = Some (6, [c])"
      using utf16_literal_value [of E ?S "length P"] Cons.prems by simp
    then show ?thesis using Cons.prems em r unicode(1) by (subst unescape.simps) (simp add: eval_nat_numeral del: of_nat_add)
  qed
  also have "\<dots> = Some (Inr (out @ c # s))"
    using Cons.IH [of "P @ escape_char c" "out @ [c]"] Cons.prems by simp
  finally show ?case by simp
qed

text \<open>
  \<open>parse_string\<close> of what \<open>print_string_ptr\<close> writes for a string gives the string back.
\<close>

lemma parse_string_text:
  assumes "wf_buf b" and "rest b = string_text s @ r" and "0 \<notin> set s" and "pmem b > 0"
  shows "parse_string d b = Some (True, d\<lparr>jtype := cJSON_String, valuestring := Some s\<rparr>,
    b\<lparr>offset := offset b + length (string_text s), pmem := pmem b - 1\<rparr>)"
proof -
  obtain P R where c: "content b = P @ string_text s @ R" "length P = offset b"
  proof -
    have "content b = take (offset b) (content b) @ rest b @ drop (blength b) (content b)"
      using assms(1) unfolding rest_def wf_buf_def
      by (metis append.assoc append_take_drop_id min.absorb1 take_take)
    with assms show ?thesis using that [of "take (offset b) (content b)" "r @ drop (blength b) (content b)"]
      by (simp add: wf_buf_def)
  qed
  let ?e = "offset b + 1 + length (escape_text s)" and ?P = "P @ [34]"
  have s: "content b = ?P @ escape_text s @ 34 # R" "length ?P = offset b + 1"
    using c by (simp_all add: string_text_def)
  have e: "?e < blength b"
    using length_rest [OF assms(1)] assms(2) by (simp add: string_text_def)
  have "peek b 0 = Some 34" using peek_rest [OF assms(1), of 0] assms(2) by (simp add: string_text_def)
  moreover have "string_end (content b) (blength b) (offset b + 1) 0 = Some (Some (?e, escapes s))"
    using string_end_text [of ?P s "blength b" R 0] e unfolding s(1) s(2) [symmetric] by simp
  moreover have "unescape (content b) ?e (?e - offset b - escapes s + 1) (offset b + 1) [] = Some (Inr s)"
    using unescape_text [of ?e ?P s "[]" "?e - offset b - escapes s + 1" R] escape_lengths [of s] c(2)
    unfolding s(1) s(2) [symmetric] by simp
  moreover have "emit (?e - offset b - escapes s + 1) s [0] = Some (s @ [0])"
    using escape_lengths [of s] by (simp add: emit_def)
  moreover have "c_str (s @ [0]) = s" using c_str_append [OF assms(3), of "[]"] by simp
  ultimately show ?thesis using assms(4)
    by (simp add: parse_string_def alloc_def Let_def string_text_def)
qed

end
