(* ===== verification/JsonPrint.thy ===== *)
theory JsonPrint
  imports JsonNumber JsonEscapes
begin

section \<open>The JSON printer\<close>

text \<open>
  \<open>print_value\<close>, \<open>print_array\<close> and \<open>print_object\<close> write into a buffer that \<open>ensure\<close> makes large
  enough. The loops over children are functions of the list of the children left; \<open>next\<close> is null at
  the last one. A result is whether the function succeeded, and the buffer.
\<close>

definition tabs :: "nat \<Rightarrow> byte list" where
  "tabs n = replicate n 9"

definition if_format :: "printbuffer \<Rightarrow> byte list \<Rightarrow> byte list" where
  "if_format p bs = (if p_format p then bs else [])"

text \<open>Reserving \<open>n\<close> bytes, writing \<open>bs\<close> at the offset and moving it by \<open>k\<close>.\<close>

definition reserve_put :: "nat \<Rightarrow> byte list \<Rightarrow> nat \<Rightarrow> printbuffer \<Rightarrow> (bool \<times> printbuffer) option" where
  "reserve_put n bs k p = do {
     (ok, p) \<leftarrow> ensure p n;
     if \<not> ok then Some (False, p) else do { p \<leftarrow> put_at p 0 bs; Some (True, advance k p) } }"

definition deeper :: "printbuffer \<Rightarrow> printbuffer" where "deeper p = p\<lparr>p_depth := p_depth p + 1\<rparr>"
definition shallower :: "printbuffer \<Rightarrow> printbuffer" where "shallower p = p\<lparr>p_depth := p_depth p - 1\<rparr>"

definition print_start :: "byte \<Rightarrow> nat \<Rightarrow> byte list \<Rightarrow> nat \<Rightarrow> printbuffer \<Rightarrow> (bool \<times> printbuffer) option" where
  "print_start c n cs k p = do {
     (ok, p) \<leftarrow> reserve_put n (c # cs) k p;
     Some (ok, if ok then deeper p else p) }"

fun print_value :: "('f, 'a) num_ops_scheme \<Rightarrow> 'f cJSON \<Rightarrow> printbuffer \<Rightarrow> (bool \<times> printbuffer) option"
  and print_elements :: "('f, 'a) num_ops_scheme \<Rightarrow> 'f cJSON list \<Rightarrow> printbuffer \<Rightarrow> (bool \<times> printbuffer) option"
  and print_members :: "('f, 'a) num_ops_scheme \<Rightarrow> 'f cJSON list \<Rightarrow> printbuffer \<Rightarrow> (bool \<times> printbuffer) option" where
  "print_value fo (Item d cs) p =
     (if type_of d = cJSON_NULL then reserve_put 5 (lit ''null'' @ [0]) 0 p
      else if type_of d = cJSON_Bool then reserve_put 6 ((if valueint d \<noteq> 0 then lit ''true'' else lit ''false'') @ [0]) 0 p
      else if type_of d = cJSON_Int \<or> type_of d = cJSON_Number then print_number fo d p
      else if type_of d = cJSON_Raw
      then (case valuestring d of None \<Rightarrow> Some (False, p) | Some s \<Rightarrow> reserve_put (length s + 1) (s @ [0]) 0 p)
      else if type_of d = cJSON_String then print_string d p
      else if type_of d = cJSON_Array
      then do {
        (ok, p) \<leftarrow> print_start 91 1 [] 1 p;
        if \<not> ok then Some (False, p)
        else do {
          (ok, p) \<leftarrow> print_elements fo cs p;
          if \<not> ok then Some (False, p)
          else do {
            (ok, p) \<leftarrow> reserve_put 2 [93, 0] 0 p;
            Some (ok, if ok then shallower p else p) } } }
      else if type_of d = cJSON_Object
      then do {
        (ok, p) \<leftarrow> print_start 123 (length (if_format p [10]) + 2) (if_format p [10]) (length (if_format p [10]) + 1) p;
        if \<not> ok then Some (False, p)
        else do {
          (ok, p) \<leftarrow> print_members fo cs p;
          if \<not> ok then Some (False, p)
          else do {
            (ok, p) \<leftarrow> reserve_put (if p_format p then p_depth p + 1 else 2) (if_format p (tabs (p_depth p - 1)) @ [125, 0]) 0 p;
            Some (ok, if ok then shallower p else p) } } }
      else Some (False, p))"
| "print_elements fo [] p = Some (True, p)"
| "print_elements fo (x # xs) p = do {
     (ok, p) \<leftarrow> print_value fo x p;
     if \<not> ok then Some (False, p)
     else do {
       p \<leftarrow> update_offset p;
       if xs = [] then print_elements fo xs p
       else do {
         (ok, p) \<leftarrow> reserve_put (length (44 # if_format p [32]) + 1) (44 # if_format p [32] @ [0]) (length (44 # if_format p [32])) p;
         if \<not> ok then Some (False, p) else print_elements fo xs p } } }"
| "print_members fo [] p = Some (True, p)"
| "print_members fo (x # xs) p = do {
     (ok, p) \<leftarrow> (if p_format p then reserve_put (p_depth p) (tabs (p_depth p)) (p_depth p) p else Some (True, p));
     if \<not> ok then Some (False, p)
     else do {
       (ok, p) \<leftarrow> print_string_ptr (jstring (item x)) p;
       if \<not> ok then Some (False, p)
       else do {
         p \<leftarrow> update_offset p;
         (ok, p) \<leftarrow> reserve_put (length (58 # if_format p [9])) (58 # if_format p [9]) (length (58 # if_format p [9])) p;
         if \<not> ok then Some (False, p)
         else do {
           (ok, p) \<leftarrow> print_value fo x p;
           if \<not> ok then Some (False, p)
           else do {
             p \<leftarrow> update_offset p;
             let s = (if xs = [] then [] else [44]) @ if_format p [10];
             (ok, p) \<leftarrow> reserve_put (length s + 1) (s @ [0]) (length s) p;
             if \<not> ok then Some (False, p) else print_members fo xs p } } } } }"

text \<open>
  \<open>print\<close>: a block of 256 bytes to begin with, and a result of exactly the size it needs. The result
  is the block, a null pointer when an allocation or the printing failed.
\<close>

definition print_block :: "('f, 'a) num_ops_scheme \<Rightarrow> bool \<Rightarrow> nat \<Rightarrow> bool \<Rightarrow> 'f cJSON \<Rightarrow> byte option list option option" where
  "print_block fo realloc mem format x = (case alloc mem of None \<Rightarrow> Some None
   | Some mem \<Rightarrow> do {
       (ok, p) \<leftarrow> print_value fo x \<lparr>p_buffer = Some (replicate 256 None), p_length = 256, p_offset = 0, p_depth = 0,
                                  p_noalloc = False, p_format = format, p_realloc = realloc, p_mem = mem\<rparr>;
       if \<not> ok then Some None
       else do {
         p \<leftarrow> update_offset p;
         (case alloc (p_mem p) of None \<Rightarrow> Some None
          | Some mem \<Rightarrow> do {
              buf \<leftarrow> p_buffer p;
              let n = p_offset p + 1;
              if p_realloc p then Some (Some (take n buf))
              else if min (p_length p) n \<le> length buf then Some (Some (take (p_offset p) (take (min (p_length p) n) buf) @ [Some 0]))
              else None }) } })"

definition cJSON_Print :: "('f, 'a) num_ops_scheme \<Rightarrow> bool \<Rightarrow> nat \<Rightarrow> 'f cJSON option \<Rightarrow> byte option list option option" where
  "cJSON_Print fo realloc mem x = (case x of None \<Rightarrow> Some None | Some x \<Rightarrow> print_block fo realloc mem True x)"

definition cJSON_PrintUnformatted :: "('f, 'a) num_ops_scheme \<Rightarrow> bool \<Rightarrow> nat \<Rightarrow> 'f cJSON option \<Rightarrow> byte option list option option" where
  "cJSON_PrintUnformatted fo realloc mem x = (case x of None \<Rightarrow> Some None | Some x \<Rightarrow> print_block fo realloc mem False x)"

text \<open>\<open>cJSON_PrintBuffered\<close> returns the block it has printed into, \<open>cJSON_PrintPreallocated\<close> success and the block.\<close>

definition cJSON_PrintBuffered :: "('f, 'a) num_ops_scheme \<Rightarrow> bool \<Rightarrow> nat \<Rightarrow> 'f cJSON option \<Rightarrow> int \<Rightarrow> bool \<Rightarrow> byte option list option option" where
  "cJSON_PrintBuffered fo realloc mem x prebuffer format =
     (if prebuffer < 0 then Some None
      else (case alloc mem of None \<Rightarrow> Some None
        | Some mem \<Rightarrow> (case x of None \<Rightarrow> Some None
          | Some x \<Rightarrow> do {
              (ok, p) \<leftarrow> print_value fo x \<lparr>p_buffer = Some (replicate (nat prebuffer) None), p_length = nat prebuffer, p_offset = 0,
                           p_depth = 0, p_noalloc = False, p_format = format, p_realloc = realloc, p_mem = mem\<rparr>;
              Some (if ok then p_buffer p else None) })))"

definition cJSON_PrintPreallocated :: "('f, 'a) num_ops_scheme \<Rightarrow> bool \<Rightarrow> nat \<Rightarrow> 'f cJSON option \<Rightarrow> byte option list option \<Rightarrow> int \<Rightarrow> bool \<Rightarrow>
    (bool \<times> byte option list option) option" where
  "cJSON_PrintPreallocated fo realloc mem x buffer len format =
     (if len < 0 \<or> buffer = None then Some (False, buffer)
      else (case x of None \<Rightarrow> Some (False, buffer)
        | Some x \<Rightarrow> do {
            (ok, p) \<leftarrow> print_value fo x \<lparr>p_buffer = buffer, p_length = nat len, p_offset = 0, p_depth = 0,
                         p_noalloc = True, p_format = format, p_realloc = realloc, p_mem = mem\<rparr>;
            Some (ok, p_buffer p) }))"

end
