(* ===== verification/JsonParse.thy ===== *)
theory JsonParse
  imports JsonNumber JsonEscapes
begin

section \<open>The JSON parser\<close>

text \<open>
  \<open>parse_value\<close>, \<open>parse_array\<close> and \<open>parse_object\<close> call each other; \<open>n\<close> bounds the calls, and
  \<^term>\<open>None\<close> also stands for a bound that is too small. A result is whether the function
  succeeded, the item and the buffer. An item of a failed parse is deleted by the caller.
\<close>

definition CJSON_NESTING_LIMIT :: nat where "CJSON_NESTING_LIMIT = 1000"

text \<open>\<open>can_read\<close> and \<open>strncmp\<close> with a literal; the byte at the offset if it can be accessed.\<close>

definition looking_at :: "parse_buffer \<Rightarrow> byte list \<Rightarrow> bool option" where
  "looking_at b s = (if can_read b (length s) then c_strneq (drop (offset b) (content b)) s (length s) else Some False)"

definition look :: "parse_buffer \<Rightarrow> byte option option" where
  "look b = (if can_access_at_index b 0 then map_option Some (peek b 0) else Some None)"

definition forward :: "nat \<Rightarrow> parse_buffer \<Rightarrow> parse_buffer" where
  "forward n b = b\<lparr>offset := offset b + n\<rparr>"

definition step_back :: "parse_buffer \<Rightarrow> parse_buffer" where
  "step_back b = b\<lparr>offset := offset b - 1\<rparr>"

text \<open>The end of an array or an object, with the closing bracket under the offset.\<close>

definition close_bracket :: "parse_buffer \<Rightarrow> parse_buffer" where
  "close_bracket b = b\<lparr>depth := depth b - 1, offset := offset b + 1\<rparr>"

fun parse_value :: "('f, 'a) num_ops_scheme \<Rightarrow> nat \<Rightarrow> 'f item_data \<Rightarrow> parse_buffer \<Rightarrow> (bool \<times> 'f cJSON \<times> parse_buffer) option"
  and parse_array :: "('f, 'a) num_ops_scheme \<Rightarrow> nat \<Rightarrow> 'f item_data \<Rightarrow> parse_buffer \<Rightarrow> (bool \<times> 'f cJSON \<times> parse_buffer) option"
  and parse_elements :: "('f, 'a) num_ops_scheme \<Rightarrow> nat \<Rightarrow> parse_buffer \<Rightarrow> (bool \<times> 'f cJSON list \<times> parse_buffer) option"
  and parse_object :: "('f, 'a) num_ops_scheme \<Rightarrow> nat \<Rightarrow> 'f item_data \<Rightarrow> parse_buffer \<Rightarrow> (bool \<times> 'f cJSON \<times> parse_buffer) option"
  and parse_members :: "('f, 'a) num_ops_scheme \<Rightarrow> nat \<Rightarrow> parse_buffer \<Rightarrow> (bool \<times> 'f cJSON list \<times> parse_buffer) option" where
  "parse_value fo 0 d b = None"
| "parse_value fo (Suc n) d b = do {
     null \<leftarrow> looking_at b (lit ''null'');
     if null then Some (True, Item (d\<lparr>jtype := cJSON_NULL\<rparr>) [], forward 4 b)
     else do {
       false \<leftarrow> looking_at b (lit ''false'');
       if false then Some (True, Item (d\<lparr>jtype := cJSON_Bool, valueint := 0\<rparr>) [], forward 5 b)
       else do {
         true \<leftarrow> looking_at b (lit ''true'');
         if true then Some (True, Item (d\<lparr>jtype := cJSON_Bool, valueint := 1\<rparr>) [], forward 4 b)
         else do {
           l \<leftarrow> look b;
           case l of None \<Rightarrow> Some (False, Item d [], b)
           | Some c \<Rightarrow>
               if c = 34 then do { (ok, d, b) \<leftarrow> parse_string d b; Some (ok, Item d [], b) }
               else if c = 43 \<or> c = 45 \<or> (48 \<le> c \<and> c \<le> 57) then do { (ok, d, b) \<leftarrow> parse_number fo d b; Some (ok, Item d [], b) }
               else if c = 91 then parse_array fo n d b
               else if c = 123 then parse_object fo n d b
               else Some (False, Item d [], b) } } } }"
| "parse_array fo 0 d b = None"
| "parse_array fo (Suc n) d b =
     (if depth b \<ge> CJSON_NESTING_LIMIT then Some (False, Item d [], b)
      else let b = b\<lparr>depth := depth b + 1\<rparr> in do {
        c \<leftarrow> peek b 0;
        if c \<noteq> 91 then Some (False, Item d [], b)
        else do {
          b \<leftarrow> buffer_skip_whitespace (forward 1 b);
          l \<leftarrow> look b;
          if l = Some 93 then Some (True, Item (d\<lparr>jtype := cJSON_Array\<rparr>) [], close_bracket b)
          else if l = None then Some (False, Item d [], step_back b)
          else do {
            (ok, xs, b) \<leftarrow> parse_elements fo n (step_back b);
            if \<not> ok then Some (False, Item d [], b)
            else do {
              l \<leftarrow> look b;
              if l \<noteq> Some 93 then Some (False, Item d [], b)
              else Some (True, Item (d\<lparr>jtype := cJSON_Array\<rparr>) xs, close_bracket b) } } } })"
| "parse_elements fo 0 b = None"
| "parse_elements fo (Suc n) b = (case alloc (pmem b) of
     None \<Rightarrow> Some (False, [], b)
   | Some mem \<Rightarrow> do {
       b \<leftarrow> buffer_skip_whitespace (forward 1 (b\<lparr>pmem := mem\<rparr>));
       (ok, x, b) \<leftarrow> parse_value fo n (cJSON_New_Item fo) b;
       if \<not> ok then Some (False, [], b)
       else do {
         b \<leftarrow> buffer_skip_whitespace b;
         l \<leftarrow> look b;
         if l = Some 44
         then do { (ok, xs, b) \<leftarrow> parse_elements fo n b; Some (ok, x # xs, b) }
         else Some (True, [x], b) } })"
| "parse_object fo 0 d b = None"
| "parse_object fo (Suc n) d b =
     (if depth b \<ge> CJSON_NESTING_LIMIT then Some (False, Item d [], b)
      else let b = b\<lparr>depth := depth b + 1\<rparr> in do {
        l \<leftarrow> look b;
        if l \<noteq> Some 123 then Some (False, Item d [], b)
        else do {
          b \<leftarrow> buffer_skip_whitespace (forward 1 b);
          l \<leftarrow> look b;
          if l = Some 125 then Some (True, Item (d\<lparr>jtype := cJSON_Object\<rparr>) [], close_bracket b)
          else if l = None then Some (False, Item d [], step_back b)
          else do {
            (ok, xs, b) \<leftarrow> parse_members fo n (step_back b);
            if \<not> ok then Some (False, Item d [], b)
            else do {
              l \<leftarrow> look b;
              if l \<noteq> Some 125 then Some (False, Item d [], b)
              else Some (True, Item (d\<lparr>jtype := cJSON_Object\<rparr>) xs, close_bracket b) } } } })"
| "parse_members fo 0 b = None"
| "parse_members fo (Suc n) b = (case alloc (pmem b) of
     None \<Rightarrow> Some (False, [], b)
   | Some mem \<Rightarrow> do {
       b \<leftarrow> buffer_skip_whitespace (forward 1 (b\<lparr>pmem := mem\<rparr>));
       (ok, d, b) \<leftarrow> parse_string (cJSON_New_Item fo) b;
       if \<not> ok then Some (False, [], b)
       else do {
         b \<leftarrow> buffer_skip_whitespace b;
         let d = d\<lparr>jstring := valuestring d, valuestring := None\<rparr>;
         l \<leftarrow> look b;
         if l \<noteq> Some 58 then Some (False, [], b)
         else do {
           b \<leftarrow> buffer_skip_whitespace (forward 1 b);
           (ok, x, b) \<leftarrow> parse_value fo n d b;
           if \<not> ok then Some (False, [], b)
           else do {
             b \<leftarrow> buffer_skip_whitespace b;
             l \<leftarrow> look b;
             if l = Some 44
             then do { (ok, xs, b) \<leftarrow> parse_members fo n b; Some (ok, x # xs, b) }
             else Some (True, [x], b) } } } })"

text \<open>
  \<open>cJSON_ParseWithLengthOpts\<close>: the item, where the parse ended if the caller asked for it, and the
  position of the global error, \<^term>\<open>None\<close> when it is a null pointer. Three calls per byte are enough.
\<close>

record 'f parse_result =
  parsed :: "'f cJSON option"
  parse_end :: "nat option"
  global_error :: "nat option"

definition parse_fuel :: "nat \<Rightarrow> nat" where
  "parse_fuel len = 3 * len + 3"

definition parse_failed :: "bool \<Rightarrow> nat \<Rightarrow> nat \<Rightarrow> 'f parse_result" where
  "parse_failed want_end off len =
     (let position = (if off < len then off else if len > 0 then len - 1 else 0)
      in \<lparr>parsed = None, parse_end = (if want_end then Some position else None), global_error = Some position\<rparr>)"

definition parse_root :: "('f, 'a) num_ops_scheme \<Rightarrow> parse_buffer \<Rightarrow> (bool \<times> 'f cJSON \<times> parse_buffer) option" where
  "parse_root fo b = do {
     r \<leftarrow> skip_utf8_bom b;
     case r of None \<Rightarrow> Some (False, Item (cJSON_New_Item fo) [], b)
     | Some b \<Rightarrow> do { b \<leftarrow> buffer_skip_whitespace b; parse_value fo (parse_fuel (blength b)) (cJSON_New_Item fo) b } }"

definition cJSON_ParseWithLengthOpts :: "('f, 'a) num_ops_scheme \<Rightarrow> nat \<Rightarrow> byte list option \<Rightarrow> nat \<Rightarrow> bool \<Rightarrow> bool \<Rightarrow> 'f parse_result option" where
  "cJSON_ParseWithLengthOpts fo mem value buffer_length want_end require_null_terminated = (case value of
     None \<Rightarrow> Some \<lparr>parsed = None, parse_end = None, global_error = None\<rparr>
   | Some text \<Rightarrow>
       if buffer_length = 0 then Some (parse_failed want_end 0 0)
       else (case alloc mem of None \<Rightarrow> Some (parse_failed want_end 0 buffer_length)
       | Some mem \<Rightarrow> do {
           (ok, root, b) \<leftarrow> parse_root fo \<lparr>content = text, blength = buffer_length, offset = 0, depth = 0, pmem = mem\<rparr>;
           if \<not> ok then Some (parse_failed want_end (offset b) buffer_length)
           else do {
             b \<leftarrow> (if require_null_terminated then buffer_skip_whitespace b else Some b);
             l \<leftarrow> (if require_null_terminated then look b else Some None);
             if require_null_terminated \<and> l \<noteq> Some 0 then Some (parse_failed want_end (offset b) buffer_length)
             else Some \<lparr>parsed = Some root, parse_end = (if want_end then Some (offset b) else None), global_error = None\<rparr> } }))"

definition cJSON_ParseWithOpts :: "('f, 'a) num_ops_scheme \<Rightarrow> nat \<Rightarrow> byte list option \<Rightarrow> bool \<Rightarrow> bool \<Rightarrow> 'f parse_result option" where
  "cJSON_ParseWithOpts fo mem value want_end require_null_terminated = (case value of
     None \<Rightarrow> Some \<lparr>parsed = None, parse_end = None, global_error = None\<rparr>
   | Some text \<Rightarrow> do {
       n \<leftarrow> c_strlen text;
       cJSON_ParseWithLengthOpts fo mem value (nat n + 1) want_end require_null_terminated })"

definition cJSON_Parse :: "('f, 'a) num_ops_scheme \<Rightarrow> nat \<Rightarrow> byte list option \<Rightarrow> 'f parse_result option" where
  "cJSON_Parse fo mem value = cJSON_ParseWithOpts fo mem value False False"

definition cJSON_ParseWithLength :: "('f, 'a) num_ops_scheme \<Rightarrow> nat \<Rightarrow> byte list option \<Rightarrow> nat \<Rightarrow> 'f parse_result option" where
  "cJSON_ParseWithLength fo mem value buffer_length = cJSON_ParseWithLengthOpts fo mem value buffer_length False False"

end
