(* ===== verification/JsonSafety.thy ===== *)
theory JsonSafety
  imports JsonParse
begin

section \<open>The parser stays in its input and returns\<close>

text \<open>
  For every input that does not end in a comma and every number of allocations that succeed, the
  parser reads only bytes it may read, writes only into its blocks, and needs three calls per byte at
  most. A comma as the last byte makes \<open>parse_object\<close> look for a name behind the input.
\<close>

lemma c_strneq_lit:
  "0 \<notin> set s \<Longrightarrow> length s \<le> length p \<Longrightarrow> c_strneq p s (length s) = Some (take (length s) p = s)"
proof (induction s arbitrary: p)
  case (Cons c s)
  then show ?case by (cases p) auto
qed simp

lemma looking_at_rest:
  assumes "wf_buf b" and "0 \<notin> set s"
  shows "looking_at b s = Some (take (length s) (rest b) = s)"
proof (cases "length s \<le> length (rest b)")
  case True
  have "take (length s) (drop (offset b) (content b)) = take (length s) (rest b)"
    using True length_rest [OF assms(1)] by (simp add: rest_def drop_take min_def)
  moreover have "length s \<le> length (drop (offset b) (content b))"
    using True length_rest [OF assms(1)] assms(1) by (auto simp: wf_buf_def)
  ultimately show ?thesis
    using True assms c_strneq_lit [of s "drop (offset b) (content b)"] by (simp add: looking_at_def read_rest)
next
  case False
  then have "take (length s) (rest b) \<noteq> s" by (metis length_take min.cobounded1 min.commute)
  with False assms(1) show ?thesis by (simp add: looking_at_def read_rest)
qed

lemma look_rest: "wf_buf b \<Longrightarrow> look b = Some (case rest b of [] \<Rightarrow> None | c # cs \<Rightarrow> Some c)"
  by (cases "rest b") (simp_all add: look_def access_rest peek_rest)

lemma literals_no_NUL: "0 \<notin> set (lit ''null'')" "0 \<notin> set (lit ''false'')" "0 \<notin> set (lit ''true'')"
  by (simp_all add: lit_def)

lemma lit_lengths: "length (lit ''null'') = 4" "length (lit ''false'') = 5" "length (lit ''true'') = 4"
  by (simp_all add: lit_def)

lemma forward_moves: "wf_buf b \<Longrightarrow> n \<le> length (rest b) \<Longrightarrow> moves b (forward n b)"
  by (auto simp: moves_def forward_def wf_buf_def length_rest)

lemma forward_offset [simp]: "offset (forward n b) = offset b + n"
  by (simp add: forward_def)

lemma moves_mem [simp]: "moves (b\<lparr>pmem := m\<rparr>) c = moves b c" "moves (b\<lparr>depth := d\<rparr>) c = moves b c"
  "moves b (c\<lparr>pmem := m\<rparr>) = moves b c" "moves b (c\<lparr>depth := d\<rparr>) = moves b c"
  by (simp_all add: moves_def)

lemma moves_left: "wf_buf b \<Longrightarrow> moves b c \<Longrightarrow> length (rest c) + (offset c - offset b) = length (rest b)"
  using moves_wf [of b c] by (auto simp: length_rest moves_def)

lemma skip_moves:
  assumes "wf_buf b"
  obtains c where "buffer_skip_whitespace b = Some c" "moves b c" "rest b \<noteq> [] \<Longrightarrow> rest c \<noteq> []" "rest b = [] \<Longrightarrow> offset c = offset b"
proof -
  from skip_ws_safe [OF assms] obtain n where n: "buffer_skip_whitespace b = Some (forward n b)"
    "if rest b = [] then n = 0 else n < length (rest b)" by (auto simp: forward_def)
  have "moves b (forward n b)" using n(2) assms by (intro forward_moves) (auto split: if_splits)
  moreover have "rest (forward n b) = drop n (rest b)" by (simp add: forward_def rest_advance)
  ultimately show ?thesis using that [OF n(1)] n(2) by (auto split: if_splits)
qed

text \<open>The input does not end in a comma; a text with its NUL never does.\<close>

definition no_last_comma :: "parse_buffer \<Rightarrow> bool" where
  "no_last_comma b \<longleftrightarrow> (blength b > 0 \<longrightarrow> content b ! (blength b - 1) \<noteq> 44)"

lemma no_last_comma_moves: "no_last_comma b \<Longrightarrow> moves b c \<Longrightarrow> no_last_comma c"
  by (simp add: no_last_comma_def moves_def)

lemma no_last_comma_rest:
  assumes "wf_buf b" and "no_last_comma b" and "look b = Some (Some 44)"
  shows "2 \<le> length (rest b)"
proof (rule ccontr)
  assume "\<not> 2 \<le> length (rest b)"
  moreover obtain cs where r: "rest b = 44 # cs" using assms(1,3) look_rest [OF assms(1)] by (cases "rest b") auto
  ultimately have "length (rest b) = 1" by (cases cs) auto
  then have o: "offset b = blength b - 1" "0 < blength b" using length_rest [OF assms(1)] by simp_all
  have "peek b 0 = Some 44" using peek_rest [OF assms(1), of 0] r by simp
  then have "content b ! (blength b - 1) = 44"
    using o unfolding peek_def add_0_right rd_of_nat by (simp split: if_splits)
  with o assms(2) show False by (simp add: no_last_comma_def)
qed

definition safe :: "parse_buffer \<Rightarrow> (bool \<times> 'x \<times> parse_buffer) option \<Rightarrow> bool" where
  "safe b r \<longleftrightarrow> (case r of None \<Rightarrow> False | Some (ok, x, c) \<Rightarrow> moves b c \<and> (ok \<longrightarrow> offset b < offset c))"

lemma safeI: "moves b c \<Longrightarrow> (ok \<Longrightarrow> offset b < offset c) \<Longrightarrow> safe b (Some (ok, x, c))"
  by (simp add: safe_def)

text \<open>A computation that goes on from a safe one.\<close>

lemma safe_bind:
  assumes "safe b r" and "wf_buf b"
    and "\<And>x c. moves b c \<Longrightarrow> wf_buf c \<Longrightarrow> safe a (f (False, x, c))"
    and "\<And>x c. moves b c \<Longrightarrow> wf_buf c \<Longrightarrow> offset b < offset c \<Longrightarrow> safe a (f (True, x, c))"
  shows "safe a (r \<bind> f)"
proof -
  from assms(1) obtain ok x c where r: "r = Some (ok, x, c)" "moves b c" "ok \<longrightarrow> offset b < offset c"
    by (auto simp: safe_def split: option.splits)
  with assms(3,4) [of c x] moves_wf [OF assms(2) r(2)] show ?thesis by (cases ok) auto
qed

lemma safe_from: "safe b r \<Longrightarrow> moves a b \<Longrightarrow> safe a r"
  by (auto simp: safe_def moves_def split: option.splits)

lemma parse_number_safe':
  assumes "wf_buf b" and "converts fo"
  shows "safe b (parse_number fo d b)"
proof -
  from parse_number_safe [OF assms] obtain ok d' n where
    r: "parse_number fo d b = Some (ok, d', forward n b)" "n \<le> length (rest b)" "ok \<longrightarrow> 0 < n"
    unfolding forward_def by blast
  with forward_moves [OF assms(1) r(2)] show ?thesis by (auto simp: safe_def)
qed

lemma parse_string_safe': "wf_buf b \<Longrightarrow> rest b \<noteq> [] \<Longrightarrow> safe b (parse_string d b)"
  using parse_string_safe [of b d] unfolding safe_def by auto

lemma close_moves:
  "wf_buf b \<Longrightarrow> rest b \<noteq> [] \<Longrightarrow> moves b (close_bracket b) \<and> offset b < offset (close_bracket b)"
  using rest_offset [of b] by (auto simp: moves_def close_bracket_def)

text \<open>The loop starts one byte before the first element; that is never before the bracket.\<close>

lemma step_back_moves:
  assumes "wf_buf b" and "rest b \<noteq> []" and "moves (forward 1 b) c" and "wf_buf c"
  shows "moves b (step_back c) \<and> wf_buf (step_back c) \<and> (rest c \<noteq> [] \<longrightarrow> 2 \<le> length (rest (step_back c)))"
proof -
  have o: "offset b < blength b" using assms rest_offset by blast
  have m: "moves b (step_back c)" using assms(3) o by (auto simp: moves_def step_back_def forward_def)
  have w: "wf_buf (step_back c)" using moves_wf [OF assms(1) m] .
  have "2 \<le> length (rest (step_back c))" if "rest c \<noteq> []"
    using that rest_offset [OF assms(4)] length_rest [OF w] assms(3) by (auto simp: moves_def step_back_def forward_def)
  with m w show ?thesis by blast
qed

lemma safe_same [simp]: "safe (b\<lparr>depth := d\<rparr>) r = safe b r" "safe (b\<lparr>pmem := m\<rparr>) r = safe b r"
  by (simp_all add: safe_def split: option.split)

lemma safe_stay: "wf_buf b \<Longrightarrow> safe b (Some (False, x, b))"
  by (simp add: safe_def moves_refl)

lemma safe_fail: "moves b c \<Longrightarrow> safe b (Some (False, x, c))"
  by (simp add: safe_def)

lemma rest_cong [simp]: "peek (b\<lparr>depth := d\<rparr>) i = peek b i" "look (b\<lparr>depth := d\<rparr>) = look b"
  by (simp_all add: peek_def look_def can_access_at_index_def)

text \<open>The closing bracket after the last element.\<close>

lemma closing_safe:
  assumes "wf_buf c" and "moves b c" and "offset b \<le> offset c"
  shows "safe b (do { l \<leftarrow> look c; if l \<noteq> Some k then Some (False, x, c) else Some (True, y, close_bracket c) })"
proof (cases "rest c")
  case Nil
  then show ?thesis using assms by (simp add: look_rest safe_fail)
next
  case (Cons k' cs)
  then have "moves c (close_bracket c)" "offset c < offset (close_bracket c)" using close_moves assms(1) by auto
  then show ?thesis using Cons assms by (auto simp: look_rest safe_def dest: moves_trans)
qed

text \<open>
  Behind an opening bracket: an empty pair of brackets, the end of the input, or a loop over
  elements, \<open>loop\<close>.
\<close>

lemma bracket_safe:
  assumes w: "wf_buf b" and r: "rest b \<noteq> []"
    and loop: "\<And>c. wf_buf c \<Longrightarrow> 2 \<le> length (rest c) \<Longrightarrow> moves b c \<Longrightarrow> safe c (loop c)"
  shows "safe b (do {
    b \<leftarrow> buffer_skip_whitespace (forward 1 b);
    l \<leftarrow> look b;
    if l = Some k then Some (True, x, close_bracket b)
    else if l = None then Some (False, y, step_back b)
    else do {
      (ok, xs, b) \<leftarrow> loop (step_back b);
      if \<not> ok then Some (False, y, b)
      else do { l \<leftarrow> look b; if l \<noteq> Some k then Some (False, y, b) else Some (True, z xs, close_bracket b) } } })"
proof -
  have f: "moves b (forward 1 b)" using w r by (intro forward_moves) (cases "rest b"; simp)+
  have fw: "wf_buf (forward 1 b)" using moves_wf [OF w f] .
  obtain c where c: "buffer_skip_whitespace (forward 1 b) = Some c" "moves (forward 1 b) c"
    "rest (forward 1 b) = [] \<Longrightarrow> offset c = offset (forward 1 b)"
    "rest (forward 1 b) \<noteq> [] \<Longrightarrow> rest c \<noteq> []" using skip_moves [OF fw] by metis
  have cw: "wf_buf c" and bc: "moves b c" using moves_wf [OF fw c(2)] moves_trans [OF f c(2)] .
  note bk = step_back_moves [OF w r c(2) cw]
  show ?thesis
  proof (cases "rest c")
    case Nil
    then show ?thesis using c(1) bk cw by (simp add: look_rest safe_fail)
  next
    case (Cons k' cs)
    show ?thesis
    proof (cases "k' = k")
      case True
      have "moves c (close_bracket c)" "offset c < offset (close_bracket c)" using close_moves [OF cw] Cons by simp_all
      then show ?thesis using True Cons c(1) bc cw by (auto simp: look_rest safe_def moves_def)
    next
      case False
      have "safe b (do {
          (ok, xs, b) \<leftarrow> loop (step_back c);
          if \<not> ok then Some (False, y, b)
          else do { l \<leftarrow> look b; if l \<noteq> Some k then Some (False, y, b) else Some (True, z xs, close_bracket b) } })"
      proof (rule safe_bind [of "step_back c"])
        show "safe (step_back c) (loop (step_back c))" using loop [of "step_back c"] bk Cons by simp
        fix xs e
        assume e: "moves (step_back c) e" "wf_buf e"
        then have be: "moves b e" using bk moves_trans by blast
        show "safe b (case (False, xs, e) of (ok, xs, b) \<Rightarrow> if \<not> ok then Some (False, y, b)
          else do { l \<leftarrow> look b; if l \<noteq> Some k then Some (False, y, b) else Some (True, z xs, close_bracket b) })"
          using be by (simp add: safe_fail)
        show "safe b (case (True, xs, e) of (ok, xs, b) \<Rightarrow> if \<not> ok then Some (False, y, b)
          else do { l \<leftarrow> look b; if l \<noteq> Some k then Some (False, y, b) else Some (True, z xs, close_bracket b) })"
          using closing_safe [OF e(2) be] be by (simp add: moves_def)
      qed (use bk in blast)
      then show ?thesis using c(1) Cons cw False by (simp add: look_rest)
    qed
  qed
qed

lemma parse_array_step:
  assumes E: "\<And>b. wf_buf b \<Longrightarrow> no_last_comma b \<Longrightarrow> 2 \<le> length (rest b) \<Longrightarrow> 3 * length (rest b) + 1 \<le> n \<Longrightarrow> safe b (parse_elements fo n b)"
    and w: "wf_buf b" and nc: "no_last_comma b" and r: "rest b \<noteq> []" and n: "3 * length (rest b) + 2 \<le> Suc n"
  shows "safe b (parse_array fo (Suc n) d b)"
proof (cases "CJSON_NESTING_LIMIT \<le> depth b")
  case True
  with w show ?thesis by (simp add: safe_stay)
next
  case False
  let ?b = "b\<lparr>depth := depth b + 1\<rparr>"
  obtain c cs where c: "rest b = c # cs" using r by (cases "rest b") auto
  then have p: "peek b 0 = Some c" using peek_rest [OF w, of 0] by simp
  show ?thesis
  proof (cases "c = 91")
    case False
    with p \<open>\<not> CJSON_NESTING_LIMIT \<le> depth b\<close> w show ?thesis by (simp add: Let_def safe_def moves_refl)
  next
    case True
    have "safe ?b (do {
          b \<leftarrow> buffer_skip_whitespace (forward 1 ?b);
          l \<leftarrow> look b;
          if l = Some 93 then Some (True, Item (d\<lparr>jtype := cJSON_Array\<rparr>) [], close_bracket b)
          else if l = None then Some (False, Item d [], step_back b)
          else do {
            (ok, xs, b) \<leftarrow> parse_elements fo n (step_back b);
            if \<not> ok then Some (False, Item d [], b)
            else do { l \<leftarrow> look b; if l \<noteq> Some 93 then Some (False, Item d [], b)
                      else Some (True, Item (d\<lparr>jtype := cJSON_Array\<rparr>) xs, close_bracket b) } } })"
    proof (rule bracket_safe)
      fix c assume c: "wf_buf c" "2 \<le> length (rest c)" "moves ?b c"
      then have "length (rest c) \<le> length (rest b)" using moves_rest [of b c] w by simp
      with c n E no_last_comma_moves [OF nc, of c] show "safe c (parse_elements fo n c)" by simp
    qed (use w r in simp_all)
    with True p False show ?thesis by (simp add: Let_def)
  qed
qed


lemma parse_object_step:
  assumes E: "\<And>b. wf_buf b \<Longrightarrow> no_last_comma b \<Longrightarrow> 2 \<le> length (rest b) \<Longrightarrow> 3 * length (rest b) + 1 \<le> n \<Longrightarrow> safe b (parse_members fo n b)"
    and w: "wf_buf b" and nc: "no_last_comma b" and r: "rest b \<noteq> []" and n: "3 * length (rest b) + 2 \<le> Suc n"
  shows "safe b (parse_object fo (Suc n) d b)"
proof (cases "CJSON_NESTING_LIMIT \<le> depth b")
  case True
  with w show ?thesis by (simp add: safe_stay)
next
  case False
  let ?b = "b\<lparr>depth := depth b + 1\<rparr>"
  obtain c cs where c: "rest b = c # cs" using r by (cases "rest b") auto
  then have p: "look b = Some (Some c)" using look_rest [OF w] by simp
  show ?thesis
  proof (cases "c = 123")
    case False
    with p \<open>\<not> CJSON_NESTING_LIMIT \<le> depth b\<close> w show ?thesis by (simp add: Let_def safe_def moves_refl)
  next
    case True
    have "safe ?b (do {
          b \<leftarrow> buffer_skip_whitespace (forward 1 ?b);
          l \<leftarrow> look b;
          if l = Some 125 then Some (True, Item (d\<lparr>jtype := cJSON_Object\<rparr>) [], close_bracket b)
          else if l = None then Some (False, Item d [], step_back b)
          else do {
            (ok, xs, b) \<leftarrow> parse_members fo n (step_back b);
            if \<not> ok then Some (False, Item d [], b)
            else do { l \<leftarrow> look b; if l \<noteq> Some 125 then Some (False, Item d [], b)
                      else Some (True, Item (d\<lparr>jtype := cJSON_Object\<rparr>) xs, close_bracket b) } } })"
    proof (rule bracket_safe)
      fix c assume c: "wf_buf c" "2 \<le> length (rest c)" "moves ?b c"
      then have "length (rest c) \<le> length (rest b)" using moves_rest [of b c] w by simp
      with c n E no_last_comma_moves [OF nc, of c] show "safe c (parse_members fo n c)" by simp
    qed (use w r in simp_all)
    with True p False show ?thesis by (simp add: Let_def)
  qed
qed

text \<open>After a value in a loop: the next turn behind a comma, or the end of the loop.\<close>

lemma loop_tail_safe:
  assumes w: "wf_buf b" and nc: "no_last_comma b" and c: "moves b c" "offset b < offset c"
    and loop: "\<And>e. wf_buf e \<Longrightarrow> 2 \<le> length (rest e) \<Longrightarrow> moves c e \<Longrightarrow> safe e (loop e)"
  shows "safe b (do {
    b \<leftarrow> buffer_skip_whitespace c;
    l \<leftarrow> look b;
    if l = Some 44 then do { (ok, xs, b) \<leftarrow> loop b; Some (ok, f xs, b) } else Some (True, g, b) })"
proof -
  have cw: "wf_buf c" using moves_wf [OF w c(1)] .
  obtain e where e: "buffer_skip_whitespace c = Some e" "moves c e" using skip_moves [OF cw] by metis
  have ew: "wf_buf e" and be: "moves b e" "offset b < offset e"
    using moves_wf [OF cw e(2)] moves_trans [OF c(1) e(2)] c(2) e(2) by (auto simp: moves_def)
  show ?thesis
  proof (cases "look e = Some (Some 44)")
    case True
    then have "2 \<le> length (rest e)" using no_last_comma_rest [OF ew] no_last_comma_moves [OF nc be(1)] by blast
    from loop [OF ew this e(2)] have "safe e (loop e)" .
    with True e(1) be show ?thesis by (auto simp: safe_def moves_def split: option.splits)
  next
    case False
    with e(1) be ew show ?thesis by (auto simp: look_rest safe_def)
  qed
qed

lemma parse_elements_step:
  assumes V: "\<And>b d. wf_buf b \<Longrightarrow> no_last_comma b \<Longrightarrow> 3 * length (rest b) + 3 \<le> n \<Longrightarrow> safe b (parse_value fo n d b)"
    and E: "\<And>b. wf_buf b \<Longrightarrow> no_last_comma b \<Longrightarrow> 2 \<le> length (rest b) \<Longrightarrow> 3 * length (rest b) + 1 \<le> n \<Longrightarrow> safe b (parse_elements fo n b)"
    and w: "wf_buf b" and nc: "no_last_comma b" and r: "2 \<le> length (rest b)" and n: "3 * length (rest b) + 1 \<le> Suc n"
  shows "safe b (parse_elements fo (Suc n) b)"
proof (cases "alloc (pmem b)")
  case None
  with w show ?thesis by (simp add: safe_stay)
next
  case (Some m)
  let ?b = "b\<lparr>pmem := m\<rparr>"
  have f: "moves b (forward 1 ?b)" using w r forward_moves [of ?b 1] by auto
  have fw: "wf_buf (forward 1 ?b)" using moves_wf [OF w f] .
  obtain c where c: "buffer_skip_whitespace (forward 1 ?b) = Some c" "moves (forward 1 ?b) c" using skip_moves [OF fw] by metis
  have cw: "wf_buf c" and bc: "moves b c" "offset b < offset c"
    using moves_wf [OF fw c(2)] moves_trans [OF f c(2)] c(2) by (auto simp: moves_def)
  have l: "length (rest c) < length (rest b)" using moves_left [OF w bc(1)] bc(2) r by linarith
  have "safe b (do {
       (ok, x, b) \<leftarrow> parse_value fo n (cJSON_New_Item fo) c;
       if \<not> ok then Some (False, [], b)
       else do {
         b \<leftarrow> buffer_skip_whitespace b;
         l \<leftarrow> look b;
         if l = Some 44
         then do { (ok, xs, b) \<leftarrow> parse_elements fo n b; Some (ok, x # xs, b) }
         else Some (True, [x], b) } })"
  proof (rule safe_bind [of c])
    show "safe c (parse_value fo n (cJSON_New_Item fo) c)" using V [OF cw no_last_comma_moves [OF nc bc(1)]] l n by simp
    fix x e
    assume e: "moves c e" "wf_buf e"
    have be: "moves b e" "offset b < offset e" using moves_trans [OF bc(1) e(1)] bc(2) e(1) by (auto simp: moves_def)
    show "safe b (case (False, x, e) of (ok, x, b) \<Rightarrow> if \<not> ok then Some (False, [], b)
       else do {
         b \<leftarrow> buffer_skip_whitespace b;
         l \<leftarrow> look b;
         if l = Some 44
         then do { (ok, xs, b) \<leftarrow> parse_elements fo n b; Some (ok, x # xs, b) }
         else Some (True, [x], b) })"
      using be by (simp add: safe_fail)
    have "safe e' (parse_elements fo n e')" if "wf_buf e'" "2 \<le> length (rest e')" "moves e e'" for e'
    proof -
      have "length (rest e') < length (rest b)"
        using moves_left [OF w, of e'] be that moves_trans [OF be(1) that(3)] r by (auto simp: moves_def)
      with that n E no_last_comma_moves [OF nc moves_trans [OF be(1) that(3)]] show ?thesis by simp
    qed
    from loop_tail_safe [OF w nc be this] show "safe b (case (True, x, e) of (ok, x, b) \<Rightarrow> if \<not> ok then Some (False, [], b)
       else do {
         b \<leftarrow> buffer_skip_whitespace b;
         l \<leftarrow> look b;
         if l = Some 44
         then do { (ok, xs, b) \<leftarrow> parse_elements fo n b; Some (ok, x # xs, b) }
         else Some (True, [x], b) })" by simp
  qed (rule cw)
  with c(1) Some show ?thesis by simp
qed


text \<open>The same for the members of an object, whose name and colon come first.\<close>

lemma parse_members_step:
  assumes V: "\<And>b d. wf_buf b \<Longrightarrow> no_last_comma b \<Longrightarrow> 3 * length (rest b) + 3 \<le> n \<Longrightarrow> safe b (parse_value fo n d b)"
    and E: "\<And>b. wf_buf b \<Longrightarrow> no_last_comma b \<Longrightarrow> 2 \<le> length (rest b) \<Longrightarrow> 3 * length (rest b) + 1 \<le> n \<Longrightarrow> safe b (parse_members fo n b)"
    and w: "wf_buf b" and nc: "no_last_comma b" and r: "2 \<le> length (rest b)" and n: "3 * length (rest b) + 1 \<le> Suc n"
  shows "safe b (parse_members fo (Suc n) b)"
proof (cases "alloc (pmem b)")
  case None
  with w show ?thesis by (simp add: safe_stay)
next
  case (Some m)
  let ?b = "b\<lparr>pmem := m\<rparr>"
  let ?tail = "\<lambda>x b. do {
    b \<leftarrow> buffer_skip_whitespace b;
    l \<leftarrow> look b;
    if l = Some 44
    then do { (ok, xs, b) \<leftarrow> parse_members fo n b; Some (ok, x # xs, b) }
    else Some (True, [x], b) }"
  let ?val = "\<lambda>d b. do { (ok, x, b) \<leftarrow> parse_value fo n d b; if \<not> ok then Some (False, [], b) else ?tail x b }"
  let ?colon = "\<lambda>d b. do {
    b \<leftarrow> buffer_skip_whitespace b;
    let d = d\<lparr>jstring := valuestring d, valuestring := None\<rparr>;
    l \<leftarrow> look b;
    if l \<noteq> Some 58 then Some (False, [], b)
    else do { b \<leftarrow> buffer_skip_whitespace (forward 1 b); ?val d b } }"
  have tail: "safe b (?tail x e)" if e: "moves b e" "offset b < offset e" for x e
  proof -
    have "safe e' (parse_members fo n e')" if "wf_buf e'" "2 \<le> length (rest e')" "moves e e'" for e'
    proof -
      have "length (rest e') < length (rest b)"
        using moves_left [OF w, of e'] e that moves_trans [OF e(1) that(3)] r by (auto simp: moves_def)
      with that n E no_last_comma_moves [OF nc moves_trans [OF e(1) that(3)]] show ?thesis by simp
    qed
    from loop_tail_safe [OF w nc e this] show ?thesis by simp
  qed
  have val: "safe b (?val d c)" if c: "moves b c" "offset b < offset c" for d c
  proof (rule safe_bind [of c])
    show cw: "wf_buf c" using moves_wf [OF w c(1)] .
    have "length (rest c) < length (rest b)" using moves_left [OF w c(1)] c(2) r by linarith
    then show "safe c (parse_value fo n d c)" using V [OF cw no_last_comma_moves [OF nc c(1)]] n by simp
    fix x e assume e: "moves c e" "wf_buf e"
    have be: "moves b e" "offset b < offset e" using moves_trans [OF c(1) e(1)] c(2) e(1) by (auto simp: moves_def)
    show "safe b (case (False, x, e) of (ok, x, b) \<Rightarrow> if \<not> ok then Some (False, [], b) else ?tail x b)"
      using be by (simp add: safe_fail)
    show "safe b (case (True, x, e) of (ok, x, b) \<Rightarrow> if \<not> ok then Some (False, [], b) else ?tail x b)"
      using tail [OF be, of x] by simp
  qed
  have colon: "safe b (?colon d c)" if c: "moves b c" "offset b < offset c" for d c
  proof -
    have cw: "wf_buf c" using moves_wf [OF w c(1)] .
    obtain e where e: "buffer_skip_whitespace c = Some e" "moves c e" using skip_moves [OF cw] by metis
    have ew: "wf_buf e" and be: "moves b e" "offset b < offset e"
      using moves_wf [OF cw e(2)] moves_trans [OF c(1) e(2)] c(2) e(2) by (auto simp: moves_def)
    show ?thesis
    proof (cases "look e = Some (Some 58)")
      case True
      then have "rest e \<noteq> []" using look_rest [OF ew] by auto
      then have f: "moves e (forward 1 e)" using ew by (intro forward_moves) (cases "rest e"; simp)+
      have fw: "wf_buf (forward 1 e)" using moves_wf [OF ew f] .
      obtain g where g: "buffer_skip_whitespace (forward 1 e) = Some g" "moves (forward 1 e) g" using skip_moves [OF fw] by metis
      have "moves b g" "offset b < offset g"
        using moves_trans [OF be(1) moves_trans [OF f g(2)]] be(2) g(2) by (auto simp: moves_def)
      from val [OF this] True e(1) g(1) show ?thesis by (simp add: Let_def)
    next
      case False
      with e(1) be ew show ?thesis by (auto simp: look_rest safe_def Let_def)
    qed
  qed
  have f: "moves b (forward 1 ?b)" using w r forward_moves [of ?b 1] by auto
  have fw: "wf_buf (forward 1 ?b)" using moves_wf [OF w f] .
  obtain c where c: "buffer_skip_whitespace (forward 1 ?b) = Some c" "moves (forward 1 ?b) c"
    "rest (forward 1 ?b) \<noteq> [] \<Longrightarrow> rest c \<noteq> []" using skip_moves [OF fw] by metis
  have cw: "wf_buf c" and bc: "moves b c" "offset b < offset c"
    using moves_wf [OF fw c(2)] moves_trans [OF f c(2)] c(2) by (auto simp: moves_def)
  have "rest (forward 1 ?b) \<noteq> []" using r rest_advance [of b 1] by (cases "rest b") (auto simp: forward_def rest_def)
  with c(3) have cr: "rest c \<noteq> []" by blast
  have "safe b (do { (ok, d, b) \<leftarrow> parse_string (cJSON_New_Item fo) c; if \<not> ok then Some (False, [], b) else ?colon d b })"
  proof (rule safe_bind [of c])
    show "safe c (parse_string (cJSON_New_Item fo) c)" using parse_string_safe' [OF cw cr] .
    fix d e assume e: "moves c e" "wf_buf e"
    have be: "moves b e" "offset b < offset e" using moves_trans [OF bc(1) e(1)] bc(2) e(1) by (auto simp: moves_def)
    show "safe b (case (False, d, e) of (ok, d, b) \<Rightarrow> if \<not> ok then Some (False, [], b) else ?colon d b)"
      using be by (simp add: safe_fail)
    show "safe b (case (True, d, e) of (ok, d, b) \<Rightarrow> if \<not> ok then Some (False, [], b) else ?colon d b)"
      using colon [OF be, of d] by simp
  qed (rule cw)
  with c(1) Some show ?thesis by simp
qed


lemma parse_value_step:
  assumes "converts fo"
    and A: "\<And>b d. wf_buf b \<Longrightarrow> no_last_comma b \<Longrightarrow> rest b \<noteq> [] \<Longrightarrow> 3 * length (rest b) + 2 \<le> n \<Longrightarrow> safe b (parse_array fo n d b)"
    and B: "\<And>b d. wf_buf b \<Longrightarrow> no_last_comma b \<Longrightarrow> rest b \<noteq> [] \<Longrightarrow> 3 * length (rest b) + 2 \<le> n \<Longrightarrow> safe b (parse_object fo n d b)"
    and w: "wf_buf b" and nc: "no_last_comma b" and n: "3 * length (rest b) + 3 \<le> Suc n"
  shows "safe b (parse_value fo (Suc n) d b)"
proof -
  have word: "safe b (Some (True, x, forward k b))" if "take k (rest b) = s" "length s = k" "0 < k" for x k s
  proof -
    have "k \<le> length (rest b)" using that by (metis length_take min.cobounded1)
    then show ?thesis using forward_moves [OF w] that(3) by (simp add: safe_def)
  qed
  have wrap: "safe b (do { (ok, d, b) \<leftarrow> r; Some (ok, Item d [], b) })" if "safe b r" for r :: "(bool \<times> 'a item_data \<times> parse_buffer) option"
    using that by (auto simp: safe_def split: option.splits)
  note la = looking_at_rest [OF w literals_no_NUL(1)] looking_at_rest [OF w literals_no_NUL(2)] looking_at_rest [OF w literals_no_NUL(3)]
  have "safe b (do {
         l \<leftarrow> look b;
         case l of None \<Rightarrow> Some (False, Item d [], b)
         | Some c \<Rightarrow>
             if c = 34 then do { (ok, d, b) \<leftarrow> parse_string d b; Some (ok, Item d [], b) }
             else if c = 43 \<or> c = 45 \<or> (48 \<le> c \<and> c \<le> 57) then do { (ok, d, b) \<leftarrow> parse_number fo d b; Some (ok, Item d [], b) }
             else if c = 91 then parse_array fo n d b
             else if c = 123 then parse_object fo n d b
             else Some (False, Item d [], b) })"
  proof (cases "rest b")
    case Nil
    with w show ?thesis by (simp add: look_rest safe_stay)
  next
    case (Cons c cs)
    then have "rest b \<noteq> []" by simp
    from A [OF w nc this] B [OF w nc this] wrap [OF parse_string_safe' [OF w this]] wrap [OF parse_number_safe' [OF w assms(1)]] n
    have "safe b (parse_array fo n d b)" "safe b (parse_object fo n d b)"
      "safe b (do { (ok, d, b) \<leftarrow> parse_string d b; Some (ok, Item d [], b) })"
      "safe b (do { (ok, d, b) \<leftarrow> parse_number fo d b; Some (ok, Item d [], b) })" by simp_all
    then show ?thesis using Cons w by (simp add: look_rest safe_stay)
  qed
  note main = this
  have branch: "(P \<Longrightarrow> safe b r) \<Longrightarrow> (\<not> P \<Longrightarrow> safe b s) \<Longrightarrow> safe b (if P then r else s)" for P and r s :: "(bool \<times> 'a cJSON \<times> parse_buffer) option"
    by simp
  show ?thesis
    unfolding parse_value.simps la bind.bind_lunit lit_lengths
    by (rule branch, rule word, assumption, rule lit_lengths, simp, rule branch, rule word, assumption, rule lit_lengths, simp,
      rule branch, rule word, assumption, rule lit_lengths, simp, rule main)
qed

lemma parser_safe:
  assumes "converts fo"
  shows "(\<forall>b d. wf_buf b \<and> no_last_comma b \<and> 3 * length (rest b) + 3 \<le> n \<longrightarrow> safe b (parse_value fo n d b)) \<and>
    (\<forall>b d. wf_buf b \<and> no_last_comma b \<and> rest b \<noteq> [] \<and> 3 * length (rest b) + 2 \<le> n \<longrightarrow> safe b (parse_array fo n d b)) \<and>
    (\<forall>b. wf_buf b \<and> no_last_comma b \<and> 2 \<le> length (rest b) \<and> 3 * length (rest b) + 1 \<le> n \<longrightarrow> safe b (parse_elements fo n b)) \<and>
    (\<forall>b d. wf_buf b \<and> no_last_comma b \<and> rest b \<noteq> [] \<and> 3 * length (rest b) + 2 \<le> n \<longrightarrow> safe b (parse_object fo n d b)) \<and>
    (\<forall>b. wf_buf b \<and> no_last_comma b \<and> 2 \<le> length (rest b) \<and> 3 * length (rest b) + 1 \<le> n \<longrightarrow> safe b (parse_members fo n b))"
proof (induction n)
  case 0
  show ?case by simp
next
  case (Suc n)
  then have ih: "\<And>b d. wf_buf b \<Longrightarrow> no_last_comma b \<Longrightarrow> 3 * length (rest b) + 3 \<le> n \<Longrightarrow> safe b (parse_value fo n d b)"
    "\<And>b d. wf_buf b \<Longrightarrow> no_last_comma b \<Longrightarrow> rest b \<noteq> [] \<Longrightarrow> 3 * length (rest b) + 2 \<le> n \<Longrightarrow> safe b (parse_array fo n d b)"
    "\<And>b. wf_buf b \<Longrightarrow> no_last_comma b \<Longrightarrow> 2 \<le> length (rest b) \<Longrightarrow> 3 * length (rest b) + 1 \<le> n \<Longrightarrow> safe b (parse_elements fo n b)"
    "\<And>b d. wf_buf b \<Longrightarrow> no_last_comma b \<Longrightarrow> rest b \<noteq> [] \<Longrightarrow> 3 * length (rest b) + 2 \<le> n \<Longrightarrow> safe b (parse_object fo n d b)"
    "\<And>b. wf_buf b \<Longrightarrow> no_last_comma b \<Longrightarrow> 2 \<le> length (rest b) \<Longrightarrow> 3 * length (rest b) + 1 \<le> n \<Longrightarrow> safe b (parse_members fo n b)"
    by blast+
  show ?case
    using parse_value_step [OF assms ih(2) ih(4)] parse_array_step [OF ih(3)] parse_elements_step [OF ih(1) ih(3)]
      parse_object_step [OF ih(5)] parse_members_step [OF ih(1) ih(5)]
    by blast
qed


subsection \<open>A whole text\<close>

lemma skip_bom_moves:
  assumes "wf_buf b" and "offset b = 0"
  shows "\<exists>c. skip_utf8_bom b = Some (Some c) \<and> moves b c"
proof (cases "can_access_at_index b 4")
  case True
  then have l: "length [0xEF, 0xBB, 0xBF :: byte] \<le> length (drop (offset b) (content b))"
    using assms by (simp add: can_access_at_index_def wf_buf_def)
  have "c_strneq (drop (offset b) (content b)) [0xEF, 0xBB, 0xBF] 3 \<noteq> None"
    using c_strneq_lit [OF _ l] by (simp add: numeral_3_eq_3)
  then show ?thesis using True assms
    by (auto simp: skip_utf8_bom_def moves_def can_access_at_index_def)
next
  case False
  with assms show ?thesis by (simp add: skip_utf8_bom_def moves_refl)
qed

lemma parse_root_safe:
  assumes "converts fo" and "wf_buf b" and "offset b = 0" and "no_last_comma b"
  shows "\<exists>ok x c. parse_root fo b = Some (ok, x, c) \<and> moves b c"
proof -
  obtain c where c: "skip_utf8_bom b = Some (Some c)" "moves b c" using skip_bom_moves assms(2,3) by blast
  have cw: "wf_buf c" using moves_wf assms(2) c(2) by blast
  obtain e where e: "buffer_skip_whitespace c = Some e" "moves c e" using skip_moves [OF cw] by metis
  have ew: "wf_buf e" and be: "moves b e" and ne: "no_last_comma e"
    using moves_wf [OF cw e(2)] moves_trans [OF c(2) e(2)] no_last_comma_moves assms(4) by blast+
  have "3 * length (rest e) + 3 \<le> parse_fuel (blength e)"
    using length_rest [OF ew] by (simp add: parse_fuel_def)
  then have "safe e (parse_value fo (parse_fuel (blength e)) (cJSON_New_Item fo) e)"
    using parser_safe [OF assms(1), of "parse_fuel (blength e)"] ew ne by blast
  then show ?thesis using c(1) e(1) be
    by (auto simp: parse_root_def safe_def split: option.splits dest: moves_trans)
qed

text \<open>
  C15. Parsing always returns and stays in its input. For every text of which \<open>buffer_length\<close> bytes
  may be read and do not end in a comma, every number of allocations that succeed and both options,
  \<open>cJSON_ParseWithLengthOpts\<close> returns: it never reads behind the text, never writes outside its
  blocks, and three calls per byte are enough. The error position it reports lies in the text.
\<close>

theorem parse_total_and_safe:
  assumes "converts fo" and "buffer_length \<le> length text"
    and "0 < buffer_length \<Longrightarrow> text ! (buffer_length - 1) \<noteq> 44"
  shows "\<exists>r. cJSON_ParseWithLengthOpts fo mem (Some text) buffer_length want_end nul = Some r
    \<and> (parsed r = None \<longleftrightarrow> global_error r \<noteq> None)
    \<and> (\<forall>n. global_error r = Some n \<longrightarrow> n \<le> buffer_length - 1) \<and> (\<forall>n. parse_end r = Some n \<longrightarrow> n \<le> buffer_length)"
proof (cases "buffer_length = 0 \<or> alloc mem = None")
  case True
  then show ?thesis by (auto simp: cJSON_ParseWithLengthOpts_def parse_failed_def)
next
  case False
  then obtain m where m: "alloc mem = Some m" "0 < buffer_length" by auto
  let ?b = "\<lparr>content = text, blength = buffer_length, offset = 0, depth = 0, pmem = m\<rparr>"
  have w: "wf_buf ?b" "no_last_comma ?b" using assms(2,3) m(2) by (simp_all add: wf_buf_def no_last_comma_def)
  obtain ok x c where c: "parse_root fo ?b = Some (ok, x, c)" "moves ?b c"
    using parse_root_safe [OF assms(1) w(1) _ w(2)] by auto
  have cw: "wf_buf c" using moves_wf [OF w(1) c(2)] .
  obtain e where e: "buffer_skip_whitespace c = Some e" "moves c e" using skip_moves [OF cw] by metis
  have ew: "wf_buf e" "moves ?b e" using moves_wf [OF cw e(2)] moves_trans [OF c(2) e(2)] .
  have o: "offset c \<le> buffer_length" "offset e \<le> buffer_length" using c(2) ew(2) by (simp_all add: moves_def)
  have f: "global_error (parse_failed want_end k buffer_length) = Some n \<Longrightarrow> n \<le> buffer_length - 1"
    "parse_end (parse_failed want_end k buffer_length) = Some n \<Longrightarrow> n \<le> buffer_length"
    "parsed (parse_failed want_end k buffer_length) = None" "global_error (parse_failed want_end k buffer_length) \<noteq> None" for k n
    using m(2) by (auto simp: parse_failed_def Let_def split: if_splits)
  obtain l where l: "look e = Some l" using look_rest [OF ew(1)] by blast
  show ?thesis
    using c(1) e(1) m l o f
    by (cases ok; cases nul; cases "l = Some 0") (auto simp: cJSON_ParseWithLengthOpts_def)
qed

text \<open>Numbers that are whole and saturate, for the examples; \<open>%1.15g\<close> prints them as integers.\<close>

definition whole_ops :: "int num_ops" where
  "whole_ops = \<lparr>fo_atof = signed_value, fo_of_int = (\<lambda>i. i), fo_to_int = i32, fo_sub = (-), fo_mul = (*), fo_single = (\<lambda>x. x),
     no_le = (\<le>), no_abs = abs, no_epsilon = 0, no_finite = (\<lambda>_. True), no_to_ll = Some, no_printg = (\<lambda>_ x. int_text x)\<rparr>"

lemma whole_ops_converts: "converts whole_ops"
  by (simp add: converts_def to_ll_def whole_ops_def)

theorem parse_total_and_safe_witness:
  "\<exists>r. cJSON_ParseWithLengthOpts whole_ops 5 (Some (lit ''{\"a\":[1,tru'')) 11 True False = Some r
    \<and> (parsed r = None \<longleftrightarrow> global_error r \<noteq> None)
    \<and> (\<forall>n. global_error r = Some n \<longrightarrow> n \<le> 11 - 1) \<and> (\<forall>n. parse_end r = Some n \<longrightarrow> n \<le> 11)"
  by (rule parse_total_and_safe) (simp_all add: whole_ops_converts lit_def)

end
