(* ===== verification/JsonPrintText.thy ===== *)
theory JsonPrintText
  imports JsonPrint JsonSafety
begin

section \<open>What the JSON printer writes\<close>

text \<open>
  The text of an item as a function of the item, and the facts that relate the output buffer to it.
  All of them say at once that the run is defined, so that no byte is written or read outside the
  buffer, what is written when it succeeds, and when it must succeed.
\<close>

subsection \<open>The text of an item\<close>

fun json_text :: "('f, 'a) num_ops_scheme \<Rightarrow> bool \<Rightarrow> nat \<Rightarrow> 'f cJSON \<Rightarrow> byte list"
  and elements_text :: "('f, 'a) num_ops_scheme \<Rightarrow> bool \<Rightarrow> nat \<Rightarrow> 'f cJSON list \<Rightarrow> byte list"
  and members_text :: "('f, 'a) num_ops_scheme \<Rightarrow> bool \<Rightarrow> nat \<Rightarrow> 'f cJSON list \<Rightarrow> byte list" where
  "json_text fo fmt dep (Item d cs) =
     (if type_of d = cJSON_NULL then lit ''null''
      else if type_of d = cJSON_Bool then (if valueint d \<noteq> 0 then lit ''true'' else lit ''false'')
      else if type_of d = cJSON_Int \<or> type_of d = cJSON_Number then number_text fo d
      else if type_of d = cJSON_Raw then (case valuestring d of None \<Rightarrow> [] | Some s \<Rightarrow> s)
      else if type_of d = cJSON_String then string_text (case valuestring d of None \<Rightarrow> [] | Some s \<Rightarrow> s)
      else if type_of d = cJSON_Array then 91 # elements_text fo fmt (dep + 1) cs @ [93]
      else if type_of d = cJSON_Object
      then 123 # (if fmt then [10] else []) @ members_text fo fmt (dep + 1) cs @ (if fmt then tabs dep else []) @ [125]
      else [])"
| "elements_text fo fmt dep [] = []"
| "elements_text fo fmt dep (x # xs) = json_text fo fmt dep x @
     (if xs = [] then [] else 44 # (if fmt then [32] else [])) @ elements_text fo fmt dep xs"
| "members_text fo fmt dep [] = []"
| "members_text fo fmt dep (x # xs) = (if fmt then tabs dep else []) @
     string_text (case jstring (item x) of None \<Rightarrow> [] | Some s \<Rightarrow> s) @ 58 # (if fmt then [9] else []) @
     json_text fo fmt dep x @ (if xs = [] then [] else [44]) @ (if fmt then [10] else []) @ members_text fo fmt dep xs"

text \<open>
  An item can be printed when its type is one of the eight and a raw one has a text. Its strings
  end at their NUL, and its numbers must fit the buffer of 26 bytes they are formatted in.
\<close>

fun printable :: "'f cJSON \<Rightarrow> bool" where
  "printable (Item d cs) \<longleftrightarrow>
     type_of d \<in> {cJSON_NULL, cJSON_Bool, cJSON_Int, cJSON_Number, cJSON_Raw, cJSON_String, cJSON_Array, cJSON_Object} \<and>
     (type_of d = cJSON_Raw \<longrightarrow> valuestring d \<noteq> None) \<and>
     (type_of d = cJSON_Array \<or> type_of d = cJSON_Object \<longrightarrow> list_all printable cs)"

definition c_string :: "byte list option \<Rightarrow> bool" where
  "c_string s \<longleftrightarrow> (case s of None \<Rightarrow> True | Some bs \<Rightarrow> 0 \<notin> set bs)"

fun sound :: "('f, 'a) num_ops_scheme \<Rightarrow> 'f cJSON \<Rightarrow> bool" where
  "sound fo (Item d cs) \<longleftrightarrow> c_string (valuestring d) \<and> c_string (jstring d) \<and>
     length (number_text fo d) < 26 \<and> 0 \<notin> set (number_text fo d) \<and> list_all (sound fo) cs"

subsection \<open>The state of the output\<close>

text \<open>
  A goal \<^term>\<open>Some (na, N)\<close> asks that printing succeeds as long as it does not need more than \<open>N\<close> bytes:
  \<open>able\<close> says that the buffer is that large or that there are enough allocations to double it that
  far, one to spare; \<open>na\<close> says that the buffer may not be reallocated. With \<^term>\<open>None\<close> printing may fail.
\<close>

definition able :: "(bool \<times> nat) option \<Rightarrow> printbuffer \<Rightarrow> bool" where
  "able g p \<longleftrightarrow> (case g of None \<Rightarrow> True
   | Some (na, N) \<Rightarrow> 0 < p_length p \<and> N \<le> INT_MAX \<and> p_noalloc p = na \<and>
       (if na then N \<le> p_length p else 0 < p_mem p \<and> N \<le> p_length p * 2 ^ (p_mem p - 1)))"

definition fits :: "(bool \<times> nat) option \<Rightarrow> nat \<Rightarrow> bool" where
  "fits g n \<longleftrightarrow> (case g of None \<Rightarrow> True | Some (na, N) \<Rightarrow> n \<le> N)"

definition yields :: "(bool \<times> nat) option \<Rightarrow> (bool \<times> printbuffer) option \<Rightarrow> (printbuffer \<Rightarrow> bool) \<Rightarrow> bool" where
  "yields g r Q \<longleftrightarrow> (\<exists>ok p. r = Some (ok, p) \<and> (ok \<longrightarrow> Q p) \<and> (g \<noteq> None \<longrightarrow> ok))"

text \<open>The output so far is \<open>xs\<close>, behind it stands \<open>t\<close>, and the offset is \<open>k\<close> bytes into \<open>t\<close>.\<close>

definition filled :: "(bool \<times> nat) option \<Rightarrow> bool \<Rightarrow> nat \<Rightarrow> printbuffer \<Rightarrow> byte list \<Rightarrow> byte list \<Rightarrow> nat \<Rightarrow> bool" where
  "filled g fmt dep p xs t k \<longleftrightarrow>
     (\<exists>buf. p_buffer p = Some buf \<and> p_length p \<le> length buf \<and> take (length xs + length t) buf = map Some (xs @ t)) \<and>
     length xs + length t \<le> p_length p \<and> p_offset p = length xs + k \<and> k \<le> length t \<and>
     (p_length p = 0 \<longrightarrow> p_realloc p \<or> p_noalloc p) \<and> (0 < p_length p \<longrightarrow> p_offset p < p_length p) \<and>
     p_format p = fmt \<and> p_depth p = dep \<and> able g p"

abbreviation emitted :: "(bool \<times> nat) option \<Rightarrow> bool \<Rightarrow> nat \<Rightarrow> printbuffer \<Rightarrow> byte list \<Rightarrow> bool" where
  "emitted g fmt dep p xs \<equiv> filled g fmt dep p xs [] 0"

definition written :: "(bool \<times> nat) option \<Rightarrow> bool \<Rightarrow> nat \<Rightarrow> printbuffer \<Rightarrow> byte list \<Rightarrow> byte list \<Rightarrow> bool" where
  "written g fmt dep p xs t \<longleftrightarrow> 0 \<notin> set t \<and> (\<exists>k. k \<le> length t \<and> filled g fmt dep p xs (t @ [0]) k)"

lemma able_more [simp]: "able g (p\<lparr>p_offset := n\<rparr>) = able g p" "able g (p\<lparr>p_depth := n\<rparr>) = able g p"
  "able g (p\<lparr>p_buffer := b\<rparr>) = able g p"
  by (simp_all add: able_def cong: option.case_cong)

lemma yieldsI: "r = Some (True, p) \<Longrightarrow> Q p \<Longrightarrow> yields g r Q"
  by (auto simp: yields_def)

lemma yields_fail: "g = None \<Longrightarrow> yields g (Some (False, p)) Q"
  by (auto simp add: yields_def)

lemma yields_mono: "yields g r Q \<Longrightarrow> (\<And>p. Q p \<Longrightarrow> R p) \<Longrightarrow> yields g r R"
  by (auto simp: yields_def)

lemma yields_bind:
  assumes "yields g r Q" and "\<And>p. Q p \<Longrightarrow> yields g (f p) R"
  shows "yields g (r \<bind> (\<lambda>(ok, p). if \<not> ok then Some (False, p) else f p)) R"
  using assms by (fastforce simp: yields_def)

lemma yields_then:
  assumes "yields g r Q" and "\<And>p. Q p \<Longrightarrow> R (f p)"
  shows "yields g (r \<bind> (\<lambda>(ok, p). Some (ok, if ok then f p else p))) R"
  using assms by (fastforce simp: yields_def)

lemma fits_mono: "fits g n \<Longrightarrow> m \<le> n \<Longrightarrow> fits g m"
  by (auto simp: fits_def split: option.splits)

lemma filled_advance: "filled g fmt dep p xs t k \<Longrightarrow> k + n \<le> length t \<Longrightarrow> length xs + k + n < p_length p \<Longrightarrow>
  filled g fmt dep (advance n p) xs t (k + n)"
  by (auto simp: filled_def advance_def)

lemma filled_emitted: "filled g fmt dep p xs (t @ u) (length t) \<Longrightarrow> emitted g fmt dep p (xs @ t)"
proof -
  assume f: "filled g fmt dep p xs (t @ u) (length t)"
  then obtain buf where b: "p_buffer p = Some buf" "p_length p \<le> length buf"
    "take (length xs + length (t @ u)) buf = map Some (xs @ t @ u)" by (auto simp: filled_def)
  have "take (length xs + length t) buf = take (length xs + length t) (take (length xs + length (t @ u)) buf)" by (simp add: min_def)
  also have "\<dots> = map Some (xs @ t)" unfolding b(3) by simp
  finally show ?thesis using f b(1,2) by (auto simp: filled_def)
qed

lemma emitted_deeper: "emitted g fmt dep p xs \<Longrightarrow> emitted g fmt (dep + 1) (deeper p) xs"
  by (auto simp: filled_def deeper_def)

lemma written_shallower: "written g fmt (dep + 1) p xs t \<Longrightarrow> written g fmt dep (shallower p) xs t"
  by (auto simp: written_def filled_def shallower_def)

text \<open>\<open>update_offset\<close> finds the NUL.\<close>

lemma out_strlen_map: "0 \<notin> set t \<Longrightarrow> out_strlen (map Some t @ Some 0 # bs) = Some (length t)"
  by (induction t) auto

lemma update_offset_written:
  assumes "written g fmt dep p xs t"
  shows "\<exists>p'. update_offset p = Some p' \<and> emitted g fmt dep p' (xs @ t)"
proof -
  from assms obtain k where k: "0 \<notin> set t" "k \<le> length t" "filled g fmt dep p xs (t @ [0]) k" by (auto simp: written_def)
  then obtain buf where b: "p_buffer p = Some buf" "p_length p \<le> length buf" "take (length xs + length (t @ [0])) buf = map Some (xs @ t @ [0])"
    "p_offset p = length xs + k" by (auto simp: filled_def)
  obtain R where R: "buf = map Some xs @ map Some t @ Some 0 # R"
    using b(3) append_take_drop_id [of "length xs + length (t @ [0])" buf] by (metis append.assoc append_Cons append_Nil map_append list.map)
  from R have "drop (p_offset p) buf = map Some (drop k t) @ Some 0 # R"
    using k(2) b(4) by (simp add: drop_map)
  moreover have "0 \<notin> set (drop k t)" using k(1) by (meson in_set_dropD)
  ultimately have "update_offset p = Some (advance (length t - k) p)"
    using b(1) by (simp add: update_offset_def out_strlen_map)
  moreover have "emitted g fmt dep (advance (length t - k) p) (xs @ t)"
    using k b R by (auto simp: filled_def advance_def)
  ultimately show ?thesis by blast
qed


subsection \<open>Reserving and writing\<close>

lemma grow_emitted:
  assumes "emitted g fmt dep p xs" and "p_buffer p = Some buf" and "p_length p < n" and "\<not> p_noalloc p" and "0 < n" and "length xs < n"
    and "fits g n" and "m = INT_MAX \<or> 2 * p_length p \<le> m" and "n \<le> m" and "m \<le> INT_MAX"
  shows "yields g (grow p buf m) (\<lambda>p'. emitted g fmt dep p' xs \<and> n \<le> p_length p')"
proof (cases "alloc (p_mem p)")
  case None
  have "g = None" using assms None by (auto simp: filled_def able_def fits_def alloc_def split: option.splits if_splits)
  with None show ?thesis by (simp add: grow_def yields_fail)
next
  case (Some mem)
  from assms(1,2) have o: "p_length p \<le> length buf" "take (length xs) buf = map Some xs" "p_offset p = length xs"
    "length xs \<le> p_length p" "p_length p = 0 \<Longrightarrow> p_realloc p" "0 < p_length p \<Longrightarrow> length xs < p_length p"
    using assms(4) by (auto simp: filled_def)
  let ?kept = "if p_realloc p then take m buf else take (length xs + 1) buf"
  let ?p = "p\<lparr>p_buffer := Some (?kept @ map (\<lambda>_. None) [length ?kept..<m]), p_length := m, p_mem := mem\<rparr>"
  have r: "p_realloc p \<or> length xs + 1 \<le> length buf \<and> length xs + 1 \<le> m"
    using o assms(6,9) by (cases "p_length p = 0") auto
  then have "grow p buf m = Some (True, ?p)" using Some o(3) by (auto simp: grow_def)
  moreover have "emitted g fmt dep ?p xs"
  proof -
    have k: "length ?kept \<le> m" "take (length xs) ?kept = map Some xs" "length xs \<le> length ?kept"
      using r o assms(6,9) by (auto simp: min_def)
    have "able g ?p"
    proof (cases g)
      case (Some G)
      then obtain na N where Some: "g = Some (na, N)" by (cases G) auto
      with assms(1,4) have N: "\<not> na" "N \<le> INT_MAX" "0 < p_mem p" "N \<le> p_length p * 2 ^ (p_mem p - 1)"
        by (auto simp: filled_def able_def)
      have "n \<le> N" using assms(7) Some by (simp add: fits_def)
      with N(4) assms(3) have "p_mem p - 1 \<noteq> 0" by (intro notI) simp
      moreover have mm: "mem = p_mem p - 1" using \<open>alloc (p_mem p) = Some mem\<close> by (simp add: alloc_def split: if_splits)
      ultimately have "mem \<noteq> 0" by simp
      then obtain j where j: "mem = Suc j" by (cases mem) auto
      have "N \<le> m * 2 ^ j"
      proof (cases "m = INT_MAX")
        case True
        have "m * 1 \<le> m * 2 ^ j" by (intro mult_le_mono2) simp
        with True N(2) show ?thesis by (metis le_trans mult.right_neutral)
      next
        case False
        then have "2 * p_length p * 2 ^ j \<le> m * 2 ^ j" using assms(8) by (intro mult_le_mono1) simp
        moreover have "p_mem p - 1 = Suc j" using mm j by simp
        with N(4) have "N \<le> 2 * p_length p * 2 ^ j" by (simp only: power_Suc mult.assoc mult.left_commute)
        ultimately show ?thesis by (metis le_trans)
      qed
      then show ?thesis using Some j N assms(4,5,9) by (simp add: able_def)
    qed (simp add: able_def)
    with k assms(1,5,6,9) show ?thesis unfolding filled_def
      by (auto simp del: take_append simp: take_append [of "length xs"])
  qed
  ultimately show ?thesis using assms(9) by (auto intro: yieldsI)
qed

lemma ensure_emitted:
  assumes "emitted g fmt dep p xs" and "fits g (length xs + n + 1)" and "0 < n"
  shows "yields g (ensure p n) (\<lambda>p'. emitted g fmt dep p' xs \<and> length xs + n + 1 \<le> p_length p')"
proof -
  from assms(1) obtain buf where b: "p_buffer p = Some buf" "p_offset p = length xs" "0 < p_length p \<Longrightarrow> length xs < p_length p"
    by (auto simp: filled_def)
  let ?n = "n + length xs + 1"
  have small: "?n \<le> INT_MAX \<and> (p_noalloc p \<longrightarrow> ?n \<le> p_length p)" if "g \<noteq> None"
    using that assms(1,2) by (auto simp: filled_def able_def fits_def split: option.splits)
  consider "\<not> ?n \<le> INT_MAX" | "?n \<le> p_length p" "?n \<le> INT_MAX" | "p_noalloc p" "\<not> ?n \<le> p_length p"
    | "?n \<le> INT_MAX" "\<not> p_noalloc p" "p_length p < ?n" by linarith
  then show ?thesis
  proof cases
    case 1
    then have g: "g = None" using small by (cases g) auto
    show ?thesis
    proof (cases "?n \<le> p_length p \<and> n \<le> INT_MAX")
      case True
      then show ?thesis using b assms(1) by (auto simp: ensure_def Let_def intro!: yieldsI)
    next
      case False
      with 1 b have "ensure p n = Some (False, p)" by (auto simp: ensure_def Let_def)
      with g show ?thesis by (auto intro: yields_fail)
    qed
  next
    case 2
    then show ?thesis using b assms(1) by (auto simp: ensure_def Let_def intro!: yieldsI)
  next
    case 3
    then have "g = None" using small by (cases g) auto
    moreover have "ensure p n = Some (False, p)" using 3 b by (auto simp: ensure_def Let_def)
    ultimately show ?thesis by (auto intro: yields_fail)
  next
    case 4
    let ?m = "if ?n > INT_MAX div 2 then INT_MAX else ?n * 2"
    have "ensure p n = grow p buf ?m" using 4 b by (auto simp: ensure_def Let_def)
    moreover have "yields g (grow p buf ?m) (\<lambda>p'. emitted g fmt dep p' xs \<and> ?n \<le> p_length p')"
      using assms 4 b by (intro grow_emitted) (auto simp: add.commute)
    ultimately show ?thesis by (simp add: add.commute)
  qed
qed

lemma put_at_filled:
  assumes "filled g fmt dep p xs t 0" and "length xs + length t + length bs \<le> p_length p"
  shows "\<exists>p'. put_at p (length t) bs = Some p' \<and> filled g fmt dep p' xs (t @ bs) 0 \<and> p_length p' = p_length p"
proof -
  from assms(1) obtain buf where b: "p_buffer p = Some buf" "p_length p \<le> length buf" "take (length xs + length t) buf = map Some (xs @ t)"
    "p_offset p = length xs" by (auto simp: filled_def)
  let ?k = "length xs + length t"
  let ?p = "p\<lparr>p_buffer := Some (take ?k buf @ map Some bs @ drop (?k + length bs) buf)\<rparr>"
  have "put_at p (length t) bs = Some ?p" using b assms(2) by (simp add: put_at_def Let_def)
  moreover have "filled g fmt dep ?p xs (t @ bs) 0"
    using b assms by (auto simp: filled_def)
  ultimately show ?thesis by auto
qed

lemma reserve_put_filled:
  assumes "emitted g fmt dep p xs" and "length bs \<le> n + 1" and "k \<le> n" and "k \<le> length bs" and "fits g (length xs + n + 1)" and "0 < n"
  shows "yields g (reserve_put n bs k p) (\<lambda>p'. filled g fmt dep p' xs bs k)"
proof -
  have "yields g (do { p \<leftarrow> put_at q 0 bs; Some (True, advance k p) }) (\<lambda>p'. filled g fmt dep p' xs bs k)"
    if q: "emitted g fmt dep q xs" "length xs + n + 1 \<le> p_length q" for q
  proof -
    from put_at_filled [OF q(1), of bs] q(2) assms(2)
    obtain q' where q': "put_at q 0 bs = Some q'" "filled g fmt dep q' xs bs 0" "p_length q' = p_length q" by auto
    have "filled g fmt dep (advance k q') xs bs k" using filled_advance [OF q'(2), of k] assms(3,4) q(2) q'(3) by simp
    with q'(1) show ?thesis by (auto intro: yieldsI)
  qed
  then show ?thesis unfolding reserve_put_def
    by (intro yields_bind [OF ensure_emitted [OF assms(1,5,6)]]) auto
qed

lemma reserve_put_emitted:
  assumes "emitted g fmt dep p xs" and "length bs \<le> n" and "length zs \<le> 1" and "fits g (length xs + n + 1)" and "0 < n"
  shows "yields g (reserve_put n (bs @ zs) (length bs) p) (\<lambda>p'. emitted g fmt dep p' (xs @ bs))"
  using reserve_put_filled [OF assms(1) _ assms(2) _ assms(4,5), of "bs @ zs"] assms(2,3)
  by (auto intro: yields_mono filled_emitted)

lemma reserve_put_written:
  assumes "emitted g fmt dep p xs" and "length t \<le> n" and "0 \<notin> set t" and "fits g (length xs + n + 1)" and "0 < n"
  shows "yields g (reserve_put n (t @ [0]) 0 p) (\<lambda>p'. written g fmt dep p' xs t)"
  using reserve_put_filled [OF assms(1), of "t @ [0]" n 0] assms(2-5)
  by (auto intro!: yields_mono [OF reserve_put_filled [OF assms(1), of "t @ [0]" n 0]] simp: written_def)


subsection \<open>Strings, numbers and literals\<close>

lemma escape_count: "length (escape_text s) = length s + escape_characters s"
proof (induction s)
  case (Cons c s)
  have "list_all (\<lambda>c. length (escape_char c) = 1 + (if short_escape c \<noteq> None then 1 else if c < 32 then 5 else 0)) all_bytes"
    by code_simp
  from byte_exhaustive [OF this, of c] Cons show ?case by simp
qed simp

lemma escape_none: "escape_characters s = 0 \<Longrightarrow> escape_text s = s"
proof (induction s)
  case (Cons c s)
  then have "short_escape c = None" "\<not> c < 32" by (auto split: if_splits)
  then have "c > 31 \<and> c \<noteq> 34 \<and> c \<noteq> 92" by (auto simp: short_escape_def word_less_nat_alt split: if_splits)
  with Cons show ?case by (simp add: escape_char_def split: if_splits)
qed simp

lemma escape_no_NUL: "0 \<notin> set s \<Longrightarrow> 0 \<notin> set (escape_text s)"
proof (induction s)
  case (Cons c s)
  have "list_all (\<lambda>c. c \<noteq> 0 \<longrightarrow> 0 \<notin> set (escape_char c)) all_bytes" by code_simp
  from byte_exhaustive [OF this] have "c \<noteq> 0 \<longrightarrow> 0 \<notin> set (escape_char c)" by blast
  with Cons show ?case by auto
qed simp

lemma string_text_length: "length (string_text s) = length s + escape_characters s + 2"
  by (simp add: string_text_def escape_count)

lemma string_text_no_NUL: "0 \<notin> set s \<Longrightarrow> 0 \<notin> set (string_text s)"
  by (simp add: string_text_def escape_no_NUL)

lemma print_string_ptr_written:
  assumes "emitted g fmt dep p xs" and "c_string s" and "fits g (length xs + length (string_text (case s of None \<Rightarrow> [] | Some s \<Rightarrow> s)) + 2)"
  shows "yields g (print_string_ptr s p) (\<lambda>p'. written g fmt dep p' xs (string_text (case s of None \<Rightarrow> [] | Some s \<Rightarrow> s)))"
proof (cases s)
  case None
  have "yields g (reserve_put 3 ([34, 34] @ [0]) 0 p) (\<lambda>p'. written g fmt dep p' xs [34, 34])"
    using assms None by (intro reserve_put_written) (auto simp: string_text_def elim: fits_mono)
  moreover have "advance 0 q = q" for q by (simp add: advance_def)
  ultimately show ?thesis using None by (simp add: print_string_ptr_def reserve_put_def string_text_def cong: if_cong)
next
  case (Some bs)
  let ?n = "length bs + escape_characters bs"
  have t: "0 \<notin> set (string_text bs)" using assms(2) Some by (simp add: c_string_def string_text_no_NUL)
  have step: "yields g (do { p \<leftarrow> put_at q 0 (34 # escape_text bs); p \<leftarrow> put_at p (?n + 1) [34, 0]; Some (True, p) })
      (\<lambda>p'. written g fmt dep p' xs (string_text bs))"
    if q: "emitted g fmt dep q xs \<and> length xs + (?n + 3) + 1 \<le> p_length q" for q
  proof -
    from put_at_filled [of g fmt dep q xs "[]" "34 # escape_text bs"] q
    obtain q' where 1: "put_at q 0 (34 # escape_text bs) = Some q'" "filled g fmt dep q' xs (34 # escape_text bs) 0" "p_length q' = p_length q"
      by (auto simp: escape_count)
    from put_at_filled [OF 1(2), of "[34, 0]"] 1(3) q
    obtain q'' where 2: "put_at q' (?n + 1) [34, 0] = Some q''" "filled g fmt dep q'' xs (string_text bs @ [0]) 0"
      by (auto simp: escape_count string_text_def)
    from 1(1) 2 t show ?thesis by (auto intro: yieldsI simp: written_def)
  qed
  have e: "yields g (ensure p (?n + 3)) (\<lambda>p'. emitted g fmt dep p' xs \<and> length xs + (?n + 3) + 1 \<le> p_length p')"
    using assms Some by (intro ensure_emitted) (auto simp: string_text_length elim: fits_mono)
  show ?thesis unfolding print_string_ptr_def Some option.case Let_def
    using step escape_none [of bs] by (intro yields_bind [OF e]) auto
qed

lemma print_number_written:
  assumes "emitted g fmt dep p xs" and "length (number_text fo d) < 26" and "0 \<notin> set (number_text fo d)"
    and "fits g (length xs + length (number_text fo d) + 2)"
  shows "yields g (print_number fo d p) (\<lambda>p'. written g fmt dep p' xs (number_text fo d))"
proof -
  let ?t = "number_text fo d"
  have "print_number fo d p = reserve_put (length ?t + 1) (?t @ [0]) (length ?t) p"
    using assms(2) by (simp add: print_number_def reserve_put_def Let_def)
  moreover have "yields g (reserve_put (length ?t + 1) (?t @ [0]) (length ?t) p) (\<lambda>p'. filled g fmt dep p' xs (?t @ [0]) (length ?t))"
    using assms by (intro reserve_put_filled) auto
  ultimately show ?thesis using assms(3) by (auto intro: yields_mono simp: written_def)
qed


subsection \<open>Items\<close>

lemma yields_update:
  assumes "yields g r (\<lambda>p. written g fmt dep p xs t \<and> C)" and "\<And>p. C \<Longrightarrow> emitted g fmt dep p (xs @ t) \<Longrightarrow> yields g (f p) R"
  shows "yields g (r \<bind> (\<lambda>(ok, p). if \<not> ok then Some (False, p) else update_offset p \<bind> f)) R"
proof (rule yields_bind [OF assms(1)])
  fix p assume w: "written g fmt dep p xs t \<and> C"
  then obtain p' where "update_offset p = Some p'" "emitted g fmt dep p' (xs @ t)" using update_offset_written by blast
  then show "yields g (update_offset p \<bind> f) R" using assms(2) w by simp
qed

lemma yields_if_fail: "yields g r Q \<Longrightarrow> yields g (r \<bind> (\<lambda>(ok, p). Some (ok, p))) Q"
  by (auto simp: yields_def)

lemma if_format_emitted: "emitted g fmt dep p xs \<Longrightarrow> if_format p bs = (if fmt then bs else []) \<and> p_depth p = dep \<and> p_format p = fmt"
  by (simp add: filled_def if_format_def)

lemma written_append: "written g fmt dep p (xs @ a) b \<Longrightarrow> 0 \<notin> set a \<Longrightarrow> written g fmt dep p xs (a @ b)"
  by (auto simp: written_def filled_def add.assoc)

lemma json_text_no_NUL:
  "sound fo x \<Longrightarrow> 0 \<notin> set (json_text fo fmt dep x)"
  "list_all (sound fo) cs \<Longrightarrow> 0 \<notin> set (elements_text fo fmt dep cs)"
  "list_all (sound fo) cs \<Longrightarrow> 0 \<notin> set (members_text fo fmt dep cs)"
proof (induction fo fmt dep x and fo fmt dep cs and fo fmt dep cs rule: json_text_elements_text_members_text.induct)
  case (1 fo fmt dep d cs)
  have "0 \<notin> set (tabs n)" for n by (auto simp: tabs_def)
  with 1 show ?case using literals_no_NUL
    by (auto simp: c_string_def string_text_no_NUL split: option.splits)
next
  case (5 fo fmt dep x xs)
  have "0 \<notin> set (tabs n)" for n by (auto simp: tabs_def)
  moreover have "c_string (jstring (item x))" using 5 by (cases x) auto
  ultimately show ?case using 5 by (auto simp: c_string_def string_text_no_NUL split: option.splits)
qed auto


lemma print_start_emitted:
  assumes "emitted g fmt dep p xs" and "length cs < n" and "k = length cs + 1" and "fits g (length xs + n + 1)"
  shows "yields g (print_start c n cs k p) (\<lambda>p'. emitted g fmt (dep + 1) p' (xs @ c # cs))"
  unfolding print_start_def
  using reserve_put_emitted [OF assms(1), of "c # cs" n "[]"] assms(2-4)
  by (intro yields_then [where Q = "\<lambda>p. emitted g fmt dep p (xs @ c # cs)"]) (auto dest: emitted_deeper)

text \<open>One member: its tabs, its name, the colon, the value, and the comma and the end of the line.\<close>

lemma tabs_emitted:
  assumes "emitted g fmt dep p xs" and "fmt \<Longrightarrow> fits g (length xs + dep + 1)" and "0 < dep"
  shows "yields g (if p_format p then reserve_put (p_depth p) (tabs (p_depth p)) (p_depth p) p else Some (True, p))
    (\<lambda>p'. emitted g fmt dep p' (xs @ (if fmt then tabs dep else [])))"
  using assms reserve_put_emitted [OF assms(1), of "tabs dep" dep "[]"] if_format_emitted [OF assms(1)]
  by (auto simp: tabs_def intro: yieldsI)

lemma colon_emitted:
  assumes "emitted g fmt dep p xs" and "t = 58 # (if fmt then [9] else [])" and "fits g (length xs + length t + 1)"
  shows "yields g (reserve_put (length (58 # if_format p [9])) (58 # if_format p [9]) (length (58 # if_format p [9])) p)
    (\<lambda>p'. emitted g fmt dep p' (xs @ t))"
  using assms reserve_put_emitted [OF assms(1), of t "length t" "[]"] if_format_emitted [OF assms(1)] by simp

lemma line_end_emitted:
  assumes "emitted g fmt dep p xs" and "t = (if tail then [] else [44]) @ (if fmt then [10] else [])" and "fits g (length xs + length t + 2)"
  shows "yields g (let s = (if tail then [] else [44]) @ if_format p [10] in reserve_put (length s + 1) (s @ [0]) (length s) p)
    (\<lambda>p'. emitted g fmt dep p' (xs @ t))"
  using assms(2,3) reserve_put_emitted [OF assms(1), of t "length t + 1" "[0]"] if_format_emitted [OF assms(1)] by (simp add: Let_def)

lemma print_member:
  assumes p: "emitted g fmt dep p xs" and key: "c_string (jstring (item x))" and dep: "0 < dep"
    and t: "t = members_text fo fmt dep (x # cs)" and m: "m = members_text fo fmt dep cs"
    and fits: "fits g (length xs + length t + n)" and n: "2 \<le> n"
    and v: "\<And>q ys. emitted g fmt dep q ys \<Longrightarrow> length ys + length (json_text fo fmt dep x) + length m \<le> length xs + length t \<Longrightarrow>
      yields g (print_value fo x q) (\<lambda>p'. written g fmt dep p' ys (json_text fo fmt dep x) \<and> C)"
    and r: "\<And>q ys. emitted g fmt dep q ys \<Longrightarrow> length ys + length m = length xs + length t \<Longrightarrow>
      yields g (print_members fo cs q) (\<lambda>p'. emitted g fmt dep p' (ys @ m) \<and> D)"
  shows "yields g (print_members fo (x # cs) p) (\<lambda>p'. emitted g fmt dep p' (xs @ t) \<and> C \<and> D)"
proof -
  let ?tab = "if fmt then tabs dep else []" and ?colon = "58 # (if fmt then [9] else []) :: byte list"
    and ?fin = "(if cs = [] then [] else [44]) @ (if fmt then [10] else []) :: byte list"
    and ?x = "json_text fo fmt dep x" and ?key = "string_text (case jstring (item x) of None \<Rightarrow> [] | Some s \<Rightarrow> s)"
  have tt: "t = ?tab @ ?key @ ?colon @ ?x @ ?fin @ m" using t m by simp
  have f: "fits g k" if "k \<le> length xs + length t + n" for k using fits that by (rule fits_mono)
  have l: "length xs + length t = length xs + length ?tab + length ?key + length ?colon + length ?x + length ?fin + length m"
    unfolding tt by simp
  have kl: "2 \<le> length ?key" by (simp add: string_text_def)
  let ?R = "\<lambda>p'. emitted g fmt dep p' (xs @ t) \<and> C \<and> D"
  let ?s = "\<lambda>p. (if cs = [] then [] else [44]) @ if_format p [10]" and ?c = "\<lambda>p. 58 # if_format p [9]"
  let ?line = "\<lambda>p. reserve_put (length (?s p) + 1) (?s p @ [0]) (length (?s p)) p \<bind>
    (\<lambda>(ok, p). if \<not> ok then Some (False, p) else print_members fo cs p)"
  let ?vl = "\<lambda>p. print_value fo x p \<bind> (\<lambda>(ok, p). if \<not> ok then Some (False, p) else update_offset p \<bind> ?line)"
  let ?name = "\<lambda>p. reserve_put (length (?c p)) (?c p) (length (?c p)) p \<bind> (\<lambda>(ok, p). if \<not> ok then Some (False, p) else ?vl p)"
  have line: "yields g (?line q) ?R" if C and q: "emitted g fmt dep q ((((xs @ ?tab) @ ?key) @ ?colon) @ ?x)" for q
    using that l n r [of _ "(((((xs @ ?tab) @ ?key) @ ?colon) @ ?x) @ ?fin)"]
    by (intro yields_bind [OF line_end_emitted [OF q refl f, unfolded Let_def]]) (auto intro: yields_mono simp: tt)
  have val: "yields g (?vl q) ?R" if "emitted g fmt dep q (((xs @ ?tab) @ ?key) @ ?colon)" for q
    using l line by (intro yields_update [OF v [OF that]]) simp_all
  have name: "yields g (?name q) ?R" if "emitted g fmt dep q ((xs @ ?tab) @ ?key)" for q
    using l n val by (intro yields_bind [OF colon_emitted [OF that refl f]]) simp_all
  have key: "yields g (print_string_ptr (jstring (item x)) q \<bind> (\<lambda>(ok, p). if \<not> ok then Some (False, p) else update_offset p \<bind> ?name)) ?R"
    if q: "emitted g fmt dep q (xs @ ?tab)" for q
  proof (rule yields_update)
    show "yields g (print_string_ptr (jstring (item x)) q) (\<lambda>p'. written g fmt dep p' (xs @ ?tab) ?key \<and> True)"
      using l n print_string_ptr_written [OF q key f] by simp
  qed (rule name)
  have "fmt \<Longrightarrow> fits g (length xs + dep + 1)" using l n kl by (intro f) (simp add: tabs_def)
  from yields_bind [OF tabs_emitted [OF p this dep] key] show ?thesis unfolding print_members.simps Let_def .
qed

text \<open>Items by their types.\<close>

lemma print_scalar:
  assumes snd: "sound fo (Item d cs)" and ok: "g \<noteq> None \<longrightarrow> printable (Item d cs)" and p: "emitted g fmt dep p xs"
    and fits: "fits g (length xs + length (json_text fo fmt dep (Item d cs)) + 3)"
    and scalar: "type_of d \<noteq> cJSON_Array" "type_of d \<noteq> cJSON_Object"
  shows "yields g (print_value fo (Item d cs) p)
    (\<lambda>p'. written g fmt dep p' xs (json_text fo fmt dep (Item d cs)) \<and> printable (Item d cs))"
proof -
  let ?txt = "json_text fo fmt dep (Item d cs)" and ?s = "case valuestring d of None \<Rightarrow> [] | Some s \<Rightarrow> s"
  have s: "c_string (valuestring d)" "length (number_text fo d) < 26" "0 \<notin> set (number_text fo d)" using snd by simp_all
  have f: "fits g k" if "k \<le> length xs + length ?txt + 3" for k using fits that by (rule fits_mono)
  have w: "yields g (print_value fo (Item d cs) p) (\<lambda>p'. written g fmt dep p' xs ?txt)" if t: "printable (Item d cs)"
  proof -
    consider "type_of d = cJSON_NULL" | "type_of d = cJSON_Bool" | "type_of d = cJSON_Int \<or> type_of d = cJSON_Number"
      | "type_of d = cJSON_Raw" | "type_of d = cJSON_String" using t scalar by auto
    then show ?thesis
    proof cases
      case 1
      then show ?thesis using reserve_put_written [OF p _ literals_no_NUL(1) f, of 5] lit_lengths by simp
    next
      case 2
      then show ?thesis using reserve_put_written [OF p _ literals_no_NUL(2) f, of 6] reserve_put_written [OF p _ literals_no_NUL(3) f, of 6]
          lit_lengths by (simp add: json_types)
    next
      case 3
      then show ?thesis using print_number_written [OF p s(2,3) f] by (auto simp: json_types)
    next
      case 4
      then obtain bs where "valuestring d = Some bs" "0 \<notin> set bs" using t s(1) by (auto simp: c_string_def json_types)
      with 4 show ?thesis using reserve_put_written [OF p _ _ f, of bs "length bs + 1"] by (simp add: json_types)
    next
      case 5
      then show ?thesis using print_string_ptr_written [OF p s(1) f] by (simp add: json_types print_string_def)
    qed
  qed
  show ?thesis
  proof (cases "printable (Item d cs)")
    case True
    with w show ?thesis by simp
  next
    case False
    then consider "type_of d = cJSON_Raw" "valuestring d = None"
      | "type_of d \<notin> {cJSON_NULL, cJSON_Bool, cJSON_Int, cJSON_Number, cJSON_Raw, cJSON_String, cJSON_Array, cJSON_Object}"
      using scalar by auto
    then have e: "print_value fo (Item d cs) p = Some (False, p)" by cases (simp_all add: json_types)
    have "g = None" using False ok by blast
    then show ?thesis unfolding e by (rule yields_fail)
  qed
qed

lemma closing:
  assumes "yields g r (\<lambda>p. written g fmt (dep + 1) p (xs @ a) b)" and "0 \<notin> set a" and C
  shows "yields g (r \<bind> (\<lambda>(ok, p). Some (ok, if ok then shallower p else p))) (\<lambda>p. written g fmt dep p xs (a @ b) \<and> C)"
  using assms(2,3) by (intro yields_then [OF assms(1)]) (auto intro: written_append written_shallower [unfolded Suc_eq_plus1 [symmetric]])

lemma print_array_written:
  assumes p: "emitted g fmt dep p xs" and fits: "fits g (length xs + length (json_text fo fmt dep (Item d cs)) + 3)"
    and t: "type_of d = cJSON_Array" and nul: "list_all (sound fo) cs"
    and es: "\<And>q ys. emitted g fmt (dep + 1) q ys \<Longrightarrow> fits g (length ys + length (elements_text fo fmt (dep + 1) cs) + 4) \<Longrightarrow>
      yields g (print_elements fo cs q) (\<lambda>p'. emitted g fmt (dep + 1) p' (ys @ elements_text fo fmt (dep + 1) cs) \<and> C)"
  shows "yields g (print_value fo (Item d cs) p) (\<lambda>p'. written g fmt dep p' xs (json_text fo fmt dep (Item d cs)) \<and> C)"
proof -
  let ?es = "elements_text fo fmt (dep + 1) cs"
  have f: "fits g k" if "k \<le> length xs + length (91 # ?es @ [93]) + 3" for k
    using fits t that by (intro fits_mono [OF fits]) (simp add: json_types)
  have tx: "json_text fo fmt dep (Item d cs) = (91 # ?es) @ [93]" using t by (simp add: json_types)
  have z: "0 \<notin> set (91 # ?es)" using json_text_no_NUL(2) [OF nul] by simp
  have s3: "yields g (reserve_put 2 [93, 0] 0 q \<bind> (\<lambda>(ok, p). Some (ok, if ok then shallower p else p)))
      (\<lambda>p'. written g fmt dep p' xs ((91 # ?es) @ [93]) \<and> C)" if C and q: "emitted g fmt (dep + 1) q (xs @ 91 # ?es)" for q
  proof (rule closing [OF _ z that(1)])
    have "length (xs @ 91 # ?es) + 2 + 1 \<le> length xs + length (91 # ?es @ [93]) + 3" by simp
    with reserve_put_written [OF q, of "[93]" 2] f
    show "yields g (reserve_put 2 [93, 0] 0 q) (\<lambda>p. written g fmt (dep + 1) p (xs @ 91 # ?es) [93])" by simp
  qed
  have s2: "yields g (print_elements fo cs q \<bind> (\<lambda>(ok, p). if \<not> ok then Some (False, p)
        else reserve_put 2 [93, 0] 0 p \<bind> (\<lambda>(ok, p). Some (ok, if ok then shallower p else p))))
      (\<lambda>p'. written g fmt dep p' xs ((91 # ?es) @ [93]) \<and> C)" if "emitted g fmt (dep + 1) q (xs @ [91])" for q
    using s3 f by (intro yields_bind [OF es [OF that]]) simp_all
  have "yields g (print_start 91 1 [] 1 p) (\<lambda>p'. emitted g fmt (dep + 1) p' (xs @ [91]))"
    using f by (intro print_start_emitted [OF p]) simp_all
  from yields_bind [OF this s2] show ?thesis unfolding tx using t by (simp add: json_types)
qed

lemma print_object_written:
  assumes p: "emitted g fmt dep p xs" and fits: "fits g (length xs + length (json_text fo fmt dep (Item d cs)) + 3)"
    and t: "type_of d = cJSON_Object" and nul: "list_all (sound fo) cs"
    and ms: "\<And>q ys. emitted g fmt (dep + 1) q ys \<Longrightarrow>
      fits g (length ys + length (members_text fo fmt (dep + 1) cs) + (if fmt then dep else 0) + 4) \<Longrightarrow>
      yields g (print_members fo cs q) (\<lambda>p'. emitted g fmt (dep + 1) p' (ys @ members_text fo fmt (dep + 1) cs) \<and> C)"
  shows "yields g (print_value fo (Item d cs) p) (\<lambda>p'. written g fmt dep p' xs (json_text fo fmt dep (Item d cs)) \<and> C)"
proof -
  let ?nl = "if fmt then [10] else [] :: byte list" and ?tab = "if fmt then tabs dep else []"
  let ?ms = "123 # ?nl @ members_text fo fmt (dep + 1) cs"
  have f: "fits g k" if "k \<le> length xs + length (?ms @ ?tab @ [125]) + 3" for k
    using fits t that by (intro fits_mono [OF fits]) (simp add: json_types)
  have tx: "json_text fo fmt dep (Item d cs) = ?ms @ ?tab @ [125]" using t by (simp add: json_types)
  have z: "0 \<notin> set ?ms" "0 \<notin> set ?tab" using json_text_no_NUL(3) [OF nul] by (auto simp: tabs_def)
  let ?fin = "\<lambda>p. reserve_put (if p_format p then p_depth p + 1 else 2) (if_format p (tabs (p_depth p - 1)) @ [125, 0]) 0 p
    \<bind> (\<lambda>(ok, p). Some (ok, if ok then shallower p else p))"
  have s3: "yields g (?fin q) (\<lambda>p'. written g fmt dep p' xs (?ms @ ?tab @ [125]) \<and> C)" if C and q: "emitted g fmt (dep + 1) q (xs @ ?ms)" for q
  proof -
    have i: "if_format q (tabs (p_depth q - 1)) @ [125, 0] = (?tab @ [125]) @ [0]"
      "(if p_format q then p_depth q + 1 else 2) = (if fmt then dep + 2 else 2)" using if_format_emitted [OF q] by simp_all
    have "yields g (reserve_put (if fmt then dep + 2 else 2) ((?tab @ [125]) @ [0]) 0 q) (\<lambda>p. written g fmt (dep + 1) p (xs @ ?ms) (?tab @ [125]))"
      using z(2) by (intro reserve_put_written [OF q] f) (auto simp: tabs_def)
    then show ?thesis unfolding i by (rule closing [OF _ z(1) that(1)])
  qed
  have s2: "yields g (print_members fo cs q \<bind> (\<lambda>(ok, p). if \<not> ok then Some (False, p) else ?fin p))
      (\<lambda>p'. written g fmt dep p' xs (?ms @ ?tab @ [125]) \<and> C)" if "emitted g fmt (dep + 1) q (xs @ 123 # ?nl)" for q
    using s3 by (intro yields_bind [OF ms [OF that f]]) (simp_all add: tabs_def)
  have i: "if_format p [10] = ?nl" using if_format_emitted [OF p] by simp
  have "yields g (print_start 123 (length (if_format p [10]) + 2) (if_format p [10]) (length (if_format p [10]) + 1) p)
      (\<lambda>p'. emitted g fmt (dep + 1) p' (xs @ 123 # ?nl))"
    unfolding i using f by (intro print_start_emitted [OF p]) simp_all
  from yields_bind [OF this s2] show ?thesis unfolding tx using t by (simp add: json_types)
qed

lemma print_written:
  "sound fo x \<Longrightarrow> (g \<noteq> None \<longrightarrow> printable x) \<Longrightarrow> emitted g fmt dep p xs \<Longrightarrow>
     fits g (length xs + length (json_text fo fmt dep x) + 3) \<Longrightarrow>
     yields g (print_value fo x p) (\<lambda>p'. written g fmt dep p' xs (json_text fo fmt dep x) \<and> printable x)"
  "list_all (sound fo) cs \<Longrightarrow> (g \<noteq> None \<longrightarrow> list_all printable cs) \<Longrightarrow> emitted g fmt dep p xs \<Longrightarrow>
     fits g (length xs + length (elements_text fo fmt dep cs) + 4) \<Longrightarrow>
     yields g (print_elements fo cs p) (\<lambda>p'. emitted g fmt dep p' (xs @ elements_text fo fmt dep cs) \<and> list_all printable cs)"
  "list_all (sound fo) cs \<Longrightarrow> (g \<noteq> None \<longrightarrow> list_all printable cs) \<Longrightarrow> emitted g fmt dep p xs \<Longrightarrow> 0 < dep \<Longrightarrow>
     fits g (length xs + length (members_text fo fmt dep cs) + (if fmt then dep - 1 else 0) + 4) \<Longrightarrow>
     yields g (print_members fo cs p) (\<lambda>p'. emitted g fmt dep p' (xs @ members_text fo fmt dep cs) \<and> list_all printable cs)"
proof (induction fo fmt dep x and fo fmt dep cs and fo fmt dep cs arbitrary: p xs and p xs and p xs
    rule: json_text_elements_text_members_text.induct)
  case (1 fo fmt dep d cs)
  have nul: "list_all (sound fo) cs" using "1.prems"(1) by simp
  show ?case
  proof (cases "type_of d = cJSON_Array")
    case True
    then have "yields g (print_value fo (Item d cs) p) (\<lambda>p'. written g fmt dep p' xs (json_text fo fmt dep (Item d cs)) \<and> list_all printable cs)"
      using "1.prems" nul by (intro print_array_written "1.IH"(1)) (simp_all add: json_types)
    with True show ?thesis by (simp add: json_types)
  next
    case a: False
    show ?thesis
    proof (cases "type_of d = cJSON_Object")
      case True
      then have "yields g (print_value fo (Item d cs) p) (\<lambda>p'. written g fmt dep p' xs (json_text fo fmt dep (Item d cs)) \<and> list_all printable cs)"
        using "1.prems" nul by (intro print_object_written "1.IH"(2)) (simp_all add: json_types split: if_splits)
      with True show ?thesis by (simp add: json_types)
    next
      case False
      with a "1.prems" show ?thesis by (intro print_scalar) simp_all
    qed
  qed
next
  case (3 fo fmt dep x cs)
  let ?x = "json_text fo fmt dep x" and ?sep = "44 # (if fmt then [32] else []) :: byte list"
  have v: "yields g (print_value fo x p) (\<lambda>p'. written g fmt dep p' xs ?x \<and> printable x)"
    using 3 by (intro "3.IH"(1)) (auto elim: fits_mono)
  show ?case unfolding print_elements.simps
  proof (rule yields_update [OF v])
    fix q assume q: "printable x" "emitted g fmt dep q (xs @ ?x)"
    have i: "44 # if_format q [32] = ?sep" using if_format_emitted [OF q(2)] by simp
    show "yields g (if cs = [] then print_elements fo cs q
        else reserve_put (length (44 # if_format q [32]) + 1) (44 # if_format q [32] @ [0]) (length (44 # if_format q [32])) q
          \<bind> (\<lambda>(ok, p). if \<not> ok then Some (False, p) else print_elements fo cs p))
       (\<lambda>p'. emitted g fmt dep p' (xs @ elements_text fo fmt dep (x # cs)) \<and> list_all printable (x # cs))"
    proof (cases "cs = []")
      case True
      with q show ?thesis by (auto intro: yieldsI)
    next
      case False
      have r: "yields g (reserve_put (length ?sep + 1) (?sep @ [0]) (length ?sep) q) (\<lambda>p'. emitted g fmt dep p' ((xs @ ?x) @ ?sep))"
        using 3 False q(2) by (intro reserve_put_emitted) (auto elim: fits_mono)
      have "yields g (print_elements fo cs p') (\<lambda>p'. emitted g fmt dep p' (((xs @ ?x) @ ?sep) @ elements_text fo fmt dep cs) \<and> list_all printable cs)"
        if "emitted g fmt dep p' ((xs @ ?x) @ ?sep)" for p'
        using 3 False that by (intro "3.IH"(2)) (auto elim: fits_mono)
      then have "yields g (reserve_put (length ?sep + 1) (?sep @ [0]) (length ?sep) q
          \<bind> (\<lambda>(ok, p). if \<not> ok then Some (False, p) else print_elements fo cs p))
         (\<lambda>p'. emitted g fmt dep p' (((xs @ ?x) @ ?sep) @ elements_text fo fmt dep cs) \<and> list_all printable cs)"
        by (rule yields_bind [OF r])
      then show ?thesis using False q(1) unfolding append_Cons [symmetric] i by simp
    qed
  qed
next
  case (5 fo fmt dep x cs)
  have k: "c_string (jstring (item x))" using 5 by (cases x) auto
  have "yields g (print_members fo (x # cs) p)
    (\<lambda>p'. emitted g fmt dep p' (xs @ members_text fo fmt dep (x # cs)) \<and> printable x \<and> list_all printable cs)"
  proof (rule print_member [OF _ k _ refl refl, where n = "(if fmt then dep - 1 else 0) + 4"])
    fix q ys assume q: "emitted g fmt dep q ys"
    let ?m = "members_text fo fmt dep cs" and ?t = "members_text fo fmt dep (x # cs)"
    show "yields g (print_value fo x q) (\<lambda>p'. written g fmt dep p' ys (json_text fo fmt dep x) \<and> printable x)"
      if "length ys + length (json_text fo fmt dep x) + length ?m \<le> length xs + length ?t"
      using 5 q that by (intro "5.IH"(1)) (auto elim: fits_mono)
    show "yields g (print_members fo cs q) (\<lambda>p'. emitted g fmt dep p' (ys @ ?m) \<and> list_all printable cs)"
      if "length ys + length ?m = length xs + length ?t"
      using 5 q that by (intro "5.IH"(2)) (auto elim: fits_mono)
  qed (use 5 in \<open>auto elim: fits_mono\<close>)
  then show ?case by simp
qed (auto intro: yieldsI)


subsection \<open>The entry points\<close>

lemma emitted_start:
  assumes "p_buffer p = Some buf" and "p_length p \<le> length buf" and "p_offset p = 0" and "p_length p = 0 \<longrightarrow> p_realloc p \<or> p_noalloc p"
    and "able g p"
  shows "emitted g (p_format p) (p_depth p) p []"
  using assms by (simp add: filled_def)

lemma emitted_offset: "emitted g fmt dep p xs \<Longrightarrow> p_offset p = length xs"
  by (simp add: filled_def)

lemma update_offset_same: "update_offset p = Some q \<Longrightarrow> p_buffer q = p_buffer p \<and> p_length q = p_length p"
  by (auto simp: update_offset_def advance_def bind_eq_Some_conv split: option.splits)

lemma written_buffer: "written g fmt dep p xs t \<Longrightarrow>
    \<exists>buf. p_buffer p = Some buf \<and> length (xs @ t) + 1 \<le> p_length p \<and> p_length p \<le> length buf \<and>
      take (length (xs @ t) + 1) buf = map Some (xs @ t @ [0])"
  by (auto simp: written_def filled_def)

text \<open>\<open>print_value\<close> into a fresh buffer, where \<open>C\<close> says that it must succeed.\<close>

lemma print_value_start:
  assumes "sound fo x" and t: "t = json_text fo (p_format p) (p_depth p) x" and p: "p_buffer p = Some buf" "p_length p \<le> length buf" "p_offset p = 0"
    and r: "p_length p = 0 \<longrightarrow> p_realloc p \<or> p_noalloc p" and C: "C \<longrightarrow> printable x \<and> able (Some (na, length t + 3)) p"
    and g: "g = (if C then Some (na, length t + 3) else None)"
  obtains ok p' where "print_value fo x p = Some (ok, p')" and "ok \<Longrightarrow> printable x" and "C \<Longrightarrow> ok"
    and "ok \<Longrightarrow> written g (p_format p) (p_depth p) p' [] t"
proof -
  have "able g p"
  proof (cases C)
    case True
    with C g show ?thesis by simp
  qed (simp add: g able_def)
  then have e: "emitted g (p_format p) (p_depth p) p []" by (rule emitted_start [OF p r])
  have "yields g (print_value fo x p) (\<lambda>p'. written g (p_format p) (p_depth p) p' [] t \<and> printable x)"
    unfolding t using C g t by (intro print_written(1) [OF assms(1) _ e]) (auto simp: fits_def)
  then show thesis using that g unfolding yields_def by (cases C) auto
qed

lemma print_block_result:
  assumes "sound fo x" and t: "t = json_text fo fmt 0 x"
  shows "\<exists>r. print_block fo realloc mem fmt x = Some r
    \<and> (\<forall>block. r = Some block \<longrightarrow> printable x \<and> block = map Some (t @ [0]))
    \<and> (printable x \<and> length t + 3 \<le> INT_MAX \<and> 2 \<le> mem \<and> length t + 3 \<le> 256 * 2 ^ (mem - 2) \<longrightarrow> r \<noteq> None)"
proof -
  let ?C = "printable x \<and> length t + 3 \<le> INT_MAX \<and> 2 \<le> mem \<and> length t + 3 \<le> 256 * 2 ^ (mem - 2)"
  let ?g = "if ?C then Some (False, length t + 3) else None"
  show ?thesis
  proof (cases "alloc mem")
    case None
    then show ?thesis by (auto simp: print_block_def alloc_def split: if_splits)
  next
    case (Some m)
    let ?p = "\<lparr>p_buffer = Some (replicate 256 None), p_length = 256, p_offset = 0, p_depth = 0,
      p_noalloc = False, p_format = fmt, p_realloc = realloc, p_mem = m\<rparr>"
    have m: "m = mem - 1" using Some by (simp add: alloc_def split: if_splits)
    have start: "t = json_text fo (p_format ?p) (p_depth ?p) x" "p_buffer ?p = Some (replicate 256 None)"
      "p_length ?p \<le> length (replicate 256 (None :: byte option))" "p_offset ?p = 0" "p_length ?p = 0 \<longrightarrow> p_realloc ?p \<or> p_noalloc ?p"
      by (simp_all add: t)
    have C: "?C \<longrightarrow> printable x \<and> able (Some (False, length t + 3)) ?p" by (auto simp: able_def m numeral_2_eq_2)
    obtain ok p where p: "print_value fo x ?p = Some (ok, p)" "ok \<Longrightarrow> printable x" "?C \<Longrightarrow> ok" "ok \<Longrightarrow> written ?g fmt 0 p [] t"
      using print_value_start [OF assms(1) start C refl] by auto
    show ?thesis
    proof (cases ok)
      case False
      then have "print_block fo realloc mem fmt x = Some None" using p(1) Some by (simp add: print_block_def)
      moreover have "\<not> ?C" using p(3) False by blast
      ultimately show ?thesis by blast
    next
      case True
      obtain q where q: "update_offset p = Some q" "emitted ?g fmt 0 q t"
        using update_offset_written [OF p(4) [OF True]] by auto
      obtain buf where b: "p_buffer p = Some buf" "length t + 1 \<le> p_length p" "p_length p \<le> length buf"
          "take (length t + 1) buf = map Some (t @ [0])"
        using written_buffer [OF p(4) [OF True]] by auto
      have same: "p_buffer q = Some buf" "p_length q = p_length p" "p_offset q = length t"
        using update_offset_same [OF q(1)] emitted_offset [OF q(2)] b by simp_all
      have "take (length t) buf = take (length t) (take (length t + 1) buf)" by simp
      then have b': "take (length t) buf = map Some t" unfolding b(4) by simp
      have m: "?C \<Longrightarrow> 0 < p_mem q" using q(2) by (auto simp: filled_def able_def)
      have "\<exists>r. print_block fo realloc mem fmt x = Some r \<and> (alloc (p_mem q) \<noteq> None \<longrightarrow> r = Some (map Some (t @ [0])))
          \<and> (alloc (p_mem q) = None \<longrightarrow> r = None)"
        using p(1) True Some q(1) same b b' by (cases "alloc (p_mem q)") (simp_all add: print_block_def Let_def min_def)
      then obtain r where r: "print_block fo realloc mem fmt x = Some r" "alloc (p_mem q) \<noteq> None \<longrightarrow> r = Some (map Some (t @ [0]))"
        "alloc (p_mem q) = None \<longrightarrow> r = None" by (elim exE conjE) (rule that)
      have "\<forall>block. r = Some block \<longrightarrow> block = map Some (t @ [0])" using r(2,3) by (cases "alloc (p_mem q)") simp_all
      moreover have "0 < p_mem q \<Longrightarrow> r \<noteq> None" using r(2) by (simp add: alloc_def)
      with m have "?C \<longrightarrow> r \<noteq> None" by blast
      ultimately show ?thesis using p(2) [OF True] r(1) by blast
    qed
  qed
qed

text \<open>
  C16. Printing returns the text. For every item whose strings end at their NUL and whose numbers fit
  26 bytes, \<open>cJSON_Print\<close> and \<open>cJSON_PrintUnformatted\<close> never leave the blocks they allocate, and
  the block they return holds exactly the text of the item and a NUL. They return one whenever the
  types are valid, the text fits an \<open>int\<close> and there are enough allocations to double the first 256 bytes
  up to its length.
\<close>

theorem print_returns_text:
  assumes "sound fo x" and t: "t = json_text fo fmt 0 x"
  shows "\<exists>r. (if fmt then cJSON_Print else cJSON_PrintUnformatted) fo realloc mem (Some x) = Some r
    \<and> (\<forall>block. r = Some block \<longrightarrow> printable x \<and> block = map Some (t @ [0]))
    \<and> (printable x \<and> length t + 3 \<le> INT_MAX \<and> 2 \<le> mem \<and> length t + 3 \<le> 256 * 2 ^ (mem - 2) \<longrightarrow> r \<noteq> None)"
  using print_block_result [OF assms, of realloc mem] by (cases fmt) (simp_all only: cJSON_Print_def cJSON_PrintUnformatted_def option.case if_True if_False)

text \<open>An array with a string, a number and an object, for the examples.\<close>

definition sample_item :: "int cJSON" where
  "sample_item = (let d = \<lparr>jtype = 0, valuestring = None, valueint = 0, valuedouble = 0, jstring = None\<rparr> in
     Item (d\<lparr>jtype := 32\<rparr>) [Item (d\<lparr>jtype := 16, valuestring := Some [97, 10, 34]\<rparr>) [],
       Item (d\<lparr>jtype := 64\<rparr>) [Item (d\<lparr>jtype := 2, valueint := -7, jstring := Some [107]\<rparr>) []]])"

lemma sample_sound: "sound whole_ops sample_item" "printable sample_item"
  by code_simp+

definition sample_text :: "byte list" where
  "sample_text = [91, 34, 97, 92, 110, 92, 34, 34, 44, 123, 34, 107, 34, 58, 45, 55, 125, 93]"

lemma sample_text: "json_text whole_ops False 0 sample_item = sample_text"
  by code_simp

lemma sample_text_formatted:
  "json_text whole_ops True 0 sample_item = [91, 34, 97, 92, 110, 92, 34, 34, 44, 32, 123, 10, 9, 9, 34, 107, 34, 58, 9, 45, 55, 10, 9, 125, 93]"
  by code_simp

theorem print_returns_text_witness:
  "\<exists>r. (if False then cJSON_Print else cJSON_PrintUnformatted) whole_ops True 5 (Some sample_item) = Some r
    \<and> (\<forall>block. r = Some block \<longrightarrow> printable sample_item \<and> block = map Some (sample_text @ [0]))
    \<and> (printable sample_item \<and> length sample_text + 3 \<le> INT_MAX \<and> 2 \<le> (5 :: nat) \<and>
         length sample_text + 3 \<le> 256 * 2 ^ (5 - 2) \<longrightarrow> r \<noteq> None)"
  by (rule print_returns_text) (simp_all only: sample_sound sample_text)

text \<open>
  C17. Printing into a buffer of the caller stays in it. Whatever the type, the shape and the size
  of the item, \<open>cJSON_PrintPreallocated\<close> does not touch a byte behind the first \<open>length\<close> ones; when
  it succeeds, the buffer begins with the text of the item and a NUL; and two bytes more than these
  need are enough for it to succeed, if all types are valid. Hypotheses: strings and keys end at their NUL, numbers print in
  fewer than 26 bytes without a NUL, the length is not negative and at most that of the buffer.
\<close>

theorem print_preallocated_in_bounds:
  assumes "sound fo x" and t: "t = json_text fo fmt 0 x" and len: "0 \<le> len" "len \<le> int INT_MAX" "nat len \<le> length buf"
  shows "\<exists>ok out. cJSON_PrintPreallocated fo realloc mem (Some x) (Some buf) len fmt = Some (ok, out)
    \<and> (ok \<longrightarrow> printable x \<and> (\<exists>bs. out = Some bs \<and> take (length t + 1) bs = map Some (t @ [0])))
    \<and> (printable x \<and> length t + 3 \<le> nat len \<longrightarrow> ok)"
proof -
  let ?p = "\<lparr>p_buffer = Some buf, p_length = nat len, p_offset = 0, p_depth = 0,
    p_noalloc = True, p_format = fmt, p_realloc = realloc, p_mem = mem\<rparr>"
  let ?C = "printable x \<and> length t + 3 \<le> nat len"
  have start: "t = json_text fo (p_format ?p) (p_depth ?p) x" "p_buffer ?p = Some buf"
    "p_length ?p \<le> length buf" "p_offset ?p = 0" "p_length ?p = 0 \<longrightarrow> p_realloc ?p \<or> p_noalloc ?p"
    using len by (simp_all add: t)
  have C: "?C \<longrightarrow> printable x \<and> able (Some (True, length t + 3)) ?p" using len(1,2) by (auto simp: able_def)
  obtain ok p where p: "print_value fo x ?p = Some (ok, p)" "ok \<Longrightarrow> printable x" "?C \<Longrightarrow> ok"
    "ok \<Longrightarrow> written (if ?C then Some (True, length t + 3) else None) fmt 0 p [] t"
    using print_value_start [OF assms(1) start C refl] by auto
  have "cJSON_PrintPreallocated fo realloc mem (Some x) (Some buf) len fmt = Some (ok, p_buffer p)"
    using p(1) len(1) by (simp add: cJSON_PrintPreallocated_def)
  moreover have "ok \<Longrightarrow> \<exists>bs. p_buffer p = Some bs \<and> take (length t + 1) bs = map Some (t @ [0])"
    using written_buffer [OF p(4)] by auto
  ultimately show ?thesis using p(2,3) by blast
qed

theorem print_preallocated_in_bounds_witness:
  "\<exists>ok out. cJSON_PrintPreallocated whole_ops True 0 (Some sample_item) (Some (replicate 30 None)) 20 True = Some (ok, out)
    \<and> (ok \<longrightarrow> printable sample_item \<and> (\<exists>bs. out = Some bs \<and>
        take (length (json_text whole_ops True 0 sample_item) + 1) bs = map Some (json_text whole_ops True 0 sample_item @ [0])))
    \<and> (printable sample_item \<and> length (json_text whole_ops True 0 sample_item) + 3 \<le> nat 20 \<longrightarrow> ok)"
  by (rule print_preallocated_in_bounds) (simp_all add: sample_sound INT_MAX_def)

end
