(* ===== verification/JsonRoundTrip.thy ===== *)
theory JsonRoundTrip
  imports JsonPrintText
begin

section \<open>What is printed is parsed back\<close>

text \<open>
  The parser on the text of an item. \<open>reread\<close> is the item it builds: the flags of the type are
  gone, a boolean is \<open>0\<close> or \<open>1\<close>, a string that was a null pointer is empty, a number that is not finite has become
  \<open>null\<close>, and one whose text has neither a point nor an exponent an integer.
\<close>

definition read_number :: "('f, 'a) num_ops_scheme \<Rightarrow> 'f item_data \<Rightarrow> byte list \<Rightarrow> 'f item_data" where
  "read_number fo d t = d\<lparr>valuedouble := fo_atof fo t, jtype := if is_integer t then cJSON_Int else cJSON_Number,
     valueint := if is_integer t then strtoll t else (case to_ll fo (fo_atof fo t) of Some v \<Rightarrow> v | None \<Rightarrow> 0)\<rparr>"

abbreviation text_of :: "byte list option \<Rightarrow> byte list" where
  "text_of s \<equiv> (case s of None \<Rightarrow> [] | Some bs \<Rightarrow> bs)"

definition new_item :: "('f, 'a) float_ops_scheme \<Rightarrow> byte list option \<Rightarrow> 'f item_data" where
  "new_item fo key = (cJSON_New_Item fo)\<lparr>jstring := key\<rparr>"

fun reread :: "('f, 'a) num_ops_scheme \<Rightarrow> byte list option \<Rightarrow> 'f cJSON \<Rightarrow> 'f cJSON" where
  "reread fo key (Item d cs) = (let n = new_item fo key in
     if type_of d = cJSON_Bool then Item (n\<lparr>jtype := cJSON_Bool, valueint := if valueint d \<noteq> 0 then 1 else 0\<rparr>) []
     else if (type_of d = cJSON_Int \<or> type_of d = cJSON_Number) \<and> number_text fo d \<noteq> lit ''null''
     then Item (read_number fo n (number_text fo d)) []
     else if type_of d = cJSON_String then Item (n\<lparr>jtype := cJSON_String, valuestring := Some (text_of (valuestring d))\<rparr>) []
     else if type_of d = cJSON_Array then Item (n\<lparr>jtype := cJSON_Array\<rparr>) (map (reread fo None) cs)
     else if type_of d = cJSON_Object
     then Item (n\<lparr>jtype := cJSON_Object\<rparr>) (map (\<lambda>c. reread fo (Some (text_of (jstring (item c)))) c) cs)
     else Item (n\<lparr>jtype := cJSON_NULL\<rparr>) [])"

text \<open>A number text the parser takes as a whole.\<close>

definition json_number :: "('f, 'a) num_ops_scheme \<Rightarrow> byte list \<Rightarrow> bool" where
  "json_number fo t \<longleftrightarrow> t \<noteq> [] \<and> (c_isdigit (hd t) \<or> hd t = 45) \<and> (\<forall>c \<in> set t. number_char c) \<and> length t \<le> 63 \<and>
     strtod_len t = length t \<and> (if is_integer t then strtoll_len t \<noteq> 0 else to_ll fo (fo_atof fo t) \<noteq> None)"

fun rereadable :: "('f, 'a) num_ops_scheme \<Rightarrow> 'f cJSON \<Rightarrow> bool" where
  "rereadable fo (Item d cs) \<longleftrightarrow>
     type_of d \<in> {cJSON_NULL, cJSON_Bool, cJSON_Int, cJSON_Number, cJSON_String, cJSON_Array, cJSON_Object} \<and>
     (type_of d = cJSON_Int \<or> type_of d = cJSON_Number \<longrightarrow> number_text fo d = lit ''null'' \<or> json_number fo (number_text fo d)) \<and>
     c_string (valuestring d) \<and> c_string (jstring d) \<and> list_all (rereadable fo) cs"

text \<open>How deep an item nests, and the allocations the parser makes for it but its own node.\<close>

fun nest :: "'f cJSON \<Rightarrow> nat" where
  "nest (Item d cs) = (if type_of d = cJSON_Array \<or> type_of d = cJSON_Object then Suc (foldr (\<lambda>c. max (nest c)) cs 0) else 0)"

fun allocs :: "'f cJSON \<Rightarrow> nat" where
  "allocs (Item d cs) = (if type_of d = cJSON_String then 1
     else if type_of d = cJSON_Array then sum_list (map (\<lambda>c. 1 + allocs c) cs)
     else if type_of d = cJSON_Object then sum_list (map (\<lambda>c. 2 + allocs c) cs) else 0)"

subsection \<open>Single tokens\<close>

lemma new_item_type [simp]: "(new_item fo k)\<lparr>jtype := 0\<rparr> = new_item fo k"
  by (simp add: new_item_def cJSON_New_Item_def)

lemma new_item_simps [simp]: "(new_item fo k)\<lparr>jstring := k'\<rparr> = new_item fo k'"
  "jstring (new_item fo k) = k" "valuestring (new_item fo k) = None"
  by (simp_all add: new_item_def cJSON_New_Item_def)

lemma parse_number_text:
  assumes "wf_buf b" and "rest b = t @ r" and "r = [] \<or> \<not> number_char (hd r)" and "json_number fo t"
  shows "parse_number fo d b = Some (True, read_number fo d t, b\<lparr>offset := offset b + length t\<rparr>)"
  using number_chars_text [OF assms(1,2) _ _ assms(3)] assms(4)
  by (auto simp: parse_number_def Let_def json_number_def read_number_def split: option.splits if_splits)

text \<open>A value begins with a byte that is neither a blank nor a closing bracket.\<close>

definition starts :: "byte list \<Rightarrow> bool" where
  "starts t \<longleftrightarrow> t \<noteq> [] \<and> \<not> blank (hd t) \<and> hd t \<noteq> 93 \<and> hd t \<noteq> 0xEF"

lemma starts_literals: "starts (lit ''null'')" "starts (lit ''true'')" "starts (lit ''false'')"
  by (simp_all add: starts_def lit_def blank_def)

lemma json_number_starts: "json_number fo t \<Longrightarrow> starts t"
proof -
  have "c_isdigit c \<or> c = 45 \<Longrightarrow> \<not> blank c \<and> c \<noteq> 93 \<and> c \<noteq> 0xEF" for c
    by (auto simp: c_isdigit_def blank_def word_le_nat_alt)
  then show "json_number fo t \<Longrightarrow> starts t" by (auto simp: json_number_def starts_def)
qed

lemma rereadable_types:
  assumes "rereadable fo (Item d cs)"
  obtains "type_of d = cJSON_NULL" | "type_of d = cJSON_Bool" | "type_of d = cJSON_Int \<or> type_of d = cJSON_Number"
    | "type_of d = cJSON_String" | "type_of d = cJSON_Array" | "type_of d = cJSON_Object"
  using assms by auto

lemma json_text_starts:
  assumes "rereadable fo (Item d cs)"
  shows "starts (json_text fo fmt dep (Item d cs))"
  using assms
proof (cases rule: rereadable_types [OF assms])
  case 3
  then show ?thesis using assms starts_literals(1) json_number_starts by (auto simp: json_types)
qed (simp_all add: json_types starts_literals, simp_all add: starts_def blank_def string_text_def)

lemma looking_at_other:
  assumes "wf_buf b" and "rest b = c # r"
  shows "c \<noteq> 110 \<Longrightarrow> looking_at b (lit ''null'') = Some False" "c \<noteq> 102 \<Longrightarrow> looking_at b (lit ''false'') = Some False"
    "c \<noteq> 116 \<Longrightarrow> looking_at b (lit ''true'') = Some False"
  using assms(2) looking_at_rest [OF assms(1)] by (simp_all add: lit_def)

lemmas parse_value_Suc = parse_value.simps(2)
declare parse_value.simps [simp del]

subsection \<open>Moving through the input\<close>

definition after :: "nat \<Rightarrow> nat \<Rightarrow> parse_buffer \<Rightarrow> parse_buffer" where
  "after n k b = b\<lparr>offset := offset b + n, pmem := pmem b - k\<rparr>"

lemma after_simps [simp]: "rest (after n k b) = drop n (rest b)" "pmem (after n k b) = pmem b - k" "depth (after n k b) = depth b"
  "after m j (after n k b) = after (n + m) (k + j) b" "after 0 0 b = b" "offset (after n k b) = offset b + n" "blength (after n k b) = blength b"
  by (simp_all add: after_def rest_def add.commute)

lemma after_forward: "forward n b = after n 0 b" "forward n (after m k b) = after (m + n) k b"
  by (simp_all add: after_def forward_def)

lemma after_wf: "wf_buf b \<Longrightarrow> n \<le> length (rest b) \<Longrightarrow> wf_buf (after n k b)"
  using wf_advance [of b n] by (simp add: after_def)

lemma after_close: "close_bracket (after n k (b\<lparr>depth := depth b + 1\<rparr>)) = after (n + 1) k b"
  by (simp add: after_def close_bracket_def)

lemma after_back: "step_back (after (Suc n) 0 b) = after n 0 b"
  by (simp_all add: after_def step_back_def)

lemma skip_to:
  assumes "wf_buf b" and "rest b = ws @ c # r" and "\<forall>w \<in> set ws. blank w" and "\<not> blank c"
  shows "buffer_skip_whitespace b = Some (after (length ws) 0 b)"
  using skip_ws_to [OF assms] by (simp add: after_def)

lemma look_at: "wf_buf b \<Longrightarrow> rest b = c # r \<Longrightarrow> look b = Some (Some c)"
  by (simp add: look_rest)

subsection \<open>Values\<close>

lemma parse_value_null: "wf_buf b \<Longrightarrow> rest b = lit ''null'' @ r \<Longrightarrow> parse_value fo (Suc n) d b = Some (True, Item (d\<lparr>jtype := cJSON_NULL\<rparr>) [], after 4 0 b)"
  using looking_at_rest [OF _ literals_no_NUL(1), of b] by (simp add: after_forward parse_value_Suc)

lemma parse_value_false:
  assumes "wf_buf b" and "rest b = lit ''false'' @ r"
  shows "parse_value fo (Suc n) d b = Some (True, Item (d\<lparr>jtype := cJSON_Bool, valueint := 0\<rparr>) [], after 5 0 b)"
proof -
  have "rest b = 102 # [97, 108, 115, 101] @ r" using assms(2) by (simp add: lit_def)
  from looking_at_other(1) [OF assms(1) this] assms looking_at_rest [OF assms(1) literals_no_NUL(2)]
  show ?thesis by (simp add: after_forward parse_value_Suc)
qed

lemma parse_value_true:
  assumes "wf_buf b" and "rest b = lit ''true'' @ r"
  shows "parse_value fo (Suc n) d b = Some (True, Item (d\<lparr>jtype := cJSON_Bool, valueint := 1\<rparr>) [], after 4 0 b)"
proof -
  have "rest b = 116 # [114, 117, 101] @ r" using assms(2) by (simp add: lit_def)
  from looking_at_other(1,2) [OF assms(1) this] assms looking_at_rest [OF assms(1) literals_no_NUL(3)]
  show ?thesis by (simp add: after_forward parse_value_Suc)
qed

lemma parse_value_dispatch:
  assumes "wf_buf b" and "rest b = c # r" and "c = 34 \<or> c = 91 \<or> c = 123 \<or> c = 45 \<or> c_isdigit c"
  shows "parse_value fo (Suc n) d b =
    (if c = 34 then do { (ok, d, b) \<leftarrow> parse_string d b; Some (ok, Item d [], b) }
     else if c = 91 then parse_array fo n d b else if c = 123 then parse_object fo n d b
     else do { (ok, d, b) \<leftarrow> parse_number fo d b; Some (ok, Item d [], b) })"
proof -
  have c: "c \<noteq> 110" "c \<noteq> 102" "c \<noteq> 116" using assms(3) by (auto simp: c_isdigit_def word_le_nat_alt)
  have "looking_at b (lit ''null'') = Some False" "looking_at b (lit ''false'') = Some False" "looking_at b (lit ''true'') = Some False"
    using looking_at_other [OF assms(1,2)] c by simp_all
  moreover have "c_isdigit c \<Longrightarrow> c \<noteq> 34 \<and> c \<noteq> 91 \<and> c \<noteq> 123 \<and> 48 \<le> c \<and> c \<le> 57" by (auto simp: c_isdigit_def word_le_nat_alt)
  ultimately show ?thesis using assms(3) look_at [OF assms(1,2)] by (auto simp: parse_value_Suc)
qed

lemma parse_value_kinds:
  assumes "wf_buf b"
  shows "rest b = 34 # r \<Longrightarrow> parse_value fo (Suc n) d b = do { (ok, d, b) \<leftarrow> parse_string d b; Some (ok, Item d [], b) }"
    and "rest b = 91 # r \<Longrightarrow> parse_value fo (Suc n) d b = parse_array fo n d b"
    and "rest b = 123 # r \<Longrightarrow> parse_value fo (Suc n) d b = parse_object fo n d b"
    and "rest b = c # r \<Longrightarrow> c = 45 \<or> c_isdigit c \<Longrightarrow> parse_value fo (Suc n) d b = do { (ok, d, b) \<leftarrow> parse_number fo d b; Some (ok, Item d [], b) }"
proof -
  have "c = 45 \<or> c_isdigit c \<Longrightarrow> c \<noteq> 34 \<and> c \<noteq> 91 \<and> c \<noteq> 123" by (auto simp: c_isdigit_def word_le_nat_alt)
  then show "rest b = c # r \<Longrightarrow> c = 45 \<or> c_isdigit c \<Longrightarrow> parse_value fo (Suc n) d b = do { (ok, d, b) \<leftarrow> parse_number fo d b; Some (ok, Item d [], b) }"
    by (subst parse_value_dispatch [OF assms, of c r]) auto
qed (subst parse_value_dispatch [OF assms], assumption, simp_all)+

lemma parse_value_number:
  assumes "wf_buf b" and "rest b = t @ c # r" and "\<not> number_char c" and "json_number fo t"
  shows "parse_value fo (Suc n) d b = Some (True, Item (read_number fo d t) [], after (length t) 0 b)"
proof -
  obtain h u where t: "t = h # u" and h: "h = 45 \<or> c_isdigit h" using assms(4) by (cases t) (auto simp: json_number_def)
  have "parse_number fo d b = Some (True, read_number fo d t, after (length t) 0 b)"
    using parse_number_text [OF assms(1,2) _ assms(4)] assms(3) by (simp add: after_def)
  moreover have "rest b = h # (u @ c # r)" using assms(2) t by simp
  ultimately show ?thesis by (subst parse_value_kinds(4) [OF assms(1) _ h]) simp_all
qed

lemma parse_value_string:
  assumes "wf_buf b" and "rest b = string_text s @ r" and "0 \<notin> set s" and "0 < pmem b"
  shows "parse_value fo (Suc n) d b = Some (True, Item (d\<lparr>jtype := cJSON_String, valuestring := Some s\<rparr>) [], after (length (string_text s)) 1 b)"
proof -
  have "rest b = 34 # escape_text s @ 34 # r" using assms(2) by (simp add: string_text_def)
  then show ?thesis using parse_string_text [OF assms, of d]
    by (subst parse_value_kinds(1) [OF assms(1)]) (simp_all add: after_def)
qed

lemma parse_value_array:
  assumes "wf_buf b" and "rest b = 91 # es @ 93 # r" and "depth b < CJSON_NESTING_LIMIT"
    and "es \<noteq> [] \<Longrightarrow> starts es"
    and "es \<noteq> [] \<Longrightarrow> parse_elements fo n (b\<lparr>depth := depth b + 1\<rparr>) = Some (True, xs, after (1 + length es) k (b\<lparr>depth := depth b + 1\<rparr>))"
    and "es = [] \<Longrightarrow> xs = [] \<and> k = 0"
  shows "parse_value fo (Suc (Suc n)) d b = Some (True, Item (d\<lparr>jtype := cJSON_Array\<rparr>) xs, after (length es + 2) k b)"
proof -
  let ?b = "b\<lparr>depth := depth b + 1\<rparr>"
  have w: "wf_buf ?b" "rest ?b = 91 # es @ 93 # r" "wf_buf (after 1 0 ?b)" using assms(1,2) after_wf [of ?b 1 0] by simp_all
  have p: "peek ?b 0 = Some 91" using peek_rest [OF w(1), of 0] w(2) by simp
  have e: "parse_value fo (Suc (Suc n)) d b = parse_array fo (Suc n) d b" using assms(2) by (rule parse_value_kinds(2) [OF assms(1)])
  have arr: "parse_array fo (Suc n) d b = (let b = ?b in
     do { b \<leftarrow> buffer_skip_whitespace (forward 1 b); l \<leftarrow> look b;
        if l = Some 93 then Some (True, Item (d\<lparr>jtype := cJSON_Array\<rparr>) [], close_bracket b)
        else if l = None then Some (False, Item d [], step_back b)
        else do { (ok, xs, b) \<leftarrow> parse_elements fo n (step_back b);
          if \<not> ok then Some (False, Item d [], b)
          else do { l \<leftarrow> look b; if l \<noteq> Some 93 then Some (False, Item d [], b)
            else Some (True, Item (d\<lparr>jtype := cJSON_Array\<rparr>) xs, close_bracket b) } } })"
    using p assms(3) by (simp add: Let_def)
  show ?thesis
  proof (cases "es = []")
    case True
    have "buffer_skip_whitespace (after 1 0 ?b) = Some (after 1 0 ?b)" using skip_to [OF w(3), of "[]" 93 r] w(2) True by (simp add: blank_def)
    moreover have "look (after 1 0 ?b) = Some (Some 93)" using look_at [OF w(3)] w(2) True by simp
    ultimately show ?thesis unfolding e arr Let_def using assms(6) True after_close [of 1 0 b] by (simp add: after_forward)
  next
    case False
    then obtain c u where c: "es = c # u" "\<not> blank c" "c \<noteq> 93" using assms(4) by (cases es) (auto simp: starts_def)
    have "buffer_skip_whitespace (after 1 0 ?b) = Some (after 1 0 ?b)" using skip_to [OF w(3), of "[]" c "u @ 93 # r"] w(2) c by simp
    moreover have "look (after 1 0 ?b) = Some (Some c)" using look_at [OF w(3), of c] w(2) c by simp
    moreover have "look (after (1 + length es) k ?b) = Some (Some 93)" using w after_wf [OF w(1)] by (intro look_at [where r = r]) simp_all
    ultimately show ?thesis unfolding e arr Let_def using assms(5) False c(3) after_close [of "1 + length es" k b] after_back [of 0 ?b]
      by (simp add: after_forward)
  qed
qed


lemma parse_value_object:
  assumes "wf_buf b" and "rest b = 123 # ws @ body @ 125 # r" and "depth b < CJSON_NESTING_LIMIT" and ws: "\<forall>w \<in> set ws. blank w"
    and "body \<noteq> [] \<Longrightarrow> hd body = 34"
    and ms: "body \<noteq> [] \<Longrightarrow> parse_members fo n (after (length ws) 0 (b\<lparr>depth := depth b + 1\<rparr>)) =
      Some (True, xs, after (1 + length ws + length body) k (b\<lparr>depth := depth b + 1\<rparr>))"
    and "body = [] \<Longrightarrow> xs = [] \<and> k = 0"
  shows "parse_value fo (Suc (Suc n)) d b = Some (True, Item (d\<lparr>jtype := cJSON_Object\<rparr>) xs, after (length ws + length body + 2) k b)"
proof -
  let ?b = "b\<lparr>depth := depth b + 1\<rparr>"
  have w: "wf_buf ?b" "rest ?b = 123 # ws @ body @ 125 # r" "wf_buf (after 1 0 ?b)" using assms(1,2) after_wf [of ?b 1 0] by simp_all
  have e: "parse_value fo (Suc (Suc n)) d b = parse_object fo (Suc n) d b" using assms(2) by (rule parse_value_kinds(3) [OF assms(1)])
  have obj: "parse_object fo (Suc n) d b = (let b = ?b in
     do { b \<leftarrow> buffer_skip_whitespace (forward 1 b); l \<leftarrow> look b;
        if l = Some 125 then Some (True, Item (d\<lparr>jtype := cJSON_Object\<rparr>) [], close_bracket b)
        else if l = None then Some (False, Item d [], step_back b)
        else do { (ok, xs, b) \<leftarrow> parse_members fo n (step_back b);
          if \<not> ok then Some (False, Item d [], b)
          else do { l \<leftarrow> look b; if l \<noteq> Some 125 then Some (False, Item d [], b)
            else Some (True, Item (d\<lparr>jtype := cJSON_Object\<rparr>) xs, close_bracket b) } } })"
    using look_at [OF w(1,2)] assms(3) by (simp add: Let_def)
  have skip: "buffer_skip_whitespace (after 1 0 ?b) = Some (after (1 + length ws) 0 ?b)"
    and at: "look (after (1 + length ws) 0 ?b) = Some (Some c)" if c: "body @ [125] = c # v" "\<not> blank c" for c v
  proof -
    have br: "body @ 125 # r = c # v @ r" using c(1) by (metis append.assoc append_Cons append_Nil)
    then have "rest (after 1 0 ?b) = ws @ c # v @ r" using w(2) by simp
    from skip_to [OF w(3) this ws c(2)] show "buffer_skip_whitespace (after 1 0 ?b) = Some (after (1 + length ws) 0 ?b)" by simp
    have "wf_buf (after (1 + length ws) 0 ?b)" using w(2) by (intro after_wf [OF w(1)]) simp
    moreover have "rest (after (1 + length ws) 0 ?b) = c # v @ r" using w(2) br by simp
    ultimately show "look (after (1 + length ws) 0 ?b) = Some (Some c)" by (rule look_at)
  qed
  show ?thesis
  proof (cases "body = []")
    case True
    have "buffer_skip_whitespace (after 1 0 ?b) = Some (after (1 + length ws) 0 ?b)" "look (after (1 + length ws) 0 ?b) = Some (Some 125)"
      using skip [of 125 "[]"] at [of 125 "[]"] True by (simp_all add: blank_def)
    then show ?thesis unfolding e obj Let_def using assms(7) True after_close [of "1 + length ws" 0 b] by (simp add: after_forward)
  next
    case False
    then obtain u where u: "body = 34 # u" using assms(5) by (cases body) auto
    then have "buffer_skip_whitespace (after 1 0 ?b) = Some (after (1 + length ws) 0 ?b)" "look (after (1 + length ws) 0 ?b) = Some (Some 34)"
      using skip [of 34 "u @ [125]"] at [of 34 "u @ [125]"] by (simp_all add: blank_def)
    moreover have "look (after (1 + length ws + length body) k ?b) = Some (Some 125)"
      using w after_wf [OF w(1)] by (intro look_at [where r = r]) simp_all
    ultimately show ?thesis unfolding e obj Let_def using ms False after_close [of "1 + length ws + length body" k b] after_back [of "length ws" ?b]
      by (simp add: after_forward)
  qed
qed

subsection \<open>Elements and members\<close>

lemma parse_string_after:
  assumes "wf_buf b" and "rest b = string_text s @ r" and "0 \<notin> set s" and "0 < pmem b"
  shows "parse_string d b = Some (True, d\<lparr>jtype := cJSON_String, valuestring := Some s\<rparr>, after (length (string_text s)) 1 b)"
  using parse_string_text [OF assms] by (simp add: after_def)

lemma parse_elements_turn:
  assumes w: "wf_buf b" and r: "rest b = a # ws @ t @ c # r" and ws: "\<forall>w \<in> set ws. blank w" and t: "starts t" and c: "\<not> blank c"
    and m: "0 < pmem b"
    and v: "parse_value fo n (new_item fo None) (after (1 + length ws) 1 b) = Some (True, x, after (1 + length ws + length t) (1 + k) b)"
  shows "parse_elements fo (Suc n) b = (let b' = after (1 + length ws + length t) (1 + k) b in
    if c = 44 then do { (ok, xs, b) \<leftarrow> parse_elements fo n b'; Some (ok, x # xs, b) } else Some (True, [x], b'))"
proof -
  obtain h u where h: "t = h # u" "\<not> blank h" using t by (cases t) (auto simp: starts_def)
  have w1: "wf_buf (after 1 1 b)" and w2: "wf_buf (after (1 + length ws + length t) (1 + k) b)"
    using r after_wf [OF w] by simp_all
  have "b\<lparr>pmem := pmem b - 1\<rparr> = after 0 1 b" by (simp add: after_def)
  then have f: "forward 1 (b\<lparr>pmem := pmem b - 1\<rparr>) = after 1 1 b" by (simp add: after_forward)
  have s1: "buffer_skip_whitespace (after 1 1 b) = Some (after (1 + length ws) 1 b)"
    using skip_to [OF w1 _ ws h(2), of "u @ c # r"] r h by simp
  have s2: "buffer_skip_whitespace (after (1 + length ws + length t) (1 + k) b) = Some (after (1 + length ws + length t) (1 + k) b)"
    using skip_to [OF w2, of "[]" c r] r c by simp
  have l: "look (after (1 + length ws + length t) (1 + k) b) = Some (Some c)" using r by (intro look_at [OF w2, of c r]) simp
  have n: "cJSON_New_Item fo = new_item fo None" by (simp add: new_item_def cJSON_New_Item_def)
  show ?thesis using m f s1 s2 l v by (simp add: alloc_def n Let_def)
qed

lemma parse_members_turn:
  assumes w: "wf_buf b" and r: "rest b = a # ws @ string_text s @ 58 # ws1 @ t @ ws2 @ c # r" and s: "0 \<notin> set s"
    and ws: "\<forall>w \<in> set ws. blank w" "\<forall>w \<in> set ws1. blank w" "\<forall>w \<in> set ws2. blank w" and t: "starts t" and c: "\<not> blank c" and m: "2 \<le> pmem b"
    and i: "i = 1 + length ws + length (string_text s) + 1 + length ws1" and j: "j = i + length t"
    and v: "parse_value fo n ((new_item fo (Some s))\<lparr>jtype := cJSON_String\<rparr>) (after i 2 b) = Some (True, x, after j (2 + k) b)"
  shows "parse_members fo (Suc n) b = (let b' = after (j + length ws2) (2 + k) b in
    if c = 44 then do { (ok, xs, b) \<leftarrow> parse_members fo n b'; Some (ok, x # xs, b) } else Some (True, [x], b'))"
proof -
  let ?k = "1 + length ws + length (string_text s)"
  obtain h u where h: "t = h # u" "\<not> blank h" using t by (cases t) (auto simp: starts_def)
  have w': "wf_buf (after q z b)" if "q \<le> j + length ws2" for q z using r j i that by (intro after_wf [OF w]) simp
  have "b\<lparr>pmem := pmem b - 1\<rparr> = after 0 1 b" by (simp add: after_def)
  then have f: "forward 1 (b\<lparr>pmem := pmem b - 1\<rparr>) = after 1 1 b" by (simp add: after_forward)
  have n: "cJSON_New_Item fo = new_item fo None" by (simp add: new_item_def cJSON_New_Item_def)
  have s1: "buffer_skip_whitespace (after 1 1 b) = Some (after (1 + length ws) 1 b)"
    using skip_to [OF w' _ ws(1), of 1 1 34 "escape_text s @ 34 # 58 # ws1 @ t @ ws2 @ c # r"] r i j by (simp add: string_text_def blank_def)
  have p: "parse_string (new_item fo None) (after (1 + length ws) 1 b) =
      Some (True, (new_item fo None)\<lparr>jtype := cJSON_String, valuestring := Some s\<rparr>, after ?k 2 b)"
    using parse_string_after [OF w' _ s, of "1 + length ws" 1 "58 # ws1 @ t @ ws2 @ c # r"] r i j m by (simp add: numeral_2_eq_2)
  have s2: "buffer_skip_whitespace (after ?k 2 b) = Some (after ?k 2 b)" using skip_to [OF w', of ?k 2 "[]" 58] r i j by (simp add: blank_def)
  have l2: "look (after ?k 2 b) = Some (Some 58)" using r i j by (intro look_at [OF w']) simp_all
  have s3: "buffer_skip_whitespace (after (?k + 1) 2 b) = Some (after i 2 b)"
    using skip_to [OF w' _ ws(2) h(2), of "?k + 1" 2 "u @ ws2 @ c # r"] r i j h by simp
  have s4: "buffer_skip_whitespace (after j (2 + k) b) = Some (after (j + length ws2) (2 + k) b)"
    using skip_to [OF w' _ ws(3) c, of j "2 + k" r] r i j by simp
  have l4: "look (after (j + length ws2) (2 + k) b) = Some (Some c)" using r i j by (intro look_at [OF w']) simp_all
  have d: "(new_item fo None)\<lparr>jtype := cJSON_String, valuestring := Some s, jstring := Some s, valuestring := None\<rparr> = (new_item fo (Some s))\<lparr>jtype := cJSON_String\<rparr>"
    by (simp add: new_item_def cJSON_New_Item_def)
  show ?thesis using m f s1 p s2 l2 s3 s4 l4 v d by (simp add: alloc_def n Let_def after_forward)
qed


subsection \<open>Items\<close>

definition member_body :: "('f, 'a) num_ops_scheme \<Rightarrow> bool \<Rightarrow> nat \<Rightarrow> 'f cJSON list \<Rightarrow> byte list" where
  "member_body fo fmt dep cs = (case cs of [] \<Rightarrow> [] | x # xs \<Rightarrow>
     string_text (text_of (jstring (item x))) @ 58 # (if fmt then [9] else []) @
     json_text fo fmt dep x @ (if xs = [] then [] else [44]) @ (if fmt then [10] else []) @ members_text fo fmt dep xs)"

lemma members_text_body: "cs \<noteq> [] \<Longrightarrow> members_text fo fmt dep cs = (if fmt then tabs dep else []) @ member_body fo fmt dep cs"
  by (cases cs) (simp_all add: member_body_def)

lemma blank_layout: "w \<in> set (tabs n) \<Longrightarrow> blank w" "blank 9" "blank 10" "blank 32"
  by (auto simp: tabs_def blank_def)

lemma max_nest: "foldr (\<lambda>c. max (nest c)) (x # xs) 0 + d \<le> L \<longleftrightarrow> nest x + d \<le> L \<and> foldr (\<lambda>c. max (nest c)) xs 0 + d \<le> L"
  by auto

lemma drop_before: "drop (length ws) (c # ws @ z) = last (c # ws) # z"
  by (induction ws arbitrary: c) auto

lemma after_blanks:
  assumes "\<forall>w \<in> set ws. blank w" and "\<not> number_char c"
  obtains h v where "ws @ c # u = h # v" and "\<not> number_char h"
proof (cases ws)
  case (Cons h v)
  have "blank h \<Longrightarrow> \<not> number_char h" by (auto simp: blank_def number_char_def c_isdigit_def word_le_nat_alt)
  with Cons assms(1) that show thesis by simp
qed (use assms that in simp)

lemma reread_scalar:
  assumes w: "wf_buf b" and x: "rereadable fo (Item d cs)" and r: "rest b = json_text fo fmt dep (Item d cs) @ c # r" and c: "\<not> number_char c"
    and m: "allocs (Item d cs) \<le> pmem b" and t: "type_of d \<noteq> cJSON_Array" "type_of d \<noteq> cJSON_Object"
  shows "parse_value fo (Suc n) ((new_item fo key)\<lparr>jtype := ty\<rparr>) b =
    Some (True, reread fo key (Item d cs), after (length (json_text fo fmt dep (Item d cs))) (allocs (Item d cs)) b)"
  using x
proof (cases rule: rereadable_types [OF x])
  case 1
  then show ?thesis using parse_value_null [OF w, of "c # r" fo] r lit_lengths(1) by (simp add: json_types)
next
  case 2
  then show ?thesis using parse_value_false [OF w, of "c # r" fo] parse_value_true [OF w, of "c # r" fo] r lit_lengths by (simp add: json_types)
next
  case 3
  let ?t = "number_text fo d"
  from 3 have tx: "json_text fo fmt dep (Item d cs) = ?t" "allocs (Item d cs) = 0" by (auto simp: json_types)
  show ?thesis
  proof (cases "?t = lit ''null''")
    case True
    from 3 True have "reread fo key (Item d cs) = Item ((new_item fo key)\<lparr>jtype := cJSON_NULL\<rparr>) []" by (auto simp: json_types)
    then show ?thesis using parse_value_null [OF w, of "c # r" fo] r lit_lengths(1) unfolding tx True by simp
  next
    case False
    from 3 False have "reread fo key (Item d cs) = Item (read_number fo (new_item fo key) ?t) []" by (auto simp: json_types)
    moreover have "json_number fo ?t" using 3 False x by auto
    ultimately show ?thesis using parse_value_number [OF w _ c, of ?t r fo n "(new_item fo key)\<lparr>jtype := ty\<rparr>"] r
      unfolding tx by (simp add: read_number_def)
  qed
next
  case 4
  moreover have "0 \<notin> set (text_of (valuestring d))" using x by (auto simp: c_string_def split: option.splits)
  ultimately show ?thesis using parse_value_string [OF w, of "text_of (valuestring d)" "c # r" fo] r m by (simp add: json_types)
qed (use t in simp_all)

lemma starts_append: "starts t \<Longrightarrow> starts (t @ u)"
  by (auto simp: starts_def)

lemma value_starts: "rereadable fo x \<Longrightarrow> starts (json_text fo fmt dep x)"
  by (cases x) (simp only: json_text_starts)

lemma elements_text_starts: "list_all (rereadable fo) cs \<Longrightarrow> cs \<noteq> [] \<Longrightarrow> starts (elements_text fo fmt dep cs)"
  by (cases cs) (simp_all add: starts_append value_starts)

lemma starts_nonempty: "starts t \<Longrightarrow> t \<noteq> []"
  by (simp add: starts_def)

lemma json_number_char: "\<not> number_char 44" "\<not> number_char 93" "\<not> number_char 125" "\<not> number_char 10" "\<not> number_char 0"
  by (simp_all add: number_char_def c_isdigit_def)

text \<open>The fuel is three times the text, which the array and the object use up with their brackets.\<close>

lemma parse_printed:
  "rereadable fo x \<Longrightarrow> wf_buf b \<Longrightarrow> rest b = json_text fo fmt dep x @ c # r \<Longrightarrow> \<not> number_char c \<Longrightarrow>
     nest x + depth b \<le> CJSON_NESTING_LIMIT \<Longrightarrow> allocs x \<le> pmem b \<Longrightarrow> 3 * length (json_text fo fmt dep x) \<le> n \<Longrightarrow>
     parse_value fo n ((new_item fo key)\<lparr>jtype := ty\<rparr>) b = Some (True, reread fo key x, after (length (json_text fo fmt dep x)) (allocs x) b)"
  "cs \<noteq> [] \<Longrightarrow> list_all (rereadable fo) cs \<Longrightarrow> wf_buf b \<Longrightarrow> rest b = a # ws @ elements_text fo fmt dep cs @ 93 # r \<Longrightarrow> \<forall>w \<in> set ws. blank w \<Longrightarrow>
     foldr (\<lambda>c. max (nest c)) cs 0 + depth b \<le> CJSON_NESTING_LIMIT \<Longrightarrow> sum_list (map (\<lambda>c. 1 + allocs c) cs) \<le> pmem b \<Longrightarrow>
     3 * length (elements_text fo fmt dep cs) + 1 \<le> n \<Longrightarrow>
     parse_elements fo n b = Some (True, map (reread fo None) cs,
       after (1 + length ws + length (elements_text fo fmt dep cs)) (sum_list (map (\<lambda>c. 1 + allocs c) cs)) b)"
  "cs \<noteq> [] \<Longrightarrow> list_all (rereadable fo) cs \<Longrightarrow> wf_buf b \<Longrightarrow> rest b = a # ws @ member_body fo fmt dep cs @ ws2 @ 125 # r \<Longrightarrow>
     \<forall>w \<in> set ws. blank w \<Longrightarrow> \<forall>w \<in> set ws2. blank w \<Longrightarrow>
     foldr (\<lambda>c. max (nest c)) cs 0 + depth b \<le> CJSON_NESTING_LIMIT \<Longrightarrow> sum_list (map (\<lambda>c. 2 + allocs c) cs) \<le> pmem b \<Longrightarrow>
     3 * length (members_text fo fmt dep cs) + 1 \<le> n \<Longrightarrow>
     parse_members fo n b = Some (True, map (\<lambda>c. reread fo (Some (text_of (jstring (item c)))) c) cs,
       after (1 + length ws + length (member_body fo fmt dep cs) + length ws2) (sum_list (map (\<lambda>c. 2 + allocs c) cs)) b)"
proof (induction fo fmt dep x and fo fmt dep cs and fo fmt dep cs arbitrary: b c r n key ty and b a ws r n and b a ws ws2 r n
    rule: json_text_elements_text_members_text.induct)
  case (1 fo fmt dep d cs)
  let ?b = "b\<lparr>depth := depth b + 1\<rparr>"
  consider "type_of d \<noteq> cJSON_Array" "type_of d \<noteq> cJSON_Object" | "type_of d = cJSON_Array" | "type_of d = cJSON_Object" by blast
  then show ?case
  proof cases
    case 1
    have "0 < length (json_text fo fmt dep (Item d cs))" using json_text_starts [OF "1.prems"(1), of fmt dep] by (auto simp: starts_def)
    then obtain m where "n = Suc m" using "1.prems"(7) by (cases n) auto
    then show ?thesis using reread_scalar [OF "1.prems"(2,1,3,4,6) 1] by blast
  next
    case 2
    then have notobj: "type_of d \<noteq> cJSON_NULL" "type_of d \<noteq> cJSON_Bool" "\<not> (type_of d = cJSON_Int \<or> type_of d = cJSON_Number)" "type_of d \<noteq> cJSON_Raw"
      "type_of d \<noteq> cJSON_String" by (simp_all add: json_types)
    let ?es = "elements_text fo fmt (dep + 1) cs"
    have tx: "json_text fo fmt dep (Item d cs) = 91 # ?es @ [93]" using 2 notobj by simp
    obtain m where m: "n = Suc (Suc m)" "3 * length ?es + 1 \<le> m" using "1.prems"(7) unfolding tx by (cases n; cases "n - 1") auto
    have r: "rest b = 91 # ?es @ 93 # c # r" using "1.prems"(3) unfolding tx by simp
    have "cs \<noteq> [] \<Longrightarrow> starts ?es" using "1.prems"(1) by (intro elements_text_starts) simp_all
    then have cs: "?es \<noteq> [] \<longleftrightarrow> cs \<noteq> []" "?es \<noteq> [] \<Longrightarrow> starts ?es" using starts_nonempty by (cases cs; auto)+
    have es: "parse_elements fo m ?b = Some (True, map (reread fo None) cs, after (1 + length ?es) (sum_list (map (\<lambda>c. 1 + allocs c) cs)) ?b)"
      if "?es \<noteq> []"
    proof -
      have p: "list_all (rereadable fo) cs" "foldr (\<lambda>c. max (nest c)) cs 0 + depth ?b \<le> CJSON_NESTING_LIMIT"
        "sum_list (map (\<lambda>c. 1 + allocs c) cs) \<le> pmem ?b"
        using "1.prems"(1,5,6) 2 notobj(5) by simp_all
      have "wf_buf ?b" "rest ?b = 91 # [] @ ?es @ 93 # c # r" using "1.prems"(2) r by simp_all
      from "1.IH"(1) [OF notobj 2 _ p(1) this _ p(2,3) m(2)] that cs(1) show ?thesis by simp
    qed
    have "depth b < CJSON_NESTING_LIMIT" using "1.prems"(5) 2 by simp
    from parse_value_array [OF "1.prems"(2) r this cs(2) es, where d = "(new_item fo key)\<lparr>jtype := ty\<rparr>"] cs(1)
    show ?thesis unfolding tx m(1) using 2 notobj by (simp add: Let_def)
  next
    case 3
    then have notarr: "type_of d \<noteq> cJSON_NULL" "type_of d \<noteq> cJSON_Bool" "\<not> (type_of d = cJSON_Int \<or> type_of d = cJSON_Number)" "type_of d \<noteq> cJSON_Raw"
      "type_of d \<noteq> cJSON_String" "type_of d \<noteq> cJSON_Array" by (simp_all add: json_types)
    let ?nl = "if fmt then [10] else [] :: byte list" and ?tab = "\<lambda>n. if fmt then tabs n else []"
    let ?ms = "members_text fo fmt (dep + 1) cs"
    define ws where "ws = (if cs = [] then ?nl @ ?tab dep else ?nl @ ?tab (dep + 1))"
    define body where "body = (if cs = [] then [] else member_body fo fmt (dep + 1) cs @ ?tab dep)"
    have tx: "json_text fo fmt dep (Item d cs) = 123 # ?nl @ ?ms @ ?tab dep @ [125]" using 3 notarr by simp
    have wb: "?nl @ ?ms @ ?tab dep = ws @ body" using members_text_body [of cs fo fmt "dep + 1"] by (simp add: ws_def body_def)
    then have r: "rest b = 123 # ws @ body @ 125 # c # r" using "1.prems"(3) unfolding tx by simp
    have blanks: "\<forall>w \<in> set ws. blank w" by (auto simp: ws_def blank_layout)
    have hb: "body \<noteq> [] \<longleftrightarrow> cs \<noteq> []" "body \<noteq> [] \<Longrightarrow> hd body = 34"
      by (auto simp: body_def member_body_def string_text_def split: list.splits)
    have len: "length (json_text fo fmt dep (Item d cs)) = length ws + length body + 2"
      using arg_cong [OF wb, of length] unfolding tx by simp
    have "length ?ms \<le> length ws + length body" using arg_cong [OF wb, of length] by simp
    with "1.prems"(7) len obtain m where m: "n = Suc (Suc m)" "3 * length ?ms + 1 \<le> m" by (cases n; cases "n - 1") auto
    have lim: "depth b < CJSON_NESTING_LIMIT" using "1.prems"(5) 3 by simp
    have ms: "parse_members fo m (after (length ws) 0 ?b) = Some (True, map (\<lambda>c. reread fo (Some (text_of (jstring (item c)))) c) cs,
        after (1 + length ws + length body) (sum_list (map (\<lambda>c. 2 + allocs c) cs)) ?b)" if "body \<noteq> []"
    proof -
      have "cs \<noteq> []" using that hb by simp
      obtain a where a: "rest (after (length ws) 0 ?b) = a # [] @ member_body fo fmt (dep + 1) cs @ ?tab dep @ 125 # c # r"
        using r \<open>cs \<noteq> []\<close> drop_before [of ws 123 "body @ 125 # c # r"] that by (simp add: body_def)
      have "wf_buf (after (length ws) 0 ?b)" using "1.prems"(2) r by (intro after_wf) simp_all
      have p: "list_all (rereadable fo) cs" "foldr (\<lambda>c. max (nest c)) cs 0 + depth (after (length ws) 0 ?b) \<le> CJSON_NESTING_LIMIT"
        "sum_list (map (\<lambda>c. 2 + allocs c) cs) \<le> pmem (after (length ws) 0 ?b)"
        using "1.prems"(1,5,6) 3 notarr(5,6) by simp_all
      have "\<forall>w \<in> set (?tab dep). blank w" by (auto simp: blank_layout)
      from "1.IH"(2) [OF notarr 3 \<open>cs \<noteq> []\<close> p(1) \<open>wf_buf (after (length ws) 0 ?b)\<close> a _ this p(2,3) m(2)] show ?thesis
        using \<open>cs \<noteq> []\<close> by (simp add: body_def add.assoc)
    qed
    from parse_value_object [OF "1.prems"(2) r lim blanks hb(2) ms, where d = "(new_item fo key)\<lparr>jtype := ty\<rparr>"] hb(1)
    show ?thesis unfolding len m(1) using 3 notarr by (simp add: Let_def)
  qed
next
  case (3 fo fmt dep x cs)
  let ?t = "json_text fo fmt dep x" and ?sep = "if fmt then [32] else [] :: byte list"
  obtain m where m: "n = Suc m" using "3.prems"(8) by (cases n) auto
  define c where "c = (if cs = [] then 93 else 44 :: byte)"
  define u where "u = (if cs = [] then r else ?sep @ elements_text fo fmt dep cs @ 93 # r)"
  have r: "rest b = a # ws @ ?t @ c # u" using "3.prems"(4) by (simp add: c_def u_def)
  have w: "wf_buf (after k i b)" if "k \<le> 1 + length ws + length ?t" for k i using r that by (intro after_wf [OF "3.prems"(3)]) simp
  have v: "parse_value fo m (new_item fo None) (after (1 + length ws) 1 b) = Some (True, reread fo None x, after (1 + length ws + length ?t) (1 + allocs x) b)"
    using "3.IH"(1) [OF _ w [of "1 + length ws" 1], where c = c and r = u and n = m and key = None and ty = 0] "3.prems" m r json_number_char by (simp add: c_def)
  have st: "starts ?t" using "3.prems"(2) by (intro value_starts) simp
  have s: "parse_elements fo n b = (let b' = after (1 + length ws + length ?t) (1 + allocs x) b in
    if c = 44 then do { (ok, xs, b) \<leftarrow> parse_elements fo m b'; Some (ok, reread fo None x # xs, b) } else Some (True, [reread fo None x], b'))"
    unfolding m using "3.prems"(7) by (intro parse_elements_turn [OF "3.prems"(3) r "3.prems"(5) st _ _ v]) (simp_all add: c_def blank_def)
  show ?case
  proof (cases "cs = []")
    case True
    then show ?thesis unfolding s by (simp add: c_def)
  next
    case False
    have "parse_elements fo m (after (1 + length ws + length ?t) (1 + allocs x) b) = Some (True, map (reread fo None) cs,
       after (1 + length ?sep + length (elements_text fo fmt dep cs)) (sum_list (map (\<lambda>c. 1 + allocs c) cs)) (after (1 + length ws + length ?t) (1 + allocs x) b))"
      using "3.prems" False m by (intro "3.IH"(2) w) (auto simp: blank_layout)
    then show ?thesis unfolding s using False by (simp add: c_def add.assoc add.commute add.left_commute)
  qed
next
  case (5 fo fmt dep x cs)
  let ?t = "json_text fo fmt dep x" and ?nl = "if fmt then [10] else [] :: byte list" and ?tab = "if fmt then tabs dep else []"
    and ?ws1 = "if fmt then [9] else [] :: byte list" and ?s = "text_of (jstring (item x))"
  obtain m where m: "n = Suc m" using "5.prems"(9) by (cases n) auto
  define c where "c = (if cs = [] then 125 else 44 :: byte)"
  define ws' where "ws' = (if cs = [] then ?nl @ ws2 else [])"
  define u where "u = (if cs = [] then r else ?nl @ members_text fo fmt dep cs @ ws2 @ 125 # r)"
  have r: "rest b = a # ws @ string_text ?s @ 58 # ?ws1 @ ?t @ ws' @ c # u"
    using "5.prems"(4) by (simp add: c_def u_def ws'_def member_body_def)
  define i where "i = 1 + length ws + length (string_text ?s) + 1 + length ?ws1"
  define j where "j = i + length ?t"
  let ?x = "reread fo (Some ?s) x"
  have w: "wf_buf (after q z b)" if "q \<le> j + length ws'" for q z using r that by (intro after_wf [OF "5.prems"(3)]) (simp add: i_def j_def)
  have s: "0 \<notin> set ?s" using "5.prems"(2) by (cases x) (auto simp: c_string_def split: option.splits)
  obtain h v where hv: "ws' @ c # u = h # v" "\<not> number_char h"
    by (rule after_blanks [of ws' c u]) (use "5.prems"(6) json_number_char in \<open>auto simp: ws'_def c_def blank_layout\<close>)
  have v: "parse_value fo m ((new_item fo (Some ?s))\<lparr>jtype := cJSON_String\<rparr>) (after i 2 b) = Some (True, ?x, after j (2 + allocs x) b)"
  proof -
    have i: "i \<le> j + length ws'" by (simp add: j_def)
    have "rest (after i 2 b) = ?t @ ws' @ c # u" using r by (simp add: i_def)
    then have "rest (after i 2 b) = ?t @ h # v" using hv(1) by simp
    moreover have "rereadable fo x" "nest x + depth (after i 2 b) \<le> CJSON_NESTING_LIMIT" "allocs x \<le> pmem (after i 2 b)" "3 * length ?t \<le> m"
      using "5.prems"(2,7,8,9) m by simp_all
    ultimately show ?thesis using "5.IH"(1) [OF _ w [OF i] _ hv(2), where key = "Some ?s" and ty = cJSON_String] by (simp add: j_def)
  qed
  have st: "starts ?t" using "5.prems"(2) by (intro value_starts) simp
  have step: "parse_members fo n b = (let b' = after (j + length ws') (2 + allocs x) b in
    if c = 44 then do { (ok, xs, b) \<leftarrow> parse_members fo m b'; Some (ok, ?x # xs, b) } else Some (True, [?x], b'))"
    unfolding m using "5.prems" st
    by (intro parse_members_turn [OF _ r s _ _ _ _ _ _ i_def j_def v]) (auto simp: c_def ws'_def blank_layout blank_def)
  show ?case
  proof (cases "cs = []")
    case True
    then have "c \<noteq> 44" "j + length ws' = 1 + length ws + length (member_body fo fmt dep [x]) + length ws2"
      by (simp_all add: c_def) (simp add: ws'_def i_def j_def member_body_def)
    with True show ?thesis unfolding step by simp
  next
    case False
    have fuel: "3 * length (members_text fo fmt dep cs) + 1 \<le> m" using "5.prems"(9) m by simp
    from False have ms: "parse_members fo m (after j (2 + allocs x) b) = Some (True, map (\<lambda>c. reread fo (Some (text_of (jstring (item c)))) c) cs,
       after (1 + length (?nl @ ?tab) + length (member_body fo fmt dep cs) + length ws2) (sum_list (map (\<lambda>c. 2 + allocs c) cs)) (after j (2 + allocs x) b))"
      using "5.prems" m r members_text_body [of cs fo fmt dep]
      by (intro "5.IH"(2) [OF _ _ _ _ _ _ _ _ fuel] w) (auto simp: blank_layout i_def j_def c_def u_def ws'_def)
    have c: "c = 44" "ws' = []" using False by (simp_all add: c_def ws'_def)
    have l: "j + (1 + length (?nl @ ?tab) + length (member_body fo fmt dep cs) + length ws2)
        = 1 + length ws + length (member_body fo fmt dep (x # cs)) + length ws2"
      using False members_text_body [of cs fo fmt dep] by (simp add: i_def j_def member_body_def [of _ _ _ "x # cs"])
    have "parse_members fo m (after j (2 + allocs x) b) = Some (True, map (\<lambda>c. reread fo (Some (text_of (jstring (item c)))) c) cs,
       after (1 + length ws + length (member_body fo fmt dep (x # cs)) + length ws2) (2 + allocs x + sum_list (map (\<lambda>c. 2 + allocs c) cs)) b)"
      unfolding ms after_simps(4) l ..
    then show ?thesis unfolding step c by simp
  qed
qed simp_all


subsection \<open>Canonical items\<close>

text \<open>
  Items that a parser could have built and whose numbers are moreover the value of the text they are printed as: no flags,
  only the fields of the type.
\<close>

fun canonical :: "('f, 'a) num_ops_scheme \<Rightarrow> byte list option \<Rightarrow> 'f cJSON \<Rightarrow> bool" where
  "canonical fo key (Item d cs) \<longleftrightarrow> jstring d = key \<and>
     (if jtype d = cJSON_Int \<or> jtype d = cJSON_Number
      then valuestring d = None \<and> cs = [] \<and> number_text fo d \<noteq> lit ''null'' \<and> valuedouble d = fo_atof fo (number_text fo d) \<and>
        (if jtype d = cJSON_Int then in_ll (valueint d)
         else \<not> is_integer (number_text fo d) \<and> to_ll fo (valuedouble d) = Some (valueint d))
      else valuedouble d = fo_of_int fo 0 \<and> (jtype d = cJSON_Bool \<and> valueint d = 1 \<or> valueint d = 0) \<and>
        (jtype d = cJSON_String \<longleftrightarrow> valuestring d \<noteq> None) \<and>
        jtype d \<in> {cJSON_NULL, cJSON_Bool, cJSON_String, cJSON_Array, cJSON_Object} \<and>
        (if jtype d = cJSON_Array then list_all (canonical fo None) cs
         else if jtype d = cJSON_Object then list_all (\<lambda>c. jstring (item c) \<noteq> None \<and> canonical fo (jstring (item c)) c) cs
         else cs = []))"

lemma type_of_plain: "jtype d = t \<Longrightarrow> t \<in> {1, 2, 4, 8, 16, 32, 64} \<Longrightarrow> type_of d = t"
  by (auto simp: type_of_def)

lemma item_eq: "d = n \<longleftrightarrow> jtype d = jtype n \<and> valuestring d = valuestring n \<and> valueint d = valueint n \<and> valuedouble d = valuedouble n
    \<and> jstring d = jstring (n :: 'f item_data)"
  by (cases d; cases n) auto

lemma reread_canonical: "canonical fo key x \<Longrightarrow> reread fo key x = x"
proof (induction fo key x rule: canonical.induct)
  case (1 fo key d cs)
  then have key: "jstring d = key" by simp
  have new: "jstring n = key \<Longrightarrow> valuestring n = None \<Longrightarrow> valueint n = 0 \<Longrightarrow> valuedouble n = fo_of_int fo 0 \<Longrightarrow> n = (new_item fo key)\<lparr>jtype := jtype n\<rparr>"
    for n :: "'a item_data" by (simp add: item_eq new_item_def cJSON_New_Item_def)
  have neq: "cJSON_Number \<noteq> cJSON_Int" by (simp add: json_types)
  show ?case
  proof (cases "jtype d = cJSON_Int \<or> jtype d = cJSON_Number")
    case True
    let ?t = "number_text fo d"
    from True have ty: "type_of d = jtype d" by (auto simp: json_types intro: type_of_plain)
    from True "1.prems" have d: "valuestring d = None" "cs = []" "?t \<noteq> lit ''null''" "valuedouble d = fo_atof fo ?t" by auto
    have "is_integer ?t = (jtype d = cJSON_Int)" "jtype d = cJSON_Int \<Longrightarrow> strtoll ?t = valueint d"
        "jtype d = cJSON_Number \<Longrightarrow> to_ll fo (fo_atof fo ?t) = Some (valueint d)"
      using True "1.prems" int_text_chars(2) strtoll_int_text neq by (auto simp: number_text_def split: if_splits)
    then have "read_number fo (new_item fo key) ?t = d"
      using True d key by (auto simp: item_eq read_number_def new_item_def cJSON_New_Item_def)
    then show ?thesis using True ty d by (auto simp: json_types)
  next
    case False
    have ty: "type_of d = jtype d" using False "1.prems" by (auto simp: json_types intro: type_of_plain)
    let ?n = "new_item fo key"
    have c: "valueint d = (if jtype d = cJSON_Bool \<and> valueint d \<noteq> 0 then 1 else 0)" "valuedouble d = fo_of_int fo 0"
      "valuestring d = None \<longleftrightarrow> jtype d \<noteq> cJSON_String" using False "1.prems" by auto
    consider "jtype d = cJSON_NULL" "cs = []" | "jtype d = cJSON_Bool" "cs = []" | "jtype d = cJSON_String" "cs = []"
      | "jtype d = cJSON_Array" | "jtype d = cJSON_Object" using False "1.prems" by (auto simp: json_types)
    then show ?thesis
    proof cases
      case 1
      then have "d = ?n\<lparr>jtype := cJSON_NULL\<rparr>" using c key by (simp add: item_eq new_item_def cJSON_New_Item_def json_types)
      with 1 ty show ?thesis by (simp add: json_types Let_def)
    next
      case 2
      then have "d = ?n\<lparr>jtype := cJSON_Bool, valueint := if valueint d \<noteq> 0 then 1 else 0\<rparr>"
        using c key by (simp add: item_eq new_item_def cJSON_New_Item_def json_types)
      with 2 ty show ?thesis by (simp add: json_types Let_def)
    next
      case 3
      then have "d = ?n\<lparr>jtype := cJSON_String, valuestring := Some (text_of (valuestring d))\<rparr>"
        using c key by (auto simp: item_eq new_item_def cJSON_New_Item_def json_types)
      with 3 ty show ?thesis by (simp add: json_types Let_def)
    next
      case 4
      then have d: "d = ?n\<lparr>jtype := cJSON_Array\<rparr>" using c key by (simp add: item_eq new_item_def cJSON_New_Item_def json_types)
      have "map (reread fo None) cs = cs" using 4 "1.prems" "1.IH"(1) by (intro map_idI) (simp add: list_all_iff json_types)
      with 4 ty d show ?thesis by (simp add: json_types Let_def)
    next
      case 5
      then have d: "d = ?n\<lparr>jtype := cJSON_Object\<rparr>" using c key by (simp add: item_eq new_item_def cJSON_New_Item_def json_types)
      have "map (\<lambda>c. reread fo (Some (text_of (jstring (item c)))) c) cs = cs"
        using 5 "1.prems" "1.IH"(2) by (intro map_idI) (force simp: list_all_iff json_types)
      with 5 ty d show ?thesis by (simp add: json_types Let_def)
    qed
  qed
qed

subsection \<open>The round trip\<close>

lemma skip_bom_text:
  assumes "wf_buf b" and "offset b = 0" and "rest b = t @ r" and "starts t"
  shows "skip_utf8_bom b = Some (Some b)"
proof (cases "can_access_at_index b 4")
  case True
  obtain h u where t: "t = h # u" "h \<noteq> 0xEF" using assms(4) by (cases t) (auto simp: starts_def)
  have "take (blength b) (content b) = h # u @ r" using assms(2,3) t by (simp add: rest_def)
  then obtain v where v: "content b = h # v" by (cases "content b"; cases "blength b") auto
  have "c_strneq (content b) [0xEF, 0xBB, 0xBF] 3 = Some False" using t(2) by (simp add: v numeral_3_eq_3)
  then show ?thesis using assms(2) True by (simp add: skip_utf8_bom_def)
qed (simp add: skip_utf8_bom_def assms(2))

lemma parse_text:
  assumes snd: "sound fo x" and x: "rereadable fo x" and n: "nest x \<le> CJSON_NESTING_LIMIT" and m: "allocs x < mem"
    and t: "t = json_text fo fmt 0 x"
  shows "cJSON_ParseWithOpts fo mem (Some (t @ [0])) want_end req =
    Some \<lparr>parsed = Some (reread fo None x), parse_end = (if want_end then Some (length t) else None), global_error = None\<rparr>"
proof -
  let ?b = "\<lparr>content = t @ [0], blength = length t + 1, offset = 0, depth = 0, pmem = mem - 1\<rparr>"
  have z: "0 \<notin> set t" using json_text_no_NUL(1) [OF snd] t by simp
  have w: "wf_buf ?b" and r: "rest ?b = t @ [0]" by (simp_all add: wf_buf_def rest_def)
  have st: "starts t" using value_starts [OF x] t by simp
  then obtain h u where h: "t = h # u" "\<not> blank h" by (cases t) (auto simp: starts_def)
  have skip: "buffer_skip_whitespace ?b = Some ?b" using skip_to [OF w, of "[]" h "u @ [0]"] r h by simp
  let ?d = "(new_item fo None)\<lparr>jtype := 0\<rparr>"
  have "parse_value fo (parse_fuel (blength ?b)) ?d ?b = Some (True, reread fo None x, after (length t) (allocs x) ?b)"
    using n m r t by (intro parse_printed(1) [OF x w _ json_number_char(5), where dep = 0 and fmt = fmt, folded t]) (simp_all add: parse_fuel_def)
  moreover have "?d = cJSON_New_Item fo" by (simp add: new_item_def cJSON_New_Item_def)
  ultimately have root: "parse_root fo ?b = Some (True, reread fo None x, after (length t) (allocs x) ?b)"
    using skip_bom_text [OF w _ r st] skip by (simp add: parse_root_def)
  let ?e = "after (length t) (allocs x) ?b"
  have e: "wf_buf ?e" "rest ?e = [0]" using r after_wf [OF w] by simp_all
  have "skip_blanks ?e = Some (?e\<lparr>offset := offset ?e + 1\<rparr>)" using skip_blanks_rest [OF e(1)] e(2) by (simp add: blank_def)
  then have "buffer_skip_whitespace ?e = Some ?e"
    using access_rest [OF e(1), of 0] e(2) by (simp add: buffer_skip_whitespace_def after_def)
  then show ?thesis using m z root look_at [OF e]
    by (simp add: cJSON_ParseWithOpts_def cJSON_ParseWithLengthOpts_def alloc_def)
qed

lemma print_block_succeeds:
  assumes "sound fo x" and "t = json_text fo fmt 0 x" and "printable x" and "length t + 3 \<le> INT_MAX" and "2 \<le> mem"
    and "length t + 3 \<le> 256 * 2 ^ (mem - 2)"
  shows "print_block fo realloc mem fmt x = Some (Some (map Some (t @ [0])))"
proof -
  from print_block_result [OF assms(1,2), of realloc mem] obtain r where r: "print_block fo realloc mem fmt x = Some r
    \<and> (\<forall>block. r = Some block \<longrightarrow> printable x \<and> block = map Some (t @ [0]))
    \<and> (printable x \<and> length t + 3 \<le> INT_MAX \<and> 2 \<le> mem \<and> length t + 3 \<le> 256 * 2 ^ (mem - 2) \<longrightarrow> r \<noteq> None)" by (rule exE)
  then have "r \<noteq> None" using assms(3-6) by (elim conjE) (erule mp, intro conjI)
  moreover have "print_block fo realloc mem fmt x = Some r" "\<forall>block. r = Some block \<longrightarrow> block = map Some (t @ [0])"
    using conjunct1 [OF r] conjunct1 [OF conjunct2 [OF r]] by blast+
  ultimately show ?thesis by (cases r) simp_all
qed

text \<open>
  C18. What is printed is parsed back. When \<open>cJSON_Print\<close> or \<open>cJSON_PrintUnformatted\<close> returns a block for
  an item, then \<open>cJSON_ParseWithOpts\<close> reads the block up to its NUL, succeeds, and builds \<open>reread\<close> of the item: the same
  tree with the same strings and names, with each number replaced by what the parser makes of its printed text, a number
  printed as null by a null, missing strings and names by empty ones, flags dropped and fields that do not belong to
  the type zeroed. Hypotheses: the item and all in it have one of the seven types that can be read again (no raw and no invalid items);
  strings and names have no NUL; the number of each item, which one that is no number carries too, prints
  in fewer than 26 bytes without a NUL, and each number prints as null or as a text that the parser takes as a whole and whose value fits a \<open>long long\<close>; the item nests at most 1000 deep; the parser has memory for the tree. The result is the item itself if it
  is canonical: without flags, only with the fields of its type, booleans 0 or 1, a name for each member, an integer within the range of
  \<open>long long\<close> whose double is the value of its printed text, and any other number not printed as an integer, with a double that
  equals the value of its printed text and an integer value cut from it. A parsed item need not be canonical: the double of a number can
  differ from the value of the text it is printed as.
\<close>

theorem print_parse_round_trip:
  assumes "sound fo x" and "rereadable fo x" and "nest x \<le> CJSON_NESTING_LIMIT" and "allocs x < mem'"
    and "(if fmt then cJSON_Print else cJSON_PrintUnformatted) fo realloc mem (Some x) = Some (Some block)"
  shows "\<exists>text r. block = map Some text \<and> cJSON_ParseWithOpts fo mem' (Some text) True True = Some r
    \<and> parsed r = Some (reread fo None x) \<and> parse_end r = Some (length text - 1)
    \<and> (canonical fo None x \<longrightarrow> parsed r = Some x)"
proof -
  let ?t = "json_text fo fmt 0 x"
  have "print_block fo realloc mem fmt x = Some (Some block)"
    using assms(5) by (cases fmt) (simp_all add: cJSON_Print_def cJSON_PrintUnformatted_def)
  then have "block = map Some (?t @ [0])" using print_block_result [OF assms(1) refl, where fmt = fmt and realloc = realloc and mem = mem] by auto
  then show ?thesis using parse_text [OF assms(1-4) refl, of fmt True True] reread_canonical [of fo None x]
    by (intro exI [of _ "?t @ [0]"]) simp
qed

theorem print_parse_round_trip_witness:
  "\<exists>text r. map Some (sample_text @ [0]) = map Some text \<and> cJSON_ParseWithOpts whole_ops 10 (Some text) True True = Some r
    \<and> parsed r = Some (reread whole_ops None sample_item) \<and> parse_end r = Some (length text - 1)
    \<and> (canonical whole_ops None sample_item \<longrightarrow> parsed r = Some sample_item)"
proof (rule print_parse_round_trip [where fmt = False and realloc = True and mem = 5])
  show "rereadable whole_ops sample_item" "nest sample_item \<le> CJSON_NESTING_LIMIT" "allocs sample_item < 10" by code_simp+
  have "print_block whole_ops True 5 False sample_item = Some (Some (map Some (sample_text @ [0])))"
    by (rule print_block_succeeds [OF sample_sound(1) sample_text [symmetric] sample_sound(2)]) (simp_all add: sample_text_def INT_MAX_def)
  then show "(if False then cJSON_Print else cJSON_PrintUnformatted) whole_ops True 5 (Some sample_item) = Some (Some (map Some (sample_text @ [0])))"
    by (simp add: cJSON_PrintUnformatted_def)
qed (rule sample_sound)

end
