(* ===== verification/JsonMinify.thy ===== *)
theory JsonMinify
  imports JsonRoundTrip
begin

section \<open>Minifying JSON text in place\<close>

text \<open>
  \<open>cJSON_Minify\<close> reads and writes one block, so that \<open>m\<close> is the block and the two pointers are
  indices: \<open>j\<close> of \<open>json\<close> and \<open>i\<close> of \<open>into\<close>.
\<close>

lemma rd_succ [simp]: "rd xs (1 + int n) = (if Suc n < length xs then Some (xs ! Suc n) else None)"
  using rd_of_nat [of xs "Suc n"] by simp

lemma wr_succ [simp]: "wr xs (1 + int n) v = (if Suc n < length xs then Some (xs[Suc n := v]) else None)"
  using wr_of_nat [of xs "Suc n" v] by simp

function skip_line :: "byte list \<Rightarrow> nat \<Rightarrow> nat option" where
  "skip_line m j = do {
     c \<leftarrow> rd m (int j);
     if c = 0 then Some j else if c = 10 then Some (j + 1) else skip_line m (j + 1) }"
  by pat_completeness auto
termination by (relation "measure (\<lambda>(m, j). length m - j)") (auto split: if_splits)

definition skip_oneline_comment :: "byte list \<Rightarrow> nat \<Rightarrow> nat option" where
  "skip_oneline_comment m j = skip_line m (j + 2)"

function skip_block :: "byte list \<Rightarrow> nat \<Rightarrow> nat option" where
  "skip_block m j = do {
     c \<leftarrow> rd m (int j);
     if c = 0 then Some j
     else if c = 42 then do { d \<leftarrow> rd m (int (j + 1)); if d = 47 then Some (j + 2) else skip_block m (j + 1) }
     else skip_block m (j + 1) }"
  by pat_completeness auto
termination by (relation "measure (\<lambda>(m, j). length m - j)") (auto split: if_splits)

definition skip_multiline_comment :: "byte list \<Rightarrow> nat \<Rightarrow> nat option" where
  "skip_multiline_comment m j = skip_block m (j + 2)"

text \<open>The bytes read after a write are read from the written block.\<close>

function string_loop :: "byte list \<Rightarrow> nat \<Rightarrow> nat \<Rightarrow> (byte list \<times> nat \<times> nat) option" where
  "string_loop m j i = do {
     c \<leftarrow> rd m (int j);
     if c = 0 then Some (m, j, i)
     else do {
       m' \<leftarrow> wr m (int i) c;
       c' \<leftarrow> rd m' (int j);
       if c' = 34 then do { m' \<leftarrow> wr m' (int i) 34; Some (m', j + 1, i + 1) }
       else if c' = 92 then do {
         d \<leftarrow> rd m' (int (j + 1));
         if d = 34 then do { m' \<leftarrow> wr m' (int (i + 1)) d; string_loop m' (j + 2) (i + 2) }
         else string_loop m' (j + 1) (i + 1) }
       else string_loop m' (j + 1) (i + 1) } }"
  by pat_completeness auto
termination by (relation "measure (\<lambda>(m, j, i). length m - j)") (auto split: if_splits)

declare skip_line.simps [simp del] skip_block.simps [simp del] string_loop.simps [simp del]

definition minify_string :: "byte list \<Rightarrow> nat \<Rightarrow> nat \<Rightarrow> (byte list \<times> nat \<times> nat) option" where
  "minify_string m j i = do { c \<leftarrow> rd m (int j); m \<leftarrow> wr m (int i) c; string_loop m (j + 1) (i + 1) }"

lemma string_loop_moves: "string_loop m j i = Some (m', j', i') \<Longrightarrow> length m' = length m \<and> j \<le> j'"
proof (induction "length m - j" arbitrary: m j i rule: less_induct)
  case less
  from less.prems show ?case
    by (subst (asm) string_loop.simps) (auto split: if_splits dest: less.hyps [rotated])
qed

lemma skip_line_moves: "skip_line m j = Some j' \<Longrightarrow> j \<le> j'"
proof (induction "length m - j" arbitrary: j rule: less_induct)
  case less
  from less.prems show ?case by (subst (asm) skip_line.simps) (auto split: if_splits dest: less.hyps [rotated])
qed

lemma skip_block_moves: "skip_block m j = Some j' \<Longrightarrow> j \<le> j'"
proof (induction "length m - j" arbitrary: j rule: less_induct)
  case less
  from less.prems show ?case by (subst (asm) skip_block.simps) (auto split: if_splits dest: less.hyps [rotated])
qed

function minify_loop :: "byte list \<Rightarrow> nat \<Rightarrow> nat \<Rightarrow> (byte list \<times> nat) option" where
  "minify_loop m j i = do {
     c \<leftarrow> rd m (int j);
     if c = 0 then Some (m, i)
     else if c = 32 \<or> c = 9 \<or> c = 13 \<or> c = 10 then minify_loop m (j + 1) i
     else if c = 47 then do {
       d \<leftarrow> rd m (int (j + 1));
       if d = 47 then do { j' \<leftarrow> skip_oneline_comment m j; minify_loop m j' i }
       else if d = 42 then do { j' \<leftarrow> skip_multiline_comment m j; minify_loop m j' i }
       else minify_loop m (j + 1) i }
     else if c = 34 then do { (m', j', i') \<leftarrow> minify_string m j i; minify_loop m' j' i' }
     else do { m' \<leftarrow> wr m (int i) c; minify_loop m' (j + 1) (i + 1) } }"
  by pat_completeness auto
termination
  by (relation "measure (\<lambda>(m, j, i). length m - j)")
    (auto simp: skip_oneline_comment_def skip_multiline_comment_def minify_string_def bind_eq_Some_conv
      dest!: skip_line_moves skip_block_moves string_loop_moves split: if_splits)

declare minify_loop.simps [simp del]

definition cJSON_Minify :: "byte list option \<Rightarrow> byte list option option" where
  "cJSON_Minify json = (case json of None \<Rightarrow> Some None
   | Some m \<Rightarrow> do { (m, i) \<leftarrow> minify_loop m 0 0; m \<leftarrow> wr m (int i) 0; Some (Some m) })"


subsection \<open>The text that is left\<close>

fun after_line :: "byte list \<Rightarrow> byte list" where
  "after_line [] = []"
| "after_line (c # s) = (if c = 10 then s else after_line s)"

fun after_block :: "byte list \<Rightarrow> byte list" where
  "after_block [] = []"
| "after_block (c # s) = (if c = 42 \<and> s \<noteq> [] \<and> hd s = 47 then tl s else after_block s)"

text \<open>A string up to its closing quote: a backslash before a quote takes the quote with it.\<close>

function string_span :: "byte list \<Rightarrow> byte list \<times> byte list" where
  "string_span [] = ([], [])"
| "string_span (c # s) =
     (if c = 34 then ([34], s)
      else if c = 92 \<and> s \<noteq> [] \<and> hd s = 34 then (case string_span (tl s) of (a, b) \<Rightarrow> (92 # 34 # a, b))
      else (case string_span s of (a, b) \<Rightarrow> (c # a, b)))"
  by pat_completeness auto
termination by (relation "measure length") auto

lemma after_line_suffix: "\<exists>u. s = u @ after_line s"
proof (induction s)
  case (Cons c s)
  then obtain u where "s = u @ after_line s" by blast
  then have "c # s = (if c = 10 then [c] else c # u) @ after_line (c # s)" by simp
  then show ?case by blast
qed simp

lemma after_block_suffix: "\<exists>u. s = u @ after_block s"
proof (induction s)
  case (Cons c s)
  then obtain u where u: "s = u @ after_block s" by blast
  show ?case
  proof (cases "c = 42 \<and> s \<noteq> [] \<and> hd s = 47")
    case True
    then have "c # s = [c, 47] @ after_block (c # s)" by (cases s) auto
    then show ?thesis by blast
  next
    case False
    then have "c # s = (c # u) @ after_block (c # s)" using u by (simp only: after_block.simps if_False append_Cons)
    then show ?thesis by blast
  qed
qed simp

lemma after_shorter: "length (after_line s) \<le> length s" "length (after_block s) \<le> length s"
  using after_line_suffix [of s] after_block_suffix [of s] by (metis length_append le_add2)+

lemma string_span_split: "string_span s = (a, b) \<Longrightarrow> s = a @ b"
proof (induction s arbitrary: a b rule: string_span.induct)
  case (2 c s)
  then show ?case by (cases s) (auto split: if_splits prod.splits)
qed simp

function minified :: "byte list \<Rightarrow> byte list" where
  "minified [] = []"
| "minified (c # s) =
     (if c = 32 \<or> c = 9 \<or> c = 13 \<or> c = 10 then minified s
      else if c = 47 then
        (if s \<noteq> [] \<and> hd s = 47 then minified (after_line (tl s))
         else if s \<noteq> [] \<and> hd s = 42 then minified (after_block (tl s)) else minified s)
      else if c = 34 then (case string_span s of (a, b) \<Rightarrow> 34 # a @ minified b)
      else c # minified s)"
  by pat_completeness auto
termination
proof (relation "measure length")
  fix c s a b
  assume "(a, b) = string_span s"
  then show "(b, c # s) \<in> measure length" using string_span_split [of s a b] by simp
qed (use after_shorter in \<open>auto intro!: le_imp_less_Suc le_trans [OF after_shorter(1)] le_trans [OF after_shorter(2)]\<close>)

declare minified.simps(2) [simp del] string_span.simps(2) [simp del]

lemma minified_length: "length (minified s) \<le> length s"
proof (induction s rule: minified.induct)
  case (2 c s)
  obtain a b where ab: "string_span s = (a, b)" by force
  have "length (after_line (tl s)) \<le> length s" "length (after_block (tl s)) \<le> length s"
    using after_shorter [of "tl s"] by (auto intro: le_trans)
  with 2 string_span_split [OF ab] ab show ?case by (subst minified.simps) (auto simp: le_Suc_eq)
qed simp

subsection \<open>In place\<close>

lemma rd_drop: "drop j m = c # t \<Longrightarrow> rd m (int j) = Some c \<and> j < length m \<and> m ! j = c \<and> drop (Suc j) m = t"
proof -
  assume a: "drop j m = c # t"
  then have j: "j < length m" by (metis drop_all not_less list.distinct(1))
  with a show ?thesis using Cons_nth_drop_Suc [OF j] by simp
qed

lemma wr_drop:
  assumes "drop j m = c # t" and "i \<le> j"
  shows "wr m (int i) v = Some (m[i := v])" "drop (Suc j) (m[i := v]) = t"
    "take (Suc i) (m[i := v]) = take i m @ [v]"
proof -
  have "j < length m" "drop (Suc j) m = t" using rd_drop [OF assms(1)] by auto
  with assms(2) show "wr m (int i) v = Some (m[i := v])" "drop (Suc j) (m[i := v]) = t"
      "take (Suc i) (m[i := v]) = take i m @ [v]"
    by (simp_all add: take_Suc_conv_app_nth)
qed

lemma skip_line_at: "m = P @ s @ 0 # z \<Longrightarrow> 0 \<notin> set s \<Longrightarrow> \<exists>P'. skip_line m (length P) = Some (length P') \<and> P @ s = P' @ after_line s"
proof (induction s arbitrary: P)
  case Nil
  then show ?case by (subst skip_line.simps) auto
next
  case (Cons c s)
  have "rd m (int (length P)) = Some c" using Cons.prems by simp
  moreover from Cons.IH [of "P @ [c]"] Cons.prems
  obtain P' where "skip_line m (length P + 1) = Some (length P')" "(P @ [c]) @ s = P' @ after_line s" by auto
  ultimately show ?case using Cons.prems by (subst skip_line.simps) (auto intro: exI [of _ "P @ [c]"])
qed

lemma skip_block_at: "m = P @ s @ 0 # z \<Longrightarrow> 0 \<notin> set s \<Longrightarrow> \<exists>P'. skip_block m (length P) = Some (length P') \<and> P @ s = P' @ after_block s"
proof (induction s arbitrary: P)
  case Nil
  then show ?case by (subst skip_block.simps) auto
next
  case (Cons c s)
  have "rd m (int (length P)) = Some c" using Cons.prems by simp
  moreover have "rd m (1 + int (length P)) = Some (hd (s @ [0]))" using Cons.prems by (cases s) (auto simp: nth_append)
  moreover from Cons.IH [of "P @ [c]"] Cons.prems
  obtain P' where "skip_block m (length P + 1) = Some (length P')" "(P @ [c]) @ s = P' @ after_block s" by auto
  moreover have "s \<noteq> [] \<Longrightarrow> hd s = 47 \<Longrightarrow> P @ c # s = (P @ [c, 47]) @ tl s" by (cases s) auto
  ultimately show ?case using Cons.prems
    by (subst skip_block.simps; cases s) (auto intro: exI [of _ "P @ [c, 47]"])
qed


lemma string_loop_at:
  assumes "drop j m = s @ 0 # z" and "i \<le> j" and "0 \<notin> set s" and "string_span s = (a, b)"
  shows "\<exists>m'. string_loop m j i = Some (m', j + length a, i + length a) \<and> length m' = length m \<and>
    take (i + length a) m' = take i m @ a \<and> drop (j + length a) m' = b @ 0 # z"
  using assms
proof (induction s arbitrary: m j i a b rule: string_span.induct)
  case 1
  then show ?case by (subst string_loop.simps) (auto dest!: rd_drop)
next
  case (2 c s)
  let ?m = "m[i := c]"
  have c: "rd m (int j) = Some c" "j < length m" "m ! j = c" "drop (Suc j) m = s @ 0 # z"
    using rd_drop [of j m c "s @ 0 # z"] "2.prems"(1) by auto
  have w: "wr m (int i) c = Some ?m" "drop (Suc j) ?m = s @ 0 # z" "take (Suc i) ?m = take i m @ [c]"
    using wr_drop [of j m c "s @ 0 # z" i c] "2.prems"(1,2) by auto
  have r: "rd ?m (int j) = Some c" using c by (cases "i = j") auto
  have d: "rd ?m (1 + int j) = Some (hd (s @ [0]))" using rd_drop [of "Suc j" ?m "hd (s @ [0])" "tl (s @ 0 # z)"] w(2)
    by (cases s) auto
  have "c \<noteq> 0" using "2.prems"(3) by simp
  note start = c(1) w(1) r d this
  consider (quote) "c = 34" | (escaped) "c = 92" "s \<noteq> []" "hd s = 34" | (plain) "c \<noteq> 34" "\<not> (c = 92 \<and> s \<noteq> [] \<and> hd s = 34)"
    by blast
  then show ?case
  proof cases
    case quote
    have "(m[i := c])[i := 34] = ?m" using quote by simp
    moreover have "wr ?m (int i) 34 = Some (?m[i := 34])" using "2.prems"(2) c(2) by simp
    ultimately show ?thesis using quote "2.prems"(4) start w by (subst string_loop.simps) (auto simp: string_span.simps(2))
  next
    case escaped
    then obtain s' where s: "s = 34 # s'" by (cases s) auto
    obtain a' b' where ab: "string_span s' = (a', b')" by force
    let ?m' = "?m[Suc i := 34]"
    have w': "wr ?m (int (Suc i)) 34 = Some ?m'" "drop (Suc (Suc j)) ?m' = s' @ 0 # z" "take (Suc (Suc i)) ?m' = take (Suc i) ?m @ [34]"
      using wr_drop [of "Suc j" ?m 34 "s' @ 0 # z" "Suc i" 34] w(2) "2.prems"(2) s by auto
    obtain m' where "string_loop ?m' (Suc (Suc j)) (Suc (Suc i)) = Some (m', Suc (Suc j) + length a', Suc (Suc i) + length a')"
        "length m' = length m" "take (Suc (Suc i) + length a') m' = take i m @ 92 # 34 # a'" "drop (Suc (Suc j) + length a') m' = b' @ 0 # z"
      using "2.IH"(1) [of "Suc (Suc j)" ?m' "Suc (Suc i)" a' b'] "2.prems" escaped s ab w' w(3) by auto
    then show ?thesis using escaped "2.prems"(4) s ab start w'(1) by (subst string_loop.simps) (auto simp: string_span.simps(2))
  next
    case plain
    obtain a' b' where ab: "string_span s = (a', b')" by force
    have h: "c = 92 \<Longrightarrow> hd (s @ [0]) \<noteq> 34" using plain by (cases s) auto
    obtain m' where "string_loop ?m (Suc j) (Suc i) = Some (m', Suc j + length a', Suc i + length a')"
        "length m' = length m" "take (Suc i + length a') m' = take i m @ c # a'" "drop (Suc j + length a') m' = b' @ 0 # z"
      using "2.IH"(2) [of "Suc j" ?m "Suc i" a' b'] "2.prems" plain ab w by auto
    moreover have "string_loop m j i = string_loop ?m (Suc j) (Suc i)"
      using plain start h by (subst string_loop.simps) (cases "c = 92"; simp)
    moreover have "a = c # a'" "b = b'" using plain "2.prems"(4) ab by (auto simp: string_span.simps(2) simp del: list.map)
    ultimately show ?thesis by simp
  qed
qed

text \<open>The run from \<open>j\<close>, the text still to read there being \<open>s\<close>, with \<open>i\<close> bytes written.\<close>

definition minifies :: "byte list \<Rightarrow> nat \<Rightarrow> nat \<Rightarrow> byte list \<Rightarrow> byte list \<Rightarrow> bool" where
  "minifies m j i t z \<longleftrightarrow> (\<exists>m'. minify_loop m j i = Some (m', i + length t) \<and> length m' = length m \<and>
     take (i + length t) m' = take i m @ t \<and> drop (length m - Suc (length z)) m' = 0 # z)"

lemma minifies_step: "minify_loop m j i = minify_loop m j' i \<Longrightarrow> minifies m j' i t z \<Longrightarrow> minifies m j i t z"
  by (simp add: minifies_def)

lemma minifies_copy:
  assumes "minify_loop m j i = minify_loop m' j' i'" and "minifies m' j' i' t z"
    and "length m' = length m" "i' = i + length a" "take i' m' = take i m @ a"
  shows "minifies m j i (a @ t) z"
  using assms by (auto simp: minifies_def add.assoc)

lemma skip_drop:
  assumes "drop j m = s @ 0 # z" and "0 \<notin> set s"
  shows "\<exists>j'. skip_line m j = Some j' \<and> drop j' m = after_line s @ 0 # z \<and> j \<le> j'"
    and "\<exists>j'. skip_block m j = Some j' \<and> drop j' m = after_block s @ 0 # z \<and> j \<le> j'"
proof -
  have j: "j \<le> length m" using assms(1) by (metis drop_all linear append_is_Nil_conv list.distinct(1))
  then have m: "m = take j m @ s @ 0 # z" and l: "length (take j m) = j" using assms(1) by (metis append_take_drop_id, simp)
  from skip_line_at [OF m assms(2)] obtain P where P: "skip_line m j = Some (length P)" "take j m @ s = P @ after_line s"
    unfolding l by blast
  then have "m = P @ after_line s @ 0 # z" using m by (metis append.assoc)
  then have "drop (length P) m = after_line s @ 0 # z" by (metis append_eq_conv_conj)
  then show "\<exists>j'. skip_line m j = Some j' \<and> drop j' m = after_line s @ 0 # z \<and> j \<le> j'" using P skip_line_moves by blast
  from skip_block_at [OF m assms(2)] obtain P where P: "skip_block m j = Some (length P)" "take j m @ s = P @ after_block s"
    unfolding l by blast
  then have "m = P @ after_block s @ 0 # z" using m by (metis append.assoc)
  then have "drop (length P) m = after_block s @ 0 # z" by (metis append_eq_conv_conj)
  then show "\<exists>j'. skip_block m j = Some j' \<and> drop j' m = after_block s @ 0 # z \<and> j \<le> j'" using P skip_block_moves by blast
qed

lemma after_subset: "0 \<notin> set s \<Longrightarrow> 0 \<notin> set (after_line s)" "0 \<notin> set s \<Longrightarrow> 0 \<notin> set (after_block s)"
  by (metis after_line_suffix Un_iff set_append) (metis after_block_suffix Un_iff set_append)

lemma minify_string_at:
  assumes "drop j m = 34 # s @ 0 # z" and "i \<le> j" and "0 \<notin> set s" and "string_span s = (a, b)"
  shows "\<exists>m'. minify_string m j i = Some (m', Suc j + length a, Suc i + length a) \<and> length m' = length m \<and>
    take (Suc i + length a) m' = take i m @ 34 # a \<and> drop (Suc j + length a) m' = b @ 0 # z"
  using string_loop_at [of "Suc j" "m[i := 34]" s z "Suc i" a b] wr_drop [OF assms(1,2), of 34] rd_drop [OF assms(1)] assms
  by (auto simp: minify_string_def)

lemma minify_loop_at:
  assumes "drop j m = s @ 0 # z" and "i \<le> j" and "0 \<notin> set s"
  shows "minifies m j i (minified s) z"
  using assms
proof (induction s arbitrary: m j i rule: minified.induct)
  case 1
  then have "rd m (int j) = Some 0" "j < length m" using rd_drop [of j m 0 z] by auto
  moreover have "j = length m - Suc (length z)" using \<open>j < length m\<close> arg_cong [OF 1(1), of length] by simp
  ultimately show ?case using 1(1) by (subst minifies_def, subst minify_loop.simps) auto
next
  case (2 c s)
  have c: "rd m (int j) = Some c" "drop (Suc j) m = s @ 0 # z" "c \<noteq> 0"
    using rd_drop [of j m c "s @ 0 # z"] "2.prems" by auto
  have d: "rd m (1 + int j) = Some (hd (s @ [0]))" using rd_drop [of "Suc j" m "hd (s @ [0])" "tl (s @ 0 # z)"] c(2)
    by (cases s) auto
  have d2: "drop (Suc (Suc j)) m = tl s @ 0 # z" "0 \<notin> set (tl s)" if "s \<noteq> []"
    using rd_drop [of "Suc j" m "hd s" "tl s @ 0 # z"] c(2) that "2.prems"(3) by (cases s; auto)+
  consider (space) "c = 32 \<or> c = 9 \<or> c = 13 \<or> c = 10" | (line) "c = 47" "s \<noteq> []" "hd s = 47"
    | (block) "c = 47" "s \<noteq> []" "hd s = 42" | (slash) "c = 47" "\<not> (s \<noteq> [] \<and> hd s = 47)" "\<not> (s \<noteq> [] \<and> hd s = 42)"
    | (quote) "c = 34" | (plain) "c \<noteq> 32" "c \<noteq> 9" "c \<noteq> 13" "c \<noteq> 10" "c \<noteq> 47" "c \<noteq> 34"
    by blast
  then show ?case
  proof cases
    case space
    have "minify_loop m j i = minify_loop m (Suc j) i" using space c by (subst minify_loop.simps) auto
    moreover have "minifies m (Suc j) i (minified s) z" using "2.IH"(1) [OF space] c(2) "2.prems" by simp
    ultimately show ?thesis using space by (simp add: minified.simps(2) minifies_step)
  next
    case line
    obtain j' where j': "skip_line m (Suc (Suc j)) = Some j'" "drop j' m = after_line (tl s) @ 0 # z" "Suc (Suc j) \<le> j'"
      using skip_drop(1) [OF d2] line by blast
    have "minify_loop m j i = minify_loop m j' i"
      using line c d j'(1) by (subst minify_loop.simps) (simp add: skip_oneline_comment_def)
    moreover have "minifies m j' i (minified (after_line (tl s))) z"
      using "2.IH"(2) [of j' m i] line j' after_subset(1) [OF d2(2)] "2.prems"(2) by simp
    ultimately show ?thesis using line by (simp add: minified.simps(2) minifies_step)
  next
    case block
    obtain j' where j': "skip_block m (Suc (Suc j)) = Some j'" "drop j' m = after_block (tl s) @ 0 # z" "Suc (Suc j) \<le> j'"
      using skip_drop(2) [OF d2] block by blast
    have "minify_loop m j i = minify_loop m j' i"
      using block c d j'(1) by (subst minify_loop.simps) (simp add: skip_multiline_comment_def)
    moreover have "minifies m j' i (minified (after_block (tl s))) z"
      using "2.IH"(3) [of j' m i] block j' after_subset(2) [OF d2(2)] "2.prems"(2) by simp
    ultimately show ?thesis using block by (simp add: minified.simps(2) minifies_step)
  next
    case slash
    have h: "hd (s @ [0]) \<noteq> 47 \<and> hd (s @ [0]) \<noteq> 42" using slash by (cases s) auto
    then have "minify_loop m j i = minify_loop m (Suc j) i" using slash c d by (subst minify_loop.simps) simp
    moreover have "minifies m (Suc j) i (minified s) z" using "2.IH"(4) [of "Suc j" m i] slash c(2) "2.prems" by auto
    ultimately show ?thesis using slash by (auto simp add: minified.simps(2) intro: minifies_step)
  next
    case quote
    obtain a b where ab: "string_span s = (a, b)" by force
    then have b: "0 \<notin> set b" using string_span_split "2.prems"(3) by fastforce
    obtain m' where m': "minify_string m j i = Some (m', Suc j + length a, Suc i + length a)" "length m' = length m"
        "take (Suc i + length a) m' = take i m @ 34 # a" "drop (Suc j + length a) m' = b @ 0 # z"
      using minify_string_at [of j m s z i a b] "2.prems" quote ab by auto
    have l: "minify_loop m j i = minify_loop m' (Suc j + length a) (Suc i + length a)"
      using quote c(1) m'(1) by (subst minify_loop.simps) simp
    have "minifies m' (Suc j + length a) (Suc i + length a) (minified b) z"
      using "2.IH"(5) [of a b "Suc j + length a" m' "Suc i + length a"] quote ab m'(4) b "2.prems"(2) by auto
    then have "minifies m j i ((34 # a) @ minified b) z" by (rule minifies_copy [OF l _ m'(2)]) (use m'(3) in simp_all)
    then show ?thesis using quote ab by (simp add: minified.simps(2))
  next
    case plain
    note w = wr_drop [of j m c "s @ 0 # z" i c]
    have l: "minify_loop m j i = minify_loop (m[i := c]) (Suc j) (Suc i)"
      using plain c w(1) "2.prems" by (subst minify_loop.simps) simp
    have "minifies (m[i := c]) (Suc j) (Suc i) (minified s) z"
      using "2.IH"(6) [of "Suc j" "m[i := c]" "Suc i"] plain w(2) "2.prems" by simp
    then have "minifies m j i ([c] @ minified s) z"
      by (rule minifies_copy [OF l]) (use w(3) "2.prems" in simp_all)
    then show ?thesis using plain by (simp add: minified.simps(2))
  qed
qed

subsection \<open>Minifying twice\<close>

lemma string_span_nonempty: "string_span s = ([], b) \<Longrightarrow> s = []"
  by (cases s) (auto simp: string_span.simps(2) split: if_splits prod.splits)

lemma string_span_again: "string_span s = (a, b) \<Longrightarrow> string_span (a @ (if b = [] then [] else t)) = (a, if b = [] then [] else t)"
proof (induction s arbitrary: a b rule: string_span.induct)
  case (2 c s)
  consider (quote) "c = 34" | (escaped) "c = 92" "s \<noteq> []" "hd s = 34" | (plain) "c \<noteq> 34" "\<not> (c = 92 \<and> s \<noteq> [] \<and> hd s = 34)"
    by blast
  then show ?case
  proof cases
    case quote
    then show ?thesis using "2.prems" by (auto simp: string_span.simps(2))
  next
    case escaped
    then show ?thesis using "2.prems" "2.IH"(1)
      by (cases "string_span (tl s)") (auto simp: string_span.simps(2))
  next
    case plain
    obtain a' b' where ab: "string_span s = (a', b')" by force
    then have p: "a = c # a'" "b = b'" using plain "2.prems" by (auto simp: string_span.simps(2))
    have "hd (a' @ (if b' = [] then [] else t)) \<noteq> 34 \<or> a' @ (if b' = [] then [] else t) = []" if "c = 92"
      using string_span_split [OF ab] string_span_nonempty [of s b'] ab plain that by (cases a') auto
    then show ?thesis using "2.IH"(2) [OF plain ab] plain p by (auto simp: string_span.simps(2))
  qed
qed simp

lemma minified_again: "minified (minified s) = minified s"
proof (induction s rule: minified.induct)
  case (2 c s)
  show ?case
  proof (cases "c = 34")
    case True
    obtain a b where ab: "string_span s = (a, b)" by force
    have "string_span (a @ minified b) = (a, minified b)" using string_span_again [OF ab, of "minified b"] by (auto split: if_splits)
    then show ?thesis using True ab "2.IH"(5) by (simp add: minified.simps(2))
  next
    case False
    then show ?thesis using 2 by (simp add: minified.simps(2))
  qed
qed simp

lemma minified_in_place:
  assumes "0 \<notin> set s"
  shows "\<exists>r. cJSON_Minify (Some (s @ 0 # z)) = Some (Some (minified s @ 0 # r @ z)) \<and>
    length (minified s) + length r = length s \<and> minified (minified s) = minified s"
proof -
  let ?m = "s @ 0 # z" and ?n = "length (minified s)"
  obtain m' where m': "minify_loop ?m 0 0 = Some (m', ?n)" "length m' = length ?m"
      "take ?n m' = minified s" "drop (length s) m' = 0 # z"
    using minify_loop_at [of 0 ?m s z 0] assms by (auto simp: minifies_def)
  have n: "?n \<le> length s" by (rule minified_length)
  then have 1: "wr m' (int ?n) 0 = Some (minified s @ 0 # drop (Suc ?n) m')"
    using m'(2,3) by (simp add: upd_conv_take_nth_drop)
  have "drop (length (drop (Suc ?n) m') - length z) (drop (Suc ?n) m') = z"
  proof -
    have "Suc ?n + (length m' - Suc ?n - length z) = Suc (length s)" using n m'(2) by simp
    moreover have "drop (Suc (length s)) m' = z" using m'(4) by (metis drop_Suc drop_drop drop_tl list.sel(3) drop_0 One_nat_def add.commute plus_1_eq_Suc)
    ultimately show ?thesis by (simp add: add.commute)
  qed
  then have "drop (Suc ?n) m' = take (length s - ?n) (drop (Suc ?n) m') @ z"
    using n m'(2) by (metis (no_types, lifting) append_take_drop_id length_drop length_append list.size(4) diff_diff_left add_Suc_right add.right_neutral diff_add_inverse2 add_Suc One_nat_def Suc_diff_le diff_Suc_Suc diff_diff_cancel diff_commute)
  then show ?thesis using 1 m'(1) n m'(2)
    by (intro exI [of _ "take (length s - ?n) (drop (Suc ?n) m')"]) (simp add: cJSON_Minify_def minified_again)
qed

text \<open>
  C19. \<open>cJSON_Minify\<close> works in place: of a block that holds the text \<open>s\<close>, its NUL and \<open>z\<close>, only
  the text changes, no byte outside is read or written, and the text left is \<open>minified s\<close>, which is
  no longer than \<open>s\<close> and which minifying again does not change.
\<close>

theorem minify_in_place:
  assumes "0 \<notin> set s"
  shows "\<exists>r. cJSON_Minify (Some (s @ 0 # z)) = Some (Some (minified s @ 0 # r @ z)) \<and>
    length (minified s) + length r = length s \<and> minified (minified s) = minified s"
  by (rule minified_in_place [OF assms])

theorem minify_in_place_witness:
  "(\<exists>r. cJSON_Minify (Some ([91, 32, 34, 92, 34, 32, 34, 9, 93, 47, 47] @ 0 # [7])) =
      Some (Some (minified [91, 32, 34, 92, 34, 32, 34, 9, 93, 47, 47] @ 0 # r @ [7])) \<and>
    length (minified [91, 32, 34, 92, 34, 32, 34, 9, 93, 47, 47]) + length r = length [91, 32, 34, 92, 34, 32, 34, 9, 93, 47, 47 :: byte] \<and>
    minified (minified [91, 32, 34, 92, 34, 32, 34, 9, 93, 47, 47]) = minified [91, 32, 34, 92, 34, 32, 34, 9, 93, 47, 47]) \<and>
   minified [91, 32, 34, 92, 34, 32, 34, 9, 93, 47, 47] = [91, 34, 92, 34, 32, 34, 93]"
proof (rule conjI)
  show "minified [91, 32, 34, 92, 34, 32, 34, 9, 93, 47, 47] = [91, 34, 92, 34, 32, 34, 93]"
    by (simp add: minified.simps(2) string_span.simps(2))
qed (rule minify_in_place, simp)

subsection \<open>Minifying what was printed\<close>

definition leaves :: "byte list \<Rightarrow> byte list \<Rightarrow> bool" where
  "leaves t u \<longleftrightarrow> (\<forall>r. minified (t @ r) = u @ minified r)"

lemma leaves_append: "leaves t u \<Longrightarrow> leaves t' u' \<Longrightarrow> leaves (t @ t') (u @ u')"
  by (simp add: leaves_def)

lemma leaves_nil [simp]: "leaves [] []"
  by (simp add: leaves_def)

lemma leaves_blank: "leaves [32] []" "leaves [10] []" "leaves [9] []"
  by (simp_all add: leaves_def minified.simps(2))

lemma leaves_tabs: "leaves (tabs n) []"
  by (induction n) (simp_all add: leaves_def tabs_def minified.simps(2))

definition kept_byte :: "byte \<Rightarrow> bool" where
  "kept_byte c \<longleftrightarrow> c \<notin> {9, 10, 13, 32, 34, 47}"

lemma leaves_kept: "\<forall>c \<in> set t. kept_byte c \<Longrightarrow> leaves t t"
  by (induction t) (auto simp: leaves_def minified.simps(2) kept_byte_def)

lemma kept_number: "number_char c \<Longrightarrow> kept_byte c"
  by (auto simp: number_char_def kept_byte_def c_isdigit_def word_le_nat_alt)

lemma leaves_comma: "leaves (44 # (if fmt then [32] else [])) [44]" "leaves (58 # (if fmt then [9] else [])) [58]"
  "leaves ((if cs = [] then [] else [44]) @ (if fmt then [10] else [])) (if cs = [] then [] else [44])"
  by (simp_all add: leaves_def minified.simps(2))

lemma escape_char_shape:
  "escape_char c = [c] \<and> c \<noteq> 34 \<and> c \<noteq> 92 \<or> escape_char c = [92, c] \<and> c \<in> {34, 92} \<or>
   (\<exists>x u. escape_char c = 92 # x # u \<and> 34 \<notin> set (x # u) \<and> 92 \<notin> set (x # u))"
proof -
  have t: "list_all (\<lambda>c. escape_char c = [c] \<and> c \<noteq> 34 \<and> c \<noteq> 92 \<or> escape_char c = [92, c] \<and> c \<in> {34, 92} \<or>
     (case escape_char c of y # x # u \<Rightarrow> y = 92 \<and> 34 \<notin> set (x # u) \<and> 92 \<notin> set (x # u) | _ \<Rightarrow> False)) all_bytes"
    by code_simp
  show ?thesis using byte_exhaustive [OF t, of c] by (auto split: list.splits)
qed

lemma span_over: "34 \<notin> set u \<Longrightarrow> 92 \<notin> set u \<Longrightarrow> string_span (u @ w) = (u @ fst (string_span w), snd (string_span w))"
  by (induction u) (auto simp: string_span.simps(2) split: prod.splits)

lemma span_escaped:
  "s = [] \<or> last s \<noteq> 92 \<Longrightarrow> string_span (escape_text s @ 34 # r) = (escape_text s @ [34], r)"
proof (induction s)
  case Nil
  show ?case by (simp add: escape_text_def string_span.simps(2))
next
  case (Cons c s)
  let ?w = "escape_text s @ 34 # r"
  have IH: "string_span ?w = (escape_text s @ [34], r)" using Cons by (cases "s = []") (auto simp: escape_text_def string_span.simps(2))
  have t: "escape_text (c # s) @ 34 # r = escape_char c @ ?w" by (simp add: escape_text_def)
  have w: "hd ?w \<noteq> 34" if "s \<noteq> []"
    using that escape_char_shape [of "hd s"] by (cases s) (auto simp: escape_text_def)
  consider (plain) "escape_char c = [c]" "c \<noteq> 34" "c \<noteq> 92" | (quote) "escape_char c = [92, 34]" "c = 34" | (slash) "escape_char c = [92, 92]" "c = 92"
    | (other) x u where "escape_char c = 92 # x # u" "34 \<notin> set (x # u)" "92 \<notin> set (x # u)"
    using escape_char_shape [of c] by auto
  then show ?case unfolding t
  proof cases
    case plain
    then show "string_span (escape_char c @ ?w) = (escape_text (c # s) @ [34], r)" using IH by (simp add: string_span.simps(2) escape_text_def)
  next
    case quote
    then show "string_span (escape_char c @ ?w) = (escape_text (c # s) @ [34], r)" using IH by (simp add: string_span.simps(2) escape_text_def)
  next
    case slash
    then have "s \<noteq> []" using Cons.prems by auto
    then show "string_span (escape_char c @ ?w) = (escape_text (c # s) @ [34], r)" using IH slash w by (simp add: string_span.simps(2) escape_text_def)
  next
    case other
    have "string_span (92 # (x # u) @ ?w) = (92 # (x # u) @ escape_text s @ [34], r)"
      using other(2) span_over [OF other(2,3), of ?w] IH by (subst string_span.simps(2)) auto
    then show "string_span (escape_char c @ ?w) = (escape_text (c # s) @ [34], r)" using other(1) by (simp add: escape_text_def)
  qed
qed

definition plain_end :: "byte list option \<Rightarrow> bool" where
  "plain_end s \<longleftrightarrow> text_of s = [] \<or> last (text_of s) \<noteq> 92"

lemma leaves_string: "plain_end s \<Longrightarrow> leaves (string_text (text_of s)) (string_text (text_of s))"
  using span_escaped [of "text_of s"] by (simp add: plain_end_def leaves_def string_text_def minified.simps(2))

text \<open>No string and no key ends in a backslash.\<close>

fun plain_ends :: "'f cJSON \<Rightarrow> bool" where
  "plain_ends (Item d cs) \<longleftrightarrow> plain_end (valuestring d) \<and> plain_end (jstring d) \<and> list_all plain_ends cs"

lemma leaves_text:
  "rereadable fo x \<Longrightarrow> plain_ends x \<Longrightarrow> leaves (json_text fo fmt dep x) (json_text fo False dep x)"
  "list_all (rereadable fo) cs \<Longrightarrow> list_all plain_ends cs \<Longrightarrow> leaves (elements_text fo fmt dep cs) (elements_text fo False dep cs)"
  "list_all (rereadable fo) cs \<Longrightarrow> list_all plain_ends cs \<Longrightarrow> leaves (members_text fo fmt dep cs) (members_text fo False dep cs)"
proof (induction fo fmt dep x and fo fmt dep cs and fo fmt dep cs rule: json_text_elements_text_members_text.induct)
  case (1 fo fmt dep d cs)
  have k: "leaves [91] [91]" "leaves [93] [93]" "leaves [123] [123]" "leaves [125] [125]"
    by (simp_all add: leaves_kept kept_byte_def)
  from rereadable_types [OF 1(3)] show ?case
  proof cases
    case 3
    have "leaves (number_text fo d) (number_text fo d)"
      using 1(3) 3 kept_number by (intro leaves_kept) (auto simp: json_number_def kept_byte_def lit_def)
    with 3 show ?thesis by (auto simp: json_types)
  next
    case 4
    then show ?thesis using 1(4) leaves_string [of "valuestring d"] by (simp add: json_types)
  next
    case 5
    have "leaves ([91] @ elements_text fo fmt (dep + 1) cs @ [93]) ([91] @ elements_text fo False (dep + 1) cs @ [93])"
      using 1 5 by (intro leaves_append k) (auto simp: json_types)
    with 5 show ?thesis by (simp add: json_types)
  next
    case 6
    have "leaves ([123] @ (if fmt then [10] else []) @ members_text fo fmt (dep + 1) cs @ (if fmt then tabs dep else []) @ [125])
      ([123] @ [] @ members_text fo False (dep + 1) cs @ [] @ [125])"
      using 1 6 by (intro leaves_append k) (auto simp: json_types leaves_blank leaves_tabs)
    with 6 show ?thesis by (simp add: json_types)
  qed (auto simp: json_types kept_byte_def lit_def intro!: leaves_kept)
next
  case (3 fo fmt dep x cs)
  have "leaves (json_text fo fmt dep x @ (if cs = [] then [] else 44 # (if fmt then [32] else [])) @ elements_text fo fmt dep cs)
    (json_text fo False dep x @ (if cs = [] then [] else [44]) @ elements_text fo False dep cs)"
    using 3 leaves_comma by (intro leaves_append) auto
  then show ?case by (cases fmt; cases "cs = []") simp_all
next
  case (5 fo fmt dep x cs)
  have "plain_end (jstring (item x))" using 5(4) by (cases x) simp
  then have "leaves ((if fmt then tabs dep else []) @ string_text (text_of (jstring (item x))) @ (58 # (if fmt then [9] else [])) @
      json_text fo fmt dep x @ ((if cs = [] then [] else [44]) @ (if fmt then [10] else [])) @ members_text fo fmt dep cs)
    ([] @ string_text (text_of (jstring (item x))) @ [58] @ json_text fo False dep x @ (if cs = [] then [] else [44]) @ members_text fo False dep cs)"
    using 5 leaves_string by (intro leaves_append leaves_comma) (auto simp: leaves_tabs)
  then show ?case by (cases fmt; cases "cs = []") simp_all
qed simp_all

text \<open>
  C20. Minifying what \<open>cJSON_Print\<close> returned for an item leaves exactly what \<open>cJSON_PrintUnformatted\<close>
  prints for it, when no string or key of the item ends in a backslash. Hypotheses: the item has no raw and no invalid parts (a raw part is printed as it is,
  its blanks would be removed), strings and keys have no NUL, the number of each item, which one that is no number carries
  too, prints in fewer than 26 bytes without a NUL, and each number prints as null or as a text that the parser would take as a whole and whose value fits a
  \<open>long long\<close>; both calls returned a block.
\<close>

theorem minify_undoes_formatting:
  assumes "sound fo x" and "rereadable fo x" and "plain_ends x"
    and "cJSON_Print fo realloc mem (Some x) = Some (Some block)"
    and "cJSON_PrintUnformatted fo realloc' mem' (Some x) = Some (Some block')"
  shows "\<exists>text short r. block = map Some text \<and> block' = map Some short \<and> cJSON_Minify (Some text) = Some (Some (short @ r))"
proof -
  let ?t = "json_text fo True 0 x" and ?u = "json_text fo False 0 x"
  have "block = map Some (?t @ [0])" "block' = map Some (?u @ [0])"
    using assms(4,5) print_block_result [OF assms(1) refl, where fmt = True and realloc = realloc and mem = mem]
      print_block_result [OF assms(1) refl, where fmt = False and realloc = realloc' and mem = mem']
    by (auto simp: cJSON_Print_def cJSON_PrintUnformatted_def)
  moreover have "minified ?t = ?u"
    using leaves_text(1) [OF assms(2,3), of True 0] by (auto simp: leaves_def dest: spec [of _ "[]"])
  moreover obtain r where "cJSON_Minify (Some (?t @ [0])) = Some (Some (minified ?t @ 0 # r))"
    using minified_in_place [of ?t "[]"] json_text_no_NUL(1) [OF assms(1), of True 0] by auto
  ultimately show ?thesis by (intro exI [of _ "?t @ [0]"] exI [of _ "?u @ [0]"] exI [of _ r]) simp
qed

theorem minify_undoes_formatting_witness:
  "\<exists>text short r. map Some (json_text whole_ops True 0 sample_item @ [0]) = map Some text \<and> map Some (sample_text @ [0]) = map Some short \<and>
    cJSON_Minify (Some text) = Some (Some (short @ r))"
proof (rule minify_undoes_formatting [where realloc = True and mem = 5 and realloc' = True and mem' = 5])
  show "rereadable whole_ops sample_item" "plain_ends sample_item" by code_simp+
  have "print_block whole_ops True 5 True sample_item = Some (Some (map Some (json_text whole_ops True 0 sample_item @ [0])))"
    by (rule print_block_succeeds [OF sample_sound(1) refl sample_sound(2)]) (simp_all add: sample_text_formatted INT_MAX_def)
  then show "cJSON_Print whole_ops True 5 (Some sample_item) = Some (Some (map Some (json_text whole_ops True 0 sample_item @ [0])))"
    by (simp add: cJSON_Print_def)
  have "print_block whole_ops True 5 False sample_item = Some (Some (map Some (sample_text @ [0])))"
    by (rule print_block_succeeds [OF sample_sound(1) sample_text [symmetric] sample_sound(2)]) (simp_all add: sample_text_def INT_MAX_def)
  then show "cJSON_PrintUnformatted whole_ops True 5 (Some sample_item) = Some (Some (map Some (sample_text @ [0])))"
    by (simp add: cJSON_PrintUnformatted_def)
qed (rule sample_sound)

text \<open>An array of two strings.\<close>

definition two_strings :: "byte list \<Rightarrow> byte list \<Rightarrow> int cJSON" where
  "two_strings s t = (let d = \<lparr>jtype = cJSON_Array, valuestring = None, valueint = 0, valuedouble = 0, jstring = None\<rparr> in
     Item d [Item (d\<lparr>jtype := cJSON_String, valuestring := Some s\<rparr>) [], Item (d\<lparr>jtype := cJSON_String, valuestring := Some t\<rparr>) []])"

lemma two_strings_parsed:
  assumes "0 \<notin> set s" and "0 \<notin> set t"
  shows "cJSON_ParseWithOpts whole_ops 10 (Some (json_text whole_ops False 0 (two_strings s t) @ [0])) False True =
    Some \<lparr>parsed = Some (two_strings s t), parse_end = None, global_error = None\<rparr>"
proof -
  let ?x = "two_strings s t"
  have zero: "number_text whole_ops \<lparr>jtype = k, valuestring = None, valueint = 0, valuedouble = 0, jstring = None\<rparr> = [48]" if "k \<in> {cJSON_Array, cJSON_String}" for k
    using that by (elim insertE emptyE) (simp_all only:, code_simp+)
  have same: "number_text whole_ops \<lparr>jtype = k, valuestring = v, valueint = 0, valuedouble = 0, jstring = None\<rparr> =
    number_text whole_ops \<lparr>jtype = k, valuestring = None, valueint = 0, valuedouble = 0, jstring = None\<rparr>" for k v
    by (simp add: number_text_def Let_def)
  have "number_text whole_ops \<lparr>jtype = k, valuestring = v, valueint = 0, valuedouble = 0, jstring = None\<rparr> = [48]" if "k \<in> {cJSON_Array, cJSON_String}" for k v
    by (simp only: same [of k v] zero [OF that])
  moreover have ty: "type_of d = jtype d" if "jtype d \<in> {1, 2, 4, 8, 16, 32, 64}" for d :: "int item_data"
    using type_of_plain [OF refl that] .
  ultimately have "sound whole_ops ?x" using assms by (simp add: two_strings_def c_string_def)
  moreover have "rereadable whole_ops ?x" using assms by (simp add: two_strings_def c_string_def json_types ty)
  moreover have "nest ?x \<le> CJSON_NESTING_LIMIT" "allocs ?x < 10" by (simp_all add: two_strings_def json_types ty CJSON_NESTING_LIMIT_def)
  moreover have "canonical whole_ops None ?x" by (simp add: two_strings_def json_types whole_ops_def)
  ultimately show ?thesis using parse_text [of whole_ops ?x 10 _ False False True] reread_canonical [of whole_ops None ?x] by simp
qed

text \<open>
  \<open>cJSON_Minify\<close> takes the quote after an escaped backslash for an escaped quote: from the text
  of an array of a backslash and a blank it removes the blank inside the second string, and the parser reads
  another item from what is left.
\<close>

theorem minify_changes_a_string:
  "\<exists>text short. cJSON_ParseWithOpts whole_ops 10 (Some text) False True = Some \<lparr>parsed = Some (two_strings [92] [32]), parse_end = None, global_error = None\<rparr> \<and>
    cJSON_Minify (Some text) = Some (Some (short @ [0])) \<and>
    cJSON_ParseWithOpts whole_ops 10 (Some short) False True = Some \<lparr>parsed = Some (two_strings [92] []), parse_end = None, global_error = None\<rparr>"
proof (intro exI conjI)
  let ?t = "[91, 34, 92, 92, 34, 44, 34, 32, 34, 93]" and ?u = "[91, 34, 92, 92, 34, 44, 34, 34, 93]"
  have t: "json_text whole_ops False 0 (two_strings [92] [32]) = ?t" "json_text whole_ops False 0 (two_strings [92] []) = ?u" by code_simp+
  show "cJSON_ParseWithOpts whole_ops 10 (Some (?t @ [0])) False True = Some \<lparr>parsed = Some (two_strings [92] [32]), parse_end = None, global_error = None\<rparr>"
    by (subst t(1) [symmetric], rule two_strings_parsed) (simp_all add: c_string_def escape_text_def)
  show "cJSON_Minify (Some (?t @ [0])) = Some (Some ((?u @ [0]) @ [0]))" by code_simp
  show "cJSON_ParseWithOpts whole_ops 10 (Some (?u @ [0])) False True = Some \<lparr>parsed = Some (two_strings [92] []), parse_end = None, global_error = None\<rparr>"
    by (subst t(2) [symmetric], rule two_strings_parsed) (simp_all add: c_string_def)
qed

end
