(* ===== verification/JsonHeap.thy ===== *)
theory JsonHeap
  imports JsonData
begin

section \<open>Items as linked nodes\<close>

text \<open>
  The functions that change a tree work on the links \<open>next\<close>, \<open>prev\<close> and \<open>child\<close> and on who owns a
  string, so they are modelled on a memory: a heap of nodes, a heap of strings (their bytes before
  the NUL), the next address an allocation returns, and the number of allocations that will succeed.
  Reading, writing or freeing what is not live has no result. The functions that only touch links
  are functions of the heap of nodes.
\<close>

record 'f jnode =
  jnext :: ptr
  jprev :: ptr
  jchild :: ptr
  ntype :: int
  nvalue :: ptr
  nint :: int
  ndouble :: 'f
  nname :: ptr

type_synonym 'f jheap = "'f jnode heap"

record 'f jmem =
  jnodes :: "'f jheap"
  strs :: "byte list heap"
  fresh :: addr
  left :: nat

subsection \<open>Primitives\<close>

definition fetch :: "'f jheap \<Rightarrow> ptr \<Rightarrow> 'f jnode option" where
  "fetch h p = do { a \<leftarrow> p; h a }"

definition put :: "'f jheap \<Rightarrow> ptr \<Rightarrow> ('f jnode \<Rightarrow> 'f jnode) \<Rightarrow> 'f jheap option" where
  "put h p f = do { a \<leftarrow> p; n \<leftarrow> h a; Some (h(a \<mapsto> f n)) }"

definition read_string :: "'f jmem \<Rightarrow> ptr \<Rightarrow> byte list option" where
  "read_string m p = do { a \<leftarrow> p; strs m a }"

definition put_node :: "'f jmem \<Rightarrow> ptr \<Rightarrow> ('f jnode \<Rightarrow> 'f jnode) \<Rightarrow> 'f jmem option" where
  "put_node m p f = do { h \<leftarrow> put (jnodes m) p f; Some (m\<lparr>jnodes := h\<rparr>) }"

definition free_string :: "'f jmem \<Rightarrow> ptr \<Rightarrow> 'f jmem option" where
  "free_string m p = do { s \<leftarrow> c_free (strs m) p; Some (m\<lparr>strs := s\<rparr>) }"

definition free_node :: "'f jmem \<Rightarrow> ptr \<Rightarrow> 'f jmem option" where
  "free_node m p = do { h \<leftarrow> c_free (jnodes m) p; Some (m\<lparr>jnodes := h\<rparr>) }"

definition zero_node :: "('f, 'a) float_ops_scheme \<Rightarrow> 'f jnode" where
  "zero_node fo = \<lparr>jnext = None, jprev = None, jchild = None, ntype = 0, nvalue = None, nint = 0,
     ndouble = fo_of_int fo 0, nname = None\<rparr>"

text \<open>\<open>cJSON_New_Item\<close> and \<open>cJSON_strdup\<close> in the memory.\<close>

definition make_node :: "('f, 'a) float_ops_scheme \<Rightarrow> 'f jmem \<Rightarrow> ptr \<times> 'f jmem" where
  "make_node fo m =
     (if left m = 0 then (None, m)
      else (Some (fresh m), m\<lparr>jnodes := (jnodes m)(fresh m \<mapsto> zero_node fo), fresh := fresh m + 1, left := left m - 1\<rparr>))"

definition dup_string :: "'f jmem \<Rightarrow> ptr \<Rightarrow> (ptr \<times> 'f jmem) option" where
  "dup_string m p = (case p of None \<Rightarrow> Some (None, m)
   | Some a \<Rightarrow> do {
       s \<leftarrow> strs m a;
       if left m = 0 then Some (None, m)
       else Some (Some (fresh m), m\<lparr>strs := (strs m)(fresh m \<mapsto> s), fresh := fresh m + 1, left := left m - 1\<rparr>) })"

text \<open>A created item without children, put into the memory.\<close>

definition place :: "'f jmem \<Rightarrow> 'f cJSON option \<times> nat \<Rightarrow> ptr \<times> 'f jmem" where
  "place m r = (case r of
     (None, k) \<Rightarrow> (None, m\<lparr>left := k\<rparr>)
   | (Some x, k) \<Rightarrow> (let d = item x; a = fresh m in
       (Some a, m\<lparr>jnodes := (jnodes m)(a \<mapsto> \<lparr>jnext = None, jprev = None, jchild = None, ntype = jtype d,
            nvalue = map_option (\<lambda>_. a + 1) (valuestring d), nint = valueint d, ndouble = valuedouble d, nname = None\<rparr>),
          strs := (case valuestring d of None \<Rightarrow> strs m | Some s \<Rightarrow> (strs m)(a + 1 \<mapsto> s)), fresh := a + 2, left := k\<rparr>)))"

definition is_reference :: "'f jnode \<Rightarrow> bool" where
  "is_reference n \<longleftrightarrow> ntype n AND cJSON_IsReference \<noteq> 0"

definition const_name :: "'f jnode \<Rightarrow> bool" where
  "const_name n \<longleftrightarrow> ntype n AND cJSON_StringIsConst \<noteq> 0"

subsection \<open>Deleting\<close>

partial_function (option) cJSON_Delete :: "ptr \<Rightarrow> 'f jmem \<Rightarrow> 'f jmem option" where
  "cJSON_Delete p m = (case p of None \<Rightarrow> Some m
   | Some a \<Rightarrow> do {
       n \<leftarrow> jnodes m a;
       m \<leftarrow> (if \<not> is_reference n \<and> jchild n \<noteq> None then cJSON_Delete (jchild n) m else Some m);
       n' \<leftarrow> jnodes m a;
       m \<leftarrow> (if \<not> is_reference n' \<and> nvalue n' \<noteq> None then free_string m (nvalue n') else Some m);
       m \<leftarrow> (if \<not> const_name n' \<and> nname n' \<noteq> None then free_string m (nname n') else Some m);
       m \<leftarrow> free_node m (Some a);
       cJSON_Delete (jnext n) m })"

subsection \<open>Looking up\<close>

partial_function (option) count_from :: "'f jheap \<Rightarrow> ptr \<Rightarrow> 64 word \<Rightarrow> 64 word option" where
  "count_from h p n = (case p of None \<Rightarrow> Some n | Some a \<Rightarrow> do { x \<leftarrow> h a; count_from h (jnext x) (n + 1) })"

definition cJSON_GetArraySize :: "'f jheap \<Rightarrow> ptr \<Rightarrow> int option" where
  "cJSON_GetArraySize h array = (case array of None \<Rightarrow> Some 0
   | Some a \<Rightarrow> do { n \<leftarrow> h a; k \<leftarrow> count_from h (jchild n) 0; Some (sint (ucast k :: 32 word)) })"

fun walk :: "'f jheap \<Rightarrow> ptr \<Rightarrow> nat \<Rightarrow> ptr option" where
  "walk h p 0 = Some p"
| "walk h None (Suc k) = Some None"
| "walk h (Some a) (Suc k) = do { n \<leftarrow> h a; walk h (jnext n) k }"

definition get_array_item :: "'f jheap \<Rightarrow> ptr \<Rightarrow> nat \<Rightarrow> ptr option" where
  "get_array_item h array i = (case array of None \<Rightarrow> Some None | Some a \<Rightarrow> do { n \<leftarrow> h a; walk h (jchild n) i })"

definition cJSON_GetArrayItem :: "'f jheap \<Rightarrow> ptr \<Rightarrow> int \<Rightarrow> ptr option" where
  "cJSON_GetArrayItem h array i = (if i < 0 then Some None else get_array_item h array (nat i))"

text \<open>
  Whether the search goes on at a name: with \<open>case_sensitive\<close> it stops at a null pointer, without
  it a null pointer is a name that differs.
\<close>

definition goes_on :: "'f jmem \<Rightarrow> bool \<Rightarrow> ptr \<Rightarrow> ptr \<Rightarrow> bool option" where
  "goes_on m case_sensitive name key = (case key of None \<Rightarrow> Some (\<not> case_sensitive)
   | Some k \<Rightarrow> do {
       s \<leftarrow> read_string m name;
       t \<leftarrow> strs m k;
       Some (if case_sensitive then s \<noteq> t else case_insensitive_strcmp (Some s) (Some t) \<noteq> 0) })"

partial_function (option) find_from :: "'f jmem \<Rightarrow> bool \<Rightarrow> ptr \<Rightarrow> ptr \<Rightarrow> ptr option" where
  "find_from m cs name p = (case p of None \<Rightarrow> Some None
   | Some a \<Rightarrow> do {
       n \<leftarrow> jnodes m a;
       go \<leftarrow> goes_on m cs name (nname n);
       if go then find_from m cs name (jnext n) else Some p })"

definition get_object_item :: "'f jmem \<Rightarrow> ptr \<Rightarrow> ptr \<Rightarrow> bool \<Rightarrow> ptr option" where
  "get_object_item m object name cs =
     (if object = None \<or> name = None then Some None
      else do {
        n \<leftarrow> fetch (jnodes m) object;
        current \<leftarrow> find_from m cs name (jchild n);
        case current of None \<Rightarrow> Some None
        | Some a \<Rightarrow> do { n \<leftarrow> jnodes m a; Some (if nname n = None then None else current) } })"

definition cJSON_GetObjectItem :: "'f jmem \<Rightarrow> ptr \<Rightarrow> ptr \<Rightarrow> ptr option" where
  "cJSON_GetObjectItem m object name = get_object_item m object name False"

definition cJSON_GetObjectItemCaseSensitive :: "'f jmem \<Rightarrow> ptr \<Rightarrow> ptr \<Rightarrow> ptr option" where
  "cJSON_GetObjectItemCaseSensitive m object name = get_object_item m object name True"

definition cJSON_HasObjectItem :: "'f jmem \<Rightarrow> ptr \<Rightarrow> ptr \<Rightarrow> bool option" where
  "cJSON_HasObjectItem m object name = do { p \<leftarrow> cJSON_GetObjectItem m object name; Some (p \<noteq> None) }"

subsection \<open>Adding\<close>

definition suffix_object :: "'f jheap \<Rightarrow> ptr \<Rightarrow> ptr \<Rightarrow> 'f jheap option" where
  "suffix_object h prev it = do { h \<leftarrow> put h prev (\<lambda>n. n\<lparr>jnext := it\<rparr>); put h it (\<lambda>n. n\<lparr>jprev := prev\<rparr>) }"

definition create_reference :: "('f, 'a) float_ops_scheme \<Rightarrow> 'f jmem \<Rightarrow> ptr \<Rightarrow> (ptr \<times> 'f jmem) option" where
  "create_reference fo m it =
     (if it = None then Some (None, m)
      else (case make_node fo m of
          (None, m) \<Rightarrow> Some (None, m)
        | (reference, m) \<Rightarrow> do {
            n \<leftarrow> fetch (jnodes m) it;
            m \<leftarrow> put_node m reference
              (\<lambda>_. n\<lparr>nname := None, ntype := ntype n OR cJSON_IsReference, jnext := None, jprev := None\<rparr>);
            Some (reference, m) }))"

definition add_item_to_array :: "'f jheap \<Rightarrow> ptr \<Rightarrow> ptr \<Rightarrow> (bool \<times> 'f jheap) option" where
  "add_item_to_array h array it =
     (if it = None \<or> array = None \<or> array = it then Some (False, h)
      else do {
        a \<leftarrow> fetch h array;
        if jchild a = None then do {
          h \<leftarrow> put h array (\<lambda>n. n\<lparr>jchild := it\<rparr>);
          h \<leftarrow> put h it (\<lambda>n. n\<lparr>jprev := it, jnext := None\<rparr>);
          Some (True, h) }
        else do {
          c \<leftarrow> fetch h (jchild a);
          if jprev c \<noteq> None then do {
            h \<leftarrow> suffix_object h (jprev c) it;
            a \<leftarrow> fetch h array;
            h \<leftarrow> put h (jchild a) (\<lambda>n. n\<lparr>jprev := it\<rparr>);
            Some (True, h) }
          else Some (True, h) } })"

text \<open>A function of the heap of nodes, run in the memory.\<close>

definition on_nodes :: "('f jheap \<Rightarrow> ('b \<times> 'f jheap) option) \<Rightarrow> 'f jmem \<Rightarrow> ('b \<times> 'f jmem) option" where
  "on_nodes f m = do { (r, h) \<leftarrow> f (jnodes m); Some (r, m\<lparr>jnodes := h\<rparr>) }"

definition cJSON_AddItemToArray :: "'f jmem \<Rightarrow> ptr \<Rightarrow> ptr \<Rightarrow> (bool \<times> 'f jmem) option" where
  "cJSON_AddItemToArray m array it = on_nodes (\<lambda>h. add_item_to_array h array it) m"

definition add_item_to_object :: "'f jmem \<Rightarrow> ptr \<Rightarrow> ptr \<Rightarrow> ptr \<Rightarrow> bool \<Rightarrow> (bool \<times> 'f jmem) option" where
  "add_item_to_object m object name it constant_key =
     (if object = None \<or> name = None \<or> it = None \<or> object = it then Some (False, m)
      else do {
        n \<leftarrow> fetch (jnodes m) it;
        (new_key, m) \<leftarrow> (if constant_key then Some (name, m) else dup_string m name);
        if new_key = None then Some (False, m)
        else do {
          let new_type = (if constant_key then ntype n OR cJSON_StringIsConst else ntype n AND NOT cJSON_StringIsConst);
          m \<leftarrow> (if \<not> const_name n \<and> nname n \<noteq> None then free_string m (nname n) else Some m);
          m \<leftarrow> put_node m it (\<lambda>n. n\<lparr>nname := new_key, ntype := new_type\<rparr>);
          on_nodes (\<lambda>h. add_item_to_array h object it) m } })"

definition cJSON_AddItemToObject :: "'f jmem \<Rightarrow> ptr \<Rightarrow> ptr \<Rightarrow> ptr \<Rightarrow> (bool \<times> 'f jmem) option" where
  "cJSON_AddItemToObject m object name it = add_item_to_object m object name it False"

definition cJSON_AddItemToObjectCS :: "'f jmem \<Rightarrow> ptr \<Rightarrow> ptr \<Rightarrow> ptr \<Rightarrow> (bool \<times> 'f jmem) option" where
  "cJSON_AddItemToObjectCS m object name it = add_item_to_object m object name it True"

definition cJSON_AddItemReferenceToArray :: "('f, 'a) float_ops_scheme \<Rightarrow> 'f jmem \<Rightarrow> ptr \<Rightarrow> ptr \<Rightarrow> (bool \<times> 'f jmem) option" where
  "cJSON_AddItemReferenceToArray fo m array it =
     (if array = None then Some (False, m)
      else do { (reference, m) \<leftarrow> create_reference fo m it; cJSON_AddItemToArray m array reference })"

definition cJSON_AddItemReferenceToObject ::
    "('f, 'a) float_ops_scheme \<Rightarrow> 'f jmem \<Rightarrow> ptr \<Rightarrow> ptr \<Rightarrow> ptr \<Rightarrow> (bool \<times> 'f jmem) option" where
  "cJSON_AddItemReferenceToObject fo m object name it =
     (if object = None \<or> name = None then Some (False, m)
      else do { (reference, m) \<leftarrow> create_reference fo m it; add_item_to_object m object name reference False })"

text \<open>The common end of the functions that create an item and add it to an object.\<close>

definition add_created :: "ptr \<Rightarrow> ptr \<Rightarrow> ptr \<times> 'f jmem \<Rightarrow> (ptr \<times> 'f jmem) option" where
  "add_created object name = (\<lambda>(it, m). do {
     (ok, m) \<leftarrow> add_item_to_object m object name it False;
     if ok then Some (it, m) else do { m \<leftarrow> cJSON_Delete it m; Some (None, m) } })"

definition cJSON_AddNullToObject :: "('f, 'a) float_ops_scheme \<Rightarrow> 'f jmem \<Rightarrow> ptr \<Rightarrow> ptr \<Rightarrow> (ptr \<times> 'f jmem) option" where
  "cJSON_AddNullToObject fo m object name = add_created object name (place m (cJSON_CreateNull fo (left m)))"

definition cJSON_AddTrueToObject :: "('f, 'a) float_ops_scheme \<Rightarrow> 'f jmem \<Rightarrow> ptr \<Rightarrow> ptr \<Rightarrow> (ptr \<times> 'f jmem) option" where
  "cJSON_AddTrueToObject fo m object name = add_created object name (place m (cJSON_CreateTrue fo (left m)))"

definition cJSON_AddFalseToObject :: "('f, 'a) float_ops_scheme \<Rightarrow> 'f jmem \<Rightarrow> ptr \<Rightarrow> ptr \<Rightarrow> (ptr \<times> 'f jmem) option" where
  "cJSON_AddFalseToObject fo m object name = add_created object name (place m (cJSON_CreateFalse fo (left m)))"

definition cJSON_AddBoolToObject :: "('f, 'a) float_ops_scheme \<Rightarrow> 'f jmem \<Rightarrow> ptr \<Rightarrow> ptr \<Rightarrow> int \<Rightarrow> (ptr \<times> 'f jmem) option" where
  "cJSON_AddBoolToObject fo m object name b = add_created object name (place m (cJSON_CreateBool fo (left m) b))"

definition cJSON_AddIntToObject :: "('f, 'a) float_ops_scheme \<Rightarrow> 'f jmem \<Rightarrow> ptr \<Rightarrow> ptr \<Rightarrow> int \<Rightarrow> (ptr \<times> 'f jmem) option" where
  "cJSON_AddIntToObject fo m object name n = add_created object name (place m (cJSON_CreateInt fo (left m) n))"

definition cJSON_AddNumberToObject :: "('f, 'a) num_ops_scheme \<Rightarrow> 'f jmem \<Rightarrow> ptr \<Rightarrow> ptr \<Rightarrow> 'f \<Rightarrow> (ptr \<times> 'f jmem) option" where
  "cJSON_AddNumberToObject fo m object name x = do {
     r \<leftarrow> cJSON_CreateNumber fo (left m) x;
     add_created object name (place m r) }"

text \<open>The text of a string parameter, which may be a null pointer.\<close>

definition parameter_text :: "'f jmem \<Rightarrow> ptr \<Rightarrow> byte list option option" where
  "parameter_text m p = (if p = None then Some None else do { s \<leftarrow> read_string m p; Some (Some s) })"

definition cJSON_AddStringToObject :: "('f, 'a) float_ops_scheme \<Rightarrow> 'f jmem \<Rightarrow> ptr \<Rightarrow> ptr \<Rightarrow> ptr \<Rightarrow> (ptr \<times> 'f jmem) option" where
  "cJSON_AddStringToObject fo m object name p = do {
     s \<leftarrow> parameter_text m p;
     add_created object name (place m (cJSON_CreateString fo (left m) s)) }"

definition cJSON_AddRawToObject :: "('f, 'a) float_ops_scheme \<Rightarrow> 'f jmem \<Rightarrow> ptr \<Rightarrow> ptr \<Rightarrow> ptr \<Rightarrow> (ptr \<times> 'f jmem) option" where
  "cJSON_AddRawToObject fo m object name p = do {
     s \<leftarrow> parameter_text m p;
     add_created object name (place m (cJSON_CreateRaw fo (left m) s)) }"

definition cJSON_AddObjectToObject :: "('f, 'a) float_ops_scheme \<Rightarrow> 'f jmem \<Rightarrow> ptr \<Rightarrow> ptr \<Rightarrow> (ptr \<times> 'f jmem) option" where
  "cJSON_AddObjectToObject fo m object name = add_created object name (place m (cJSON_CreateObject fo (left m)))"

definition cJSON_AddArrayToObject :: "('f, 'a) float_ops_scheme \<Rightarrow> 'f jmem \<Rightarrow> ptr \<Rightarrow> ptr \<Rightarrow> (ptr \<times> 'f jmem) option" where
  "cJSON_AddArrayToObject fo m object name = add_created object name (place m (cJSON_CreateArray fo (left m)))"

subsection \<open>Detaching, inserting, replacing\<close>

definition cJSON_DetachItemViaPointer :: "'f jheap \<Rightarrow> ptr \<Rightarrow> ptr \<Rightarrow> (ptr \<times> 'f jheap) option" where
  "cJSON_DetachItemViaPointer h parent it =
     (if parent = None \<or> it = None then Some (None, h)
      else do {
        p \<leftarrow> fetch h parent;
        n \<leftarrow> fetch h it;
        h \<leftarrow> (if it \<noteq> jchild p then put h (jprev n) (\<lambda>x. x\<lparr>jnext := jnext n\<rparr>) else Some h);
        n \<leftarrow> fetch h it;
        h \<leftarrow> (if jnext n \<noteq> None then put h (jnext n) (\<lambda>x. x\<lparr>jprev := jprev n\<rparr>) else Some h);
        p \<leftarrow> fetch h parent;
        n \<leftarrow> fetch h it;
        h \<leftarrow> (if it = jchild p then put h parent (\<lambda>x. x\<lparr>jchild := jnext n\<rparr>)
              else if jnext n = None then put h (jchild p) (\<lambda>x. x\<lparr>jprev := jprev n\<rparr>)
              else Some h);
        h \<leftarrow> put h it (\<lambda>x. x\<lparr>jprev := None, jnext := None\<rparr>);
        Some (it, h) })"

definition cJSON_DetachItemFromArray :: "'f jheap \<Rightarrow> ptr \<Rightarrow> int \<Rightarrow> (ptr \<times> 'f jheap) option" where
  "cJSON_DetachItemFromArray h array which =
     (if which < 0 then Some (None, h)
      else do { it \<leftarrow> get_array_item h array (nat which); cJSON_DetachItemViaPointer h array it })"

definition cJSON_DeleteItemFromArray :: "'f jmem \<Rightarrow> ptr \<Rightarrow> int \<Rightarrow> 'f jmem option" where
  "cJSON_DeleteItemFromArray m array which = do {
     (it, m) \<leftarrow> on_nodes (\<lambda>h. cJSON_DetachItemFromArray h array which) m;
     cJSON_Delete it m }"

definition cJSON_DetachItemFromObject :: "'f jmem \<Rightarrow> ptr \<Rightarrow> ptr \<Rightarrow> (ptr \<times> 'f jmem) option" where
  "cJSON_DetachItemFromObject m object name = do {
     to_detach \<leftarrow> cJSON_GetObjectItem m object name;
     on_nodes (\<lambda>h. cJSON_DetachItemViaPointer h object to_detach) m }"

definition cJSON_DetachItemFromObjectCaseSensitive :: "'f jmem \<Rightarrow> ptr \<Rightarrow> ptr \<Rightarrow> (ptr \<times> 'f jmem) option" where
  "cJSON_DetachItemFromObjectCaseSensitive m object name = do {
     to_detach \<leftarrow> cJSON_GetObjectItemCaseSensitive m object name;
     on_nodes (\<lambda>h. cJSON_DetachItemViaPointer h object to_detach) m }"

definition cJSON_DeleteItemFromObject :: "'f jmem \<Rightarrow> ptr \<Rightarrow> ptr \<Rightarrow> 'f jmem option" where
  "cJSON_DeleteItemFromObject m object name = do {
     (it, m) \<leftarrow> cJSON_DetachItemFromObject m object name;
     cJSON_Delete it m }"

definition cJSON_DeleteItemFromObjectCaseSensitive :: "'f jmem \<Rightarrow> ptr \<Rightarrow> ptr \<Rightarrow> 'f jmem option" where
  "cJSON_DeleteItemFromObjectCaseSensitive m object name = do {
     (it, m) \<leftarrow> cJSON_DetachItemFromObjectCaseSensitive m object name;
     cJSON_Delete it m }"

definition cJSON_InsertItemInArray :: "'f jheap \<Rightarrow> ptr \<Rightarrow> int \<Rightarrow> ptr \<Rightarrow> (bool \<times> 'f jheap) option" where
  "cJSON_InsertItemInArray h array which newitem =
     (if which < 0 then Some (False, h)
      else do {
        after_inserted \<leftarrow> get_array_item h array (nat which);
        if after_inserted = None then add_item_to_array h array newitem
        else do {
          h \<leftarrow> put h newitem (\<lambda>n. n\<lparr>jnext := after_inserted\<rparr>);
          x \<leftarrow> fetch h after_inserted;
          h \<leftarrow> put h newitem (\<lambda>n. n\<lparr>jprev := jprev x\<rparr>);
          h \<leftarrow> put h after_inserted (\<lambda>n. n\<lparr>jprev := newitem\<rparr>);
          a \<leftarrow> fetch h array;
          h \<leftarrow> (if after_inserted = jchild a then put h array (\<lambda>n. n\<lparr>jchild := newitem\<rparr>)
                else do { n \<leftarrow> fetch h newitem; put h (jprev n) (\<lambda>n. n\<lparr>jnext := newitem\<rparr>) });
          Some (True, h) } })"

text \<open>\<open>cJSON_ReplaceItemViaPointer\<close> up to the deletion of the item.\<close>

definition relink :: "'f jheap \<Rightarrow> ptr \<Rightarrow> ptr \<Rightarrow> ptr \<Rightarrow> 'f jheap option" where
  "relink h parent it replacement = do {
     n \<leftarrow> fetch h it;
     h \<leftarrow> put h replacement (\<lambda>x. x\<lparr>jnext := jnext n, jprev := jprev n\<rparr>);
     r \<leftarrow> fetch h replacement;
     h \<leftarrow> (if jnext r \<noteq> None then put h (jnext r) (\<lambda>x. x\<lparr>jprev := replacement\<rparr>) else Some h);
     p \<leftarrow> fetch h parent;
     h \<leftarrow> (if jchild p = it then do {
             c \<leftarrow> fetch h (jchild p);
             h \<leftarrow> (if jprev c = jchild p then put h replacement (\<lambda>x. x\<lparr>jprev := replacement\<rparr>) else Some h);
             put h parent (\<lambda>x. x\<lparr>jchild := replacement\<rparr>) }
           else do {
             r \<leftarrow> fetch h replacement;
             h \<leftarrow> (if jprev r \<noteq> None then put h (jprev r) (\<lambda>x. x\<lparr>jnext := replacement\<rparr>) else Some h);
             r \<leftarrow> fetch h replacement;
             if jnext r = None then do { p \<leftarrow> fetch h parent; put h (jchild p) (\<lambda>x. x\<lparr>jprev := replacement\<rparr>) }
             else Some h });
     put h it (\<lambda>x. x\<lparr>jnext := None, jprev := None\<rparr>) }"

definition cJSON_ReplaceItemViaPointer :: "'f jmem \<Rightarrow> ptr \<Rightarrow> ptr \<Rightarrow> ptr \<Rightarrow> (bool \<times> 'f jmem) option" where
  "cJSON_ReplaceItemViaPointer m parent it replacement =
     (if parent = None \<or> replacement = None \<or> it = None then Some (False, m)
      else if replacement = it then Some (True, m)
      else do {
        h \<leftarrow> relink (jnodes m) parent it replacement;
        m \<leftarrow> cJSON_Delete it (m\<lparr>jnodes := h\<rparr>);
        Some (True, m) })"

definition cJSON_ReplaceItemInArray :: "'f jmem \<Rightarrow> ptr \<Rightarrow> int \<Rightarrow> ptr \<Rightarrow> (bool \<times> 'f jmem) option" where
  "cJSON_ReplaceItemInArray m array which newitem =
     (if which < 0 then Some (False, m)
      else do { it \<leftarrow> get_array_item (jnodes m) array (nat which); cJSON_ReplaceItemViaPointer m array it newitem })"

definition replace_item_in_object :: "'f jmem \<Rightarrow> ptr \<Rightarrow> ptr \<Rightarrow> ptr \<Rightarrow> bool \<Rightarrow> (bool \<times> 'f jmem) option" where
  "replace_item_in_object m object name replacement cs =
     (if replacement = None \<or> name = None then Some (False, m)
      else do {
        n \<leftarrow> fetch (jnodes m) replacement;
        m \<leftarrow> (if \<not> const_name n \<and> nname n \<noteq> None then free_string m (nname n) else Some m);
        (new_key, m) \<leftarrow> dup_string m name;
        m \<leftarrow> put_node m replacement (\<lambda>n. n\<lparr>nname := new_key, ntype := ntype n AND NOT cJSON_StringIsConst\<rparr>);
        it \<leftarrow> get_object_item m object name cs;
        cJSON_ReplaceItemViaPointer m object it replacement })"

definition cJSON_ReplaceItemInObject :: "'f jmem \<Rightarrow> ptr \<Rightarrow> ptr \<Rightarrow> ptr \<Rightarrow> (bool \<times> 'f jmem) option" where
  "cJSON_ReplaceItemInObject m object name newitem = replace_item_in_object m object name newitem False"

definition cJSON_ReplaceItemInObjectCaseSensitive :: "'f jmem \<Rightarrow> ptr \<Rightarrow> ptr \<Rightarrow> ptr \<Rightarrow> (bool \<times> 'f jmem) option" where
  "cJSON_ReplaceItemInObjectCaseSensitive m object name newitem = replace_item_in_object m object name newitem True"

end
