(* ===== verification/Simulation.thy ===== *)
theory Simulation
  imports CPrelude
begin

section \<open>Runs that follow an abstract machine\<close>

text \<open>
  A run of operations on a state, each with an outcome. In an abstract machine \<^term>\<open>None\<close> says that
  the operation may not be called in the state; in the model of code it is a run without a meaning.
  The locale \<open>simulation\<close> asks for one step and gives whole runs.
\<close>

fun run_ops :: "('s \<Rightarrow> 'o \<Rightarrow> ('r \<times> 's) option) \<Rightarrow> 's \<Rightarrow> 'o list \<Rightarrow> ('r list \<times> 's) option" where
  "run_ops step s [] = Some ([], s)"
| "run_ops step s (op # os) = do { (r, s) \<leftarrow> step s op; (rs, s) \<leftarrow> run_ops step s os; Some (r # rs, s) }"

locale simulation =
  fixes rel :: "'s \<Rightarrow> 'a \<Rightarrow> bool"
    and step :: "'s \<Rightarrow> 'o \<Rightarrow> ('r \<times> 's) option"
    and spec :: "'a \<Rightarrow> 'o \<Rightarrow> ('r \<times> 'a) option"
  assumes step_ok: "rel s a \<Longrightarrow> spec a op = Some (r, a') \<Longrightarrow> \<exists>s'. step s op = Some (r, s') \<and> rel s' a'"
begin

lemma run_ok:
  "rel s a \<Longrightarrow> run_ops spec a os = Some (rs, a') \<Longrightarrow> \<exists>s'. run_ops step s os = Some (rs, s') \<and> rel s' a'"
proof (induction os arbitrary: s a rs)
  case (Cons op os)
  then obtain r b rs' where s: "spec a op = Some (r, b)" "run_ops spec b os = Some (rs', a')" "rs = r # rs'"
    by (auto simp: bind_eq_Some_conv)
  from step_ok [OF Cons.prems(1) s(1)] obtain s1 where "step s op = Some (r, s1)" "rel s1 b" by blast
  with Cons.IH [OF _ s(2)] s(3) show ?case by fastforce
qed simp

end

end
