(* ===== verification/JsonChain.thy ===== *)
theory JsonChain
  imports JsonHeap Simulation
begin

section \<open>The children of an array as a list\<close>

text \<open>
  The chain of the children of an item as the list of their addresses: forwards it ends at a null
  pointer, backwards the first points to the last. The operations on arrays refine operations on
  that list and change no other field of any node.
\<close>

definition hd_ptr :: "addr list \<Rightarrow> ptr" where
  "hd_ptr xs = (case xs of [] \<Rightarrow> None | x # _ \<Rightarrow> Some x)"

definition last_ptr :: "addr list \<Rightarrow> ptr" where
  "last_ptr xs = (if xs = [] then None else Some (last xs))"

definition links_of :: "'f jheap \<Rightarrow> addr \<Rightarrow> (ptr \<times> ptr) option" where
  "links_of h a = map_option (\<lambda>n. (jprev n, jnext n)) (h a)"

fun seg :: "'f jheap \<Rightarrow> ptr \<Rightarrow> addr list \<Rightarrow> ptr \<Rightarrow> bool" where
  "seg h p [] q \<longleftrightarrow> True"
| "seg h p (a # as) q \<longleftrightarrow> links_of h a = Some (p, if as = [] then q else hd_ptr as) \<and> seg h (Some a) as q"

definition chain :: "'f jheap \<Rightarrow> addr list \<Rightarrow> bool" where
  "chain h xs \<longleftrightarrow> seg h (last_ptr xs) xs None"

definition child_of :: "'f jheap \<Rightarrow> addr \<Rightarrow> ptr option" where
  "child_of h a = map_option jchild (h a)"

definition kids :: "'f jheap \<Rightarrow> addr \<Rightarrow> addr list \<Rightarrow> bool" where
  "kids h a xs \<longleftrightarrow> child_of h a = Some (hd_ptr xs) \<and> chain h xs \<and> distinct (a # xs)"

text \<open>What an operation on the array \<open>a\<close> leaves: it changes links of nodes in \<open>S\<close> and the child of \<open>a\<close>.\<close>

definition data_of :: "'f jheap \<Rightarrow> addr \<Rightarrow> 'f jnode option" where
  "data_of h a = map_option (\<lambda>n. n\<lparr>jnext := None, jprev := None, jchild := None\<rparr>) (h a)"

definition relinks :: "addr \<Rightarrow> addr set \<Rightarrow> 'f jheap \<Rightarrow> 'f jheap \<Rightarrow> bool" where
  "relinks a S h h' \<longleftrightarrow> (\<forall>x. data_of h' x = data_of h x) \<and> (\<forall>x. x \<notin> S \<longrightarrow> links_of h' x = links_of h x) \<and>
     (\<forall>x. x \<noteq> a \<longrightarrow> child_of h' x = child_of h x)"

lemma hd_ptr_simps [simp]: "hd_ptr [] = None" "hd_ptr (x # xs) = Some x" "hd_ptr xs = None \<longleftrightarrow> xs = []"
  "hd_ptr xs = Some y \<longleftrightarrow> xs \<noteq> [] \<and> hd xs = y" "hd_ptr (xs @ ys) = (if xs = [] then hd_ptr ys else hd_ptr xs)"
  by (auto simp: hd_ptr_def split: list.splits)

lemma last_ptr_simps [simp]: "last_ptr [] = None" "last_ptr (xs @ [x]) = Some x" "last_ptr xs = None \<longleftrightarrow> xs = []"
  "last_ptr (xs @ ys) = (if ys = [] then last_ptr xs else last_ptr ys)" 
  "last_ptr (x # xs) = (if xs = [] then Some x else last_ptr xs)"
  by (simp_all add: last_ptr_def)

lemma last_ptrD: "last_ptr xs = Some x \<Longrightarrow> x \<in> set xs"
  by (auto simp: last_ptr_def split: if_splits)

lemma links_of_upd [simp]: "links_of (h(x \<mapsto> n)) a = (if a = x then Some (jprev n, jnext n) else links_of h a)"
  by (simp add: links_of_def)

lemma links_ofD: "links_of h a = Some (p, q) \<Longrightarrow> \<exists>n. h a = Some n \<and> jprev n = p \<and> jnext n = q"
  by (auto simp: links_of_def)

lemma seg_frame: "(\<And>x. x \<in> set xs \<Longrightarrow> links_of h' x = links_of h x) \<Longrightarrow> seg h' p xs q = seg h p xs q"
  by (induction xs arbitrary: p) auto

lemma seg_upd [simp]: "x \<notin> set xs \<Longrightarrow> seg (h(x \<mapsto> n)) p xs q = seg h p xs q"
  by (rule seg_frame) auto

lemma seg_append [simp]: "seg h p (xs @ ys) q \<longleftrightarrow>
    seg h p xs (if ys = [] then q else hd_ptr ys) \<and> seg h (if xs = [] then p else last_ptr xs) ys q"
  by (induction xs arbitrary: p) (auto simp: last_ptr_def)

lemma put_simps [simp]: "put h None f = None" "h a = Some n \<Longrightarrow> put h (Some a) f = Some (h(a \<mapsto> f n))"
  "fetch h None = None" "fetch h (Some a) = h a"
  by (simp_all add: put_def fetch_def)

lemma seg_live: "seg h p xs q \<Longrightarrow> x \<in> set xs \<Longrightarrow> \<exists>n. h x = Some n"
  by (induction xs arbitrary: p) (auto dest: links_ofD)

lemma node_upd [simp]:
  "data_of (h(x \<mapsto> n)) a = (if a = x then Some (n\<lparr>jnext := None, jprev := None, jchild := None\<rparr>) else data_of h a)"
  "child_of (h(x \<mapsto> n)) a = (if a = x then Some (jchild n) else child_of h a)"
  by (simp_all add: data_of_def child_of_def)

lemma node_of [simp]: "h a = Some n \<Longrightarrow> data_of h a = Some (n\<lparr>jnext := None, jprev := None, jchild := None\<rparr>)"
  "h a = Some n \<Longrightarrow> child_of h a = Some (jchild n)" "h a = Some n \<Longrightarrow> links_of h a = Some (jprev n, jnext n)"
  by (simp_all add: data_of_def child_of_def links_of_def)

lemma child_ofD: "child_of h a = Some p \<Longrightarrow> \<exists>n. h a = Some n \<and> jchild n = p"
  by (auto simp: child_of_def)

subsection \<open>Looking up\<close>

lemma walk_seg: "seg h p xs None \<Longrightarrow> walk h (hd_ptr xs) i = Some (if i < length xs then Some (xs ! i) else None)"
proof (induction xs arbitrary: p i)
  case Nil
  show ?case by (cases i) simp_all
next
  case (Cons a xs)
  then show ?case by (cases i) (auto dest!: links_ofD)
qed

lemma get_array_item_kids:
  "kids h a xs \<Longrightarrow> get_array_item h (Some a) i = Some (if i < length xs then Some (xs ! i) else None)"
  using walk_seg [of h "last_ptr xs" xs] by (auto simp: get_array_item_def kids_def chain_def dest!: child_ofD)

lemma count_seg: "seg h p xs None \<Longrightarrow> count_from h (hd_ptr xs) k = Some (k + of_nat (length xs))"
proof (induction xs arbitrary: p k)
  case Nil
  show ?case by (subst count_from.simps) simp
next
  case (Cons a xs)
  then show ?case by (subst count_from.simps) (auto dest!: links_ofD simp: algebra_simps)
qed

lemma to_int_of_size: "(ucast (of_nat n :: 64 word) :: 32 word) = of_nat n"
  by (rule bit_word_eqI) (simp add: bit_simps)

lemma array_size_kids: "kids h a xs \<Longrightarrow> cJSON_GetArraySize h (Some a) = Some (sint (of_nat (length xs) :: 32 word))"
  using count_seg [of h _ xs 0] by (auto simp: cJSON_GetArraySize_def kids_def chain_def to_int_of_size dest!: child_ofD)

subsection \<open>Changing the chain\<close>

lemma add_kids:
  assumes "kids h a xs" and "h x = Some n" and "jnext n = None" and "x \<notin> set (a # xs)"
  shows "\<exists>h'. add_item_to_array h (Some a) (Some x) = Some (True, h') \<and> kids h' a (xs @ [x]) \<and> relinks a (insert x (set xs)) h h'"
proof -
  obtain p where p: "h a = Some p" "jchild p = hd_ptr xs" using assms(1) by (auto simp: kids_def dest!: child_ofD)
  show ?thesis
  proof (cases xs rule: rev_cases)
    case Nil
    then show ?thesis using assms p by (auto simp: add_item_to_array_def kids_def chain_def relinks_def)
  next
    case (snoc ys y)
    then show ?thesis using assms p
      by (cases ys) (auto simp: add_item_to_array_def suffix_object_def kids_def chain_def relinks_def dest!: links_ofD)
  qed
qed

text \<open>A chain around one of its nodes.\<close>

lemma kids_at:
  assumes "kids h a (us @ x # vs)"
  obtains p n where "h a = Some p" "jchild p = Some (if us = [] then x else hd us)" "h x = Some n"
    "jprev n = (if us = [] then last_ptr (x # vs) else last_ptr us)" "jnext n = hd_ptr vs"
    "seg h (last_ptr (x # vs)) us (Some x)" "seg h (Some x) vs None" "distinct (a # us @ x # vs)"
proof -
  show thesis using assms that by (auto simp: kids_def chain_def dest!: child_ofD links_ofD split: if_splits)
qed

lemma detach_kids:
  assumes "kids h a (us @ x # vs)"
  shows "\<exists>h' n. cJSON_DetachItemViaPointer h (Some a) (Some x) = Some (Some x, h') \<and> kids h' a (us @ vs) \<and>
    h' x = Some n \<and> jnext n = None \<and> jprev n = None \<and> relinks a (set (us @ x # vs)) h h'"
proof (cases us)
  case Nil
  then show ?thesis using assms
    by (cases vs) (auto simp: cJSON_DetachItemViaPointer_def kids_def chain_def relinks_def dest!: child_ofD links_ofD)
next
  case (Cons u us')
  then show ?thesis using assms
    by (cases vs; cases us' rule: rev_cases) (auto simp: cJSON_DetachItemViaPointer_def kids_def chain_def relinks_def dest!: child_ofD links_ofD)
qed

lemma insert_kids:
  assumes "kids h a (us @ x # vs)" and "h y = Some n" and "y \<notin> set (a # us @ x # vs)" and i: "i = int (length us)"
  shows "\<exists>h'. cJSON_InsertItemInArray h (Some a) i (Some y) = Some (True, h') \<and>
    kids h' a (us @ y # x # vs) \<and> relinks a (set (us @ y # x # vs)) h h'"
proof -
  have g: "get_array_item h (Some a) (nat i) = Some (Some x)" "\<not> i < 0" using get_array_item_kids [OF assms(1)] i by simp_all
  obtain p n' where p: "h a = Some p" "jchild p = Some (if us = [] then x else hd us)" "h x = Some n'"
    "jprev n' = (if us = [] then last_ptr (x # vs) else last_ptr us)" "jnext n' = hd_ptr vs"
    "seg h (last_ptr (x # vs)) us (Some x)" "seg h (Some x) vs None" "distinct (a # us @ x # vs)"
    using assms(1) by (rule kids_at)
  show ?thesis
  proof (cases us rule: rev_cases)
    case Nil
    then show ?thesis using assms(2,3) p g
      by (auto simp: cJSON_InsertItemInArray_def kids_def chain_def relinks_def)
  next
    case (snoc us' u)
    then obtain m where "h u = Some m" "jnext m = Some x" "jprev m = (if us' = [] then last_ptr (x # vs) else last_ptr us')"
      using p(6) by (auto dest!: links_ofD)
    with snoc show ?thesis using assms(2,3) p g
      by (cases us') (auto simp: cJSON_InsertItemInArray_def kids_def chain_def relinks_def)
  qed
qed

lemma relink_kids:
  assumes "kids h a (us @ x # vs)" and "h y = Some n" and "y \<notin> set (a # us @ x # vs)"
  shows "\<exists>h' m. relink h (Some a) (Some x) (Some y) = Some h' \<and> kids h' a (us @ y # vs) \<and>
    h' x = Some m \<and> jnext m = None \<and> jprev m = None \<and> relinks a (set (us @ y # x # vs)) h h'"
proof (cases us rule: rev_cases)
  case Nil
  then show ?thesis using assms
    by (cases vs) (auto simp: relink_def kids_def chain_def relinks_def dest!: child_ofD links_ofD dest: last_ptrD)
next
  case (snoc us' u)
  then show ?thesis using assms
    by (cases us'; cases vs) (auto simp: relink_def kids_def chain_def relinks_def dest!: child_ofD links_ofD)
qed

subsection \<open>Sequences of operations\<close>

text \<open>
  A client of one array adds, inserts and detaches items and looks them up. The abstract state is the
  list of the children with the loose items, those that can be added: allocated and in no chain.
\<close>

datatype array_op = AddItem addr | InsertItem int addr | DetachItem int | GetItem int | GetSize

datatype array_out = Done bool | Found ptr | Count int

fun array_step :: "addr \<Rightarrow> 'f jheap \<Rightarrow> array_op \<Rightarrow> (array_out \<times> 'f jheap) option" where
  "array_step a h (AddItem x) = map_option (map_prod Done id) (add_item_to_array h (Some a) (Some x))"
| "array_step a h (InsertItem i x) = map_option (map_prod Done id) (cJSON_InsertItemInArray h (Some a) i (Some x))"
| "array_step a h (DetachItem i) = map_option (map_prod Found id) (cJSON_DetachItemFromArray h (Some a) i)"
| "array_step a h (GetItem i) = map_option (\<lambda>p. (Found p, h)) (cJSON_GetArrayItem h (Some a) i)"
| "array_step a h GetSize = map_option (\<lambda>k. (Count k, h)) (cJSON_GetArraySize h (Some a))"

fun array_spec :: "addr list \<times> addr list \<Rightarrow> array_op \<Rightarrow> (array_out \<times> addr list \<times> addr list) option" where
  "array_spec (xs, ls) (AddItem x) = (if x \<in> set ls then Some (Done True, xs @ [x], remove1 x ls) else None)"
| "array_spec (xs, ls) (InsertItem i x) =
     (if i < 0 then Some (Done False, xs, ls)
      else if x \<in> set ls then Some (Done True, take (nat i) xs @ x # drop (nat i) xs, remove1 x ls) else None)"
| "array_spec (xs, ls) (DetachItem i) =
     (if 0 \<le> i \<and> i < int (length xs)
      then Some (Found (Some (xs ! nat i)), take (nat i) xs @ drop (nat i + 1) xs, xs ! nat i # ls)
      else Some (Found None, xs, ls))"
| "array_spec (xs, ls) (GetItem i) =
     Some (Found (if 0 \<le> i \<and> i < int (length xs) then Some (xs ! nat i) else None), xs, ls)"
| "array_spec (xs, ls) GetSize = Some (Count (sint (of_nat (length xs) :: 32 word)), xs, ls)"

definition array_rel :: "addr \<Rightarrow> 'f jheap \<Rightarrow> 'f jheap \<Rightarrow> addr list \<times> addr list \<Rightarrow> bool" where
  "array_rel a h0 h = (\<lambda>(xs, ls). kids h a xs \<and> distinct (a # xs @ ls) \<and> (\<forall>x. data_of h x = data_of h0 x) \<and>
     (\<forall>x \<in> set ls. \<exists>n. h x = Some n \<and> jnext n = None))"

lemma loose_frame:
  assumes "relinks a S h h'" and "h x = Some n" and "jnext n = None" and "x \<notin> S"
  shows "\<exists>n. h' x = Some n \<and> jnext n = None"
proof -
  have "links_of h' x = Some (jprev n, None)" using assms by (simp add: relinks_def)
  then show ?thesis by (auto dest!: links_ofD)
qed

lemma take_at: "k < length xs \<Longrightarrow> xs = take k xs @ xs ! k # drop (Suc k) xs"
  by (rule id_take_nth_drop)

lemma insert_distinct: "distinct (a # (us @ vs) @ ls) \<Longrightarrow> x \<in> set ls \<Longrightarrow> distinct (a # (us @ x # vs) @ remove1 x ls)"
  by (auto dest: notin_set_remove1)

lemma array_step_ok:
  assumes r: "array_rel a h0 h (xs, ls)" and s: "array_spec (xs, ls) op = Some (out, xs', ls')"
  shows "\<exists>h'. array_step a h op = Some (out, h') \<and> array_rel a h0 h' (xs', ls')"
proof -
  have k: "kids h a xs" and d: "distinct (a # xs @ ls)" and l: "\<And>x. x \<in> set ls \<Longrightarrow> \<exists>n. h x = Some n \<and> jnext n = None"
    and h0: "\<And>x. data_of h x = data_of h0 x"
    using r by (auto simp: array_rel_def)
  show ?thesis
  proof (cases op)
    case (AddItem x)
    then have x: "x \<in> set ls" "xs' = xs @ [x]" "ls' = remove1 x ls" "out = Done True" using s by (auto split: if_splits)
    from l [OF x(1)] obtain n where n: "h x = Some n" "jnext n = None" by blast
    then obtain h' where h': "add_item_to_array h (Some a) (Some x) = Some (True, h')" "kids h' a (xs @ [x])"
        "relinks a (insert x (set xs)) h h'"
      using add_kids [OF k] d x(1) by fastforce
    have "\<exists>n. h' y = Some n \<and> jnext n = None" if "y \<in> set ls" "y \<noteq> x" for y
      using l [OF that(1)] loose_frame [OF h'(3)] that d by fastforce
    then show ?thesis using h' h0 d x AddItem by (auto simp: array_rel_def relinks_def)
  next
    case (InsertItem i x)
    show ?thesis
    proof (cases "i < 0")
      case True
      then show ?thesis using InsertItem s r by (auto simp: cJSON_InsertItemInArray_def)
    next
      case False
      then have x: "x \<in> set ls" "xs' = take (nat i) xs @ x # drop (nat i) xs" "ls' = remove1 x ls" "out = Done True"
        using s InsertItem by (auto split: if_splits)
      from l [OF x(1)] obtain n where n: "h x = Some n" "jnext n = None" by blast
      have "\<exists>h'. cJSON_InsertItemInArray h (Some a) i (Some x) = Some (True, h') \<and> kids h' a xs' \<and> relinks a (insert x (set xs)) h h'"
      proof (cases "nat i < length xs")
        case True
        note xs = take_at [OF True]
        from insert_kids [of h a "take (nat i) xs" "xs ! nat i" "drop (Suc (nat i)) xs" x n i, folded xs] k n d x(1) False True
        obtain h' where "cJSON_InsertItemInArray h (Some a) i (Some x) = Some (True, h')"
          "kids h' a (take (nat i) xs @ x # xs ! nat i # drop (Suc (nat i)) xs)"
          "relinks a (set (take (nat i) xs @ x # xs ! nat i # drop (Suc (nat i)) xs)) h h'" by auto
        moreover have "xs' = take (nat i) xs @ x # xs ! nat i # drop (Suc (nat i)) xs" using x(2) True by (simp add: Cons_nth_drop_Suc)
        moreover have "set (take (nat i) xs @ x # xs ! nat i # drop (Suc (nat i)) xs) = insert x (set xs)"
          by (subst (4) xs) auto
        ultimately show ?thesis by auto
      next
        case False
        then have "cJSON_InsertItemInArray h (Some a) i (Some x) = add_item_to_array h (Some a) (Some x)"
          using \<open>\<not> i < 0\<close> get_array_item_kids [OF k] by (simp add: cJSON_InsertItemInArray_def)
        then show ?thesis using add_kids [OF k n] d x(1,2) False by fastforce
      qed
      then obtain h' where h': "cJSON_InsertItemInArray h (Some a) i (Some x) = Some (True, h')" "kids h' a xs'"
        "relinks a (insert x (set xs)) h h'" by blast
      have "\<exists>n. h' y = Some n \<and> jnext n = None" if "y \<in> set ls" "y \<noteq> x" for y
        using l [OF that(1)] loose_frame [OF h'(3)] that d by fastforce
      moreover have "distinct (a # xs' @ ls')"
        using insert_distinct [of a "take (nat i) xs" "drop (nat i) xs" ls x] d x(1) unfolding x(2,3) by simp
      ultimately show ?thesis using h' h0 d x InsertItem by (auto simp: array_rel_def relinks_def)
    qed
  next
    case (DetachItem i)
    show ?thesis
    proof (cases "0 \<le> i \<and> i < int (length xs)")
      case True
      then have i: "nat i < length xs" by linarith
      note xs = take_at [OF i]
      from detach_kids [of h a "take (nat i) xs" "xs ! nat i" "drop (Suc (nat i)) xs", folded xs, OF k]
      obtain h' n where h': "cJSON_DetachItemViaPointer h (Some a) (Some (xs ! nat i)) = Some (Some (xs ! nat i), h')"
        "kids h' a (take (nat i) xs @ drop (Suc (nat i)) xs)" "h' (xs ! nat i) = Some n" "jnext n = None" "relinks a (set xs) h h'" by blast
      have "\<exists>n. h' y = Some n \<and> jnext n = None" if "y \<in> set ls" for y
        using l [OF that(1)] loose_frame [OF h'(5)] that d by fastforce
      moreover have "distinct (take (nat i) xs @ drop (Suc (nat i)) xs @ xs ! nat i # ls)"
          "a \<notin> set (take (nat i) xs @ drop (Suc (nat i)) xs @ xs ! nat i # ls)"
      proof -
        have "distinct ((take (nat i) xs @ xs ! nat i # drop (Suc (nat i)) xs) @ ls)"
          "a \<notin> set ((take (nat i) xs @ xs ! nat i # drop (Suc (nat i)) xs) @ ls)" using d xs by simp_all
        then show "distinct (take (nat i) xs @ drop (Suc (nat i)) xs @ xs ! nat i # ls)"
          "a \<notin> set (take (nat i) xs @ drop (Suc (nat i)) xs @ xs ! nat i # ls)" by auto
      qed
      ultimately show ?thesis using h' h0 True DetachItem s get_array_item_kids [OF k]
        by (auto simp: array_rel_def relinks_def cJSON_DetachItemFromArray_def)
    next
      case False
      then show ?thesis using DetachItem s r get_array_item_kids [OF k, of "nat i"]
        by (cases "i < 0") (auto simp: cJSON_DetachItemFromArray_def cJSON_DetachItemViaPointer_def)
    qed
  next
    case (GetItem i)
    then show ?thesis using s r get_array_item_kids [OF k, of "nat i"] by (auto simp: cJSON_GetArrayItem_def)
  next
    case GetSize
    then show ?thesis using s r array_size_kids [OF k] by auto
  qed
qed

interpretation arrays: simulation "array_rel a h0" "array_step a" array_spec for a h0
  by unfold_locales (use array_step_ok in \<open>fastforce\<close>)

text \<open>
  C21. Any sequence of \<open>add_item_to_array\<close> (\<open>cJSON_AddItemToArray\<close>), \<open>cJSON_InsertItemInArray\<close>,
  \<open>cJSON_DetachItemFromArray\<close>, \<open>cJSON_GetArrayItem\<close> and \<open>cJSON_GetArraySize\<close> on an array, in which only loose items are
  added, runs as on a list: no pointer is followed that is null or dangling, the outcomes are those
  of the list, at the end the chain of the array is the list and the detached items are loose, and no field but the links has changed.
\<close>

theorem array_ops_refine_lists:
  assumes "kids h a xs" and "distinct (a # xs @ ls)" and "\<forall>x \<in> set ls. \<exists>n. h x = Some n \<and> jnext n = None"
    and "run_ops array_spec (xs, ls) os = Some (outs, xs', ls')"
  shows "\<exists>h'. run_ops (array_step a) h os = Some (outs, h') \<and> kids h' a xs' \<and>
    (\<forall>x \<in> set ls'. \<exists>n. h' x = Some n \<and> jnext n = None) \<and> (\<forall>x. data_of h' x = data_of h x)"
  using arrays.run_ok [of a h h "(xs, ls)" os outs "(xs', ls')"] assms by (auto simp: array_rel_def)

definition loose_nodes :: "addr list \<Rightarrow> int jheap" where
  "loose_nodes as = map_of (map (\<lambda>a. (a, \<lparr>jnext = None, jprev = None, jchild = None, ntype = cJSON_Array, nvalue = None, nint = 0,
     ndouble = 0, nname = None\<rparr>)) as)"

theorem array_ops_refine_lists_witness:
  "\<exists>h'. run_ops (array_step 1) (loose_nodes [1, 2, 3, 4]) [AddItem 3, InsertItem 0 2, InsertItem 9 4, GetSize, DetachItem 1, GetItem 1, DetachItem 7]
      = Some ([Done True, Done True, Done True, Count 3, Found (Some 3), Found (Some 4), Found None], h') \<and> kids h' 1 [2, 4] \<and>
    (\<forall>x \<in> set [3]. \<exists>n. h' x = Some n \<and> jnext n = None) \<and> (\<forall>x. data_of h' x = data_of (loose_nodes [1, 2, 3, 4]) x)"
proof (rule array_ops_refine_lists)
  show "kids (loose_nodes [1, 2, 3, 4]) 1 []" "\<forall>x \<in> set [2, 3, 4]. \<exists>n. loose_nodes [1, 2, 3, 4] x = Some n \<and> jnext n = None"
    by (simp_all add: loose_nodes_def kids_def child_of_def chain_def)
  show "run_ops array_spec ([], [2, 3, 4]) [AddItem 3, InsertItem 0 2, InsertItem 9 4, GetSize, DetachItem 1, GetItem 1, DetachItem 7]
    = Some ([Done True, Done True, Done True, Count 3, Found (Some 3), Found (Some 4), Found None], [2, 4], [3])" by code_simp
qed simp

end
