(* ===== verification/JsonTree.thy ===== *)
theory JsonTree
  imports JsonChain
begin

section \<open>Trees of items in memory\<close>

text \<open>
  A tree with the addresses of its nodes and strings, and what it means that a memory holds it. A
  reference (\<open>cJSON_IsReference\<close>) does not own its value and its children; they belong to another
  tree, so a reference is a leaf here. A constant key is not owned either.
\<close>

record 'f tdata =
  t_type :: int
  t_value :: "(addr \<times> byte list) option"
  t_int :: int
  t_double :: 'f
  t_name :: "(addr \<times> byte list) option"

datatype 'f jtree = JT (jaddr: addr) (jdata: "'f tdata") (jkids: "'f jtree list")

definition t_reference :: "'f tdata \<Rightarrow> bool" where
  "t_reference d \<longleftrightarrow> t_type d AND cJSON_IsReference \<noteq> 0"

definition t_const :: "'f tdata \<Rightarrow> bool" where
  "t_const d \<longleftrightarrow> t_type d AND cJSON_StringIsConst \<noteq> 0"

definition raw_node :: "'f tdata \<Rightarrow> 'f jnode" where
  "raw_node d = \<lparr>jnext = None, jprev = None, jchild = None, ntype = t_type d, nvalue = map_option fst (t_value d),
     nint = t_int d, ndouble = t_double d, nname = map_option fst (t_name d)\<rparr>"

definition holds :: "byte list heap \<Rightarrow> (addr \<times> byte list) option \<Rightarrow> bool" where
  "holds s v \<longleftrightarrow> (case v of None \<Rightarrow> True | Some (p, bs) \<Rightarrow> s p = Some bs)"

definition ptr_set :: "(addr \<times> byte list) option \<Rightarrow> addr set" where
  "ptr_set v = fst ` set_option v"

definition ptr_list :: "(addr \<times> byte list) option \<Rightarrow> addr list" where
  "ptr_list v = (case v of None \<Rightarrow> [] | Some (p, _) \<Rightarrow> [p])"

fun tree :: "'f jmem \<Rightarrow> 'f jtree \<Rightarrow> bool" where
  "tree m (JT a d ks) \<longleftrightarrow> data_of (jnodes m) a = Some (raw_node d) \<and> holds (strs m) (t_value d) \<and> holds (strs m) (t_name d) \<and>
     (if t_reference d then ks = []
      else child_of (jnodes m) a = Some (hd_ptr (map jaddr ks)) \<and> chain (jnodes m) (map jaddr ks)) \<and>
     list_all (tree m) ks"

text \<open>The nodes of a tree, the strings it owns, and those it only points to.\<close>

fun nodes_of :: "'f jtree \<Rightarrow> addr list" where
  "nodes_of (JT a d ks) = a # concat (map nodes_of ks)"

fun strings_of :: "'f jtree \<Rightarrow> addr list" where
  "strings_of (JT a d ks) = (if t_reference d then [] else ptr_list (t_value d)) @ (if t_const d then [] else ptr_list (t_name d)) @
     concat (map strings_of ks)"

fun borrowed :: "'f jtree \<Rightarrow> addr set" where
  "borrowed (JT a d ks) = (if t_reference d then ptr_set (t_value d) else {}) \<union> (if t_const d then ptr_set (t_name d) else {}) \<union>
     \<Union> (set (map borrowed ks))"

abbreviation nodes_of_all :: "'f jtree list \<Rightarrow> addr list" where
  "nodes_of_all ts \<equiv> concat (map nodes_of ts)"

abbreviation strings_of_all :: "'f jtree list \<Rightarrow> addr list" where
  "strings_of_all ts \<equiv> concat (map strings_of ts)"

abbreviation borrowed_all :: "'f jtree list \<Rightarrow> addr set" where
  "borrowed_all ts \<equiv> \<Union> (set (map borrowed ts))"

definition separate :: "'f jtree list \<Rightarrow> bool" where
  "separate ts \<longleftrightarrow> distinct (nodes_of_all ts) \<and> distinct (strings_of_all ts) \<and> set (strings_of_all ts) \<inter> borrowed_all ts = {}"

lemma restrict_UNIV [simp]: "f |` UNIV = f"
  by (simp add: restrict_map_def)

lemma ptr_list_set [simp]: "set (ptr_list v) = ptr_set v"
  by (auto simp: ptr_list_def ptr_set_def split: option.splits)

lemma jaddr_in_nodes [simp]: "jaddr t \<in> set (nodes_of t)"
  by (cases t) simp

lemma nodes_of_head: "nodes_of t = jaddr t # tl (nodes_of t)"
  by (cases t) simp

lemma tree_frame:
  assumes "tree m t"
    and "\<And>x. x \<in> set (nodes_of t) \<Longrightarrow> data_of (jnodes m') x = data_of (jnodes m) x \<and> child_of (jnodes m') x = child_of (jnodes m) x"
    and "\<And>x. x \<in> set (tl (nodes_of t)) \<Longrightarrow> links_of (jnodes m') x = links_of (jnodes m) x"
    and "\<And>x. x \<in> set (strings_of t) \<union> borrowed t \<Longrightarrow> strs m' x = strs m x"
  shows "tree m' t"
  using assms
proof (induction m t rule: tree.induct)
  case (1 m a d ks)
  have "holds (strs m') (t_value d)" "holds (strs m') (t_name d)"
    using 1(2,5) by (auto simp: holds_def ptr_set_def split: option.splits if_splits)
  moreover have "chain (jnodes m') (map jaddr ks) = chain (jnodes m) (map jaddr ks)"
    unfolding chain_def
  proof (rule seg_frame)
    fix x
    assume "x \<in> set (map jaddr ks)"
    then obtain k where "k \<in> set ks" "x = jaddr k" by auto
    then have "x \<in> set (tl (nodes_of (JT a d ks)))" by (auto intro!: bexI [of _ k])
    then show "links_of (jnodes m') x = links_of (jnodes m) x" by (rule 1(4))
  qed
  moreover have "tree m' k" if k: "k \<in> set ks" for k
  proof (rule "1.IH" [OF k])
    show "tree m k" using 1(2) k by (simp add: list_all_iff)
    have n: "set (nodes_of k) \<subseteq> set (tl (nodes_of (JT a d ks)))" using k by auto
    then show "data_of (jnodes m') x = data_of (jnodes m) x \<and> child_of (jnodes m') x = child_of (jnodes m) x"
      if "x \<in> set (nodes_of k)" for x using 1(3) [of x] that by auto
    show "links_of (jnodes m') x = links_of (jnodes m) x" if "x \<in> set (tl (nodes_of k))" for x
      using 1(4) [of x] that n by (auto dest: in_set_tlD)
    show "strs m' x = strs m x" if "x \<in> set (strings_of k) \<union> borrowed k" for x
      using 1(5) [of x] that k by auto
  qed
  ultimately show ?case using 1(2,3) by (simp add: list_all_iff)
qed

subsection \<open>Deleting a chain of trees\<close>

definition without :: "'f jmem \<Rightarrow> 'f jtree list \<Rightarrow> 'f jmem" where
  "without m ts = m\<lparr>jnodes := jnodes m |` (- set (nodes_of_all ts)), strs := strs m |` (- set (strings_of_all ts))\<rparr>"

lemma without_frame:
  assumes "tree m t" and "set (nodes_of t) \<inter> set (nodes_of_all ts) = {}"
    and "(set (strings_of t) \<union> borrowed t) \<inter> set (strings_of_all ts) = {}"
  shows "tree (without m ts) t"
proof (rule tree_frame [OF assms(1)])
  fix x
  have same: "jnodes (without m ts) x = jnodes m x" if "x \<in> set (nodes_of t)" for x
    using that assms(2) by (auto simp: without_def restrict_map_def)
  show "data_of (jnodes (without m ts)) x = data_of (jnodes m) x \<and> child_of (jnodes (without m ts)) x = child_of (jnodes m) x"
    if "x \<in> set (nodes_of t)" using same [OF that] by (simp add: data_of_def child_of_def)
  show "links_of (jnodes (without m ts)) x = links_of (jnodes m) x" if "x \<in> set (tl (nodes_of t))"
    using same [OF in_set_tlD [OF that]] by (simp add: links_of_def)
  show "strs (without m ts) x = strs m x" if "x \<in> set (strings_of t) \<union> borrowed t"
    using that assms(3) by (auto simp: without_def restrict_map_def)
qed

lemma tree_node:
  assumes "tree m (JT a d ks)"
  obtains n where "jnodes m a = Some n" "ntype n = t_type d" "nvalue n = map_option fst (t_value d)"
    "nname n = map_option fst (t_name d)" "nint n = t_int d" "ndouble n = t_double d"
    "\<not> t_reference d \<Longrightarrow> jchild n = hd_ptr (map jaddr ks)" "is_reference n = t_reference d" "const_name n = t_const d"
proof -
  from assms obtain n where n: "jnodes m a = Some n" "n\<lparr>jnext := None, jprev := None, jchild := None\<rparr> = raw_node d"
    by (auto simp: data_of_def)
  have f: "ntype n = t_type d" "nvalue n = map_option fst (t_value d)" "nname n = map_option fst (t_name d)" "nint n = t_int d" "ndouble n = t_double d"
    using n(2) by (cases n; simp add: raw_node_def)+
  moreover have "\<not> t_reference d \<Longrightarrow> jchild n = hd_ptr (map jaddr ks)" using assms n(1) by (simp add: child_of_def)
  moreover have "is_reference n = t_reference d" "const_name n = t_const d"
    by (simp_all add: is_reference_def const_name_def t_reference_def t_const_def f(1))
  ultimately show thesis using n(1) by (intro that)
qed

lemma free_owned:
  assumes "holds (strs m) v"
  shows "(if c \<and> map_option fst v \<noteq> None then free_string m (map_option fst v) else Some m) =
    Some (m\<lparr>strs := strs m |` (- (if c then ptr_set v else {}))\<rparr>)"
  using assms by (auto simp: holds_def free_string_def ptr_set_def restrict_complement_singleton_eq split: option.splits)

lemma separate_Cons:
  "separate (t # ts) \<Longrightarrow> separate ts \<and> set (nodes_of t) \<inter> set (nodes_of_all ts) = {} \<and> set (strings_of t) \<inter> set (strings_of_all ts) = {} \<and>
    set (strings_of t) \<inter> borrowed_all ts = {} \<and> borrowed t \<inter> set (strings_of_all ts) = {}"
  by (auto simp: separate_def)

lemma separate_kids: "separate (JT a d ks # ts) \<Longrightarrow> separate ks"
  by (auto simp: separate_def)

lemma without_without: "without (without m ts) us = without m (ts @ us)"
  by (simp add: without_def Int_commute)

text \<open>One turn of the loop; of the chain of the children only the links forward matter.\<close>

lemma delete_step:
  assumes n: "jnodes m a = Some n" "nvalue n = map_option fst (t_value d)" "nname n = map_option fst (t_name d)"
      "is_reference n = t_reference d" "const_name n = t_const d"
    and c: "if t_reference d then ks = [] else jchild n = hd_ptr (map jaddr ks)"
    and h: "holds (strs m) (t_value d)" "holds (strs m) (t_name d)" and sep: "separate [JT a d ks]"
    and del: "ks \<noteq> [] \<Longrightarrow> cJSON_Delete (hd_ptr (map jaddr ks)) m = Some (without m ks)"
  shows "cJSON_Delete (Some a) m = cJSON_Delete (jnext n) (without m [JT a d ks])"
proof -
  have empty: "without m [] = m" by (simp add: without_def)
  have kids: "(if \<not> is_reference n \<and> jchild n \<noteq> None then cJSON_Delete (jchild n) m else Some m) = Some (without m ks)"
    using c n(4) del empty by (cases "ks = []") (auto split: if_splits)
  let ?m1 = "without m ks"
  have a: "a \<notin> set (nodes_of_all ks)" using sep by (auto simp: separate_def)
  then have n1: "jnodes ?m1 a = Some n" using n(1) by (simp add: without_def)
  let ?v = "if \<not> t_reference d then ptr_set (t_value d) else {}" and ?k = "if \<not> t_const d then ptr_set (t_name d) else {}"
  have disj: "?v \<inter> set (strings_of_all ks) = {}" "?k \<inter> set (strings_of_all ks) = {}" "?v \<inter> ?k = {}"
    using sep by (auto simp: separate_def split: if_splits)
  let ?m2 = "?m1\<lparr>strs := strs ?m1 |` (- ?v)\<rparr>"
  have val: "(if \<not> is_reference n \<and> nvalue n \<noteq> None then free_string ?m1 (nvalue n) else Some ?m1) = Some ?m2"
  proof (cases "t_reference d")
    case False
    then have "holds (strs ?m1) (t_value d)" using h(1) disj(1) by (auto simp: holds_def without_def ptr_set_def split: option.splits)
    from free_owned [OF this, of True] show ?thesis unfolding n(2,4) using False by (simp only: simp_thms if_True)
  qed (simp add: n(4))
  let ?m3 = "?m2\<lparr>strs := strs ?m2 |` (- ?k)\<rparr>"
  have name: "(if \<not> const_name n \<and> nname n \<noteq> None then free_string ?m2 (nname n) else Some ?m2) = Some ?m3"
  proof (cases "t_const d")
    case False
    then have "holds (strs ?m2) (t_name d)" using h(2) disj by (auto simp: holds_def without_def ptr_set_def split: option.splits)
    from free_owned [OF this, of True] show ?thesis unfolding n(3,5) using False by (simp only: simp_thms if_True)
  qed (simp add: n(5))
  have m4: "free_node ?m3 (Some a) = Some (without m [JT a d ks])"
  proof -
    have "free_node ?m3 (Some a) = Some (?m3\<lparr>jnodes := (jnodes ?m3)(a := None)\<rparr>)" using n1 by (simp add: free_node_def)
    moreover have "?m3\<lparr>jnodes := (jnodes ?m3)(a := None)\<rparr> = without m [JT a d ks]"
      by (cases m) (auto simp: without_def fun_eq_iff restrict_map_def)
    ultimately show ?thesis by simp
  qed
  show ?thesis
    by (subst cJSON_Delete.simps) (simp only: option.case n(1) bind.bind_lunit kids n1 val name m4)
qed

lemma delete_chain:
  assumes "seg (jnodes m) p (map jaddr ts) None" and "list_all (tree m) ts" and "separate ts"
  shows "cJSON_Delete (hd_ptr (map jaddr ts)) m = Some (without m ts)"
  using assms
proof (induction "length (nodes_of_all ts)" arbitrary: ts m p rule: less_induct)
  case less
  show ?case
  proof (cases ts)
    case Nil
    then show ?thesis by (subst cJSON_Delete.simps) (simp add: without_def)
  next
    case (Cons t us)
    obtain a d ks where t: "t = JT a d ks" by (cases t)
    have tr: "tree m (JT a d ks)" using less.prems(2) Cons t by simp
    obtain n where n: "jnodes m a = Some n" "nvalue n = map_option fst (t_value d)" "nname n = map_option fst (t_name d)"
      "\<not> t_reference d \<Longrightarrow> jchild n = hd_ptr (map jaddr ks)" "is_reference n = t_reference d" "const_name n = t_const d"
      using tree_node [OF tr] by metis
    have nx: "jnext n = hd_ptr (map jaddr us)" using less.prems(1) n(1) by (simp add: Cons t split: if_splits)
    note sep = separate_Cons [OF less.prems(3) [unfolded Cons]]
    have "cJSON_Delete (Some a) m = cJSON_Delete (jnext n) (without m [t])"
      unfolding t
    proof (rule delete_step [OF n(1-3,5,6)])
      show "if t_reference d then ks = [] else jchild n = hd_ptr (map jaddr ks)" using tr n(4) by auto
      show "holds (strs m) (t_value d)" "holds (strs m) (t_name d)" using tr by simp_all
      show "separate [JT a d ks]" using less.prems(3) by (auto simp: separate_def Cons t)
      show "cJSON_Delete (hd_ptr (map jaddr ks)) m = Some (without m ks)" if "ks \<noteq> []"
      proof (rule less.hyps)
        show "length (nodes_of_all ks) < length (nodes_of_all ts)" by (simp add: Cons t)
        show "seg (jnodes m) (last_ptr (map jaddr ks)) (map jaddr ks) None" using tr that by (simp add: chain_def split: if_splits)
        show "list_all (tree m) ks" using tr by simp
        show "separate ks" using separate_kids less.prems(3) Cons t by blast
      qed
    qed
    moreover have "cJSON_Delete (hd_ptr (map jaddr us)) (without m [t]) = Some (without (without m [t]) us)"
    proof (rule less.hyps)
      show "length (nodes_of_all us) < length (nodes_of_all ts)" by (simp add: Cons t)
      have "seg (jnodes m) (Some a) (map jaddr us) None" using less.prems(1) by (simp add: Cons t)
      moreover have "links_of (jnodes (without m [t])) x = links_of (jnodes m) x" if "x \<in> set (map jaddr us)" for x
      proof -
        from that obtain u where "u \<in> set us" "x = jaddr u" by auto
        then have "x \<in> set (nodes_of_all us)" by (auto intro!: bexI [of _ u])
        then have "x \<notin> set (nodes_of t)" using sep by blast
        then show ?thesis by (simp add: without_def links_of_def restrict_map_def)
      qed
      ultimately show "seg (jnodes (without m [t])) (Some a) (map jaddr us) None" using seg_frame by blast
      show "list_all (tree (without m [t])) us"
        unfolding list_all_iff
      proof
        fix u
        assume u: "u \<in> set us"
        show "tree (without m [t]) u"
        proof (rule without_frame)
          show "tree m u" using less.prems(2) u by (simp add: Cons list_all_iff)
        qed (use sep u in auto)
      qed
      show "separate us" using sep by simp
    qed
    ultimately show ?thesis by (simp add: Cons t nx without_without)
  qed
qed

text \<open>
  C22. \<open>cJSON_Delete\<close> of an item that is in no chain frees exactly the nodes of its tree and the strings the tree owns,
  each of them once, and ends; the children and the value of a reference and constant keys are left alone, and
  so is everything else in the memory.
\<close>

theorem delete_frees_tree:
  assumes "tree m t" and "separate [t]" and "links_of (jnodes m) (jaddr t) = Some (p, None)"
  shows "cJSON_Delete (Some (jaddr t)) m =
    Some (m\<lparr>jnodes := jnodes m |` (- set (nodes_of t)), strs := strs m |` (- set (strings_of t))\<rparr>)"
  using delete_chain [of m p "[t]"] assms by (simp add: without_def)

subsection \<open>A sample memory\<close>

text \<open>An object with one member \<open>k\<close>, a loose item with the key \<open>o\<close>, and a string \<open>k\<close>.\<close>

definition sample_node :: "int \<Rightarrow> ptr \<Rightarrow> ptr \<Rightarrow> ptr \<Rightarrow> int jnode" where
  "sample_node ty prev ch nm = \<lparr>jnext = None, jprev = prev, jchild = ch, ntype = ty, nvalue = None, nint = 0, ndouble = 0, nname = nm\<rparr>"

definition sample_mem :: "int jmem" where
  "sample_mem = \<lparr>jnodes = [1 \<mapsto> sample_node 64 None (Some 2) None, 2 \<mapsto> sample_node 4 (Some 2) None (Some 10), 3 \<mapsto> sample_node 4 None None (Some 11)],
     strs = [10 \<mapsto> [107], 11 \<mapsto> [111], 12 \<mapsto> [75]], fresh = 20, left = 5\<rparr>"

definition sample_data :: "int \<Rightarrow> (addr \<times> byte list) option \<Rightarrow> int tdata" where
  "sample_data ty nm = \<lparr>t_type = ty, t_value = None, t_int = 0, t_double = 0, t_name = nm\<rparr>"

definition sample_member :: "int jtree" where
  "sample_member = JT 2 (sample_data 4 (Some (10, [107]))) []"

definition sample_loose :: "int jtree" where
  "sample_loose = JT 3 (sample_data 4 (Some (11, [111]))) []"

lemma sample_trees: "tree sample_mem (JT 1 (sample_data 64 None) [sample_member])" "tree sample_mem sample_loose"
  "\<not> t_reference (sample_data 64 None)" "separate [JT 1 (sample_data 64 None) [sample_member], sample_loose]"
  "links_of (jnodes sample_mem) (jaddr sample_loose) = Some (None, None)" "links_of (jnodes sample_mem) 1 = Some (None, None)"
  by (simp_all add: sample_mem_def sample_member_def sample_loose_def sample_data_def sample_node_def data_of_def child_of_def links_of_def
      raw_node_def holds_def chain_def t_reference_def t_const_def json_types separate_def ptr_list_def ptr_set_def)

theorem delete_frees_tree_witness:
  "cJSON_Delete (Some (jaddr (JT 1 (sample_data 64 None) [sample_member]))) sample_mem =
    Some (sample_mem\<lparr>jnodes := jnodes sample_mem |` (- set (nodes_of (JT 1 (sample_data 64 None) [sample_member]))),
      strs := strs sample_mem |` (- set (strings_of (JT 1 (sample_data 64 None) [sample_member])))\<rparr>)"
proof (rule delete_frees_tree [OF sample_trees(1)])
  show "separate [JT 1 (sample_data 64 None) [sample_member]]" 
    by (simp add: separate_def sample_member_def sample_data_def t_reference_def t_const_def json_types ptr_list_def ptr_set_def)
  show "links_of (jnodes sample_mem) (jaddr (JT 1 (sample_data 64 None) [sample_member])) = Some (None, None)" using sample_trees(6) by simp
qed

end
