(* ===== verification/JsonTreeOps.thy ===== *)
theory JsonTreeOps
  imports JsonTree "HOL-Library.Multiset"
begin

section \<open>Operations on trees of items\<close>

text \<open>
  What adding, detaching and replacing items of arrays and objects does to the trees in memory.
\<close>

lemma roots_in_nodes: "set (map jaddr ts) \<subseteq> set (nodes_of_all ts)"
  by (induction ts) auto

lemma kids_of_tree:
  assumes "tree m (JT a d ks)" and "\<not> t_reference d" and "distinct (nodes_of (JT a d ks))"
  shows "kids (jnodes m) a (map jaddr ks)"
proof -
  have "distinct (nodes_of_all ks)" "a \<notin> set (nodes_of_all ks)" using assms(3) by simp_all
  then have "distinct (a # map jaddr ks)"
  proof (induction ks)
    case (Cons k ks)
    have "jaddr k \<notin> jaddr ` set ks" using Cons.prems(1) jaddr_in_nodes by (force simp del: jaddr_in_nodes)
    moreover have "a \<noteq> jaddr k" using Cons.prems(2) jaddr_in_nodes [of k] by auto
    ultimately show ?case using Cons by auto
  qed simp
  then show ?thesis using assms(1,2) by (simp add: kids_def)
qed

lemma relinks_tree:
  assumes "tree m t" and "relinks a S (jnodes m) h" and "set (tl (nodes_of t)) \<inter> S = {}" and "a \<notin> set (nodes_of t)"
  shows "tree (m\<lparr>jnodes := h\<rparr>) t"
  using assms(2-4) by (intro tree_frame [OF assms(1)]) (auto simp: relinks_def)

lemma relinks_array:
  assumes "tree m (JT a d ks)" and "\<not> t_reference d" and "relinks a S (jnodes m) h" and "kids h a (map jaddr ks')"
    and "\<And>k. k \<in> set ks' \<Longrightarrow> tree m k \<and> set (tl (nodes_of k)) \<inter> S = {} \<and> a \<notin> set (nodes_of k)"
  shows "tree (m\<lparr>jnodes := h\<rparr>) (JT a d ks')"
proof -
  have "tree (m\<lparr>jnodes := h\<rparr>) k" if "k \<in> set ks'" for k using relinks_tree [OF _ assms(3)] assms(5) [OF that] by blast
  then show ?thesis using assms by (simp add: kids_def relinks_def list_all_iff)
qed

text \<open>Taking trees apart or out of each other leaves them separate.\<close>

lemma distinct_sub_mset: "mset xs \<subseteq># mset ys \<Longrightarrow> distinct ys \<Longrightarrow> distinct xs"
  unfolding distinct_count_atmost_1
  by (metis count_greater_zero_iff count_mset_0_iff le_zero_eq less_one linorder_not_le mset_subset_eqD mset_subset_eq_count nle_le set_mset_mset)

lemma separate_sub:
  assumes "separate ts" and "mset (nodes_of_all us) \<subseteq># mset (nodes_of_all ts)" and "mset (strings_of_all us) \<subseteq># mset (strings_of_all ts)"
    and "borrowed_all us \<subseteq> borrowed_all ts"
  shows "separate us"
  using assms distinct_sub_mset [OF assms(2)] distinct_sub_mset [OF assms(3)] set_mset_mono [OF assms(3)]
  by (auto simp: separate_def)

text \<open>The roots in a list of separate trees are no inner nodes.\<close>

lemma inner_not_root:
  assumes "distinct (nodes_of_all ts)" and "k \<in> set ts"
  shows "set (tl (nodes_of k)) \<inter> set (map jaddr ts) = {}"
proof -
  have "x \<notin> set (tl (nodes_of k))" if x: "u \<in> set ts" "x = jaddr u" for x u
  proof (cases "u = k")
    case True
    have "distinct (nodes_of k)" using assms by (auto dest!: split_list)
    then show ?thesis using True x nodes_of_head [of k] by (metis distinct.simps(2))
  next
    case False
    from assms(2) obtain ps qs where ts: "ts = ps @ k # qs" by (auto dest: split_list)
    have "set (nodes_of k) \<inter> set (nodes_of u) = {}" using assms(1) x(1) False by (fastforce simp: ts)
    then show ?thesis using x(2) jaddr_in_nodes [of u] by (auto dest: in_set_tlD)
  qed
  then show ?thesis by fastforce
qed

subsection \<open>Looking up a member\<close>

definition same_name :: "bool \<Rightarrow> byte list \<Rightarrow> byte list \<Rightarrow> bool" where
  "same_name cs s t \<longleftrightarrow> (if cs then s = t else case_insensitive_strcmp (Some s) (Some t) = 0)"

fun first_named :: "bool \<Rightarrow> byte list \<Rightarrow> 'f jtree list \<Rightarrow> 'f jtree option" where
  "first_named cs s [] = None"
| "first_named cs s (k # ks) = (case t_name (jdata k) of
     None \<Rightarrow> if cs then None else first_named cs s ks
   | Some (_, t) \<Rightarrow> if same_name cs s t then Some k else first_named cs s ks)"

text \<open>The loop stops behind the last member or at one that is found or has no name.\<close>

definition search_result :: "'f jtree list \<Rightarrow> ptr \<Rightarrow> 'f jtree option \<Rightarrow> bool" where
  "search_result ks r found \<longleftrightarrow> (case r of None \<Rightarrow> found = None
     | Some x \<Rightarrow> \<exists>k \<in> set ks. x = jaddr k \<and> found = (if t_name (jdata k) = None then None else Some k))"

lemma search_result_Cons: "search_result ks r found \<Longrightarrow> search_result (k # ks) r found"
  by (auto simp: search_result_def split: option.splits)

lemma find_from_trees:
  assumes "seg (jnodes m) p (map jaddr ks) None" and "list_all (tree m) ks" and "strs m q = Some s"
  shows "\<exists>r. find_from m cs (Some q) (hd_ptr (map jaddr ks)) = Some r \<and> search_result ks r (first_named cs s ks)"
  using assms
proof (induction ks arbitrary: p)
  case Nil
  show ?case by (subst find_from.simps) (simp add: search_result_def)
next
  case (Cons k ks)
  obtain a d us where k: "k = JT a d us" by (cases k)
  have tr: "tree m (JT a d us)" using Cons.prems k by simp
  obtain n where n: "jnodes m a = Some n" "nname n = map_option fst (t_name d)" using tree_node [OF tr] by metis
  have nx: "jnext n = hd_ptr (map jaddr ks)" and sg: "seg (jnodes m) (Some a) (map jaddr ks) None"
    using Cons.prems(1) n(1) by (simp_all add: k split: if_splits)
  obtain r where r: "find_from m cs (Some q) (hd_ptr (map jaddr ks)) = Some r" "search_result ks r (first_named cs s ks)"
    using Cons.IH [OF sg] Cons.prems by auto
  note r' = search_result_Cons [OF r(2), of k]
  show ?case
  proof (cases "t_name d")
    case None
    then have "find_from m cs (Some q) (hd_ptr (map jaddr (k # ks))) = Some (if cs then Some a else r)"
      using r(1) n nx by (subst find_from.simps) (cases cs; simp add: k goes_on_def)
    then show ?thesis using None r' by (auto simp: k search_result_def)
  next
    case (Some v)
    then obtain b t where v: "t_name d = Some (b, t)" "strs m b = Some t" using tr by (cases v) (simp add: holds_def)
    then have g: "goes_on m cs (Some q) (nname n) = Some (\<not> same_name cs s t)"
      using n(2) Cons.prems(3) by (simp add: goes_on_def read_string_def same_name_def)
    then have "find_from m cs (Some q) (hd_ptr (map jaddr (k # ks))) = Some (if same_name cs s t then Some a else r)"
      using r(1) n nx by (subst find_from.simps) (simp add: k)
    then show ?thesis using v(1) r' by (auto simp: k search_result_def)
  qed
qed

lemma get_object_item_tree:
  assumes "tree m (JT a d ks)" and "\<not> t_reference d" and "strs m q = Some s"
  shows "get_object_item m (Some a) (Some q) cs = Some (map_option jaddr (first_named cs s ks))"
proof -
  obtain n where n: "jnodes m a = Some n" "jchild n = hd_ptr (map jaddr ks)" using tree_node [OF assms(1)] assms(2) by metis
  obtain r where r: "find_from m cs (Some q) (hd_ptr (map jaddr ks)) = Some r" "search_result ks r (first_named cs s ks)"
    using find_from_trees [of m "last_ptr (map jaddr ks)" ks q s cs] assms by (auto simp: chain_def)
  show ?thesis
  proof (cases r)
    case None
    then show ?thesis using n r by (simp add: get_object_item_def search_result_def)
  next
    case (Some x)
    then obtain k where k: "k \<in> set ks" "x = jaddr k" "first_named cs s ks = (if t_name (jdata k) = None then None else Some k)"
      using r(2) by (auto simp: search_result_def)
    then have tk: "tree m k" using assms(1) by (simp add: list_all_iff)
    obtain b e us where "k = JT b e us" by (cases k)
    with tk k obtain n' where "jnodes m x = Some n'" "nname n' = map_option fst (t_name (jdata k))"
      using tree_node [of m b e us] by (metis jtree.sel(1,2))
    then show ?thesis using n r(1) k Some by (simp add: get_object_item_def)
  qed
qed

subsection \<open>Adding, detaching and replacing\<close>

lemma add_to_array:
  assumes "tree m (JT a d ks)" and "\<not> t_reference d" and "tree m t" and "separate [JT a d ks, t]"
    and "links_of (jnodes m) (jaddr t) = Some (p, None)"
  shows "\<exists>h. add_item_to_array (jnodes m) (Some a) (Some (jaddr t)) = Some (True, h) \<and> tree (m\<lparr>jnodes := h\<rparr>) (JT a d (ks @ [t])) \<and>
    separate [JT a d (ks @ [t])]"
proof -
  have ds: "distinct (nodes_of_all (ks @ [t]))" "a \<notin> set (nodes_of_all (ks @ [t]))" "distinct (nodes_of (JT a d ks))"
    using assms(4) by (auto simp: separate_def)
  note k = kids_of_tree [OF assms(1,2) ds(3)]
  obtain n where n: "jnodes m (jaddr t) = Some n" "jnext n = None" using assms(5) by (auto dest: links_ofD)
  have "jaddr t \<notin> set (a # map jaddr ks)"
  proof
    assume "jaddr t \<in> set (a # map jaddr ks)"
    then have "jaddr t \<in> set (nodes_of (JT a d ks))" using roots_in_nodes [of ks] by auto
    then show False using assms(4) jaddr_in_nodes [of t] by (auto simp: separate_def)
  qed
  then obtain h where h: "add_item_to_array (jnodes m) (Some a) (Some (jaddr t)) = Some (True, h)"
    "kids h a (map jaddr (ks @ [t]))" "relinks a (set (map jaddr (ks @ [t]))) (jnodes m) h"
    using add_kids [OF k n] by auto
  have "tree (m\<lparr>jnodes := h\<rparr>) (JT a d (ks @ [t]))"
    using inner_not_root [OF ds(1)] ds(2) assms(1,3) by (intro relinks_array [OF assms(1,2) h(3,2)]) (auto simp: list_all_iff)
  moreover have "separate [JT a d (ks @ [t])]" by (rule separate_sub [OF assms(4)]) (auto simp: ac_simps)
  ultimately show ?thesis using h(1) by blast
qed

lemma detach_from_tree:
  assumes "tree m (JT a d (us @ t # vs))" and "\<not> t_reference d" and "separate [JT a d (us @ t # vs)]"
  shows "\<exists>h. cJSON_DetachItemViaPointer (jnodes m) (Some a) (Some (jaddr t)) = Some (Some (jaddr t), h) \<and>
    tree (m\<lparr>jnodes := h\<rparr>) (JT a d (us @ vs)) \<and> tree (m\<lparr>jnodes := h\<rparr>) t \<and> links_of h (jaddr t) = Some (None, None) \<and>
    separate [JT a d (us @ vs), t]"
proof -
  let ?ks = "us @ t # vs"
  have ds: "distinct (nodes_of_all ?ks)" "a \<notin> set (nodes_of_all ?ks)" "distinct (nodes_of (JT a d ?ks))"
    using assms(3) by (auto simp: separate_def)
  note k = kids_of_tree [OF assms(1,2) ds(3)]
  obtain h n where h: "cJSON_DetachItemViaPointer (jnodes m) (Some a) (Some (jaddr t)) = Some (Some (jaddr t), h)"
    "kids h a (map jaddr (us @ vs))" "h (jaddr t) = Some n" "jnext n = None" "jprev n = None" "relinks a (set (map jaddr ?ks)) (jnodes m) h"
    using detach_kids [of "jnodes m" a "map jaddr us" "jaddr t" "map jaddr vs"] k by auto
  have w: "tree m w \<and> set (tl (nodes_of w)) \<inter> set (map jaddr ?ks) = {} \<and> a \<notin> set (nodes_of w)" if "w \<in> set ?ks" for w
    using assms(1) inner_not_root [OF ds(1) that] ds(2) that by (auto simp: list_all_iff)
  have "tree (m\<lparr>jnodes := h\<rparr>) (JT a d (us @ vs))"
    by (rule relinks_array [OF assms(1,2) h(6,2)], rule w) auto
  moreover have "tree (m\<lparr>jnodes := h\<rparr>) t" using relinks_tree [OF _ h(6)] w [of t] by simp
  moreover have "separate [JT a d (us @ vs), t]" by (rule separate_sub [OF assms(3)]) (auto simp: ac_simps)
  ultimately show ?thesis using h(1,3-5) by (simp del: tree.simps)
qed

lemma replace_in_tree:
  assumes "tree m (JT a d (us @ t # vs))" and "\<not> t_reference d" and "tree m u" and "separate [JT a d (us @ t # vs), u]"
  shows "\<exists>m'. cJSON_ReplaceItemViaPointer m (Some a) (Some (jaddr t)) (Some (jaddr u)) = Some (True, m') \<and>
    tree m' (JT a d (us @ u # vs)) \<and> separate [JT a d (us @ u # vs)] \<and>
    dom (jnodes m') = dom (jnodes m) - set (nodes_of t) \<and> strs m' = strs m |` (- set (strings_of t))"
proof -
  let ?ks = "us @ t # vs" and ?ts = "us @ u # t # vs"
  have ds: "distinct (nodes_of_all ?ts)" "a \<notin> set (nodes_of_all ?ts)" "distinct (nodes_of (JT a d ?ks))"
    using assms(4) by (auto simp: separate_def)
  note k = kids_of_tree [OF assms(1,2) ds(3)]
  obtain b e ws where u: "u = JT b e ws" by (cases u)
  obtain n where n: "jnodes m (jaddr u) = Some n" using tree_node [OF assms(3) [unfolded u]] u by auto
  have root: "jaddr u \<noteq> jaddr t" "jaddr u \<notin> set (a # map jaddr ?ks)"
  proof -
    have "set (nodes_of u) \<inter> set (nodes_of (JT a d ?ks)) = {}" using assms(4) by (auto simp: separate_def)
    then have "jaddr u \<notin> set (nodes_of (JT a d ?ks))" using jaddr_in_nodes [of u] by blast
    then show "jaddr u \<notin> set (a # map jaddr ?ks)" using roots_in_nodes [of ?ks] by auto
    then show "jaddr u \<noteq> jaddr t" by auto
  qed
  obtain h n' where h: "relink (jnodes m) (Some a) (Some (jaddr t)) (Some (jaddr u)) = Some h" "kids h a (map jaddr (us @ u # vs))"
    "h (jaddr t) = Some n'" "jnext n' = None" "jprev n' = None" "relinks a (set (map jaddr ?ts)) (jnodes m) h"
    using relink_kids [of "jnodes m" a "map jaddr us" "jaddr t" "map jaddr vs" "jaddr u" n] k n root by auto
  let ?m = "m\<lparr>jnodes := h\<rparr>"
  have w: "tree m w \<and> set (tl (nodes_of w)) \<inter> set (map jaddr ?ts) = {} \<and> a \<notin> set (nodes_of w)" if "w \<in> set ?ts" for w
    using assms(1,3) inner_not_root [OF ds(1) that] ds(2) that by (auto simp: list_all_iff)
  have "tree ?m (JT a d (us @ u # vs))"
    by (rule relinks_array [OF assms(1,2) h(6,2)], rule w) auto
  moreover have "tree ?m t" using relinks_tree [OF _ h(6)] w [of t] by simp
  ultimately have tr: "tree ?m (JT a d (us @ u # vs))" "tree ?m t" by blast+
  have sep: "separate [JT a d (us @ u # vs), t]" by (rule separate_sub [OF assms(4)]) (auto simp: ac_simps)
  have sep1: "separate [t]" "separate [JT a d (us @ u # vs)]" by (rule separate_sub [OF sep]; auto)+
  have sep2: "set (nodes_of (JT a d (us @ u # vs))) \<inter> set (nodes_of_all [t]) = {}"
    "(set (strings_of (JT a d (us @ u # vs))) \<union> borrowed (JT a d (us @ u # vs))) \<inter> set (strings_of_all [t]) = {}"
    using separate_Cons [OF sep] by auto
  have del: "cJSON_Delete (Some (jaddr t)) ?m = Some (without ?m [t])"
    using delete_chain [of ?m "jprev n'" "[t]"] tr(2) h(3,4) sep1 by simp
  have "tree (without ?m [t]) (JT a d (us @ u # vs))"
    by (rule without_frame [OF tr(1) sep2])
  moreover have "dom h = dom (jnodes m)"
  proof -
    have "h x = None \<longleftrightarrow> jnodes m x = None" for x using h(6) by (auto simp: relinks_def data_of_def dest: spec [of _ x])
    then show ?thesis by (auto simp: dom_def)
  qed
  moreover have "dom (jnodes (without ?m [t])) = dom h - set (nodes_of t)" "strs (without ?m [t]) = strs m |` (- set (strings_of t))"
    by (auto simp: without_def)
  moreover have "cJSON_ReplaceItemViaPointer m (Some a) (Some (jaddr t)) (Some (jaddr u)) = Some (True, without ?m [t])"
    using h(1) del root(1) by (simp add: cJSON_ReplaceItemViaPointer_def)
  ultimately show ?thesis using sep1(2) by metis
qed

subsection \<open>Giving an item a key\<close>

definition wf_mem :: "'f jmem \<Rightarrow> bool" where
  "wf_mem m \<longleftrightarrow> (\<forall>x. fresh m \<le> x \<longrightarrow> jnodes m x = None \<and> strs m x = None)"

lemma tree_strings_live:
  "tree m t \<Longrightarrow> x \<in> set (strings_of t) \<union> borrowed t \<Longrightarrow> strs m x \<noteq> None"
proof (induction m t rule: tree.induct)
  case (1 m a d ks)
  then show ?case by (auto simp: holds_def ptr_set_def list_all_iff split: if_splits option.splits)
qed

definition keyed :: "addr \<Rightarrow> byte list \<Rightarrow> 'f tdata \<Rightarrow> 'f tdata" where
  "keyed x s d = d\<lparr>t_name := Some (x, s), t_type := t_type d AND NOT cJSON_StringIsConst\<rparr>"

lemma keyed_simps [simp]: "t_reference (keyed x s d) = t_reference d" "t_const (keyed x s d) = False"
  "t_value (keyed x s d) = t_value d" "t_name (keyed x s d) = Some (x, s)"
  by (simp_all add: keyed_def t_reference_def t_const_def and.assoc json_types)

fun with_key :: "addr \<Rightarrow> byte list \<Rightarrow> 'f jtree \<Rightarrow> 'f jtree" where
  "with_key x s (JT a d ks) = JT a (keyed x s d) ks"

definition old_key :: "'f jtree \<Rightarrow> addr set" where
  "old_key t = (if t_const (jdata t) then {} else ptr_set (t_name (jdata t)))"

text \<open>The memory after the key of the item \<open>t\<close> has become a new copy of \<open>s\<close>.\<close>

definition rekeyed :: "'f jmem \<Rightarrow> 'f jtree \<Rightarrow> byte list \<Rightarrow> 'f jnode \<Rightarrow> 'f jmem" where
  "rekeyed m t s n = m\<lparr>jnodes := (jnodes m)(jaddr t \<mapsto> n\<lparr>nname := Some (fresh m), ntype := ntype n AND NOT cJSON_StringIsConst\<rparr>),
     strs := (strs m)(fresh m \<mapsto> s) |` (- old_key t), fresh := fresh m + 1, left := left m - 1\<rparr>"

lemma rekeyed_frame:
  assumes "tree m u" and "wf_mem m" and "jaddr t \<notin> set (nodes_of u)" and "(set (strings_of u) \<union> borrowed u) \<inter> old_key t = {}"
  shows "tree (rekeyed m t s n) u"
proof (rule tree_frame [OF assms(1)])
  have nodes: "jnodes (rekeyed m t s n) x = jnodes m x" if "x \<in> set (nodes_of u)" for x
    using that assms(3) by (auto simp: rekeyed_def)
  show "data_of (jnodes (rekeyed m t s n)) x = data_of (jnodes m) x \<and> child_of (jnodes (rekeyed m t s n)) x = child_of (jnodes m) x"
    if "x \<in> set (nodes_of u)" for x using nodes [OF that] by (simp add: data_of_def child_of_def)
  show "links_of (jnodes (rekeyed m t s n)) x = links_of (jnodes m) x" if "x \<in> set (tl (nodes_of u))" for x
    using nodes [OF in_set_tlD [OF that]] by (simp add: links_of_def)
  show "strs (rekeyed m t s n) x = strs m x" if "x \<in> set (strings_of u) \<union> borrowed u" for x
    using that assms(2,4) tree_strings_live [OF assms(1) that] by (auto simp: rekeyed_def wf_mem_def restrict_map_def)
qed

lemma rekeyed_tree:
  assumes "tree m t" and "wf_mem m" and "separate [t]" and n: "jnodes m (jaddr t) = Some n"
  shows "tree (rekeyed m t s n) (with_key (fresh m) s t)"
proof -
  obtain a d ks where t: "t = JT a d ks" by (cases t)
  let ?m = "rekeyed m t s n"
  have o: "old_key t \<inter> set (strings_of_all ks) = {}" "old_key t \<inter> borrowed_all ks = {}" "old_key t \<inter> ptr_set (t_value d) = {}"
    using assms(3) by (auto simp: separate_def old_key_def t split: if_splits)
  have f: "x < fresh m" if "strs m x \<noteq> None" for x using that assms(2) by (metis wf_mem_def linorder_not_le)
  have "fresh m \<notin> old_key t"
    using f [of "fresh m"] tree_strings_live [OF assms(1), of "fresh m"] by (auto simp: old_key_def t)
  then have "holds (strs ?m) (t_name (keyed (fresh m) s d))" by (simp add: holds_def rekeyed_def restrict_map_def)
  moreover have "holds (strs ?m) (t_value d)"
    using assms(1) o(3) f by (auto simp: t holds_def rekeyed_def restrict_map_def ptr_set_def split: option.splits)
  moreover have "data_of (jnodes ?m) a = Some (raw_node (keyed (fresh m) s d))"
    using assms(1) n by (cases n) (auto simp: t rekeyed_def keyed_def raw_node_def)
  moreover have "child_of (jnodes ?m) a = child_of (jnodes m) a" using n by (simp add: rekeyed_def t)
  moreover have "chain (jnodes ?m) (map jaddr ks) = chain (jnodes m) (map jaddr ks)"
    unfolding chain_def by (rule seg_frame) (use n in \<open>simp add: rekeyed_def t\<close>)
  moreover have "tree ?m k" if "k \<in> set ks" for k
  proof (rule rekeyed_frame)
    show "tree m k" using assms(1) that by (simp add: t list_all_iff)
    show "jaddr t \<notin> set (nodes_of k)" using assms(3) that by (auto simp: t separate_def)
  qed (use assms(2) o that in auto)
  ultimately show ?thesis using assms(1) by (simp add: t list_all_iff)
qed

lemma distinct_swap:
  assumes "distinct (S @ V @ K @ C)" and "set (S @ V @ K @ C) \<inter> (U \<union> B \<union> D) = {}" and "f \<notin> set (S @ V @ C) \<union> U \<union> D"
  shows "distinct (S @ V @ f # C)" and "set (S @ V @ f # C) \<inter> (U \<union> D) = {}"
  using assms by auto

lemma rekeyed_separate:
  assumes "separate (us @ [t])" and "list_all (tree m) (us @ [t])" and "wf_mem m"
  shows "separate (us @ [with_key (fresh m) s t])"
proof -
  obtain a d ks where t: "t = JT a d ks" by (cases t)
  have f: "fresh m \<notin> set (strings_of u) \<union> borrowed u" if "u \<in> set (us @ [t])" for u
  proof
    assume "fresh m \<in> set (strings_of u) \<union> borrowed u"
    moreover have "tree m u" using assms(2) that by (simp only: list_all_iff)
    ultimately have "strs m (fresh m) \<noteq> None" using tree_strings_live by blast
    then show False using assms(3) by (simp add: wf_mem_def)
  qed
  let ?S = "strings_of_all us" and ?V = "if t_reference d then [] else ptr_list (t_value d)"
    and ?K = "if t_const d then [] else ptr_list (t_name d)" and ?C = "strings_of_all ks"
    and ?U = "borrowed_all us" and ?B = "if t_const d then ptr_set (t_name d) else {}"
    and ?D = "(if t_reference d then ptr_set (t_value d) else {}) \<union> borrowed_all ks"
  have old: "distinct (nodes_of_all (us @ [t]))" "distinct (?S @ ?V @ ?K @ ?C)" "set (?S @ ?V @ ?K @ ?C) \<inter> (?U \<union> ?B \<union> ?D) = {}"
    using assms(1) unfolding separate_def by (simp_all only: t list.map map_append concat_append concat.simps strings_of.simps borrowed.simps set_append
        Union_Un_distrib image_Un list.set set_map) (auto simp del: ptr_list_set)
  have "fresh m \<notin> set ?S" "fresh m \<notin> ?U" using f by auto
  moreover have "fresh m \<notin> set ?V" "fresh m \<notin> set ?C" "fresh m \<notin> ?D" using f [of t] by (simp_all add: t split: if_splits)
  ultimately have new: "fresh m \<notin> set (?S @ ?V @ ?C) \<union> ?U \<union> ?D" by simp
  have "nodes_of_all (us @ [with_key (fresh m) s t]) = nodes_of_all (us @ [t])" by (simp add: t)
  moreover have "strings_of_all (us @ [with_key (fresh m) s t]) = ?S @ ?V @ fresh m # ?C" by (simp add: t ptr_list_def)
  moreover have "borrowed_all (us @ [with_key (fresh m) s t]) = ?U \<union> ?D" by (simp add: t Un_commute)
  ultimately show ?thesis using distinct_swap [OF old(2,3) new] old(1) by (simp only: separate_def)
qed

lemma with_key_simps [simp]: "jaddr (with_key x s t) = jaddr t" "nodes_of (with_key x s t) = nodes_of t"
  "t_name (jdata (with_key x s t)) = Some (x, s)"
  by (cases t; simp)+

lemma rekeyed_simps [simp]:
  "jnodes m (jaddr t) = Some n \<Longrightarrow> links_of (jnodes (rekeyed m t s n)) x = links_of (jnodes m) x"
  "left (rekeyed m t s n) = left m - 1" "fresh (rekeyed m t s n) = fresh m + 1"
  "strs (rekeyed m t s n) = (strs m)(fresh m \<mapsto> s) |` (- old_key t)"
  by (simp_all add: rekeyed_def)

lemma rekeyed_wf: "wf_mem m \<Longrightarrow> jnodes m (jaddr t) = Some n \<Longrightarrow> wf_mem (rekeyed m t s n)"
  by (auto simp: wf_mem_def rekeyed_def restrict_map_def)

text \<open>Freeing the key an item owned, and storing the new one.\<close>

lemma rekey_steps:
  assumes "tree m t" and "wf_mem m" and "jnodes m (jaddr t) = Some n" and "strs m q = Some s" and "0 < left m"
  defines "m1 \<equiv> m\<lparr>strs := (strs m)(fresh m \<mapsto> s), fresh := fresh m + 1, left := left m - 1\<rparr>"
  shows "dup_string m (Some q) = Some (Some (fresh m), m1)"
    and "(if \<not> const_name n \<and> nname n \<noteq> None then free_string m1 (nname n) else Some m1) = Some (m1\<lparr>strs := strs m1 |` (- old_key t)\<rparr>)"
    and "put_node (m1\<lparr>strs := strs m1 |` (- old_key t)\<rparr>) (Some (jaddr t)) (\<lambda>n'. n'\<lparr>nname := Some (fresh m), ntype := ntype n AND NOT cJSON_StringIsConst\<rparr>) =
      Some (rekeyed m t s n)"
    and "put_node (m1\<lparr>strs := strs m1 |` (- old_key t)\<rparr>) (Some (jaddr t)) (\<lambda>n. n\<lparr>nname := Some (fresh m), ntype := ntype n AND NOT cJSON_StringIsConst\<rparr>) =
      Some (rekeyed m t s n)"
proof -
  show "dup_string m (Some q) = Some (Some (fresh m), m1)" using assms by (simp add: dup_string_def)
  obtain a d ks where t: "t = JT a d ks" by (cases t)
  have n: "nname n = map_option fst (t_name d)" "const_name n = t_const d"
    using tree_node [OF assms(1) [unfolded t]] assms(3) t by (metis jtree.sel(1) option.inject)+
  have "holds (strs m) (t_name d)" using assms(1) t by simp
  moreover have "strs m (fresh m) = None" using assms(2) by (simp add: wf_mem_def)
  ultimately have "holds (strs m1) (t_name d)" by (auto simp: holds_def m1_def split: option.splits)
  from free_owned [OF this, of "\<not> t_const d"]
  show "(if \<not> const_name n \<and> nname n \<noteq> None then free_string m1 (nname n) else Some m1) = Some (m1\<lparr>strs := strs m1 |` (- old_key t)\<rparr>)"
    unfolding n by (simp only: old_key_def t jtree.sel) (cases "t_const d"; simp)
  show "put_node (m1\<lparr>strs := strs m1 |` (- old_key t)\<rparr>) (Some (jaddr t)) (\<lambda>n'. n'\<lparr>nname := Some (fresh m), ntype := ntype n AND NOT cJSON_StringIsConst\<rparr>) =
      Some (rekeyed m t s n)"
    and "put_node (m1\<lparr>strs := strs m1 |` (- old_key t)\<rparr>) (Some (jaddr t)) (\<lambda>n. n\<lparr>nname := Some (fresh m), ntype := ntype n AND NOT cJSON_StringIsConst\<rparr>) =
      Some (rekeyed m t s n)"
    using assms(3) by (cases m; simp add: put_node_def m1_def rekeyed_def)+
qed

lemma add_to_object:
  assumes tr: "tree m (JT a d ks)" "\<not> t_reference d" "tree m t" and sep: "separate [JT a d ks, t]" and wf: "wf_mem m"
    and l: "links_of (jnodes m) (jaddr t) = Some (p, None)" and q: "strs m q = Some s" "0 < left m"
  shows "\<exists>m'. add_item_to_object m (Some a) (Some q) (Some (jaddr t)) False = Some (True, m') \<and>
    tree m' (JT a d (ks @ [with_key (fresh m) s t])) \<and> separate [JT a d (ks @ [with_key (fresh m) s t])] \<and>
    strs m' = (strs m)(fresh m \<mapsto> s) |` (- old_key t)"
proof -
  obtain n where n: "jnodes m (jaddr t) = Some n" using l by (auto dest: links_ofD)
  have root: "a \<noteq> jaddr t" "jaddr t \<notin> set (nodes_of (JT a d ks))"
  proof -
    show "jaddr t \<notin> set (nodes_of (JT a d ks))" using separate_Cons [OF sep] jaddr_in_nodes [of t] by auto
    then show "a \<noteq> jaddr t" by auto
  qed
  let ?m = "rekeyed m t s n" and ?t = "with_key (fresh m) s t"
  have "tree ?m (JT a d ks)"
  proof (rule rekeyed_frame [OF tr(1) wf root(2)])
    show "(set (strings_of (JT a d ks)) \<union> borrowed (JT a d ks)) \<inter> old_key t = {}"
    proof -
      have "old_key t \<subseteq> set (strings_of t)" by (cases t) (auto simp: old_key_def)
      then show ?thesis using separate_Cons [OF sep] by fastforce
    qed
  qed
  moreover have "separate [t]" by (rule separate_sub [OF sep]) auto
  then have "tree ?m ?t" by (rule rekeyed_tree [OF tr(3) wf _ n])
  moreover have "separate [JT a d ks, ?t]" using rekeyed_separate [of "[JT a d ks]" t m s] sep tr(1,3) wf by simp
  moreover have "links_of (jnodes ?m) (jaddr ?t) = Some (p, None)" using l n by simp
  ultimately obtain h where h: "add_item_to_array (jnodes ?m) (Some a) (Some (jaddr t)) = Some (True, h)"
    "tree (?m\<lparr>jnodes := h\<rparr>) (JT a d (ks @ [?t]))" "separate [JT a d (ks @ [?t])]"
    using add_to_array [of ?m a d ks ?t p] tr(2) by auto
  note st = rekey_steps [OF tr(3) wf n q]
  have "add_item_to_object m (Some a) (Some q) (Some (jaddr t)) False = on_nodes (\<lambda>h. add_item_to_array h (Some a) (Some (jaddr t))) ?m"
    unfolding add_item_to_object_def using root(1)
    by (simp only: st option.distinct simp_thms option.inject if_False if_True put_simps n bind.bind_lunit prod.case Let_def)
  with h show ?thesis by (intro exI [of _ "?m\<lparr>jnodes := h\<rparr>"]) (simp add: on_nodes_def del: tree.simps)
qed

lemma same_name_refl: "same_name cs s s"
proof -
  have "ci_diff s s = 0" by (induction s) simp_all
  then show ?thesis by (simp add: same_name_def case_insensitive_strcmp_def)
qed

lemma first_named_append:
  "first_named cs s ks = None \<Longrightarrow> (cs \<longrightarrow> (\<forall>k \<in> set ks. t_name (jdata k) \<noteq> None)) \<Longrightarrow> first_named cs s (ks @ us) = first_named cs s us"
  by (induction ks) (auto split: option.splits if_splits)

text \<open>
  C23. \<open>cJSON_AddItemToObject\<close> of a loose tree to an object appends it as the last member under a new copy of the key, and
  frees the key it owned before, so that the key may be its own old one; the trees stay separate, and
  if no member had that name, looking it up gives the new one. When the copy cannot be allocated it
  returns false and changes nothing.
\<close>

theorem add_item_to_object_adds_member:
  assumes "tree m (JT a d ks)" and "\<not> t_reference d" and "tree m t" and "separate [JT a d ks, t]" and "wf_mem m"
    and "links_of (jnodes m) (jaddr t) = Some (p, None)" and "strs m q = Some s"
  shows "if left m = 0 then cJSON_AddItemToObject m (Some a) (Some q) (Some (jaddr t)) = Some (False, m)
    else \<exists>m'. cJSON_AddItemToObject m (Some a) (Some q) (Some (jaddr t)) = Some (True, m') \<and>
      tree m' (JT a d (ks @ [with_key (fresh m) s t])) \<and> separate [JT a d (ks @ [with_key (fresh m) s t])] \<and>
      strs m' = (strs m)(fresh m \<mapsto> s) |` (- old_key t) \<and>
      (\<forall>r. strs m' r = Some s \<and> first_named False s ks = None \<longrightarrow> cJSON_GetObjectItem m' (Some a) (Some r) = Some (Some (jaddr t)))"
proof (cases "left m = 0")
  case True
  obtain n where n: "jnodes m (jaddr t) = Some n" using assms(6) by (auto dest: links_ofD)
  have "a \<noteq> jaddr t" using separate_Cons [OF assms(4)] jaddr_in_nodes [of t] by auto
  then show ?thesis using True n assms(7) by (simp add: cJSON_AddItemToObject_def add_item_to_object_def dup_string_def)
next
  case False
  then obtain m' where m': "add_item_to_object m (Some a) (Some q) (Some (jaddr t)) False = Some (True, m')"
    "tree m' (JT a d (ks @ [with_key (fresh m) s t]))" "separate [JT a d (ks @ [with_key (fresh m) s t])]"
    "strs m' = (strs m)(fresh m \<mapsto> s) |` (- old_key t)"
    using add_to_object [OF assms] by auto
  have "cJSON_GetObjectItem m' (Some a) (Some r) = Some (Some (jaddr t))" if r: "strs m' r = Some s" "first_named False s ks = None" for r
    using get_object_item_tree [OF m'(2) assms(2) r(1), of False] r(2)
    by (simp add: cJSON_GetObjectItem_def first_named_append same_name_refl)
  with False m' show ?thesis by (simp add: cJSON_AddItemToObject_def del: tree.simps)
qed

lemma first_named_in: "first_named cs s ks = Some t \<Longrightarrow> t \<in> set ks"
  by (induction ks) (auto split: option.splits if_splits)

text \<open>The same in the other order: the old key is freed before the copy is made.\<close>

lemma rekey_steps_freed:
  assumes "tree m t" and "wf_mem m" and "jnodes m (jaddr t) = Some n" and "strs m q = Some s" and "0 < left m" and "q \<notin> old_key t"
  defines "m1 \<equiv> m\<lparr>strs := strs m |` (- old_key t)\<rparr>"
  defines "m2 \<equiv> m1\<lparr>strs := (strs m1)(fresh m \<mapsto> s), fresh := fresh m + 1, left := left m - 1\<rparr>"
  shows "(if \<not> const_name n \<and> nname n \<noteq> None then free_string m (nname n) else Some m) = Some m1"
    and "dup_string m1 (Some q) = Some (Some (fresh m), m2)"
    and "put_node m2 (Some (jaddr t)) (\<lambda>n. n\<lparr>nname := Some (fresh m), ntype := ntype n AND NOT cJSON_StringIsConst\<rparr>) = Some (rekeyed m t s n)"
proof -
  obtain a d ks where t: "t = JT a d ks" by (cases t)
  have n: "nname n = map_option fst (t_name d)" "const_name n = t_const d"
    using tree_node [OF assms(1) [unfolded t]] assms(3) t by (metis jtree.sel(1) option.inject)+
  have "holds (strs m) (t_name d)" using assms(1) t by simp
  from free_owned [OF this, of "\<not> t_const d"]
  show "(if \<not> const_name n \<and> nname n \<noteq> None then free_string m (nname n) else Some m) = Some m1"
    unfolding n by (simp only: old_key_def m1_def t jtree.sel) (cases "t_const d"; simp)
  show "dup_string m1 (Some q) = Some (Some (fresh m), m2)" using assms(4-6) by (simp add: dup_string_def m1_def m2_def)
  have "fresh m \<notin> old_key t"
  proof
    assume "fresh m \<in> old_key t"
    then have "fresh m \<in> set (strings_of t) \<union> borrowed t" by (cases t) (auto simp: old_key_def split: if_splits)
    then show False using tree_strings_live [OF assms(1), of "fresh m"] assms(2) by (simp add: wf_mem_def)
  qed
  then show "put_node m2 (Some (jaddr t)) (\<lambda>n. n\<lparr>nname := Some (fresh m), ntype := ntype n AND NOT cJSON_StringIsConst\<rparr>) = Some (rekeyed m t s n)"
    using assms(3) by (cases m) (auto simp: put_node_def m1_def m2_def rekeyed_def fun_eq_iff restrict_map_def)
qed

text \<open>What replacing a member does before it looks for the old one.\<close>

lemma rekey_separate_trees:
  assumes tr: "tree m (JT a d ks)" "tree m u" and sep: "separate [JT a d ks, u]" and wf: "wf_mem m"
    and n: "jnodes m (jaddr u) = Some n"
  shows "tree (rekeyed m u s n) (JT a d ks)" "tree (rekeyed m u s n) (with_key (fresh m) s u)"
    "separate [JT a d ks, with_key (fresh m) s u]"
proof -
  show "tree (rekeyed m u s n) (JT a d ks)"
  proof (rule rekeyed_frame [OF tr(1) wf])
    show "jaddr u \<notin> set (nodes_of (JT a d ks))" using separate_Cons [OF sep] jaddr_in_nodes [of u] by auto
    have "old_key u \<subseteq> set (strings_of u)" by (cases u) (auto simp: old_key_def)
    then show "(set (strings_of (JT a d ks)) \<union> borrowed (JT a d ks)) \<inter> old_key u = {}" using separate_Cons [OF sep] by fastforce
  qed
  have "separate [u]" by (rule separate_sub [OF sep]) auto
  then show "tree (rekeyed m u s n) (with_key (fresh m) s u)" by (rule rekeyed_tree [OF tr(2) wf _ n])
  show "separate [JT a d ks, with_key (fresh m) s u]" using rekeyed_separate [of "[JT a d ks]" u m s] sep tr wf by simp
qed

text \<open>
  \<open>cJSON_ReplaceItemInObject\<close> and its case sensitive variant first give the replacement a copy of the
  key; then the first member of that name is taken out, its tree is deleted, and the replacement stands in its
  place. When no member has the name they return false, but the replacement has the new key.
\<close>

theorem replace_item_in_object_replaces:
  assumes tr: "tree m (JT a d ks)" "\<not> t_reference d" "tree m u" and sep: "separate [JT a d ks, u]" and wf: "wf_mem m"
    and q: "strs m q = Some s" "0 < left m" "q \<notin> old_key u" and n: "jnodes m (jaddr u) = Some n"
  shows "case first_named cs s ks of
      None \<Rightarrow> replace_item_in_object m (Some a) (Some q) (Some (jaddr u)) cs = Some (False, rekeyed m u s n) \<and>
        tree (rekeyed m u s n) (JT a d ks) \<and> tree (rekeyed m u s n) (with_key (fresh m) s u)
    | Some t \<Rightarrow> \<exists>us vs m'. ks = us @ t # vs \<and> replace_item_in_object m (Some a) (Some q) (Some (jaddr u)) cs = Some (True, m') \<and>
        tree m' (JT a d (us @ with_key (fresh m) s u # vs)) \<and> separate [JT a d (us @ with_key (fresh m) s u # vs)] \<and>
        dom (jnodes m') = dom (jnodes m) - set (nodes_of t) \<and>
        strs m' = (strs m)(fresh m \<mapsto> s) |` (- old_key u) |` (- set (strings_of t))"
proof -
  let ?m = "rekeyed m u s n" and ?u = "with_key (fresh m) s u"
  note R = rekey_separate_trees [OF tr(1,3) sep wf n, of s]
  note st = rekey_steps_freed [OF tr(3) wf n q]
  have q': "strs ?m q = Some s" using q wf by (auto simp: wf_mem_def)
  have get: "get_object_item ?m (Some a) (Some q) cs = Some (map_option jaddr (first_named cs s ks))"
    by (rule get_object_item_tree [OF R(1) tr(2) q'])
  have start: "replace_item_in_object m (Some a) (Some q) (Some (jaddr u)) cs =
      cJSON_ReplaceItemViaPointer ?m (Some a) (map_option jaddr (first_named cs s ks)) (Some (jaddr u))"
    unfolding replace_item_in_object_def
    by (simp only: put_simps(4) n bind.bind_lunit) (simp only: st option.distinct simp_thms if_False bind.bind_lunit prod.case get)
  show ?thesis
  proof (cases "first_named cs s ks")
    case None
    then show ?thesis using start R by (simp add: cJSON_ReplaceItemViaPointer_def del: tree.simps)
  next
    case (Some t)
    from split_list [OF first_named_in [OF Some]] obtain us vs where ks: "ks = us @ t # vs" by blast
    have "tree ?m (JT a d (us @ t # vs))" "separate [JT a d (us @ t # vs), ?u]" using R(1,3) ks by blast+
    from replace_in_tree [OF this(1) tr(2) R(2) this(2)] obtain m' where
      "cJSON_ReplaceItemViaPointer ?m (Some a) (Some (jaddr t)) (Some (jaddr ?u)) = Some (True, m')"
      "tree m' (JT a d (us @ ?u # vs))" "separate [JT a d (us @ ?u # vs)]"
      "dom (jnodes m') = dom (jnodes ?m) - set (nodes_of t)" "strs m' = strs ?m |` (- set (strings_of t))" by blast
    moreover have "dom (jnodes ?m) = dom (jnodes m)" using n by (auto simp: rekeyed_def)
    ultimately show ?thesis using Some ks start by (auto simp del: tree.simps)
  qed
qed

text \<open>
  \<open>cJSON_ReplaceItemInObject\<close> frees the key of the replacement before it copies the name it was given:
  called with that key as the name, it reads freed memory.
\<close>

theorem replace_item_in_object_reads_freed_key:
  assumes "jnodes m r = Some n" and "\<not> const_name n" and "nname n = Some q" and "strs m q \<noteq> None"
  shows "cJSON_ReplaceItemInObject m object (Some q) (Some r) = None \<and> cJSON_ReplaceItemInObjectCaseSensitive m object (Some q) (Some r) = None"
proof -
  have "replace_item_in_object m object (Some q) (Some r) cs = None" for cs
    using assms by (auto simp: replace_item_in_object_def free_string_def dup_string_def)
  then show ?thesis
    by (simp_all add: cJSON_ReplaceItemInObject_def cJSON_ReplaceItemInObjectCaseSensitive_def)
qed

lemma sample_state: "wf_mem sample_mem" "strs sample_mem 12 = Some [75]" "strs sample_mem 11 = Some [111]"
  "0 < left sample_mem" "12 \<notin> old_key sample_loose" "jnodes sample_mem (jaddr sample_loose) = Some (sample_node 4 None None (Some 11))"
  by (simp_all add: sample_mem_def sample_loose_def sample_data_def ptr_set_def wf_mem_def old_key_def)

theorem add_item_to_object_adds_member_witness:
  "if left sample_mem = 0 then cJSON_AddItemToObject sample_mem (Some 1) (Some 11) (Some (jaddr sample_loose)) = Some (False, sample_mem)
    else \<exists>m'. cJSON_AddItemToObject sample_mem (Some 1) (Some 11) (Some (jaddr sample_loose)) = Some (True, m') \<and>
      tree m' (JT 1 (sample_data 64 None) ([sample_member] @ [with_key (fresh sample_mem) [111] sample_loose])) \<and>
      separate [JT 1 (sample_data 64 None) ([sample_member] @ [with_key (fresh sample_mem) [111] sample_loose])] \<and>
      strs m' = (strs sample_mem)(fresh sample_mem \<mapsto> [111]) |` (- old_key sample_loose) \<and>
      (\<forall>r. strs m' r = Some [111] \<and> first_named False [111] [sample_member] = None \<longrightarrow>
        cJSON_GetObjectItem m' (Some 1) (Some r) = Some (Some (jaddr sample_loose)))"
  by (rule add_item_to_object_adds_member [OF sample_trees(1,3,2,4) sample_state(1) sample_trees(5) sample_state(3)])

theorem replace_item_in_object_replaces_witness:
  "\<exists>us vs m'. [sample_member] = us @ sample_member # vs \<and>
     replace_item_in_object sample_mem (Some 1) (Some 12) (Some (jaddr sample_loose)) False = Some (True, m') \<and>
     tree m' (JT 1 (sample_data 64 None) (us @ with_key (fresh sample_mem) [75] sample_loose # vs)) \<and>
     separate [JT 1 (sample_data 64 None) (us @ with_key (fresh sample_mem) [75] sample_loose # vs)] \<and>
     dom (jnodes m') = dom (jnodes sample_mem) - set (nodes_of sample_member) \<and>
     strs m' = (strs sample_mem)(fresh sample_mem \<mapsto> [75]) |` (- old_key sample_loose) |` (- set (strings_of sample_member))"
proof -
  have "first_named False [75] [sample_member] = Some sample_member"
    by (simp add: sample_member_def sample_data_def same_name_def case_insensitive_strcmp_def c_tolower_def)
  then show ?thesis
    using replace_item_in_object_replaces [OF sample_trees(1,3,2,4) sample_state(1,2,4,5,6), of False] by simp
qed

theorem replace_item_in_object_reads_freed_key_witness:
  "cJSON_ReplaceItemInObject sample_mem (Some 1) (Some 11) (Some 3) = None \<and>
   cJSON_ReplaceItemInObjectCaseSensitive sample_mem (Some 1) (Some 11) (Some 3) = None"
  by (rule replace_item_in_object_reads_freed_key [of sample_mem 3 "sample_node 4 None None (Some 11)"])
    (simp_all add: sample_mem_def sample_node_def const_name_def json_types)

end
