(* ===== verification/JsonDuplicate.thy ===== *)
theory JsonDuplicate
  imports JsonTreeOps JsonSafety
begin

section \<open>Duplicating a tree\<close>

text \<open>
  \<open>cJSON_Duplicate\<close> and its loop over the children, which call each other. Without fuel the run is
  undefined; \<open>cJSON_Duplicate\<close> starts with enough for every tree in a memory whose addresses are
  below \<open>fresh\<close>, so that what runs out of it is a chain that comes back to itself.
\<close>

text \<open>The label \<open>fail\<close>.\<close>

definition discard :: "'f jmem \<Rightarrow> ptr \<Rightarrow> (ptr \<times> 'f jmem) option" where
  "discard m newitem = do { m \<leftarrow> cJSON_Delete newitem m; Some (None, m) }"

text \<open>Putting a copied child behind the last one, or under the new item.\<close>

definition link_copy :: "'f jmem \<Rightarrow> ptr \<Rightarrow> ptr \<Rightarrow> ptr \<Rightarrow> 'f jmem option" where
  "link_copy m newitem nxt newchild =
     (if nxt \<noteq> None then do {
        m \<leftarrow> put_node m nxt (\<lambda>x. x\<lparr>jnext := newchild\<rparr>);
        put_node m newchild (\<lambda>x. x\<lparr>jprev := nxt\<rparr>) }
      else put_node m newitem (\<lambda>x. x\<lparr>jchild := newchild\<rparr>))"

fun duplicate :: "('f, 'a) float_ops_scheme \<Rightarrow> nat \<Rightarrow> 'f jmem \<Rightarrow> ptr \<Rightarrow> bool \<Rightarrow> (ptr \<times> 'f jmem) option"
  and duplicate_children :: "('f, 'a) float_ops_scheme \<Rightarrow> nat \<Rightarrow> 'f jmem \<Rightarrow> ptr \<Rightarrow> ptr \<Rightarrow> ptr \<Rightarrow> (bool \<times> ptr \<times> 'f jmem) option" where
  "duplicate fo 0 m it recurse = None"
| "duplicate fo (Suc k) m it recurse = (if it = None then Some (None, m)
   else (case make_node fo m of
      (None, m) \<Rightarrow> Some (None, m)
    | (newitem, m) \<Rightarrow> do {
        n \<leftarrow> fetch (jnodes m) it;
        m \<leftarrow> put_node m newitem (\<lambda>x. x\<lparr>ntype := ntype n AND NOT cJSON_IsReference, nint := nint n, ndouble := ndouble n\<rparr>);
        (v, m) \<leftarrow> dup_string m (nvalue n);
        m \<leftarrow> put_node m newitem (\<lambda>x. x\<lparr>nvalue := v\<rparr>);
        if nvalue n \<noteq> None \<and> v = None then discard m newitem
        else do {
          (s, m) \<leftarrow> (if nname n \<noteq> None \<and> const_name n then Some (nname n, m) else dup_string m (nname n));
          m \<leftarrow> put_node m newitem (\<lambda>x. x\<lparr>nname := s\<rparr>);
          if nname n \<noteq> None \<and> s = None then discard m newitem
          else if \<not> recurse then Some (newitem, m)
          else do {
            (ok, newchild, m) \<leftarrow> duplicate_children fo k m newitem (jchild n) None;
            if \<not> ok then discard m newitem
            else do {
              x \<leftarrow> fetch (jnodes m) newitem;
              m \<leftarrow> (if jchild x \<noteq> None then put_node m (jchild x) (\<lambda>c. c\<lparr>jprev := newchild\<rparr>) else Some m);
              Some (newitem, m) } } } }))"
| "duplicate_children fo 0 m newitem ch nxt = None"
| "duplicate_children fo (Suc k) m newitem ch nxt = (if ch = None then Some (True, nxt, m)
   else do {
     (newchild, m) \<leftarrow> duplicate fo k m ch True;
     if newchild = None then Some (False, None, m)
     else do {
       m \<leftarrow> link_copy m newitem nxt newchild;
       x \<leftarrow> fetch (jnodes m) ch;
       duplicate_children fo k m newitem (jnext x) newchild } })"

definition cJSON_Duplicate :: "('f, 'a) float_ops_scheme \<Rightarrow> 'f jmem \<Rightarrow> ptr \<Rightarrow> bool \<Rightarrow> (ptr \<times> 'f jmem) option" where
  "cJSON_Duplicate fo m it recurse = duplicate fo (2 * fresh m + 1) m it recurse"

declare duplicate.simps [simp del] duplicate_children.simps [simp del] tree.simps [simp del]

subsection \<open>The value of a tree\<close>

fun value_of :: "'f jtree \<Rightarrow> 'f cJSON" where
  "value_of (JT a d ks) = Item \<lparr>jtype = t_type d, valuestring = map_option snd (t_value d), valueint = t_int d, valuedouble = t_double d,
     jstring = map_option snd (t_name d)\<rparr> (map value_of ks)"

fun no_references :: "'f jtree \<Rightarrow> bool" where
  "no_references (JT a d ks) \<longleftrightarrow> \<not> t_reference d \<and> list_all no_references ks"

text \<open>The allocations a copy takes.\<close>

fun allocations :: "'f jtree \<Rightarrow> nat" where
  "allocations (JT a d ks) = 1 + length (ptr_list (t_value d)) + (if t_const d then 0 else length (ptr_list (t_name d))) + sum_list (map allocations ks)"

fun fuel_for :: "'f jtree \<Rightarrow> nat" and fuel_for_all :: "'f jtree list \<Rightarrow> nat" where
  "fuel_for (JT a d ks) = Suc (fuel_for_all ks)"
| "fuel_for_all [] = 1"
| "fuel_for_all (k # ks) = Suc (max (fuel_for k) (fuel_for_all ks))"

lemma fuel_bound:
  fixes t :: "'f jtree" and ks :: "'f jtree list"
  shows "fuel_for t \<le> 2 * length (nodes_of t)" "fuel_for_all ks \<le> 2 * length (nodes_of_all ks) + 1"
proof (induction t and ks rule: fuel_for_fuel_for_all.induct)
  case (3 k ks)
  obtain x xs where "nodes_of k = x # xs" by (cases k) simp
  with 3 show ?case by simp
qed simp_all

subsection \<open>What is added to a memory\<close>

text \<open>\<open>m'\<close> is \<open>m\<close> with the nodes \<open>N\<close> and the strings \<open>S\<close>, all of them new.\<close>

definition extends :: "'f jmem \<Rightarrow> addr set \<Rightarrow> addr set \<Rightarrow> 'f jmem \<Rightarrow> bool" where
  "extends m N S m' \<longleftrightarrow> wf_mem m \<and> wf_mem m' \<and> fresh m \<le> fresh m' \<and> (\<forall>x \<in> N \<union> S. fresh m \<le> x) \<and>
     (\<forall>x. x \<notin> N \<longrightarrow> jnodes m' x = jnodes m x) \<and> (\<forall>x. x \<notin> S \<longrightarrow> strs m' x = strs m x)"

lemma extends_refl: "wf_mem m \<Longrightarrow> extends m {} {} m"
  by (simp add: extends_def)

lemma extends_trans:
  assumes "extends m N S m'" and "extends m' N' S' m''"
  shows "extends m (N \<union> N') (S \<union> S') m''"
proof -
  have "fresh m \<le> fresh m'" using assms(1) by (simp add: extends_def)
  then have "fresh m \<le> x" if "fresh m' \<le> x" for x using that by (rule order_trans)
  with assms show ?thesis unfolding extends_def by (metis UnCI UnE)
qed

lemma tree_nodes_live: "tree m t \<Longrightarrow> x \<in> set (nodes_of t) \<Longrightarrow> jnodes m x \<noteq> None"
proof (induction m t rule: tree.induct)
  case (1 m a d ks)
  then show ?case by (auto simp: tree.simps data_of_def list_all_iff)
qed

text \<open>The addresses of a tree are old.\<close>

lemma tree_old:
  assumes "tree m t" and "wf_mem m"
  shows "x \<in> set (nodes_of t) \<Longrightarrow> x < fresh m" "x \<in> set (strings_of t) \<union> borrowed t \<Longrightarrow> x < fresh m"
  using tree_nodes_live [OF assms(1), of x] tree_strings_live [OF assms(1), of x] assms(2)
  by (meson wf_mem_def linorder_not_le)+

lemma extends_old:
  assumes "extends m N S m'" and "x < fresh m"
  shows "jnodes m' x = jnodes m x" "strs m' x = strs m x"
  using assms by (auto simp: extends_def linorder_not_le [symmetric])

lemma extends_tree:
  assumes "extends m N S m'" and "tree m t"
  shows "tree m' t"
proof (rule tree_frame [OF assms(2)])
  have wf: "wf_mem m" using assms(1) by (simp add: extends_def)
  note old = tree_old [OF assms(2) wf] and same = extends_old [OF assms(1)]
  show "data_of (jnodes m') x = data_of (jnodes m) x \<and> child_of (jnodes m') x = child_of (jnodes m) x" if "x \<in> set (nodes_of t)" for x
    using same(1) [OF old(1) [OF that]] by (simp add: data_of_def child_of_def)
  show "links_of (jnodes m') x = links_of (jnodes m) x" if "x \<in> set (tl (nodes_of t))" for x
    using same(1) [OF old(1) [OF in_set_tlD [OF that]]] by (simp add: links_of_def)
  show "strs m' x = strs m x" if "x \<in> set (strings_of t) \<union> borrowed t" for x
    using same(2) [OF old(2) [OF that]] .
qed

subsection \<open>A copy being built\<close>

text \<open>
  In \<open>m\<close>, which extends \<open>m0\<close>, the children copied so far hang under the new item \<open>r\<close>; the first
  of them has no predecessor yet.
\<close>

definition building :: "'f jmem \<Rightarrow> addr \<Rightarrow> 'f jtree list \<Rightarrow> 'f jmem \<Rightarrow> bool" where
  "building m0 r ds m \<longleftrightarrow> r < fresh m0 \<and> data_of (jnodes m) r = data_of (jnodes m0) r \<and> links_of (jnodes m) r = links_of (jnodes m0) r \<and>
     child_of (jnodes m) r = Some (hd_ptr (map jaddr ds)) \<and> seg (jnodes m) None (map jaddr ds) None \<and> list_all (tree m) ds \<and> separate ds \<and>
     borrowed_all ds \<subseteq> {x. x < r} \<and> wf_mem m0 \<and> wf_mem m \<and> fresh m0 \<le> fresh m \<and>
     (\<forall>x \<in> set (nodes_of_all ds) \<union> set (strings_of_all ds). fresh m0 \<le> x) \<and>
     (\<forall>x. x \<notin> insert r (set (nodes_of_all ds)) \<longrightarrow> jnodes m x = jnodes m0 x) \<and>
     (\<forall>x. x \<notin> set (strings_of_all ds) \<longrightarrow> strs m x = strs m0 x)"

text \<open>What the copy \<open>c\<close> of a tree \<open>t\<close> is, in a memory \<open>m'\<close> that was \<open>m\<close> before.\<close>

definition is_copy :: "'f jmem \<Rightarrow> 'f jtree \<Rightarrow> 'f jtree \<Rightarrow> 'f jmem \<Rightarrow> bool" where
  "is_copy m t c m' \<longleftrightarrow> extends m (set (nodes_of c)) (set (strings_of c)) m' \<and> tree m' c \<and> separate [c] \<and> value_of c = value_of t \<and>
     borrowed c \<subseteq> borrowed t \<and> links_of (jnodes m') (jaddr c) = Some (None, None) \<and> left m' + allocations t = left m"

definition copies :: "'f jmem \<Rightarrow> 'f jtree \<Rightarrow> (ptr \<times> 'f jmem) option \<Rightarrow> bool" where
  "copies m t r \<longleftrightarrow> (if allocations t \<le> left m then \<exists>c m'. r = Some (Some (jaddr c), m') \<and> is_copy m t c m'
     else \<exists>m'. r = Some (None, m') \<and> jnodes m' = jnodes m \<and> strs m' = strs m \<and> fresh m \<le> fresh m' \<and> wf_mem m')"

lemma old_tree_building:
  assumes "building m0 r ds m" and "tree m0 t" and "r \<notin> set (nodes_of t)"
  shows "tree m t"
proof (rule tree_frame [OF assms(2)])
  have wf: "wf_mem m0" using assms(1) by (simp add: building_def)
  have same: "jnodes m x = jnodes m0 x" if "x \<in> set (nodes_of t)" for x
  proof -
    have "x \<notin> insert r (set (nodes_of_all ds))"
      using assms(1,3) tree_old(1) [OF assms(2) wf that] that by (auto simp: building_def linorder_not_le [symmetric])
    then show ?thesis using assms(1) by (simp add: building_def)
  qed
  show "data_of (jnodes m) x = data_of (jnodes m0) x \<and> child_of (jnodes m) x = child_of (jnodes m0) x" if "x \<in> set (nodes_of t)" for x
    using same [OF that] by (simp add: data_of_def child_of_def)
  show "links_of (jnodes m) x = links_of (jnodes m0) x" if "x \<in> set (tl (nodes_of t))" for x
    using same [OF in_set_tlD [OF that]] by (simp add: links_of_def)
  show "strs m x = strs m0 x" if "x \<in> set (strings_of t) \<union> borrowed t" for x
  proof -
    have "x \<notin> set (strings_of_all ds)"
      using assms(1) tree_old(2) [OF assms(2) wf that] by (auto simp: building_def linorder_not_le [symmetric])
    then show ?thesis using assms(1) by (simp add: building_def)
  qed
qed

lemma separate_new:
  assumes "separate ds" and "separate [c]" and "\<forall>x \<in> set (nodes_of_all ds). x < f" and "\<forall>x \<in> set (nodes_of c). f \<le> x"
    and "\<forall>x \<in> set (strings_of_all ds). x < f" and "\<forall>x \<in> set (strings_of c). f \<le> x" and "\<forall>x \<in> borrowed_all ds. x < f"
    and "borrowed c \<inter> set (strings_of_all ds) = {}"
  shows "separate (ds @ [c])"
proof -
  have "set (nodes_of_all ds) \<inter> set (nodes_of c) = {}" using assms(3,4) by (meson disjoint_iff linorder_not_le)
  moreover have "set (strings_of_all ds) \<inter> set (strings_of c) = {}" using assms(5,6) by (meson disjoint_iff linorder_not_le)
  moreover have "borrowed_all ds \<inter> set (strings_of c) = {}" using assms(6,7) by (meson disjoint_iff linorder_not_le)
  moreover have "distinct (nodes_of_all ds)" "distinct (strings_of_all ds)" "set (strings_of_all ds) \<inter> borrowed_all ds = {}"
    "distinct (nodes_of c)" "distinct (strings_of c)" "set (strings_of c) \<inter> borrowed c = {}"
    using assms(1,2) by (simp_all add: separate_def)
  moreover have "separate (ds @ [c]) \<longleftrightarrow> distinct (nodes_of_all ds @ nodes_of c) \<and> distinct (strings_of_all ds @ strings_of c) \<and>
      (set (strings_of_all ds) \<union> set (strings_of c)) \<inter> (borrowed_all ds \<union> borrowed c) = {}"
    by (simp add: separate_def Un_commute)
  ultimately show ?thesis using assms(8) by (simp only: distinct_append) blast
qed

lemma distinct_roots: "distinct (nodes_of_all ts) \<Longrightarrow> distinct (map jaddr ts)"
proof (induction ts)
  case (Cons t ts)
  have "set (nodes_of t) \<inter> set (nodes_of_all ts) = {}" using Cons.prems by simp
  then have "jaddr t \<notin> set (nodes_of_all ts)" using jaddr_in_nodes [of t] by blast
  then have "jaddr t \<notin> set (map jaddr ts)" using roots_in_nodes [of ts] by blast
  then show ?case using Cons by simp
qed simp

lemma building_link:
  assumes b: "building m0 r ds m" and c: "is_copy m t c m1" and t: "borrowed t \<subseteq> {x. x < r}"
  shows "\<exists>m2. link_copy m1 (Some r) (last_ptr (map jaddr ds)) (Some (jaddr c)) = Some m2 \<and> building m0 r (ds @ [c]) m2 \<and> left m2 = left m1 \<and>
    (\<forall>x. x \<noteq> r \<and> x \<notin> set (nodes_of_all ds) \<and> x < fresh m \<longrightarrow> jnodes m2 x = jnodes m x)"
proof -
  have b1: "r < fresh m0" "fresh m0 \<le> fresh m" "wf_mem m" "list_all (tree m) ds" "separate ds" "borrowed_all ds \<subseteq> {x. x < r}"
    "child_of (jnodes m) r = Some (hd_ptr (map jaddr ds))" "seg (jnodes m) None (map jaddr ds) None"
    "\<forall>x \<in> set (nodes_of_all ds) \<union> set (strings_of_all ds). fresh m0 \<le> x"
    using b by (auto simp: building_def)
  have c1: "extends m (set (nodes_of c)) (set (strings_of c)) m1" "tree m1 c" "separate [c]" "borrowed c \<subseteq> borrowed t"
    "links_of (jnodes m1) (jaddr c) = Some (None, None)"
    using c by (simp_all add: is_copy_def)
  have new: "\<forall>x \<in> set (nodes_of c). fresh m \<le> x" "\<forall>x \<in> set (strings_of c). fresh m \<le> x" using c1(1) by (auto simp: extends_def)
  note same = extends_old [OF c1(1)]
  have old: "\<forall>x \<in> set (nodes_of_all ds). x < fresh m" "\<forall>x \<in> set (strings_of_all ds). x < fresh m"
    using tree_old [OF _ b1(3)] b1(4) by (fastforce simp: list_all_iff)+
  have sep: "separate (ds @ [c])"
  proof (rule separate_new [OF b1(5) c1(3) old(1) new(1) old(2) new(2)])
    show "\<forall>x \<in> borrowed_all ds. x < fresh m" using b1(1,2,6) by auto
    have "x < fresh m0" if "x \<in> borrowed c" for x using that c1(4) t b1(1) by auto
    then show "borrowed c \<inter> set (strings_of_all ds) = {}" using b1(9) by (meson UnI2 disjoint_iff linorder_not_le)
  qed
  have r: "r < fresh m" "r \<notin> set (nodes_of_all (ds @ [c]))" using b1(1,2,9) new(1) by (auto simp: linorder_not_le [symmetric])
  obtain nr where nr: "jnodes m1 r = Some nr" "jchild nr = hd_ptr (map jaddr ds)"
    using b1(7) same(1) [OF r(1)] by (auto simp: child_of_def)
  have trees: "tree m1 k" if "k \<in> set (ds @ [c])" for k
    using that extends_tree [OF c1(1)] b1(4) c1(2) by (auto simp: list_all_iff)
  have roots: "set (map jaddr (ds @ [c])) \<subseteq> set (nodes_of_all (ds @ [c]))" by (rule roots_in_nodes)
  have seg1: "seg (jnodes m1) None (map jaddr ds) None"
  proof -
    have "links_of (jnodes m1) x = links_of (jnodes m) x" if "x \<in> set (map jaddr ds)" for x
      using same(1) [of x] old(1) roots_in_nodes [of ds] that by (auto simp: links_of_def)
    then show ?thesis using b1(8) seg_frame by blast
  qed
  have "\<exists>h. link_copy m1 (Some r) (last_ptr (map jaddr ds)) (Some (jaddr c)) = Some (m1\<lparr>jnodes := h\<rparr>) \<and>
    relinks r (set (map jaddr (ds @ [c]))) (jnodes m1) h \<and> seg h None (map jaddr (ds @ [c])) None \<and>
    child_of h r = Some (hd_ptr (map jaddr (ds @ [c]))) \<and> (\<forall>x. x \<notin> insert r (set (nodes_of_all (ds @ [c]))) \<longrightarrow> h x = jnodes m1 x)"
  proof -
    have dr: "distinct (map jaddr (ds @ [c]))" using sep by (intro distinct_roots) (simp add: separate_def)
    have rr: "r \<notin> set (map jaddr (ds @ [c]))" using r(2) roots by blast
    obtain nc where nc: "jnodes m1 (jaddr c) = Some nc" "jnext nc = None" "jprev nc = None" using c1(5) by (auto dest!: links_ofD)
    show ?thesis
    proof (cases ds rule: rev_cases)
      case Nil
      then show ?thesis using nr nc rr c1(5)
        by (intro exI [of _ "(jnodes m1)(r \<mapsto> nr\<lparr>jchild := Some (jaddr c)\<rparr>)"]) (auto simp: link_copy_def put_node_def relinks_def)
    next
      case (snoc es e)
      obtain ne where ne: "jnodes m1 (jaddr e) = Some ne" "jprev ne = last_ptr (map jaddr es)" "jnext ne = None"
        using seg1 by (auto simp: snoc dest!: links_ofD)
      let ?h = "(jnodes m1)(jaddr e \<mapsto> ne\<lparr>jnext := Some (jaddr c)\<rparr>, jaddr c \<mapsto> nc\<lparr>jprev := Some (jaddr e)\<rparr>)"
      have d: "jaddr e \<noteq> jaddr c" "jaddr e \<notin> set (map jaddr es)" "jaddr c \<notin> set (map jaddr es)" "r \<noteq> jaddr e" "r \<noteq> jaddr c"
        using dr rr by (auto simp: snoc)
      have "link_copy m1 (Some r) (last_ptr (map jaddr ds)) (Some (jaddr c)) = Some (m1\<lparr>jnodes := ?h\<rparr>)"
        using ne(1) nc(1) d(1) by (simp add: link_copy_def put_node_def snoc)
      moreover have "relinks r (set (map jaddr (ds @ [c]))) (jnodes m1) ?h"
        using ne(1) nc(1) d(1) by (auto simp: relinks_def snoc)
      moreover have "seg ?h None (map jaddr (ds @ [c])) None"
        using seg1 ne nc d by (simp add: snoc split: if_splits)
      moreover have "child_of ?h r = Some (hd_ptr (map jaddr (ds @ [c])))" using nr d by (simp add: snoc)
      moreover have "?h x = jnodes m1 x" if "x \<notin> insert r (set (nodes_of_all (ds @ [c])))" for x
        using that jaddr_in_nodes [of e] jaddr_in_nodes [of c] by (auto simp: snoc)
      ultimately show ?thesis by blast
    qed
  qed
  then obtain h where h: "link_copy m1 (Some r) (last_ptr (map jaddr ds)) (Some (jaddr c)) = Some (m1\<lparr>jnodes := h\<rparr>)"
    "relinks r (set (map jaddr (ds @ [c]))) (jnodes m1) h" "seg h None (map jaddr (ds @ [c])) None"
    "child_of h r = Some (hd_ptr (map jaddr (ds @ [c])))" "\<And>x. x \<notin> insert r (set (nodes_of_all (ds @ [c]))) \<Longrightarrow> h x = jnodes m1 x"
    by blast
  let ?m = "m1\<lparr>jnodes := h\<rparr>"
  have dn: "distinct (nodes_of_all (ds @ [c]))" using sep by (simp add: separate_def)
  have "list_all (tree ?m) (ds @ [c])"
    unfolding list_all_iff
  proof
    fix k
    assume k: "k \<in> set (ds @ [c])"
    show "tree ?m k" using r(2) k by (intro relinks_tree [OF trees [OF k] h(2) inner_not_root [OF dn k]]) auto
  qed
  moreover have "data_of h r = data_of (jnodes m0) r" "links_of h r = links_of (jnodes m0) r"
  proof -
    have "r \<notin> set (map jaddr (ds @ [c]))" using r(2) roots by blast
    then have "data_of h r = data_of (jnodes m1) r" "links_of h r = links_of (jnodes m1) r" using h(2) by (simp_all add: relinks_def)
    then show "data_of h r = data_of (jnodes m0) r" "links_of h r = links_of (jnodes m0) r"
      using b same(1) [OF r(1)] by (simp_all add: building_def data_of_def links_of_def)
  qed
  moreover have "wf_mem ?m"
  proof -
    have wf1: "wf_mem m1" using c1(1) by (simp add: extends_def)
    have "h x = None" if x: "fresh m1 \<le> x" for x
    proof -
      have "x \<notin> set (nodes_of_all (ds @ [c]))" using tree_old(1) [OF trees wf1, of _ x] x by (auto simp: linorder_not_le [symmetric])
      moreover have "x \<noteq> r" using nr(1) wf1 x by (auto simp: wf_mem_def)
      ultimately show ?thesis using h(5) [of x] wf1 x by (simp add: wf_mem_def)
    qed
    then show ?thesis using wf1 by (simp add: wf_mem_def)
  qed
  moreover have "borrowed_all (ds @ [c]) \<subseteq> {x. x < r}" using b1(6) c1(4) t by auto
  moreover have "jnodes ?m x = jnodes m0 x" if "x \<notin> insert r (set (nodes_of_all (ds @ [c])))" for x
    using h(5) [OF that] that c1(1) b by (simp add: extends_def building_def)
  moreover have "strs ?m x = strs m0 x" if "x \<notin> set (strings_of_all (ds @ [c]))" for x
    using that c1(1) b by (simp add: extends_def building_def)
  moreover have "\<forall>x \<in> set (nodes_of_all (ds @ [c])) \<union> set (strings_of_all (ds @ [c])). fresh m0 \<le> x"
    using b1(2,9) new by (auto intro: order_trans)
  moreover have "fresh m0 \<le> fresh ?m" using b1(2) c1(1) by (simp add: extends_def)
  moreover have "wf_mem m0" using b by (simp add: building_def)
  ultimately have "building m0 r (ds @ [c]) ?m" using b1(1) h(3,4) sep by (simp add: building_def)
  moreover have "jnodes ?m x = jnodes m x" if "x \<noteq> r" "x \<notin> set (nodes_of_all ds)" "x < fresh m" for x
    using h(5) [of x] that new(1) same(1) [OF that(3)] by (auto simp: linorder_not_le [symmetric])
  ultimately show ?thesis using h(1) by auto
qed

subsection \<open>The item itself\<close>

definition copy_value :: "'f tdata \<Rightarrow> addr \<Rightarrow> (addr \<times> byte list) option" where
  "copy_value d r = map_option (\<lambda>(p, bs). (r + 1, bs)) (t_value d)"

definition copy_name :: "'f tdata \<Rightarrow> addr \<Rightarrow> (addr \<times> byte list) option" where
  "copy_name d r = (if t_const d then t_name d
     else map_option (\<lambda>(p, bs). (r + 1 + length (ptr_list (t_value d)), bs)) (t_name d))"

definition copy_data :: "'f tdata \<Rightarrow> addr \<Rightarrow> 'f tdata" where
  "copy_data d r = d\<lparr>t_value := copy_value d r, t_name := copy_name d r\<rparr>"

definition root_allocations :: "'f tdata \<Rightarrow> nat" where
  "root_allocations d = 1 + length (ptr_list (t_value d)) + (if t_const d then 0 else length (ptr_list (t_name d)))"

definition add_string :: "(addr \<times> byte list) option \<Rightarrow> byte list heap \<Rightarrow> byte list heap" where
  "add_string v s = (case v of None \<Rightarrow> s | Some (p, bs) \<Rightarrow> s(p \<mapsto> bs))"

text \<open>The memory when the fields of the new item are filled.\<close>

definition started :: "'f jmem \<Rightarrow> 'f tdata \<Rightarrow> 'f jmem" where
  "started m d = m\<lparr>jnodes := (jnodes m)(fresh m \<mapsto> raw_node (copy_data d (fresh m))),
     strs := (if t_const d then id else add_string (copy_name d (fresh m))) (add_string (copy_value d (fresh m)) (strs m)),
     fresh := fresh m + root_allocations d, left := left m - root_allocations d\<rparr>"

lemma delete_None [simp]: "cJSON_Delete None m = Some m"
  by (subst cJSON_Delete.simps) simp

lemma no_reference_type: "\<not> t_reference d \<Longrightarrow> t_type d AND NOT cJSON_IsReference = t_type d"
proof -
  assume "\<not> t_reference d"
  then have "t_type d AND 256 = 0" by (simp add: t_reference_def json_types)
  moreover have "t_type d = (t_type d AND 256) OR (t_type d AND NOT 256)"
    by (simp flip: bit.conj_disj_distrib)
  ultimately show ?thesis by (simp add: json_types)
qed

lemma duplicate_start:
  assumes tr: "tree m (JT a d ks)" and ref: "\<not> t_reference d" and wf: "wf_mem m" and l: "root_allocations d \<le> left m"
  shows "duplicate fo (Suc k) m (Some a) recurse = (if \<not> recurse then Some (Some (fresh m), started m d)
    else do {
      (ok, newchild, m') \<leftarrow> duplicate_children fo k (started m d) (Some (fresh m)) (hd_ptr (map jaddr ks)) None;
      if \<not> ok then discard m' (Some (fresh m))
      else do {
        x \<leftarrow> jnodes m' (fresh m);
        m' \<leftarrow> (if jchild x \<noteq> None then put_node m' (jchild x) (\<lambda>c. c\<lparr>jprev := newchild\<rparr>) else Some m');
        Some (Some (fresh m), m') } })"
proof -
  obtain n where n: "jnodes m a = Some n" "ntype n = t_type d" "nvalue n = map_option fst (t_value d)"
    "nname n = map_option fst (t_name d)" "nint n = t_int d" "ndouble n = t_double d"
    "jchild n = hd_ptr (map jaddr ks)" "const_name n = t_const d"
    using tree_node [OF tr] ref by metis
  have a: "a \<noteq> fresh m" using n(1) wf by (auto simp: wf_mem_def)
  have v: "holds (strs m) (t_value d)" "holds (strs m) (t_name d)" using tr by (simp_all add: tree.simps)
  obtain N S F L where m: "m = \<lparr>jnodes = N, strs = S, fresh = F, left = L\<rparr>" by (cases m)
  have "S (Suc F) = None" using wf by (simp add: wf_mem_def m)
  then show ?thesis using l n a v ref
    by (cases "t_value d"; cases "t_name d"; cases "t_const d")
      (auto simp: duplicate.simps make_node_def m put_node_def dup_string_def started_def root_allocations_def ptr_list_def copy_value_def
        copy_name_def copy_data_def add_string_def raw_node_def zero_node_def holds_def no_reference_type cong: if_cong)
qed

lemma duplicate_short:
  assumes tr: "tree m (JT a d ks)" and ref: "\<not> t_reference d" and wf: "wf_mem m" and l: "left m < root_allocations d"
  shows "\<exists>m'. duplicate fo (Suc k) m (Some a) recurse = Some (None, m') \<and> jnodes m' = jnodes m \<and> strs m' = strs m \<and> fresh m \<le> fresh m'"
proof -
  obtain n where n: "jnodes m a = Some n" "ntype n = t_type d" "nvalue n = map_option fst (t_value d)"
    "nname n = map_option fst (t_name d)" "const_name n = t_const d"
    using tree_node [OF tr] by metis
  have a: "a \<noteq> fresh m" using n(1) wf by (auto simp: wf_mem_def)
  have v: "holds (strs m) (t_value d)" "holds (strs m) (t_name d)" using tr by (simp_all add: tree.simps)
  obtain N S F L where m: "m = \<lparr>jnodes = N, strs = S, fresh = F, left = L\<rparr>" by (cases m)
  have none: "S (Suc F) = None" "N F = None" using wf by (simp_all add: wf_mem_def m)
  have f: "N(F := None) = N" "S(Suc F := None) = S" using none by auto
  have r: "t_type d AND cJSON_IsReference = 0" using ref by (simp add: t_reference_def)
  show ?thesis
  proof (cases "L = 0")
    case True
    then show ?thesis by (simp add: duplicate.simps make_node_def m)
  next
    case False
    then show ?thesis using l n a v none f r
      by (cases "t_value d"; cases "t_name d"; cases "t_const d"; cases "L = 1")
        (auto simp: duplicate.simps make_node_def m put_node_def dup_string_def root_allocations_def ptr_list_def zero_node_def holds_def
          discard_def cJSON_Delete.simps [of "Some F"] free_node_def free_string_def is_reference_def const_name_def no_reference_type [OF ref] cong: if_cong)
  qed
qed

lemma copy_data_simps [simp]: "t_type (copy_data d r) = t_type d" "t_int (copy_data d r) = t_int d" "t_double (copy_data d r) = t_double d"
  "t_reference (copy_data d r) = t_reference d" "t_const (copy_data d r) = t_const d"
  "t_value (copy_data d r) = copy_value d r" "t_name (copy_data d r) = copy_name d r"
  "map_option snd (copy_value d r) = map_option snd (t_value d)" "map_option snd (copy_name d r) = map_option snd (t_name d)"
  by (simp_all add: copy_data_def t_reference_def t_const_def copy_value_def copy_name_def option.map_comp comp_def case_prod_unfold split: option.splits)

lemma started_facts:
  assumes tr: "tree m (JT a d ks)" and ref: "\<not> t_reference d" and wf: "wf_mem m"
  defines "r \<equiv> fresh m"
  defines "c \<equiv> JT r (copy_data d r) []"
  shows "extends m {r} (set (strings_of c)) (started m d)" "jnodes (started m d) r = Some (raw_node (copy_data d r))"
    "holds (strs (started m d)) (copy_value d r)" "holds (strs (started m d)) (copy_name d r)" "separate [c]" "borrowed c \<subseteq> borrowed (JT a d ks)"
proof -
  have v: "holds (strs m) (t_value d)" "holds (strs m) (t_name d)" using tr by (simp_all add: tree.simps)
  have old: "p < fresh m" if "t_name d = Some (p, bs)" for p bs
    using v(2) that wf by (auto simp: holds_def wf_mem_def linorder_not_le [symmetric])
  note defs = r_def c_def started_def root_allocations_def copy_value_def copy_name_def add_string_def ptr_list_def ptr_set_def
  show "jnodes (started m d) r = Some (raw_node (copy_data d r))" by (simp add: defs)
  show "extends m {r} (set (strings_of c)) (started m d)" using wf ref
    by (cases "t_value d"; cases "t_name d"; cases "t_const d") (auto simp: extends_def wf_mem_def defs)
  show "holds (strs (started m d)) (copy_value d r)" using v
    by (cases "t_value d"; cases "t_name d"; cases "t_const d") (auto simp: holds_def defs)
  show "holds (strs (started m d)) (copy_name d r)" using v
    by (cases "t_value d"; cases "t_name d"; cases "t_const d") (auto simp: holds_def defs dest: old)
  show "separate [c]" using ref
    by (cases "t_value d"; cases "t_name d"; cases "t_const d") (auto simp: separate_def defs dest: old)
  show "borrowed c \<subseteq> borrowed (JT a d ks)" using ref by (auto simp: defs)
qed

lemma started_building:
  assumes tr: "tree m (JT a d ks)" and ref: "\<not> t_reference d" and wf: "wf_mem m"
  shows "building (started m d) (fresh m) [] (started m d)"
proof -
  note F = started_facts [OF assms]
  have "wf_mem (started m d)" using F(1) by (simp add: extends_def)
  moreover have "fresh m < fresh (started m d)" by (simp add: started_def root_allocations_def)
  ultimately show ?thesis using F(2) by (simp add: building_def child_of_def raw_node_def separate_def)
qed

lemma separate_under:
  assumes "separate [JT r e []]" and "separate ds" and "r \<notin> set (nodes_of_all ds)"
    and "set (strings_of (JT r e [])) \<inter> set (strings_of_all ds) = {}" and "borrowed (JT r e []) \<inter> set (strings_of_all ds) = {}"
    and "set (strings_of (JT r e [])) \<inter> borrowed_all ds = {}"
  shows "separate [JT r e ds]"
proof -
  have eqs: "strings_of (JT r e ds) = strings_of (JT r e []) @ strings_of_all ds" "borrowed (JT r e ds) = borrowed (JT r e []) \<union> borrowed_all ds"
    by simp_all
  have top: "distinct (strings_of (JT r e []))" "set (strings_of (JT r e [])) \<inter> borrowed (JT r e []) = {}"
    using assms(1) unfolding separate_def by (simp_all del: strings_of.simps borrowed.simps)
  have low: "distinct (nodes_of_all ds)" "distinct (strings_of_all ds)" "set (strings_of_all ds) \<inter> borrowed_all ds = {}"
    using assms(2) by (simp_all add: separate_def)
  have "separate [JT r e ds] \<longleftrightarrow> distinct (r # nodes_of_all ds) \<and> distinct (strings_of (JT r e ds)) \<and>
      set (strings_of (JT r e ds)) \<inter> borrowed (JT r e ds) = {}"
    unfolding separate_def by (simp del: strings_of.simps borrowed.simps)
  then show ?thesis unfolding eqs using top low assms(3-6) by (simp only: distinct_append distinct.simps set_append) blast
qed

text \<open>The new item with the children copied so far is a tree but for the link back of the first.\<close>

lemma building_separate:
  assumes tr: "tree m (JT a d ks)" and ref: "\<not> t_reference d" and wf: "wf_mem m" and b: "building (started m d) (fresh m) ds m'"
  shows "separate [JT (fresh m) (copy_data d (fresh m)) ds]"
proof -
  let ?c = "JT (fresh m) (copy_data d (fresh m)) []"
  note F = started_facts [OF tr ref wf]
  have wf1: "wf_mem (started m d)" using F(1) by (simp add: extends_def)
  have old: "fresh m < fresh (started m d)" by (simp add: started_def root_allocations_def)
  have tc: "tree (started m d) ?c" using F ref
    by (simp add: tree.simps chain_def data_of_def child_of_def) (simp add: raw_node_def)
  have lt: "\<forall>x \<in> set (strings_of ?c) \<union> borrowed ?c. x < fresh (started m d)" using tree_old(2) [OF tc wf1] by blast
  have d: "separate ds" "\<forall>x \<in> set (nodes_of_all ds) \<union> set (strings_of_all ds). fresh (started m d) \<le> x"
    "borrowed_all ds \<subseteq> {x. x < fresh m}" using b by (simp_all add: building_def)
  have "fresh m \<notin> set (nodes_of_all ds)" using old d(2) by (meson UnI1 linorder_not_le)
  moreover have "set (strings_of ?c) \<inter> set (strings_of_all ds) = {}" "borrowed ?c \<inter> set (strings_of_all ds) = {}"
    using lt d(2) by (meson UnI1 UnI2 disjoint_iff linorder_not_le)+
  moreover have "set (strings_of ?c) \<inter> borrowed_all ds = {}"
  proof -
    have "x \<notin> borrowed_all ds" if "x \<in> set (strings_of ?c)" for x
    proof
      assume "x \<in> borrowed_all ds"
      then have "x < fresh m" using d(3) by blast
      moreover have "fresh m \<le> x" using F(1) that by (simp add: extends_def)
      ultimately show False by simp
    qed
    then show ?thesis by blast
  qed
  ultimately show ?thesis by (rule separate_under [OF F(5) d(1)])
qed

lemma building_fields:
  assumes tr: "tree m (JT a d ks)" and ref: "\<not> t_reference d" and wf: "wf_mem m" and b: "building (started m d) (fresh m) ds m'"
  obtains n where "jnodes m' (fresh m) = Some n" "data_of (jnodes m') (fresh m) = Some (raw_node (copy_data d (fresh m)))"
    "nvalue n = map_option fst (copy_value d (fresh m))" "nname n = map_option fst (copy_name d (fresh m))" "is_reference n = t_reference d"
    "const_name n = t_const d" "jchild n = hd_ptr (map jaddr ds)" "jnext n = None" "jprev n = None"
    "holds (strs m') (copy_value d (fresh m))" "holds (strs m') (copy_name d (fresh m))"
    "extends m (insert (fresh m) (set (nodes_of_all ds))) (set (strings_of (JT (fresh m) (copy_data d (fresh m)) ds))) m'"
proof -
  let ?r = "fresh m" and ?c = "JT (fresh m) (copy_data d (fresh m)) []"
  note F = started_facts [OF tr ref wf]
  have wf1: "wf_mem (started m d)" using F(1) by (simp add: extends_def)
  have D: "data_of (jnodes m') ?r = Some (raw_node (copy_data d ?r))" "links_of (jnodes m') ?r = Some (None, None)"
    "child_of (jnodes m') ?r = Some (hd_ptr (map jaddr ds))"
    using b F(2) by (simp_all add: building_def) (simp_all add: raw_node_def)
  then obtain n where n: "jnodes m' ?r = Some n" "n\<lparr>jnext := None, jprev := None, jchild := None\<rparr> = raw_node (copy_data d ?r)"
    by (auto simp: data_of_def)
  have f: "ntype n = t_type d" "nvalue n = map_option fst (copy_value d ?r)" "nname n = map_option fst (copy_name d ?r)"
    using n(2) by (cases n; simp add: raw_node_def)+
  have same: "strs m' x = strs (started m d) x" if "strs (started m d) x \<noteq> None" for x
  proof -
    have "x < fresh (started m d)" using that wf1 by (meson wf_mem_def linorder_not_le)
    then have "x \<notin> set (strings_of_all ds)" using b by (auto simp: building_def linorder_not_le [symmetric])
    then show ?thesis using b by (simp add: building_def)
  qed
  have h: "holds (strs m') v" if "holds (strs (started m d)) v" for v
    using that same by (auto simp: holds_def split: option.splits)
  have "fresh m \<le> fresh (started m d)" by (simp add: started_def)
  then have "fresh m \<le> x" if "x \<in> insert ?r (set (nodes_of_all ds)) \<union> (set (strings_of ?c) \<union> set (strings_of_all ds))" for x
    using that F(1) b unfolding extends_def building_def by (metis UnE UnI1 UnI2 insert_iff order_trans order_refl)
  moreover have "wf_mem m'" "fresh m \<le> fresh m'"
    using b \<open>fresh m \<le> fresh (started m d)\<close> by (simp_all add: building_def)
  moreover have "jnodes m' x = jnodes m x" if "x \<notin> insert ?r (set (nodes_of_all ds))" for x
    using that b F(1) by (simp add: building_def extends_def)
  moreover have "strs m' x = strs m x" if "x \<notin> set (strings_of ?c) \<union> set (strings_of_all ds)" for x
    using that b F(1) by (simp add: building_def extends_def del: strings_of.simps)
  ultimately have "extends m (insert ?r (set (nodes_of_all ds))) (set (strings_of ?c) \<union> set (strings_of_all ds)) m'"
    using wf unfolding extends_def by blast
  moreover have "set (strings_of ?c) \<union> set (strings_of_all ds) = set (strings_of (JT ?r (copy_data d ?r) ds))" by auto
  moreover have "is_reference n = t_reference d" "const_name n = t_const d"
    by (simp_all add: is_reference_def const_name_def t_reference_def t_const_def f(1))
  ultimately show thesis using that [OF n(1) D(1) f(2,3)] D(2,3) n(1) h F(3,4) by simp
qed

lemma building_discard:
  assumes tr: "tree m (JT a d ks)" and ref: "\<not> t_reference d" and wf: "wf_mem m" and b: "building (started m d) (fresh m) ds m'"
  shows "\<exists>m''. discard m' (Some (fresh m)) = Some (None, m'') \<and> jnodes m'' = jnodes m \<and> strs m'' = strs m \<and> fresh m \<le> fresh m'' \<and> wf_mem m''"
proof -
  let ?c = "JT (fresh m) (copy_data d (fresh m)) ds"
  obtain n where n: "jnodes m' (fresh m) = Some n" "data_of (jnodes m') (fresh m) = Some (raw_node (copy_data d (fresh m)))"
    "nvalue n = map_option fst (copy_value d (fresh m))" "nname n = map_option fst (copy_name d (fresh m))" "is_reference n = t_reference d"
    "const_name n = t_const d" "jchild n = hd_ptr (map jaddr ds)" "jnext n = None" "jprev n = None"
    "holds (strs m') (copy_value d (fresh m))" "holds (strs m') (copy_name d (fresh m))"
    "extends m (insert (fresh m) (set (nodes_of_all ds))) (set (strings_of ?c)) m'"
    by (rule building_fields [OF assms])
  have "cJSON_Delete (Some (fresh m)) m' = cJSON_Delete (jnext n) (without m' [?c])"
  proof (rule delete_step)
    show "cJSON_Delete (hd_ptr (map jaddr ds)) m' = Some (without m' ds)"
      using b by (intro delete_chain [of m' None]) (simp_all add: building_def)
    show "separate [?c]" by (rule building_separate [OF assms])
  qed (use n ref in simp_all)
  moreover have "jnodes (without m' [?c]) = jnodes m" "strs (without m' [?c]) = strs m"
    using n(12) by (auto simp: without_def extends_def restrict_map_def fun_eq_iff wf_mem_def simp del: strings_of.simps)
  moreover have "fresh m \<le> fresh (without m' [?c])" using n(12) by (simp add: without_def extends_def)
  moreover have "wf_mem (without m' [?c])" using n(12) by (auto simp: without_def extends_def wf_mem_def restrict_map_def)
  ultimately show ?thesis using n(8) by (simp add: discard_def)
qed

lemma building_finish:
  assumes tr: "tree m (JT a d ks)" and ref: "\<not> t_reference d" and wf: "wf_mem m" and b: "building (started m d) (fresh m) ds m'"
  defines "c \<equiv> JT (fresh m) (copy_data d (fresh m)) ds"
  shows "\<exists>m''. do {
        x \<leftarrow> jnodes m' (fresh m);
        m' \<leftarrow> (if jchild x \<noteq> None then put_node m' (jchild x) (\<lambda>c. c\<lparr>jprev := last_ptr (map jaddr ds)\<rparr>) else Some m');
        Some (Some (fresh m), m') } = Some (Some (fresh m), m'') \<and>
    extends m (set (nodes_of c)) (set (strings_of c)) m'' \<and> tree m'' c \<and> separate [c] \<and>
    links_of (jnodes m'') (fresh m) = Some (None, None) \<and> left m'' = left m'"
proof -
  let ?r = "fresh m"
  obtain n where n: "jnodes m' ?r = Some n" "data_of (jnodes m') ?r = Some (raw_node (copy_data d ?r))"
    "nvalue n = map_option fst (copy_value d ?r)" "nname n = map_option fst (copy_name d ?r)" "is_reference n = t_reference d"
    "const_name n = t_const d" "jchild n = hd_ptr (map jaddr ds)" "jnext n = None" "jprev n = None"
    "holds (strs m') (copy_value d ?r)" "holds (strs m') (copy_name d ?r)"
    "extends m (insert ?r (set (nodes_of_all ds))) (set (strings_of c)) m'"
    unfolding c_def by (rule building_fields [OF assms(1-4)])
  have sep: "separate [c]" unfolding c_def by (rule building_separate [OF assms(1-4)])
  have ex: "extends m (set (nodes_of c)) (set (strings_of c)) m'" using n(12) by (simp add: c_def del: strings_of.simps)
  have trees: "list_all (tree m') ds" "seg (jnodes m') None (map jaddr ds) None" using b by (simp_all add: building_def)
  show ?thesis
  proof (cases ds)
    case Nil
    have "tree m' c" using n ref trees by (simp add: c_def tree.simps chain_def Nil)
    then show ?thesis using n sep ex by (simp add: Nil)
  next
    case (Cons d0 es)
    have dn: "distinct (nodes_of_all ds)" "?r \<notin> set (nodes_of_all ds)" using sep by (simp_all add: separate_def c_def)
    have dr: "distinct (map jaddr ds)" "?r \<notin> set (map jaddr ds)" using distinct_roots [OF dn(1)] roots_in_nodes [of ds] dn(2) by blast+
    obtain n0 where n0: "jnodes m' (jaddr d0) = Some n0" using trees(2) by (auto simp: Cons dest!: links_ofD)
    let ?h = "(jnodes m')(jaddr d0 \<mapsto> n0\<lparr>jprev := last_ptr (map jaddr ds)\<rparr>)" and ?S = "set (map jaddr ds)"
    have rl: "relinks ?r ?S (jnodes m') ?h" using n0 by (auto simp: relinks_def Cons)
    have "chain ?h (map jaddr ds)" using trees(2) n0 dr by (simp add: chain_def Cons)
    moreover have "tree (m'\<lparr>jnodes := ?h\<rparr>) k" if k: "k \<in> set ds" for k
      using trees(1) k dn(2) by (intro relinks_tree [OF _ rl inner_not_root [OF dn(1) k]]) (auto simp: list_all_iff)
    ultimately have "tree (m'\<lparr>jnodes := ?h\<rparr>) c" using n ref dr(2) by (simp add: c_def tree.simps list_all_iff Cons)
    moreover have "extends m (set (nodes_of c)) (set (strings_of c)) (m'\<lparr>jnodes := ?h\<rparr>)"
    proof -
      have "jaddr d0 \<in> set (nodes_of c)" using jaddr_in_nodes [of d0] by (simp add: c_def Cons)
      moreover have "jaddr d0 < fresh m'" using n0 ex by (auto simp: extends_def wf_mem_def linorder_not_le [symmetric])
      ultimately show ?thesis using ex by (auto simp: extends_def wf_mem_def simp del: nodes_of.simps strings_of.simps)
    qed
    ultimately show ?thesis using n n0 sep dr(2)
      by (intro exI [of _ "m'\<lparr>jnodes := ?h\<rparr>"]) (simp add: put_node_def Cons)
  qed
qed

subsection \<open>The copy\<close>

definition children_copied :: "'f jmem \<Rightarrow> addr \<Rightarrow> 'f jtree list \<Rightarrow> 'f jtree list \<Rightarrow> 'f jmem \<Rightarrow> (bool \<times> ptr \<times> 'f jmem) option \<Rightarrow> bool" where
  "children_copied m0 r ds ks m res \<longleftrightarrow> (\<exists>ok last m' ds'. res = Some (ok, last, m') \<and> building m0 r (ds @ ds') m' \<and>
     ok = (sum_list (map allocations ks) \<le> left m) \<and>
     (ok \<longrightarrow> last = last_ptr (map jaddr (ds @ ds')) \<and> map value_of ds' = map value_of ks \<and>
       borrowed_all ds' \<subseteq> borrowed_all ks \<and> left m' + sum_list (map allocations ks) = left m))"

lemma allocations_root: "allocations (JT a d ks) = root_allocations d + sum_list (map allocations ks)"
  by (simp add: root_allocations_def)

lemma duplicate_copies:
  fixes t :: "'f jtree" and ks :: "'f jtree list"
  shows "tree m t \<Longrightarrow> no_references t \<Longrightarrow> wf_mem m \<Longrightarrow> fuel_for t \<le> k \<Longrightarrow> copies m t (duplicate fo k m (Some (jaddr t)) True)"
    and "list_all (tree m0) ks \<Longrightarrow> seg (jnodes m0) p (map jaddr ks) None \<Longrightarrow> list_all no_references ks \<Longrightarrow> building m0 r ds m \<Longrightarrow>
      borrowed_all ks \<subseteq> {x. x < r} \<Longrightarrow> r \<notin> set (nodes_of_all ks) \<Longrightarrow> fuel_for_all ks \<le> k \<Longrightarrow>
      children_copied m0 r ds ks m (duplicate_children fo k m (Some r) (hd_ptr (map jaddr ks)) (last_ptr (map jaddr ds)))"
proof (induction t and ks arbitrary: m k and p ds m k m0 r rule: fuel_for_fuel_for_all.induct)
  case (1 a d ks)
  then obtain k' where k': "k = Suc k'" "fuel_for_all ks \<le> k'" by (cases k) simp_all
  have tr: "tree m (JT a d ks)" and ref: "\<not> t_reference d" and wf: "wf_mem m" and nr: "list_all no_references ks" using 1 by simp_all
  let ?al = "sum_list (map allocations ks)"
  show ?case
  proof (cases "root_allocations d \<le> left m")
    case False
    then obtain m' where "duplicate fo k m (Some a) True = Some (None, m')" "jnodes m' = jnodes m" "strs m' = strs m" "fresh m \<le> fresh m'"
      using duplicate_short [OF tr ref wf, where k = k' and fo = fo and recurse = True] k' by auto
    then show ?thesis using False wf by (auto simp: copies_def allocations_root wf_mem_def simp del: allocations.simps)
  next
    case True
    note F = started_facts [OF tr ref wf] and old = tree_old [OF tr wf]
    let ?m = "started m d"
    have "list_all (tree ?m) ks" using tr extends_tree [OF F(1)] by (simp add: tree.simps list_all_iff)
    moreover have "seg (jnodes ?m) (last_ptr (map jaddr ks)) (map jaddr ks) None"
    proof -
      have "links_of (jnodes ?m) x = links_of (jnodes m) x" if "x \<in> set (map jaddr ks)" for x
      proof -
        have "x \<in> set (nodes_of (JT a d ks))" using that roots_in_nodes [of ks] by auto
        then show ?thesis using extends_old(1) [OF F(1) old(1)] by (simp add: links_of_def)
      qed
      moreover have "seg (jnodes m) (last_ptr (map jaddr ks)) (map jaddr ks) None" using tr ref by (simp add: tree.simps chain_def)
      ultimately show ?thesis using seg_frame by blast
    qed
    moreover have "borrowed_all ks \<subseteq> {x. x < fresh m}" using old(2) by auto
    moreover have "fresh m \<notin> set (nodes_of_all ks)" using old(1) [of "fresh m"] by auto
    ultimately have "children_copied ?m (fresh m) [] ks ?m (duplicate_children fo k' ?m (Some (fresh m)) (hd_ptr (map jaddr ks)) (last_ptr (map jaddr ([] :: 'f jtree list))))"
      using "1.IH" [OF _ _ nr started_building [OF tr ref wf]] k'(2) by blast
    then obtain ok last m' ds where ch: "duplicate_children fo k' ?m (Some (fresh m)) (hd_ptr (map jaddr ks)) None = Some (ok, last, m')"
      "building ?m (fresh m) ds m'" "ok = (?al \<le> left ?m)" "ok \<Longrightarrow> last = last_ptr (map jaddr ds)" "ok \<Longrightarrow> map value_of ds = map value_of ks"
      "ok \<Longrightarrow> borrowed_all ds \<subseteq> borrowed_all ks" "ok \<Longrightarrow> left m' + ?al = left ?m"
      by (auto simp: children_copied_def)
    have l: "left ?m = left m - root_allocations d" by (simp add: started_def)
    note start = duplicate_start [OF tr ref wf True, where k = k' and fo = fo and recurse = True, folded k'(1)]
    show ?thesis
    proof (cases ok)
      case False
      obtain m'' where "discard m' (Some (fresh m)) = Some (None, m'')" "jnodes m'' = jnodes m" "strs m'' = strs m" "fresh m \<le> fresh m''" "wf_mem m''"
        using building_discard [OF tr ref wf ch(2)] by blast
      then show ?thesis using False start ch(1,3) True l by (simp add: copies_def allocations_root del: allocations.simps)
    next
      case okay: True
      let ?c = "JT (fresh m) (copy_data d (fresh m)) ds"
      obtain m'' where fin: "do {
          x \<leftarrow> jnodes m' (fresh m);
          m' \<leftarrow> (if jchild x \<noteq> None then put_node m' (jchild x) (\<lambda>c. c\<lparr>jprev := last_ptr (map jaddr ds)\<rparr>) else Some m');
          Some (Some (fresh m), m') } = Some (Some (fresh m), m'')"
        "extends m (set (nodes_of ?c)) (set (strings_of ?c)) m''" "tree m'' ?c" "separate [?c]"
        "links_of (jnodes m'') (fresh m) = Some (None, None)" "left m'' = left m'"
        using building_finish [OF tr ref wf ch(2)] by blast
      have "duplicate fo k m (Some a) True = Some (Some (jaddr ?c), m'')"
        unfolding start using ch(1) okay fin(1) ch(4) by simp
      moreover have "is_copy m (JT a d ks) ?c m''"
        using fin(2-6) okay ch(5-7) l True F(6) ref by (auto simp: is_copy_def allocations_root simp del: allocations.simps nodes_of.simps strings_of.simps)
      moreover have "allocations (JT a d ks) \<le> left m" using okay ch(3) l True by (simp add: allocations_root del: allocations.simps)
      ultimately show ?thesis by (auto simp: copies_def simp del: allocations.simps intro!: exI [of _ ?c])
    qed
  qed
next
  case 2
  then obtain k' where "k = Suc k'" by (cases k) simp_all
  then show ?case using 2
    by (auto simp: children_copied_def duplicate_children.simps intro!: exI [of _ "[] :: 'f jtree list"])
next
  case (3 t ks)
  then obtain k' where k': "k = Suc k'" "fuel_for t \<le> k'" "fuel_for_all ks \<le> k'" by (cases k) simp_all
  have b: "building m0 r ds m" and tr: "tree m0 t" and wf: "wf_mem m0" "wf_mem m" and r: "r < fresh m0" "fresh m0 \<le> fresh m"
    using "3.prems" by (auto simp: building_def)
  have t: "jaddr t < fresh m0" "jaddr t \<noteq> r" "jaddr t \<notin> set (nodes_of_all ds)"
  proof -
    show t0: "jaddr t < fresh m0" by (rule tree_old(1) [OF tr wf(1) jaddr_in_nodes])
    show "jaddr t \<noteq> r" using "3.prems"(6) jaddr_in_nodes [of t] by auto
    show "jaddr t \<notin> set (nodes_of_all ds)" using b t0 by (auto simp: building_def linorder_not_le [symmetric])
  qed
  have trm: "tree m t" using old_tree_building [OF b tr] "3.prems"(6) by simp
  have cp: "copies m t (duplicate fo k' m (Some (jaddr t)) True)" using "3.IH"(1) [OF trm _ wf(2) k'(2)] "3.prems"(3) by simp
  show ?case
  proof (cases "allocations t \<le> left m")
    case False
    then obtain m' where m': "duplicate fo k' m (Some (jaddr t)) True = Some (None, m')" "jnodes m' = jnodes m" "strs m' = strs m"
      "fresh m \<le> fresh m'" "wf_mem m'" using cp by (auto simp: copies_def)
    have b': "building m0 r ds m'"
    proof -
      have "tree m' d = tree m d" for d using m'(2,3) tree_frame [of m d m'] tree_frame [of m' d m] by auto
      then show ?thesis using b m'(2-5) r(2) unfolding building_def list_all_iff by (metis le_trans)
    qed
    have "duplicate_children fo k m (Some r) (hd_ptr (map jaddr (t # ks))) (last_ptr (map jaddr ds)) = Some (False, None, m')"
      using k'(1) m'(1) by (simp add: duplicate_children.simps)
    then show ?thesis using b' False unfolding children_copied_def
      by (intro exI [of _ False] exI [of _ None] exI [of _ m'] exI [of _ "[]"]) simp
  next
    case True
    then obtain c m1 where c: "duplicate fo k' m (Some (jaddr t)) True = Some (Some (jaddr c), m1)" "is_copy m t c m1"
      using cp by (auto simp: copies_def)
    have bt: "borrowed t \<subseteq> {x. x < r}" using "3.prems"(5) by simp
    obtain m2 where m2: "link_copy m1 (Some r) (last_ptr (map jaddr ds)) (Some (jaddr c)) = Some m2" "building m0 r (ds @ [c]) m2" "left m2 = left m1"
      "\<forall>x. x \<noteq> r \<and> x \<notin> set (nodes_of_all ds) \<and> x < fresh m \<longrightarrow> jnodes m2 x = jnodes m x"
      using building_link [OF b c(2) bt] by blast
    obtain n where n: "jnodes m0 (jaddr t) = Some n" "jnext n = hd_ptr (map jaddr ks)"
      using "3.prems"(2) by (auto dest!: links_ofD split: if_splits)
    have "jnodes m2 (jaddr t) = jnodes m (jaddr t)" using m2(4) t r(2) by simp
    also have "\<dots> = jnodes m0 (jaddr t)" using b t by (simp add: building_def)
    finally have n2: "jnodes m2 (jaddr t) = Some n" using n(1) by simp
    have "children_copied m0 r (ds @ [c]) ks m2 (duplicate_children fo k' m2 (Some r) (hd_ptr (map jaddr ks)) (last_ptr (map jaddr (ds @ [c]))))"
      by (rule "3.IH"(2) [OF _ _ _ m2(2) _ _ k'(3), where p = "Some (jaddr t)"]) (use "3.prems" in auto)
    then obtain ok last m' ds' where ch: "duplicate_children fo k' m2 (Some r) (hd_ptr (map jaddr ks)) (Some (jaddr c)) = Some (ok, last, m')"
      "building m0 r (ds @ c # ds') m'" "ok = (sum_list (map allocations ks) \<le> left m2)"
      "ok \<Longrightarrow> last = last_ptr (map jaddr (ds @ c # ds')) \<and> map value_of ds' = map value_of ks \<and> borrowed_all ds' \<subseteq> borrowed_all ks \<and>
        left m' + sum_list (map allocations ks) = left m2"
      by (auto simp: children_copied_def)
    have cc: "value_of c = value_of t" "borrowed c \<subseteq> borrowed t" "left m1 + allocations t = left m" using c(2) by (simp_all add: is_copy_def)
    have "duplicate_children fo k m (Some r) (hd_ptr (map jaddr (t # ks))) (last_ptr (map jaddr ds)) = Some (ok, last, m')"
      using k'(1) c(1) m2(1) n2 n(2) ch(1) by (simp add: duplicate_children.simps)
    moreover have "ok = (sum_list (map allocations (t # ks)) \<le> left m)" using ch(3) m2(3) cc(3) by simp linarith
    moreover have "ok \<Longrightarrow> last = last_ptr (map jaddr (ds @ c # ds')) \<and> map value_of (c # ds') = map value_of (t # ks) \<and>
        borrowed_all (c # ds') \<subseteq> borrowed_all (t # ks) \<and> left m' + sum_list (map allocations (t # ks)) = left m"
      using ch(4) cc m2(3) by auto
    ultimately show ?thesis using ch(2) unfolding children_copied_def by blast
  qed
qed

lemma duplicate_copy:
  assumes "tree m t" and "separate [t]" and "no_references t" and "wf_mem m"
  shows "\<exists>p m'. cJSON_Duplicate fo m (Some (jaddr t)) True = Some (p, m') \<and> wf_mem m' \<and> (p \<noteq> None \<longleftrightarrow> allocations t \<le> left m) \<and>
    (case p of
       None \<Rightarrow> jnodes m' = jnodes m \<and> strs m' = strs m
     | Some x \<Rightarrow> (\<forall>y < fresh m. jnodes m' y = jnodes m y \<and> strs m' y = strs m y) \<and>
         (\<exists>c. jaddr c = x \<and> tree m' c \<and> tree m' t \<and> separate [t, c] \<and> value_of c = value_of t \<and>
            links_of (jnodes m') x = Some (None, None)))"
proof -
  note old = tree_old [OF assms(1,4)]
  have "fuel_for t \<le> 2 * fresh m"
  proof -
    have "distinct (nodes_of t)" using assms(2) by (simp add: separate_def)
    then have "length (nodes_of t) = card (set (nodes_of t))" by (simp add: distinct_card)
    also have "\<dots> \<le> card {..<fresh m}" using old(1) by (intro card_mono) auto
    finally show ?thesis using fuel_bound(1) [of t] by simp
  qed
  then have c: "copies m t (cJSON_Duplicate fo m (Some (jaddr t)) True)"
    unfolding cJSON_Duplicate_def by (intro duplicate_copies(1) [OF assms(1,3,4)]) simp
  show ?thesis
  proof (cases "allocations t \<le> left m")
    case False
    then show ?thesis using c by (auto simp: copies_def)
  next
    case True
    then obtain c m' where cp: "cJSON_Duplicate fo m (Some (jaddr t)) True = Some (Some (jaddr c), m')" "is_copy m t c m'"
      using c by (auto simp: copies_def)
    have ex: "extends m (set (nodes_of c)) (set (strings_of c)) m'" and cs: "tree m' c" "separate [c]" "value_of c = value_of t"
        "borrowed c \<subseteq> borrowed t" "links_of (jnodes m') (jaddr c) = Some (None, None)"
      using cp(2) by (simp_all add: is_copy_def)
    have "separate ([t] @ [c])"
    proof (rule separate_new [OF assms(2) cs(2), of "fresh m"])
      show "borrowed c \<inter> set (strings_of_all [t]) = {}" using cs(4) assms(2) by (auto simp: separate_def)
    qed (use old ex in \<open>auto simp: extends_def\<close>)
    moreover have "wf_mem m'" "tree m' t" using ex extends_tree [OF ex assms(1)] by (simp_all add: extends_def)
    ultimately show ?thesis using True cp(1) cs extends_old [OF ex] by auto
  qed
qed

text \<open>
  C24. \<open>cJSON_Duplicate\<close> of a tree without references returns, if there is memory for it, a new tree of the same value that
  shares nothing with the old one but constant keys, and leaves the old memory as it was. If an
  allocation fails it returns a null pointer, and everything it allocated has been freed. It ends in both cases.
\<close>

theorem duplicate_is_separate_copy:
  assumes "tree m t" and "separate [t]" and "no_references t" and "wf_mem m"
  shows "\<exists>p m'. cJSON_Duplicate fo m (Some (jaddr t)) True = Some (p, m') \<and> wf_mem m' \<and> (p \<noteq> None \<longleftrightarrow> allocations t \<le> left m) \<and>
    (case p of
       None \<Rightarrow> jnodes m' = jnodes m \<and> strs m' = strs m
     | Some x \<Rightarrow> (\<forall>y < fresh m. jnodes m' y = jnodes m y \<and> strs m' y = strs m y) \<and>
         (\<exists>c. jaddr c = x \<and> tree m' c \<and> tree m' t \<and> separate [t, c] \<and> value_of c = value_of t \<and>
            links_of (jnodes m') x = Some (None, None)))"
  by (rule duplicate_copy [OF assms])

definition sample_tree :: "int jtree" where
  "sample_tree = JT 1 (sample_data 64 None) [sample_member]"

theorem duplicate_is_separate_copy_witness:
  "\<exists>p m'. cJSON_Duplicate whole_ops sample_mem (Some (jaddr sample_tree)) True = Some (p, m') \<and> wf_mem m' \<and>
    (p \<noteq> None \<longleftrightarrow> allocations sample_tree \<le> left sample_mem) \<and>
    (case p of
       None \<Rightarrow> jnodes m' = jnodes sample_mem \<and> strs m' = strs sample_mem
     | Some x \<Rightarrow> (\<forall>y < fresh sample_mem. jnodes m' y = jnodes sample_mem y \<and> strs m' y = strs sample_mem y) \<and>
         (\<exists>c. jaddr c = x \<and> tree m' c \<and> tree m' sample_tree \<and> separate [sample_tree, c] \<and> value_of c = value_of sample_tree \<and>
            links_of (jnodes m') x = Some (None, None)))"
proof (rule duplicate_is_separate_copy)
  show "tree sample_mem sample_tree" using sample_trees(1) by (simp add: sample_tree_def)
  show "separate [sample_tree]" by (rule separate_sub [OF sample_trees(4)]) (auto simp: sample_tree_def)
  show "no_references sample_tree" by (simp add: sample_tree_def sample_member_def sample_data_def t_reference_def json_types)
qed (rule sample_state)

end
