(* ===== verification/JsonCompare.thy ===== *)
theory JsonCompare
  imports JsonDuplicate
begin

section \<open>Comparing trees\<close>

text \<open>
  \<open>cJSON_Compare\<close> and its loops over the elements of two arrays and over the members of an object, with
  fuel as in \<open>cJSON_Duplicate\<close>.
\<close>

definition node_type :: "'f jnode \<Rightarrow> int" where
  "node_type n = ntype n AND 0xFF"

text \<open>The type two items are compared at; integers and numbers are compared as numbers.\<close>

definition compared_type :: "int \<Rightarrow> int \<Rightarrow> int option" where
  "compared_type s t =
     (if s \<noteq> t then
        if s = cJSON_Int \<and> t = cJSON_Number \<or> t = cJSON_Int \<and> s = cJSON_Number then Some cJSON_Number else None
      else if s \<in> {cJSON_Bool, cJSON_Int, cJSON_NULL, cJSON_Number, cJSON_String, cJSON_Raw, cJSON_Array, cJSON_Object} then Some s
      else None)"

text \<open>The part of \<open>cJSON_Compare\<close> without loops: a result, or the chains to compare.\<close>

datatype comparison = Decided bool | Elements ptr ptr | Members ptr ptr

definition compare_head :: "('f, 'a) num_ops_scheme \<Rightarrow> 'f jmem \<Rightarrow> ptr \<Rightarrow> ptr \<Rightarrow> comparison option" where
  "compare_head fo m a b =
     (if a = None \<or> b = None then Some (Decided False)
      else do {
        x \<leftarrow> fetch (jnodes m) a;
        if node_type x = cJSON_Invalid then Some (Decided False)
        else do {
          y \<leftarrow> fetch (jnodes m) b;
          case compared_type (node_type x) (node_type y) of None \<Rightarrow> Some (Decided False)
          | Some t \<Rightarrow>
              if a = b then Some (Decided True)
              else if t = cJSON_NULL then Some (Decided True)
              else if t = cJSON_Bool \<or> t = cJSON_Int then Some (Decided (nint x = nint y))
              else if t = cJSON_Number then Some (Decided (compare_double fo (ndouble x) (ndouble y)))
              else if t = cJSON_String \<or> t = cJSON_Raw then
                if nvalue x = None \<or> nvalue y = None then Some (Decided False)
                else do { s \<leftarrow> read_string m (nvalue x); t \<leftarrow> read_string m (nvalue y); Some (Decided (s = t)) }
              else if t = cJSON_Array then Some (Elements (jchild x) (jchild y))
              else Some (Members (jchild x) (jchild y)) } })"

fun compare_items :: "('f, 'a) num_ops_scheme \<Rightarrow> nat \<Rightarrow> 'f jmem \<Rightarrow> bool \<Rightarrow> ptr \<Rightarrow> ptr \<Rightarrow> bool option"
  and compare_elements :: "('f, 'a) num_ops_scheme \<Rightarrow> nat \<Rightarrow> 'f jmem \<Rightarrow> bool \<Rightarrow> ptr \<Rightarrow> ptr \<Rightarrow> bool option"
  and compare_members :: "('f, 'a) num_ops_scheme \<Rightarrow> nat \<Rightarrow> 'f jmem \<Rightarrow> bool \<Rightarrow> ptr \<Rightarrow> ptr \<Rightarrow> bool option" where
  "compare_items fo 0 m cs a b = None"
| "compare_items fo (Suc k) m cs a b = do {
     c \<leftarrow> compare_head fo m a b;
     case c of
       Decided same \<Rightarrow> Some same
     | Elements p q \<Rightarrow> compare_elements fo k m cs p q
     | Members p q \<Rightarrow> do {
         same \<leftarrow> compare_members fo k m cs p b;
         if \<not> same then Some False else compare_members fo k m cs q a } }"
| "compare_elements fo 0 m cs p q = None"
| "compare_elements fo (Suc k) m cs p q =
     (if p \<noteq> None \<and> q \<noteq> None then do {
        same \<leftarrow> compare_items fo k m cs p q;
        if \<not> same then Some False
        else do {
          x \<leftarrow> fetch (jnodes m) p;
          y \<leftarrow> fetch (jnodes m) q;
          compare_elements fo k m cs (jnext x) (jnext y) } }
      else Some (p = q))"
| "compare_members fo 0 m cs p object = None"
| "compare_members fo (Suc k) m cs p object =
     (if p = None then Some True
      else do {
        x \<leftarrow> fetch (jnodes m) p;
        other \<leftarrow> get_object_item m object (nname x) cs;
        if other = None then Some False
        else do {
          same \<leftarrow> compare_items fo k m cs p other;
          if \<not> same then Some False else compare_members fo k m cs (jnext x) object } })"

declare compare_items.simps [simp del] compare_elements.simps [simp del] compare_members.simps [simp del]

definition cJSON_Compare :: "('f, 'a) num_ops_scheme \<Rightarrow> 'f jmem \<Rightarrow> ptr \<Rightarrow> ptr \<Rightarrow> bool \<Rightarrow> bool option" where
  "cJSON_Compare fo m a b cs = compare_items fo (4 * fresh m + 1) m cs a b"

subsection \<open>Equal values\<close>

text \<open>Names are equal by their bytes, or up to the case of the letters as far as the first NUL.\<close>

definition equal_names :: "bool \<Rightarrow> byte list \<Rightarrow> byte list \<Rightarrow> bool" where
  "equal_names cs s t \<longleftrightarrow> (if cs then s = t
     else map c_tolower (takeWhile (\<lambda>c. c \<noteq> 0) s) = map c_tolower (takeWhile (\<lambda>c. c \<noteq> 0) t))"

lemma same_name_equal: "same_name cs s t \<longleftrightarrow> equal_names cs s t"
  by (simp add: same_name_def equal_names_def case_insensitive_strcmp_def ci_diff_texts)

fun find_named :: "bool \<Rightarrow> byte list \<Rightarrow> 'f cJSON list \<Rightarrow> 'f cJSON option" where
  "find_named cs s [] = None"
| "find_named cs s (x # xs) = (case jstring (item x) of
     None \<Rightarrow> if cs then None else find_named cs s xs
   | Some t \<Rightarrow> if equal_names cs s t then Some x else find_named cs s xs)"

lemma find_named_in: "find_named cs s xs = Some x \<Longrightarrow> x \<in> set xs"
  by (induction xs) (auto split: option.splits if_splits)

lemma find_named_value: "find_named cs s (map value_of ks) = map_option value_of (first_named cs s ks)"
proof (induction ks)
  case (Cons k ks)
  then show ?case by (cases k) (auto simp: same_name_equal split: option.splits)
qed simp

lemma child_sizes:
  assumes "x \<in> set xs" and "y \<in> set ys"
  shows "size x + size y < size (Item d xs) + size (Item e ys)" "size y + size x < size (Item d xs) + size (Item e ys)"
  using size_list_estimation' [OF assms(1), of "size x" size] size_list_estimation' [OF assms(2), of "size y" size] by simp_all

lemma found_in: "o1 \<bind> (\<lambda>s. find_named cs s xs) = Some x \<Longrightarrow> x \<in> set xs"
  by (auto simp: bind_eq_Some_conv dest: find_named_in)

text \<open>
  The specification, by the types of the two items: what makes two of them equal, and that nothing else does.
  Arrays are equal element by element, and objects when each member of one is equal to the first member of that
  name in the other, and conversely.
\<close>

function equal_items :: "('f, 'a) num_ops_scheme \<Rightarrow> bool \<Rightarrow> 'f cJSON \<Rightarrow> 'f cJSON \<Rightarrow> bool" where
  "equal_items fo cs (Item d xs) (Item e ys) \<longleftrightarrow>
     type_of d = cJSON_NULL \<and> type_of e = cJSON_NULL \<or>
     type_of d = cJSON_Bool \<and> type_of e = cJSON_Bool \<and> valueint d = valueint e \<or>
     type_of d = cJSON_Int \<and> type_of e = cJSON_Int \<and> valueint d = valueint e \<or>
     (type_of d = cJSON_Number \<and> type_of e = cJSON_Number \<or> type_of d = cJSON_Number \<and> type_of e = cJSON_Int \<or>
      type_of d = cJSON_Int \<and> type_of e = cJSON_Number) \<and> compare_double fo (valuedouble d) (valuedouble e) \<or>
     (type_of d = cJSON_String \<and> type_of e = cJSON_String \<or> type_of d = cJSON_Raw \<and> type_of e = cJSON_Raw) \<and>
       valuestring d \<noteq> None \<and> valuestring d = valuestring e \<or>
     type_of d = cJSON_Array \<and> type_of e = cJSON_Array \<and> list_all2 (equal_items fo cs) xs ys \<or>
     type_of d = cJSON_Object \<and> type_of e = cJSON_Object \<and>
       (\<forall>x \<in> set xs. case Option.bind (jstring (item x)) (\<lambda>s. find_named cs s ys) of None \<Rightarrow> False | Some y \<Rightarrow> equal_items fo cs x y) \<and>
       (\<forall>y \<in> set ys. case Option.bind (jstring (item y)) (\<lambda>s. find_named cs s xs) of None \<Rightarrow> False | Some x \<Rightarrow> equal_items fo cs y x)"
  by pat_completeness auto
termination
proof (relation "measure (\<lambda>(fo, cs, x, y). size x + size y)", rule wf_measure)
qed (simp_all only: in_measure prod.case, rule child_sizes(1), assumption, assumption, rule child_sizes(1), assumption, erule found_in, rule child_sizes(2), erule found_in, assumption)

declare equal_items.simps [simp del]

text \<open>The code first computes a common type and then compares at that type.\<close>

lemma compared_type_cases:
  "(case compared_type s t of None \<Rightarrow> False
    | Some y \<Rightarrow> if y = cJSON_NULL then True else if y = cJSON_Bool \<or> y = cJSON_Int then i else if y = cJSON_Number then n
        else if y = cJSON_String \<or> y = cJSON_Raw then v \<and> w else if y = cJSON_Array then l else p \<and> q) \<longleftrightarrow>
     s = cJSON_NULL \<and> t = cJSON_NULL \<or> s = cJSON_Bool \<and> t = cJSON_Bool \<and> i \<or> s = cJSON_Int \<and> t = cJSON_Int \<and> i \<or>
     (s = cJSON_Number \<and> t = cJSON_Number \<or> s = cJSON_Number \<and> t = cJSON_Int \<or> s = cJSON_Int \<and> t = cJSON_Number) \<and> n \<or>
     (s = cJSON_String \<and> t = cJSON_String \<or> s = cJSON_Raw \<and> t = cJSON_Raw) \<and> v \<and> w \<or>
     s = cJSON_Array \<and> t = cJSON_Array \<and> l \<or> s = cJSON_Object \<and> t = cJSON_Object \<and> p \<and> q"
proof (cases "s = t")
  case True
  consider "t = cJSON_NULL" | "t = cJSON_Bool" | "t = cJSON_Int" | "t = cJSON_Number" | "t = cJSON_String" | "t = cJSON_Raw"
    | "t = cJSON_Array" | "t = cJSON_Object"
    | "t \<notin> {cJSON_Bool, cJSON_Int, cJSON_NULL, cJSON_Number, cJSON_String, cJSON_Raw, cJSON_Array, cJSON_Object}"
    by blast
  then show ?thesis unfolding True by cases (simp_all add: compared_type_def json_types)
next
  case False
  then show ?thesis by (auto simp: compared_type_def json_types)
qed

lemma equal_items_compared:
  "equal_items fo cs (Item d xs) (Item e ys) \<longleftrightarrow> (case compared_type (type_of d) (type_of e) of None \<Rightarrow> False
   | Some t \<Rightarrow>
       if t = cJSON_NULL then True
       else if t = cJSON_Bool \<or> t = cJSON_Int then valueint d = valueint e
       else if t = cJSON_Number then compare_double fo (valuedouble d) (valuedouble e)
       else if t = cJSON_String \<or> t = cJSON_Raw then valuestring d \<noteq> None \<and> valuestring d = valuestring e
       else if t = cJSON_Array then list_all2 (equal_items fo cs) xs ys
       else (\<forall>x \<in> set xs. case Option.bind (jstring (item x)) (\<lambda>s. find_named cs s ys) of None \<Rightarrow> False | Some y \<Rightarrow> equal_items fo cs x y) \<and>
         (\<forall>y \<in> set ys. case Option.bind (jstring (item y)) (\<lambda>s. find_named cs s xs) of None \<Rightarrow> False | Some x \<Rightarrow> equal_items fo cs y x))"
  unfolding equal_items.simps [of fo cs d xs e ys] by (rule compared_type_cases [symmetric])

subsection \<open>Comparing trees compares values\<close>

lemma compare_head_tree:
  assumes t: "tree m (JT a d ks)" "\<not> t_reference d" and u: "tree m (JT b e us)" "\<not> t_reference e" and ne: "a \<noteq> b"
  shows "compare_head fo m (Some a) (Some b) = Some (case compared_type (t_type d AND 0xFF) (t_type e AND 0xFF) of None \<Rightarrow> Decided False
    | Some y \<Rightarrow>
       if y = cJSON_NULL then Decided True
       else if y = cJSON_Bool \<or> y = cJSON_Int then Decided (t_int d = t_int e)
       else if y = cJSON_Number then Decided (compare_double fo (t_double d) (t_double e))
       else if y = cJSON_String \<or> y = cJSON_Raw
       then Decided (map_option snd (t_value d) \<noteq> None \<and> map_option snd (t_value d) = map_option snd (t_value e))
       else if y = cJSON_Array then Elements (hd_ptr (map jaddr ks)) (hd_ptr (map jaddr us))
       else Members (hd_ptr (map jaddr ks)) (hd_ptr (map jaddr us)))"
proof -
  obtain n where n: "jnodes m a = Some n" "ntype n = t_type d" "nvalue n = map_option fst (t_value d)" "nint n = t_int d" "ndouble n = t_double d"
    "jchild n = hd_ptr (map jaddr ks)" using tree_node [OF t(1)] t(2) by metis
  obtain n' where n': "jnodes m b = Some n'" "ntype n' = t_type e" "nvalue n' = map_option fst (t_value e)" "nint n' = t_int e" "ndouble n' = t_double e"
    "jchild n' = hd_ptr (map jaddr us)" using tree_node [OF u(1)] u(2) by metis
  have h: "holds (strs m) (t_value d)" "holds (strs m) (t_value e)" using t u by (simp_all add: tree.simps)
  have inv: "compared_type cJSON_Invalid y = None" for y by (simp add: compared_type_def json_types)
  show ?thesis
  proof (cases "compared_type (t_type d AND 0xFF) (t_type e AND 0xFF)")
    case None
    then show ?thesis using n n' by (simp add: compare_head_def node_type_def)
  next
    case (Some y)
    then have i: "t_type d AND 0xFF \<noteq> cJSON_Invalid" using inv by auto
    have s: "do { s \<leftarrow> read_string m (nvalue n); t \<leftarrow> read_string m (nvalue n'); Some (Decided (s = t)) } =
        Some (Decided (map_option snd (t_value d) = map_option snd (t_value e)))" if "nvalue n \<noteq> None" "nvalue n' \<noteq> None"
      using that h n(3) n'(3) by (auto simp: read_string_def holds_def split: option.splits)
    show ?thesis using n n' ne i Some s
      by (simp add: compare_head_def node_type_def cong: if_cong) (auto simp: option.map_sel)
  qed
qed

lemma type_of_value [simp]: "type_of \<lparr>jtype = y, valuestring = v, valueint = i, valuedouble = x, jstring = s\<rparr> = y AND 0xFF"
  by (simp add: type_of_def)

lemma equal_items_trees:
  "equal_items fo cs (value_of (JT a d ks)) (value_of (JT b e us)) \<longleftrightarrow>
    (case compared_type (t_type d AND 0xFF) (t_type e AND 0xFF) of None \<Rightarrow> False
    | Some y \<Rightarrow>
       if y = cJSON_NULL then True
       else if y = cJSON_Bool \<or> y = cJSON_Int then t_int d = t_int e
       else if y = cJSON_Number then compare_double fo (t_double d) (t_double e)
       else if y = cJSON_String \<or> y = cJSON_Raw then map_option snd (t_value d) \<noteq> None \<and> map_option snd (t_value d) = map_option snd (t_value e)
       else if y = cJSON_Array then list_all2 (equal_items fo cs) (map value_of ks) (map value_of us)
       else (\<forall>x \<in> set (map value_of ks). case Option.bind (jstring (item x)) (\<lambda>s. find_named cs s (map value_of us)) of None \<Rightarrow> False | Some y \<Rightarrow> equal_items fo cs x y) \<and>
         (\<forall>y \<in> set (map value_of us). case Option.bind (jstring (item y)) (\<lambda>s. find_named cs s (map value_of ks)) of None \<Rightarrow> False | Some x \<Rightarrow> equal_items fo cs y x))"
  by (simp add: equal_items_compared [of fo cs "\<lparr>jtype = t_type d, valuestring = map_option snd (t_value d), valueint = t_int d, valuedouble = t_double d, jstring = map_option snd (t_name d)\<rparr>"]
      cong: option.case_cong if_cong)

definition apart :: "'f jtree \<Rightarrow> 'f jtree \<Rightarrow> bool" where
  "apart t u \<longleftrightarrow> set (nodes_of t) \<inter> set (nodes_of u) = {}"

text \<open>A member against the first one of its name in the other object.\<close>

definition member_equal :: "('f, 'a) num_ops_scheme \<Rightarrow> bool \<Rightarrow> 'f jtree list \<Rightarrow> 'f jtree \<Rightarrow> bool" where
  "member_equal fo cs us t \<longleftrightarrow> (case Option.bind (map_option snd (t_name (jdata t))) (\<lambda>s. first_named cs s us) of
     None \<Rightarrow> False | Some u \<Rightarrow> equal_items fo cs (value_of t) (value_of u))"

lemma member_equal_value:
  "(case Option.bind (jstring (item (value_of t))) (\<lambda>s. find_named cs s (map value_of us)) of None \<Rightarrow> False | Some y \<Rightarrow> equal_items fo cs (value_of t) y) =
    member_equal fo cs us t"
  by (cases t; cases "t_name (jdata t)") (auto simp: member_equal_def find_named_value split: option.splits)

lemma fuel_for_member: "u \<in> set us \<Longrightarrow> fuel_for u < fuel_for_all us"
  by (induction us) auto

lemma fuel_for_pos: "0 < fuel_for t" "0 < fuel_for_all ks"
  by (cases t, simp) (cases ks; simp)

lemma apart_sub: "apart t (JT b e us) \<Longrightarrow> u \<in> set us \<Longrightarrow> apart t u" "apart (JT b e us) t \<Longrightarrow> u \<in> set us \<Longrightarrow> apart u t"
  "apart t u \<Longrightarrow> apart u t" "apart t u \<Longrightarrow> jaddr t \<noteq> jaddr u"
  by (auto simp: apart_def) (metis disjoint_iff jaddr_in_nodes)

lemma compare_trees:
  fixes fo :: "('f, 'a) num_ops_scheme"
  shows "tree m t \<Longrightarrow> tree m u \<Longrightarrow> no_references t \<Longrightarrow> no_references u \<Longrightarrow> apart t u \<Longrightarrow> fuel_for t + fuel_for u \<le> k \<Longrightarrow>
      compare_items fo k m cs (Some (jaddr t)) (Some (jaddr u)) = Some (equal_items fo cs (value_of t) (value_of u))"
    and "list_all (tree m) ks \<Longrightarrow> list_all (tree m) us \<Longrightarrow> list_all no_references ks \<Longrightarrow> list_all no_references us \<Longrightarrow>
      (\<forall>x \<in> set ks. \<forall>y \<in> set us. apart x y) \<Longrightarrow> seg (jnodes m) p (map jaddr ks) None \<Longrightarrow> seg (jnodes m) q (map jaddr us) None \<Longrightarrow>
      fuel_for_all ks + fuel_for_all us \<le> k \<Longrightarrow>
      compare_elements fo k m cs (hd_ptr (map jaddr ks)) (hd_ptr (map jaddr us)) = Some (list_all2 (equal_items fo cs) (map value_of ks) (map value_of us))"
    and "list_all (tree m) ks \<Longrightarrow> tree m (JT b e us) \<Longrightarrow> list_all no_references ks \<Longrightarrow> no_references (JT b e us) \<Longrightarrow>
      (\<forall>x \<in> set ks. apart x (JT b e us)) \<Longrightarrow> seg (jnodes m) p (map jaddr ks) None \<Longrightarrow>
      fuel_for_all ks + fuel_for_all us \<le> k \<Longrightarrow>
      compare_members fo k m cs (hd_ptr (map jaddr ks)) (Some b) = Some (list_all (member_equal fo cs us) ks)"
proof (induction k arbitrary: t u ks us p q b e)
  case 0
  { case 1 then show ?case using fuel_for_pos(1) [of t] by simp
  next case 2 then show ?case using fuel_for_pos(2) [of ks] by simp
  next case 3 then show ?case using fuel_for_pos(2) [of ks] by simp }
next
  case (Suc k)
  {
    case 1
    obtain a d ks where t: "t = JT a d ks" by (cases t)
    obtain b e us where u: "u = JT b e us" by (cases u)
    have r: "\<not> t_reference d" "\<not> t_reference e" "list_all no_references ks" "list_all no_references us" using 1 by (simp_all add: t u)
    have tr: "tree m (JT a d ks)" "tree m (JT b e us)" using 1 by (simp_all add: t u)
    have kids: "list_all (tree m) ks" "seg (jnodes m) (last_ptr (map jaddr ks)) (map jaddr ks) None"
      "list_all (tree m) us" "seg (jnodes m) (last_ptr (map jaddr us)) (map jaddr us) None"
      using tr r by (simp_all add: tree.simps chain_def)
    have ap: "apart (JT a d ks) (JT b e us)" using 1 by (simp add: t u)
    have f: "fuel_for_all ks + fuel_for_all us \<le> k" using 1 by (simp add: t u)
    have el: "compare_elements fo k m cs (hd_ptr (map jaddr ks)) (hd_ptr (map jaddr us)) = Some (list_all2 (equal_items fo cs) (map value_of ks) (map value_of us))"
      using ap by (intro Suc.IH(2) [OF kids(1,3) r(3,4) _ kids(2,4) f]) (blast intro: apart_sub)
    have mem: "compare_members fo k m cs (hd_ptr (map jaddr ks)) (Some b) = Some (list_all (member_equal fo cs us) ks)"
      using ap 1 u f by (intro Suc.IH(3) [OF kids(1) tr(2) r(3) _ _ kids(2)]) (auto intro: apart_sub)
    have mem': "compare_members fo k m cs (hd_ptr (map jaddr us)) (Some a) = Some (list_all (member_equal fo cs ks) us)"
      using ap 1 t f by (intro Suc.IH(3) [OF kids(3) tr(1) r(4) _ _ kids(4)]) (auto intro: apart_sub)
    have "a \<noteq> b" using apart_sub(4) [OF ap] by simp
    note head = compare_head_tree [OF tr(1) r(1) tr(2) r(2) this, of fo]
    have all: "(\<forall>x \<in> set (map value_of xs). case Option.bind (jstring (item x)) (\<lambda>s. find_named cs s (map value_of ys)) of None \<Rightarrow> False | Some y \<Rightarrow> equal_items fo cs x y) =
        list_all (member_equal fo cs ys) xs" for xs ys :: "'f jtree list"
      by (simp add: member_equal_value list_all_iff)
    show ?case
      unfolding t u jtree.sel equal_items_trees all compare_items.simps(2) head
      by (cases "compared_type (t_type d AND 0xFF) (t_type e AND 0xFF)") (simp_all add: el mem mem' cong: if_cong)
  next
    case 2
    show ?case
    proof (cases ks)
      case Nil
      then show ?thesis by (cases us) (simp_all add: compare_elements.simps)
    next
      case ks: (Cons x xs)
      show ?thesis
      proof (cases us)
        case Nil
        then show ?thesis by (simp add: compare_elements.simps ks)
      next
        case us: (Cons y ys)
        have xy: "compare_items fo k m cs (Some (jaddr x)) (Some (jaddr y)) = Some (equal_items fo cs (value_of x) (value_of y))"
          using 2 by (intro Suc.IH(1)) (simp_all add: ks us)
        obtain n n' where n: "jnodes m (jaddr x) = Some n" "jnext n = hd_ptr (map jaddr xs)" "jnodes m (jaddr y) = Some n'" "jnext n' = hd_ptr (map jaddr ys)"
          using 2(6,7) by (auto simp: ks us dest!: links_ofD split: if_splits)
        have "compare_elements fo k m cs (hd_ptr (map jaddr xs)) (hd_ptr (map jaddr ys)) = Some (list_all2 (equal_items fo cs) (map value_of xs) (map value_of ys))"
          by (rule Suc.IH(2) [where p = "Some (jaddr x)" and q = "Some (jaddr y)"]) (use 2 in \<open>simp_all add: ks us\<close>)
        then show ?thesis using xy n by (simp add: compare_elements.simps ks us)
      qed
    qed
  next
    case 3
    show ?case
    proof (cases ks)
      case Nil
      then show ?thesis by (simp add: compare_members.simps)
    next
      case (Cons x xs)
      obtain a d zs where x: "x = JT a d zs" by (cases x)
      have trx: "tree m (JT a d zs)" using 3 by (simp add: Cons x)
      obtain n where n: "jnodes m a = Some n" "nname n = map_option fst (t_name d)" using tree_node [OF trx] by metis
      have nx: "jnext n = hd_ptr (map jaddr xs)" using 3(6) n(1) by (simp add: Cons x split: if_splits)
      have re: "\<not> t_reference e" "list_all no_references us" using 3(4) by simp_all
      have rest: "compare_members fo k m cs (hd_ptr (map jaddr xs)) (Some b) = Some (list_all (member_equal fo cs us) xs)"
        by (rule Suc.IH(3) [where p = "Some a" and e = e]) (use 3 in \<open>simp_all add: Cons x\<close>)
      show ?thesis
      proof (cases "t_name d")
        case None
        then show ?thesis using n by (simp add: compare_members.simps get_object_item_def Cons x member_equal_def)
      next
        case (Some v)
        then obtain q s where v: "t_name d = Some (q, s)" "strs m q = Some s" using trx by (cases v) (simp add: tree.simps holds_def)
        note get = get_object_item_tree [OF 3(2) re(1) v(2), of cs]
        show ?thesis
        proof (cases "first_named cs s us")
          case None
          then show ?thesis using get n v by (simp add: compare_members.simps Cons x member_equal_def)
        next
          case found: (Some u)
          have u: "u \<in> set us" by (rule first_named_in [OF found])
          have "compare_items fo k m cs (Some (jaddr x)) (Some (jaddr u)) = Some (equal_items fo cs (value_of x) (value_of u))"
          proof (rule Suc.IH(1))
            show "tree m u" using 3(2) re(1) u by (simp add: tree.simps list_all_iff)
            show "no_references u" using re(2) u by (simp add: list_all_iff)
            show "apart x u" using 3(5) by (intro apart_sub(1) [OF _ u, of x b e]) (simp add: Cons)
            show "fuel_for x + fuel_for u \<le> k" using 3(7) fuel_for_member [OF u] by (simp add: Cons)
          qed (use 3 in \<open>simp_all add: Cons\<close>)
          moreover have "member_equal fo cs us (JT a d zs) = equal_items fo cs (value_of x) (value_of u)"
            using v found by (simp add: member_equal_def x)
          ultimately show ?thesis using get n v found rest nx by (simp add: compare_members.simps Cons x del: value_of.simps)
        qed
      qed
    qed
  }
qed

lemma fuel_for_fresh:
  assumes "tree m t" and "wf_mem m" and "distinct (nodes_of t)"
  shows "fuel_for t \<le> 2 * fresh m"
proof -
  have "length (nodes_of t) = card (set (nodes_of t))" using assms(3) by (simp add: distinct_card)
  also have "\<dots> \<le> card {..<fresh m}" using tree_old(1) [OF assms(1,2)] by (intro card_mono) auto
  finally show ?thesis using fuel_bound(1) [of t] by simp
qed

lemma compare_equal:
  assumes "tree m t" and "tree m u" and "separate [t, u]" and "no_references t" and "no_references u" and "wf_mem m"
  shows "cJSON_Compare fo m (Some (jaddr t)) (Some (jaddr u)) cs = Some (equal_items fo cs (value_of t) (value_of u))"
proof -
  have d: "distinct (nodes_of t)" "distinct (nodes_of u)" "apart t u" using assms(3) by (simp_all add: separate_def apart_def)
  show ?thesis unfolding cJSON_Compare_def
    using fuel_for_fresh [OF assms(1,6) d(1)] fuel_for_fresh [OF assms(2,6) d(2)]
    by (intro compare_trees(1) [OF assms(1,2,4,5) d(3)]) simp
qed

text \<open>Whether a tree has references can be read off its value.\<close>

fun value_plain :: "'f cJSON \<Rightarrow> bool" where
  "value_plain (Item d xs) \<longleftrightarrow> jtype d AND cJSON_IsReference = 0 \<and> list_all value_plain xs"

lemma value_references: "no_references t = value_plain (value_of t)"
  by (induction t) (auto simp: t_reference_def list_all_iff)

text \<open>
  C25. \<open>cJSON_Compare\<close> of two separate trees without references, in a consistent memory, ends, reads only live
  memory, and returns whether their values are equal: two nulls are; booleans, and integers, by \<open>valueint\<close>; numbers,
  and integers against numbers in either order, by \<open>compare_double\<close> of their doubles; strings, and raw items, by
  their bytes, and never when one has no text; arrays element by element; objects when each member of either has a
  name and an equal first member of that name in the other, names compared by their bytes or, when asked, without
  regard to case. All other pairs of types, invalid items included, are unequal.
\<close>

theorem compare_decides_equality:
  assumes "tree m t" and "tree m u" and "separate [t, u]" and "no_references t" and "no_references u" and "wf_mem m"
  shows "cJSON_Compare fo m (Some (jaddr t)) (Some (jaddr u)) cs = Some (equal_items fo cs (value_of t) (value_of u))"
  by (rule compare_equal [OF assms])

text \<open>
  Values made of the eight types of JSON, without two members of one name and with a name for each, with text where
  text is due and numbers that equal themselves.
\<close>

fun self_equal :: "('f, 'a) num_ops_scheme \<Rightarrow> bool \<Rightarrow> 'f cJSON \<Rightarrow> bool" where
  "self_equal fo cs (Item d xs) \<longleftrightarrow>
     type_of d \<in> {cJSON_Bool, cJSON_Int, cJSON_NULL, cJSON_Number, cJSON_String, cJSON_Raw, cJSON_Array, cJSON_Object} \<and>
     (type_of d = cJSON_Number \<longrightarrow> compare_double fo (valuedouble d) (valuedouble d)) \<and>
     (type_of d = cJSON_String \<or> type_of d = cJSON_Raw \<longrightarrow> valuestring d \<noteq> None) \<and>
     (type_of d = cJSON_Array \<or> type_of d = cJSON_Object \<longrightarrow> list_all (self_equal fo cs) xs) \<and>
     (type_of d = cJSON_Object \<longrightarrow> list_all (\<lambda>x. Option.bind (jstring (item x)) (\<lambda>s. find_named cs s xs) = Some x) xs)"

lemma self_equal_refl: "self_equal fo cs x \<Longrightarrow> equal_items fo cs x x"
proof (induction fo cs x rule: self_equal.induct)
  case (1 fo cs d xs)
  have t: "compared_type (type_of d) (type_of d) = Some (type_of d)" using 1(2) by (simp add: compared_type_def)
  have k: "type_of d \<in> {cJSON_Bool, cJSON_Int, cJSON_NULL, cJSON_Number, cJSON_String, cJSON_Raw, cJSON_Array, cJSON_Object}"
    using 1(2) by simp
  have e: "type_of d = cJSON_Array \<or> type_of d = cJSON_Object \<Longrightarrow> x \<in> set xs \<Longrightarrow> equal_items fo cs x x" for x
    using 1 by (auto simp: list_all_iff)
  have l: "type_of d = cJSON_Array \<Longrightarrow> list_all2 (equal_items fo cs) xs xs" using e by (simp add: list_all2_same)
  have o1: "type_of d = cJSON_Object \<Longrightarrow> x \<in> set xs \<Longrightarrow>
      case Option.bind (jstring (item x)) (\<lambda>s. find_named cs s xs) of None \<Rightarrow> False | Some y \<Rightarrow> equal_items fo cs x y" for x
    using 1(2) e by (auto simp: list_all_iff)
  show ?case using k l o1 1(2) by (simp only: equal_items_compared t option.case) (auto cong: if_cong)
qed

lemma clash_unequal:
  assumes "type_of d = cJSON_Object" and "x \<in> set xs" and "jstring (item x) = Some s" and "find_named cs s xs = Some y"
    and "\<not> equal_items fo cs x y"
  shows "\<not> equal_items fo cs (Item d xs) (Item d xs)"
proof
  assume "equal_items fo cs (Item d xs) (Item d xs)"
  then have "\<forall>x \<in> set xs. case Option.bind (jstring (item x)) (\<lambda>s. find_named cs s xs) of None \<Rightarrow> False | Some y \<Rightarrow> equal_items fo cs x y"
    by (simp add: equal_items.simps [of fo cs d xs d xs] assms(1) json_types)
  then show False using assms(2-5) by fastforce
qed

text \<open>
  C26. What \<open>cJSON_Duplicate\<close> returns for a separate tree without references, in a consistent memory, compares equal to
  the original when all of this holds throughout the value of the original: each item has one of the eight types that
  \<open>cJSON_Compare\<close> knows (boolean, integer, null, number, string, raw, array, object; not invalid), each member of an object
  has a name and no earlier member has the same name, no string and no raw item is without text, and each number is equal
  to itself. But an object with a named member that differs from the first one of its name does not compare equal to its
  own copy.
\<close>

theorem duplicate_compares_equal:
  assumes "tree m t" and "separate [t]" and "no_references t" and "wf_mem m"
    and "cJSON_Duplicate fo m (Some (jaddr t)) True = Some (Some x, m')"
  shows "(self_equal fo cs (value_of t) \<longrightarrow> cJSON_Compare fo m' (Some (jaddr t)) (Some x) cs = Some True) \<and>
    (\<forall>d xs y s z. value_of t = Item d xs \<and> type_of d = cJSON_Object \<and> y \<in> set xs \<and> jstring (item y) = Some s \<and>
      find_named cs s xs = Some z \<and> \<not> equal_items fo cs y z \<longrightarrow> cJSON_Compare fo m' (Some (jaddr t)) (Some x) cs = Some False)"
proof -
  obtain c where c: "jaddr c = x" "tree m' c" "tree m' t" "separate [t, c]" "value_of c = value_of t" "wf_mem m'"
    using duplicate_copy [OF assms(1-4), of fo] assms(5) by auto
  have "no_references c \<longleftrightarrow> no_references t" using value_references [of c] value_references [of t] c(5) by simp
  then have e: "cJSON_Compare fo m' (Some (jaddr t)) (Some x) cs = Some (equal_items fo cs (value_of t) (value_of t))"
    using compare_equal [OF c(3,2,4) assms(3) _ c(6), of fo cs] c(1,5) assms(3) by simp
  show ?thesis using e self_equal_refl [of fo cs "value_of t"] by (auto simp: clash_unequal)
qed

theorem compare_decides_equality_witness:
  "cJSON_Compare whole_ops sample_mem (Some 1) (Some 3) True = Some False"
proof -
  have "no_references sample_tree" "no_references sample_loose"
    by (simp_all add: sample_tree_def sample_member_def sample_loose_def sample_data_def t_reference_def json_types)
  moreover have "\<not> equal_items whole_ops True (value_of sample_tree) (value_of sample_loose)"
    by (simp add: sample_tree_def sample_loose_def sample_data_def equal_items.simps json_types)
  ultimately show ?thesis
    using compare_decides_equality [of sample_mem sample_tree sample_loose whole_ops True] sample_trees sample_state(1)
    by (simp add: sample_tree_def sample_loose_def)
qed

theorem duplicate_compares_equal_witness:
  "\<exists>x m'. cJSON_Duplicate whole_ops sample_mem (Some 1) True = Some (Some x, m') \<and>
    cJSON_Compare whole_ops m' (Some 1) (Some x) True = Some True"
proof -
  have t: "tree sample_mem sample_tree" "separate [sample_tree]" "no_references sample_tree" "wf_mem sample_mem"
    using sample_trees(1,4) sample_state(1)
    by (auto simp: sample_tree_def sample_member_def sample_data_def t_reference_def json_types intro: separate_sub)
  have "allocations sample_tree \<le> left sample_mem"
    by (simp add: sample_tree_def sample_member_def sample_data_def sample_mem_def t_const_def ptr_list_def json_types)
  then obtain x m' where d: "cJSON_Duplicate whole_ops sample_mem (Some (jaddr sample_tree)) True = Some (Some x, m')"
    using duplicate_copy [OF t, of whole_ops] by auto
  have "self_equal whole_ops True (value_of sample_tree)"
    by (simp add: sample_tree_def sample_member_def sample_data_def equal_names_def json_types)
  then show ?thesis using d duplicate_compares_equal [OF t d, of True] by (auto simp: sample_tree_def)
qed

end
