(* ===== verification/Progress.thy ===== *)
theory Progress
  imports Main
begin

section \<open>Reachable states and what every run comes to\<close>

inductive reachable :: "('s \<Rightarrow> 's \<Rightarrow> bool) \<Rightarrow> 's \<Rightarrow> 's \<Rightarrow> bool" for step and start where
  at_start: "reachable step start start"
| one_more: "reachable step start s \<Longrightarrow> step s t \<Longrightarrow> reachable step start t"

text \<open>
  Every run from a state comes to a state with \<open>P\<close>, whatever the choices: it is there, or it can move and
  every move leads to such a state. No fairness is assumed.
\<close>

inductive inevitably :: "('s \<Rightarrow> 's \<Rightarrow> bool) \<Rightarrow> ('s \<Rightarrow> bool) \<Rightarrow> 's \<Rightarrow> bool" for step and P where
  now: "P s \<Longrightarrow> inevitably step P s"
| later: "\<exists>t. step s t \<Longrightarrow> (\<And>t. step s t \<Longrightarrow> inevitably step P t) \<Longrightarrow> inevitably step P s"

text \<open>A system with an invariant.\<close>

locale invariant =
  fixes step :: "'s \<Rightarrow> 's \<Rightarrow> bool" and inv :: "'s \<Rightarrow> bool"
  assumes keeps: "inv s \<Longrightarrow> step s t \<Longrightarrow> inv t"
begin

lemma reaches: "reachable step start s \<Longrightarrow> inv start \<Longrightarrow> inv s"
  by (induction rule: reachable.induct) (auto intro: keeps)

end

text \<open>A system that cannot stop before its goal and comes nearer to it with each step.\<close>

locale progress = invariant step inv for step :: "'s \<Rightarrow> 's \<Rightarrow> bool" and inv +
  fixes goal :: "'s \<Rightarrow> bool" and work :: "'s \<Rightarrow> nat"
  assumes moves: "inv s \<Longrightarrow> \<not> goal s \<Longrightarrow> \<exists>t. step s t"
    and decreases: "inv s \<Longrightarrow> \<not> goal s \<Longrightarrow> step s t \<Longrightarrow> goal t \<or> work t < work s"
begin

lemma ends: "inv s \<Longrightarrow> inevitably step (\<lambda>t. inv t \<and> goal t) s"
proof (induction "work s" arbitrary: s rule: less_induct)
  case less
  show ?case
  proof (cases "goal s")
    case True
    then show ?thesis using less.prems by (simp add: now)
  next
    case False
    show ?thesis
    proof (rule later)
      show "\<exists>t. step s t" by (rule moves [OF less.prems False])
      show "inevitably step (\<lambda>t. inv t \<and> goal t) t" if "step s t" for t
        using decreases [OF less.prems False that] keeps [OF less.prems that] less.hyps by (auto intro: now)
    qed
  qed
qed

end

lemma inevitably_mono: "inevitably step P s \<Longrightarrow> (\<And>t. P t \<Longrightarrow> Q t) \<Longrightarrow> inevitably step Q s"
proof (induction rule: inevitably.induct)
  case (now s)
  then show ?case by (simp add: inevitably.now)
next
  case (later s)
  then show ?case by (auto intro: inevitably.later)
qed

end
