(* ===== verification/ProducerConsumer.thy ===== *)
theory ProducerConsumer
  imports Progress "HOL-Library.Monad_Syntax"
begin

section \<open>A producer and a consumer with semaphores\<close>

text \<open>
  \<open>pthread/sem/product_consumer/sem_pc.c\<close>: two threads that share a buffer of ten numbers, a mutex and two
  counting semaphores. A thread is at one of the statements of its loop; each step runs the
  statement of one thread. \<open>seen\<close> holds the numbers that \<open>consume\<close> has read, \<open>complaints\<close> the
  messages \<open>buff[..] = ..\<close> it has printed about an unexpected number. The calls of \<open>printf\<close> are not modelled.
\<close>

definition NBUFF :: nat where
  "NBUFF = 10"

datatype stmt = Test | Wait_slot | Wait_mutex | Critical | Post_mutex | Post_slot | Returned

record thread =
  at_stmt :: stmt
  idx :: nat

record shared =
  buff :: "int list"
  mutex :: nat
  nempty :: nat
  nstored :: nat
  producer :: thread
  consumer :: thread
  seen :: "int list"
  complaints :: "(nat \<times> int) list"

definition sem_wait :: "nat \<Rightarrow> nat option" where
  "sem_wait n = (if n = 0 then None else Some (n - 1))"

definition sem_post :: "nat \<Rightarrow> nat" where
  "sem_post n = n + 1"

text \<open>The next statement of a thread; no result when the thread is blocked or has returned.\<close>

definition produce :: "int \<Rightarrow> shared \<Rightarrow> shared option" where
  "produce nitems s = (let t = producer s; i = idx t in case at_stmt t of
     Test \<Rightarrow> Some (s\<lparr>producer := t\<lparr>at_stmt := if int i < nitems then Wait_slot else Returned\<rparr>\<rparr>)
   | Wait_slot \<Rightarrow> do { k \<leftarrow> sem_wait (nempty s); Some (s\<lparr>nempty := k, producer := t\<lparr>at_stmt := Wait_mutex\<rparr>\<rparr>) }
   | Wait_mutex \<Rightarrow> do { k \<leftarrow> sem_wait (mutex s); Some (s\<lparr>mutex := k, producer := t\<lparr>at_stmt := Critical\<rparr>\<rparr>) }
   | Critical \<Rightarrow> Some (s\<lparr>buff := (buff s)[i mod NBUFF := int i], producer := t\<lparr>at_stmt := Post_mutex\<rparr>\<rparr>)
   | Post_mutex \<Rightarrow> Some (s\<lparr>mutex := sem_post (mutex s), producer := t\<lparr>at_stmt := Post_slot\<rparr>\<rparr>)
   | Post_slot \<Rightarrow> Some (s\<lparr>nstored := sem_post (nstored s), producer := \<lparr>at_stmt = Test, idx = i + 1\<rparr>\<rparr>)
   | Returned \<Rightarrow> None)"

definition consume :: "int \<Rightarrow> shared \<Rightarrow> shared option" where
  "consume nitems s = (let t = consumer s; i = idx t in case at_stmt t of
     Test \<Rightarrow> Some (s\<lparr>consumer := t\<lparr>at_stmt := if int i < nitems then Wait_slot else Returned\<rparr>\<rparr>)
   | Wait_slot \<Rightarrow> do { k \<leftarrow> sem_wait (nstored s); Some (s\<lparr>nstored := k, consumer := t\<lparr>at_stmt := Wait_mutex\<rparr>\<rparr>) }
   | Wait_mutex \<Rightarrow> do { k \<leftarrow> sem_wait (mutex s); Some (s\<lparr>mutex := k, consumer := t\<lparr>at_stmt := Critical\<rparr>\<rparr>) }
   | Critical \<Rightarrow> (let x = buff s ! (i mod NBUFF) in
       Some (s\<lparr>seen := seen s @ [x], complaints := (if x \<noteq> int i then complaints s @ [(i, x)] else complaints s),
         consumer := t\<lparr>at_stmt := Post_mutex\<rparr>\<rparr>))
   | Post_mutex \<Rightarrow> Some (s\<lparr>mutex := sem_post (mutex s), consumer := t\<lparr>at_stmt := Post_slot\<rparr>\<rparr>)
   | Post_slot \<Rightarrow> Some (s\<lparr>nempty := sem_post (nempty s), consumer := \<lparr>at_stmt = Test, idx = i + 1\<rparr>\<rparr>)
   | Returned \<Rightarrow> None)"

text \<open>What \<open>main\<close> sets up, where no semaphore of these names exists before.\<close>

definition pc_start :: shared where
  "pc_start = \<lparr>buff = replicate NBUFF 0, mutex = 1, nempty = NBUFF, nstored = 0,
     producer = \<lparr>at_stmt = Test, idx = 0\<rparr>, consumer = \<lparr>at_stmt = Test, idx = 0\<rparr>, seen = [], complaints = []\<rparr>"

inductive pc_step :: "int \<Rightarrow> shared \<Rightarrow> shared \<Rightarrow> bool" for nitems where
  produces: "produce nitems s = Some t \<Longrightarrow> pc_step nitems s t"
| consumes: "consume nitems s = Some t \<Longrightarrow> pc_step nitems s t"

inductive_simps pc_step_iff: "pc_step nitems s t"

subsection \<open>The invariant\<close>

text \<open>Whether a thread has taken a slot, holds the mutex, or has done its work in this round.\<close>

fun has_slot :: "stmt \<Rightarrow> nat" where
  "has_slot Test = 0"
| "has_slot Wait_slot = 0"
| "has_slot Wait_mutex = 1"
| "has_slot Critical = 1"
| "has_slot Post_mutex = 1"
| "has_slot Post_slot = 1"
| "has_slot Returned = 0"

fun has_mutex :: "stmt \<Rightarrow> nat" where
  "has_mutex Test = 0"
| "has_mutex Wait_slot = 0"
| "has_mutex Wait_mutex = 0"
| "has_mutex Critical = 1"
| "has_mutex Post_mutex = 1"
| "has_mutex Post_slot = 0"
| "has_mutex Returned = 0"

fun has_worked :: "stmt \<Rightarrow> nat" where
  "has_worked Test = 0"
| "has_worked Wait_slot = 0"
| "has_worked Wait_mutex = 0"
| "has_worked Critical = 0"
| "has_worked Post_mutex = 1"
| "has_worked Post_slot = 1"
| "has_worked Returned = 0"

definition rounds :: "thread \<Rightarrow> nat" where
  "rounds t = idx t + has_worked (at_stmt t)"

definition on_track :: "int \<Rightarrow> thread \<Rightarrow> bool" where
  "on_track nitems t \<longleftrightarrow> idx t \<le> nat nitems \<and> (at_stmt t \<notin> {Test, Returned} \<longrightarrow> idx t < nat nitems) \<and>
     (at_stmt t = Returned \<longrightarrow> idx t = nat nitems)"

definition pc_inv :: "int \<Rightarrow> shared \<Rightarrow> bool" where
  "pc_inv nitems s \<longleftrightarrow> (let p = producer s; c = consumer s in
     length (buff s) = NBUFF \<and> on_track nitems p \<and> on_track nitems c \<and>
     mutex s + has_mutex (at_stmt p) + has_mutex (at_stmt c) = 1 \<and>
     nempty s + idx p + has_slot (at_stmt p) = NBUFF + idx c \<and>
     nstored s + idx c + has_slot (at_stmt c) = idx p \<and>
     (\<forall>j. rounds c \<le> j \<and> j < rounds p \<longrightarrow> buff s ! (j mod NBUFF) = int j) \<and>
     seen s = map int [0..<rounds c] \<and> complaints s = [])"

lemma pc_inv_start: "pc_inv nitems pc_start"
  by (simp add: pc_inv_def pc_start_def on_track_def rounds_def NBUFF_def)

lemma rounds_changed [simp]: "rounds (t\<lparr>at_stmt := p\<rparr>) = idx t + has_worked p" "rounds \<lparr>at_stmt = p, idx = i\<rparr> = i + has_worked p"
  by (simp_all add: rounds_def)

lemma track_changed [simp]:
  "on_track n (t\<lparr>at_stmt := p\<rparr>) \<longleftrightarrow> idx t \<le> nat n \<and> (p \<notin> {Test, Returned} \<longrightarrow> idx t < nat n) \<and> (p = Returned \<longrightarrow> idx t = nat n)"
  "on_track n \<lparr>at_stmt = p, idx = i\<rparr> \<longleftrightarrow> i \<le> nat n \<and> (p \<notin> {Test, Returned} \<longrightarrow> i < nat n) \<and> (p = Returned \<longrightarrow> i = nat n)"
  by (simp_all add: on_track_def)

lemma slots_differ:
  fixes i j :: nat
  assumes "j < i" and "i < j + n"
  shows "j mod n \<noteq> i mod n"
proof
  assume "j mod n = i mod n"
  then have "n dvd i - j" using assms(1) mod_eq_dvd_iff_nat [of j i n] by simp
  then have "n \<le> i - j" using assms(1) by (simp add: dvd_imp_le)
  then show False using assms by simp
qed

lemmas pc_defs = pc_inv_def on_track_def rounds_def sem_wait_def sem_post_def Let_def

lemma produce_keeps:
  assumes "pc_inv nitems s" and "produce nitems s = Some t"
  shows "pc_inv nitems t"
proof (cases "at_stmt (producer s)")
  case Critical
  have t: "t = s\<lparr>buff := (buff s)[idx (producer s) mod NBUFF := int (idx (producer s))], producer := (producer s)\<lparr>at_stmt := Post_mutex\<rparr>\<rparr>"
    using assms(2) Critical by (simp add: produce_def Let_def)
  have other: "j mod NBUFF \<noteq> idx (producer s) mod NBUFF" if "rounds (consumer s) \<le> j" "j < idx (producer s)" for j
    using that assms(1) by (intro slots_differ) (auto simp: pc_defs Critical split: if_splits)
  have "idx (producer s) mod NBUFF < length (buff s)" using assms(1) by (simp add: pc_inv_def Let_def NBUFF_def)
  then have "\<forall>j. rounds (consumer s) \<le> j \<and> j < Suc (idx (producer s)) \<longrightarrow>
      (buff s)[idx (producer s) mod NBUFF := int (idx (producer s))] ! (j mod NBUFF) = int j"
  proof (intro allI impI)
    fix j assume j: "rounds (consumer s) \<le> j \<and> j < Suc (idx (producer s))"
    have "j < idx (producer s) \<Longrightarrow> buff s ! (j mod NBUFF) = int j"
      using assms(1) j by (simp add: pc_inv_def Let_def rounds_def [of "producer s"] Critical)
    then show "(buff s)[idx (producer s) mod NBUFF := int (idx (producer s))] ! (j mod NBUFF) = int j"
      using \<open>idx (producer s) mod NBUFF < length (buff s)\<close> other [of j] j by (cases "j = idx (producer s)") simp_all
  qed
  then show ?thesis using assms(1) Critical
    by (simp add: t pc_inv_def Let_def on_track_def rounds_def [of "producer s"] rounds_def [of "(producer s)\<lparr>at_stmt := Post_mutex\<rparr>"])
qed ((use assms in \<open>(simp add: produce_def pc_inv_def rounds_def [of "producer s"] on_track_def [of _ "producer s"]
  sem_wait_def sem_post_def Let_def bind_eq_Some_conv split: if_splits; (elim conjE)?; hypsubst; simp)\<close>)+)

lemma consume_keeps:
  assumes "pc_inv nitems s" and "consume nitems s = Some t"
  shows "pc_inv nitems t"
proof (cases "at_stmt (consumer s)")
  case Critical
  have "buff s ! (idx (consumer s) mod NBUFF) = int (idx (consumer s))"
  proof -
    have "rounds (consumer s) = idx (consumer s)" "idx (consumer s) < rounds (producer s)"
      using assms(1) Critical by (simp_all add: pc_inv_def Let_def rounds_def)
    moreover have "\<forall>j. rounds (consumer s) \<le> j \<and> j < rounds (producer s) \<longrightarrow> buff s ! (j mod NBUFF) = int j"
      using assms(1) by (simp add: pc_inv_def Let_def)
    ultimately show ?thesis by simp
  qed
  then have "t = s\<lparr>seen := seen s @ [int (idx (consumer s))], consumer := (consumer s)\<lparr>at_stmt := Post_mutex\<rparr>\<rparr>"
    using assms(2) Critical by (simp add: consume_def Let_def)
  then show ?thesis using assms(1) Critical by (simp add: pc_inv_def Let_def on_track_def rounds_def [of "consumer s"] rounds_def [of "(consumer s)\<lparr>at_stmt := Post_mutex\<rparr>"])
qed ((use assms in \<open>(simp add: consume_def pc_inv_def rounds_def [of "consumer s"] on_track_def [of _ "consumer s"]
  sem_wait_def sem_post_def Let_def bind_eq_Some_conv split: if_splits; (elim conjE)?; hypsubst; simp)\<close>)+)

lemma pc_step_keeps: "pc_inv nitems s \<Longrightarrow> pc_step nitems s t \<Longrightarrow> pc_inv nitems t"
  by (auto simp: pc_step_iff intro: produce_keeps consume_keeps)

subsection \<open>Progress\<close>

fun to_go :: "stmt \<Rightarrow> nat" where
  "to_go Test = 1"
| "to_go Wait_slot = 6" | "to_go Wait_mutex = 5" | "to_go Critical = 4" | "to_go Post_mutex = 3" | "to_go Post_slot = 2"
| "to_go Returned = 0"

text \<open>The steps a thread still has to take.\<close>

definition thread_work :: "int \<Rightarrow> thread \<Rightarrow> nat" where
  "thread_work nitems t = 6 * (nat nitems - idx t - (if at_stmt t \<in> {Test, Returned} then 0 else 1)) + to_go (at_stmt t)"

definition pc_work :: "int \<Rightarrow> shared \<Rightarrow> nat" where
  "pc_work nitems s = thread_work nitems (producer s) + thread_work nitems (consumer s)"

definition returned :: "shared \<Rightarrow> bool" where
  "returned s \<longleftrightarrow> at_stmt (producer s) = Returned \<and> at_stmt (consumer s) = Returned"

lemma produce_works:
  assumes "on_track nitems (producer s)" and "produce nitems s = Some t"
  shows "Suc (thread_work nitems (producer t)) = thread_work nitems (producer s) \<and> consumer t = consumer s"
  using assms by (cases "at_stmt (producer s)") (auto simp: produce_def on_track_def thread_work_def Let_def bind_eq_Some_conv split: if_splits)

lemma consume_works:
  assumes "on_track nitems (consumer s)" and "consume nitems s = Some t"
  shows "Suc (thread_work nitems (consumer t)) = thread_work nitems (consumer s) \<and> producer t = producer s"
  using assms by (cases "at_stmt (consumer s)") (auto simp: consume_def on_track_def thread_work_def Let_def bind_eq_Some_conv split: if_splits)

lemma pc_step_works: "pc_inv nitems s \<Longrightarrow> pc_step nitems s t \<Longrightarrow> Suc (pc_work nitems t) = pc_work nitems s"
  using produce_works [of nitems s t] consume_works [of nitems s t]
  by (auto simp: pc_step_iff pc_work_def pc_inv_def Let_def)

text \<open>A thread that cannot move has returned or waits for a semaphore.\<close>

lemma produce_blocked: "produce nitems s = None \<longleftrightarrow> at_stmt (producer s) = Returned \<or>
    at_stmt (producer s) = Wait_slot \<and> nempty s = 0 \<or> at_stmt (producer s) = Wait_mutex \<and> mutex s = 0"
  by (cases "at_stmt (producer s)") (simp_all add: produce_def sem_wait_def Let_def)

lemma consume_blocked: "consume nitems s = None \<longleftrightarrow> at_stmt (consumer s) = Returned \<or>
    at_stmt (consumer s) = Wait_slot \<and> nstored s = 0 \<or> at_stmt (consumer s) = Wait_mutex \<and> mutex s = 0"
  by (cases "at_stmt (consumer s)") (simp_all add: consume_def sem_wait_def Let_def)

lemma pc_moves:
  assumes "pc_inv nitems s" and "\<not> returned s"
  shows "\<exists>t. pc_step nitems s t"
proof (rule ccontr)
  assume "\<not> (\<exists>t. pc_step nitems s t)"
  then have "produce nitems s \<noteq> Some t" "consume nitems s \<noteq> Some t" for t by (auto simp: pc_step_iff)
  then have b: "produce nitems s = None" "consume nitems s = None" by (auto simp: not_Some_eq [symmetric])
  have t: "on_track nitems (producer s)" "on_track nitems (consumer s)"
      "mutex s + has_mutex (at_stmt (producer s)) + has_mutex (at_stmt (consumer s)) = 1"
      "nempty s + idx (producer s) + has_slot (at_stmt (producer s)) = NBUFF + idx (consumer s)"
      "nstored s + idx (consumer s) + has_slot (at_stmt (consumer s)) = idx (producer s)"
    using assms(1) by (simp_all add: pc_inv_def Let_def)
  show False using b(1)
    unfolding produce_blocked
  proof (elim disjE conjE)
    assume p: "at_stmt (producer s) = Returned"
    show False using b(2) unfolding consume_blocked
      by (elim disjE conjE) (use p t assms(2) in \<open>simp_all add: returned_def on_track_def\<close>)
  next
    assume p: "at_stmt (producer s) = Wait_slot" "nempty s = 0"
    show False using b(2) unfolding consume_blocked
      by (elim disjE conjE) (use p t in \<open>simp_all add: on_track_def NBUFF_def\<close>)
  next
    assume p: "at_stmt (producer s) = Wait_mutex" "mutex s = 0"
    show False using b(2) unfolding consume_blocked
      by (elim disjE conjE) (use p t in \<open>simp_all add: on_track_def NBUFF_def\<close>)
  qed
qed

interpretation pc: progress "pc_step n" "pc_inv n" returned "pc_work n" for n
proof unfold_locales
  show "pc_inv n s \<Longrightarrow> pc_step n s t \<Longrightarrow> pc_inv n t" for s t by (rule pc_step_keeps)
  show "pc_inv n s \<Longrightarrow> \<not> returned s \<Longrightarrow> \<exists>t. pc_step n s t" for s by (rule pc_moves)
  show "pc_inv n s \<Longrightarrow> \<not> returned s \<Longrightarrow> pc_step n s t \<Longrightarrow> returned t \<or> pc_work n t < pc_work n s" for s t
    using pc_step_works [of n s t] by simp
qed

text \<open>
  C28. In every state the two threads can reach, in whatever order they are scheduled, at most one of them is between
  \<open>sem_wait(mutex)\<close> and \<open>sem_post(mutex)\<close>, the consumer has read exactly the numbers 0, 1, 2 and so on in this order
  and has printed no complaint, and it is never ahead of the producer nor more than ten numbers behind it.
\<close>

theorem pc_buffer_is_safe:
  assumes "reachable (pc_step n) pc_start s"
  shows "\<not> (has_mutex (at_stmt (producer s)) = 1 \<and> has_mutex (at_stmt (consumer s)) = 1) \<and>
    seen s = map int [0..<rounds (consumer s)] \<and> complaints s = [] \<and>
    rounds (consumer s) \<le> rounds (producer s) \<and> rounds (producer s) \<le> rounds (consumer s) + NBUFF"
proof -
  have "pc_inv n s" by (rule pc.reaches [OF assms pc_inv_start])
  then show ?thesis
    by (cases "at_stmt (producer s)"; cases "at_stmt (consumer s)") (simp_all add: pc_inv_def Let_def rounds_def)
qed

text \<open>
  C27. However the two threads are scheduled, they come to an end: none of them is left waiting, every number below
  \<open>nitems\<close> has been read in order, no complaint has been printed, and the semaphores have their first values again.
\<close>

theorem pc_inevitably_returns:
  "inevitably (pc_step n) (\<lambda>s. returned s \<and> seen s = map int [0..<nat n] \<and> complaints s = [] \<and>
     mutex s = 1 \<and> nempty s = NBUFF \<and> nstored s = 0) pc_start"
  by (rule inevitably_mono [OF pc.ends [OF pc_inv_start]]) (clarsimp simp: pc_defs returned_def)

theorem pc_buffer_is_safe_witness:
  "\<exists>s. reachable (pc_step 3) pc_start s \<and> s = pc_start\<lparr>producer := \<lparr>at_stmt = Wait_slot, idx = 0\<rparr>\<rparr> \<and> seen s = map int [0..<rounds (consumer s)]"
proof -
  have "reachable (pc_step 3) pc_start (pc_start\<lparr>producer := \<lparr>at_stmt = Wait_slot, idx = 0\<rparr>\<rparr>)"
    by (rule one_more [OF at_start], rule produces) (simp add: produce_def pc_start_def)
  then show ?thesis using pc_buffer_is_safe by blast
qed

end
