(* ===== verification/SerialPort.thy ===== *)
theory SerialPort
  imports CString Progress
begin

unbundle bit_operations_syntax

section \<open>The serial port of the modem\<close>

text \<open>
  \<open>LTE/at/muart.c\<close>: opening a serial line in raw mode, choosing its speed and the frame of a byte, reading and
  writing with partial results, and closing it. The terminal driver is not part of the repository: its two calls
  are fields of \<open>line_ops\<close>, functions of a state of the line of any type. A call that fails leaves the line as it is.
  The calls of \<open>tcflush\<close> discard what is buffered and do not matter for the settings. The flags have their values of Linux;
  the two speeds are fields of their own.
\<close>

record termios =
  c_iflag :: "32 word"
  c_oflag :: "32 word"
  c_cflag :: "32 word"
  c_lflag :: "32 word"
  vmin :: byte
  vtime :: byte
  ispeed :: int
  ospeed :: int

record 'd line_ops =
  tc_get :: "'d \<Rightarrow> termios option"
  tc_set :: "'d \<Rightarrow> termios \<Rightarrow> 'd option"

named_theorems tty_flags

definition BRKINT :: "32 word" where [tty_flags]: "BRKINT = 0x2"
definition INPCK :: "32 word" where [tty_flags]: "INPCK = 0x10"
definition ISTRIP :: "32 word" where [tty_flags]: "ISTRIP = 0x20"
definition ICRNL :: "32 word" where [tty_flags]: "ICRNL = 0x100"
definition IXON :: "32 word" where [tty_flags]: "IXON = 0x400"
definition OPOST :: "32 word" where [tty_flags]: "OPOST = 0x1"
definition CSIZE :: "32 word" where [tty_flags]: "CSIZE = 0x30"
definition CS7 :: "32 word" where [tty_flags]: "CS7 = 0x20"
definition CS8 :: "32 word" where [tty_flags]: "CS8 = 0x30"
definition CSTOPB :: "32 word" where [tty_flags]: "CSTOPB = 0x40"
definition PARENB :: "32 word" where [tty_flags]: "PARENB = 0x100"
definition PARODD :: "32 word" where [tty_flags]: "PARODD = 0x200"
definition ISIG :: "32 word" where [tty_flags]: "ISIG = 0x1"
definition ICANON :: "32 word" where [tty_flags]: "ICANON = 0x2"
definition ECHO :: "32 word" where [tty_flags]: "ECHO = 0x8"
definition IEXTEN :: "32 word" where [tty_flags]: "IEXTEN = 0x8000"

subsection \<open>Settings\<close>

definition name_arr :: "int list" where
  "name_arr = [115200, 57600, 38400, 19200, 9600, 4800, 2400, 1200, 300]"

text \<open>
  The loop of \<open>set_speed\<close> over the table, with the settings that were read once before it. The result is the
  return value and the line.
\<close>

fun speed_loop :: "('d, 'a) line_ops_scheme \<Rightarrow> 'd \<Rightarrow> termios \<Rightarrow> int \<Rightarrow> int list \<Rightarrow> int \<times> 'd" where
  "speed_loop ops d t speed [] = (0, d)"
| "speed_loop ops d t speed (n # ns) =
     (if speed = n then
        (let t = t\<lparr>ispeed := n, ospeed := n\<rparr> in
         case tc_set ops d t of None \<Rightarrow> (-1, d) | Some d \<Rightarrow> speed_loop ops d t speed ns)
      else speed_loop ops d t speed ns)"

text \<open>\<open>tcgetattr\<close> is not checked: when it fails the settings that are written are not defined.\<close>

definition muart_set_speed :: "('d, 'a) line_ops_scheme \<Rightarrow> 'd \<Rightarrow> int \<Rightarrow> (int \<times> 'd) option" where
  "muart_set_speed ops d speed = (case tc_get ops d of
     None \<Rightarrow> if speed \<in> set name_arr then None else Some (0, d)
   | Some t \<Rightarrow> Some (speed_loop ops d t speed name_arr))"

text \<open>
  The three switches of \<open>set_Parity\<close> and what follows them; no result for an unsupported value. The parity is one of the
  characters \<open>nN\<close> (110, 78), \<open>oO\<close> (111, 79), \<open>eE\<close> (101, 69) and \<open>sS\<close> (115, 83).
\<close>

definition data_bits :: "int \<Rightarrow> termios \<Rightarrow> termios option" where
  "data_bits n t = (let t = t\<lparr>c_cflag := c_cflag t AND NOT CSIZE\<rparr> in
     if n = 7 then Some (t\<lparr>c_cflag := c_cflag t OR CS7\<rparr>)
     else if n = 8 then Some (t\<lparr>c_cflag := c_cflag t OR CS8\<rparr>)
     else None)"

definition parity_bits :: "int \<Rightarrow> termios \<Rightarrow> termios option" where
  "parity_bits p t =
     (if p \<in> {110, 78} then
        Some (t\<lparr>c_cflag := c_cflag t AND NOT PARENB, c_iflag := c_iflag t AND NOT INPCK\<rparr>)
      else if p \<in> {111, 79} then
        Some (t\<lparr>c_cflag := c_cflag t OR (PARODD OR PARENB), c_iflag := c_iflag t OR INPCK\<rparr>)
      else if p \<in> {101, 69} then
        Some (t\<lparr>c_cflag := (c_cflag t OR PARENB) AND NOT PARODD, c_iflag := c_iflag t OR INPCK\<rparr>)
      else if p \<in> {83, 115} then
        Some (t\<lparr>c_cflag := c_cflag t AND NOT PARENB AND NOT CSTOPB\<rparr>)
      else None)"

definition stop_bits :: "int \<Rightarrow> termios \<Rightarrow> termios option" where
  "stop_bits n t =
     (if n = 1 then Some (t\<lparr>c_cflag := c_cflag t AND NOT CSTOPB\<rparr>)
      else if n = 2 then Some (t\<lparr>c_cflag := c_cflag t OR CSTOPB\<rparr>)
      else None)"

definition frame_conf :: "int \<Rightarrow> int \<Rightarrow> int \<Rightarrow> termios \<Rightarrow> termios option" where
  "frame_conf databits stopbits parity t = do {
     t \<leftarrow> data_bits databits t;
     t \<leftarrow> parity_bits parity t;
     t \<leftarrow> stop_bits stopbits t;
     let t = (if parity \<noteq> 110 then t\<lparr>c_iflag := c_iflag t OR INPCK\<rparr> else t);
     Some (t\<lparr>vtime := 0, vmin := 1\<rparr>) }"

definition muart_set_Parity :: "('d, 'a) line_ops_scheme \<Rightarrow> 'd \<Rightarrow> int \<Rightarrow> int \<Rightarrow> int \<Rightarrow> int \<times> 'd" where
  "muart_set_Parity ops d databits stopbits parity =
     (case Option.bind (tc_get ops d) (frame_conf databits stopbits parity) of None \<Rightarrow> (-1, d)
      | Some t \<Rightarrow> (case tc_set ops d t of None \<Rightarrow> (-1, d) | Some d \<Rightarrow> (0, d)))"

definition make_raw :: "termios \<Rightarrow> termios" where
  "make_raw t = t\<lparr>c_lflag := c_lflag t AND NOT (ECHO OR ICANON OR IEXTEN OR ISIG),
     c_iflag := c_iflag t AND NOT (BRKINT OR ICRNL OR INPCK OR ISTRIP OR IXON),
     c_cflag := c_cflag t AND NOT (CSIZE OR PARENB) OR CS8,
     c_oflag := c_oflag t AND NOT OPOST, vmin := 1, vtime := 0\<rparr>"

definition is_raw :: "termios \<Rightarrow> bool" where
  "is_raw t \<longleftrightarrow> c_lflag t AND (ECHO OR ICANON OR IEXTEN OR ISIG) = 0 \<and>
     c_iflag t AND (BRKINT OR ICRNL OR INPCK OR ISTRIP OR IXON) = 0 \<and>
     c_cflag t AND (CSIZE OR PARENB OR CS8) = CS8 \<and> c_oflag t AND OPOST = 0 \<and> vmin t = 1 \<and> vtime t = 0"

text \<open>Setting back the old settings, whether or not it works.\<close>

definition restore :: "('d, 'a) line_ops_scheme \<Rightarrow> 'd \<Rightarrow> termios \<Rightarrow> 'd" where
  "restore ops d t = (case tc_set ops d t of None \<Rightarrow> d | Some d \<Rightarrow> d)"

text \<open>\<open>tty_raw\<close> also stores the old settings through a pointer; that result is a null pointer when it does not.\<close>

definition muart_tty_raw :: "('d, 'a) line_ops_scheme \<Rightarrow> 'd \<Rightarrow> int \<times> termios option \<times> 'd" where
  "muart_tty_raw ops d = (case tc_get ops d of None \<Rightarrow> (-1, None, d)
   | Some old \<Rightarrow> (case tc_set ops d (make_raw old) of None \<Rightarrow> (-1, Some old, d)
       | Some d \<Rightarrow> (case tc_get ops d of None \<Rightarrow> (-1, Some old, restore ops d old)
           | Some t \<Rightarrow> if is_raw t then (0, Some old, d) else (-1, Some old, restore ops d old))))"

subsection \<open>Opening and closing\<close>

definition WRITE_MAX_BYTES :: int where "WRITE_MAX_BYTES = 128"
definition PATH_LEN :: nat where "PATH_LEN = 16"

record muart =
  m_fd :: int
  m_baudrate :: int
  m_databits :: int
  m_stopbits :: int
  m_parity :: int
  m_dev :: "byte list"
  m_old_conf :: termios
  write_max_bytes_once :: int

text \<open>
  The process has a set of open descriptors; \<open>open\<close> is a parameter: the descriptor it returns, negative when it fails.
  The name of the device does not end within 16 bytes when it is that long.
\<close>

definition muart_open :: "('d, 'a) line_ops_scheme \<Rightarrow> muart option \<Rightarrow> byte list \<Rightarrow> int \<Rightarrow> int set \<times> 'd \<Rightarrow> (int \<times> muart option \<times> int set \<times> 'd) option" where
  "muart_open ops m dev fd = (\<lambda>(fds, d). case m of None \<Rightarrow> Some (-1, None, fds, d)
   | Some u \<Rightarrow>
       if fd < 0 then Some (-1, m, fds, d)
       else (let fds = insert fd fds; (r, old, d) = muart_tty_raw ops d; u = (case old of None \<Rightarrow> u | Some t \<Rightarrow> u\<lparr>m_old_conf := t\<rparr>) in
         if r < 0 then Some (-1, Some u, fds - {fd}, d)
         else do {
           name \<leftarrow> c_strncpy (m_dev u) dev PATH_LEN;
           Some (0, Some (u\<lparr>m_fd := fd, m_dev := name, write_max_bytes_once := WRITE_MAX_BYTES\<rparr>), fds, d) }))"

definition muart_setup :: "('d, 'a) line_ops_scheme \<Rightarrow> muart option \<Rightarrow> int \<Rightarrow> int \<Rightarrow> int \<Rightarrow> int \<Rightarrow> 'd \<Rightarrow> (int \<times> muart option \<times> 'd) option" where
  "muart_setup ops m speed data stop par d = (case m of None \<Rightarrow> Some (-1, None, d)
   | Some u \<Rightarrow> do {
       (r, d) \<leftarrow> muart_set_speed ops d speed;
       if r < 0 then Some (-1, m, d)
       else (let (r, d) = muart_set_Parity ops d data stop par in
         if r < 0 then Some (-1, m, d)
         else Some (0, Some (u\<lparr>m_baudrate := speed, m_databits := data, m_stopbits := stop, m_parity := par\<rparr>), d)) })"

definition muart_close :: "('d, 'a) line_ops_scheme \<Rightarrow> muart option \<Rightarrow> int set \<times> 'd \<Rightarrow> int \<times> int set \<times> 'd" where
  "muart_close ops m = (\<lambda>(fds, d). case m of None \<Rightarrow> (-1, fds, d)
   | Some u \<Rightarrow> (0, fds - {m_fd u}, restore ops d (m_old_conf u)))"

subsection \<open>Reading and writing\<close>

text \<open>
  What the system answers to the calls of \<open>select\<close> and \<open>read\<close>, one answer per round: no byte in time, an error, or
  the bytes that have come, of which \<open>read\<close> takes no more than it is asked for. No bytes is the end of the file.
\<close>

datatype arrival = Timeout | Read_error | Arrive "byte list"

fun muart_read_timeout :: "nat \<Rightarrow> arrival list \<Rightarrow> (byte list option \<times> arrival list) option" where
  "muart_read_timeout n [] = None"
| "muart_read_timeout n (Arrive bs # es) =
     Some (Some (take n bs), if n < length bs then Arrive (drop n bs) # es else es)"
| "muart_read_timeout n (e # es) = Some (None, es)"

lemma arrived: "muart_read_timeout n es = Some (Some bs, es') \<Longrightarrow> length bs \<le> n"
  by (cases "(n, es)" rule: muart_read_timeout.cases) auto

text \<open>The loop of \<open>muart_read_nbytes\<close>, with the bytes read so far; \<open>nleft\<close> is what is missing to \<open>nbytes\<close>.\<close>

function read_loop :: "nat \<Rightarrow> byte list \<Rightarrow> arrival list \<Rightarrow> (int \<times> byte list \<times> arrival list) option" where
  "read_loop nbytes got es =
     (if length got < nbytes then
        (case muart_read_timeout (nbytes - length got) es of None \<Rightarrow> None
         | Some (None, es) \<Rightarrow> Some (if got = [] then -1 else int (length got), got, es)
         | Some (Some bs, es) \<Rightarrow> if bs = [] then Some (int (length got), got, es) else read_loop nbytes (got @ bs) es)
      else Some (int (length got), got, es))"
  by pat_completeness auto
termination
  by (relation "measure (\<lambda>(n, got, es). n - length got)") (auto simp: length_greater_0_conv [symmetric] simp del: length_greater_0_conv)

declare read_loop.simps [simp del]

definition muart_read_nbytes :: "nat \<Rightarrow> arrival list \<Rightarrow> (int \<times> byte list \<times> arrival list) option" where
  "muart_read_nbytes nbytes es = read_loop nbytes [] es"

text \<open>
  The loop of \<open>muart_write\<close>: \<open>rs\<close> are the results of the calls of \<open>write\<close>, negative for an error, else the number of
  bytes taken. The second result is what the line got, the third the answers that are left. When \<open>write\<close> takes nothing the
  loop goes on.
\<close>

fun write_loop :: "nat \<Rightarrow> byte list \<Rightarrow> byte list \<Rightarrow> int list \<Rightarrow> (int \<times> byte list \<times> int list) option" where
  "write_loop most buf sent [] = None"
| "write_loop most buf sent (r # rs) = (let nleft = length buf - length sent; nwrite = min nleft most in
     if r < 0 then Some (if nleft = length buf then -1 else int (length sent), sent, rs)
     else if int nwrite < r then None
     else (let sent = sent @ take (nat r) (drop (length sent) buf) in
       if length sent < length buf then write_loop most buf sent rs else Some (int (length sent), sent, rs)))"

definition muart_write :: "muart \<Rightarrow> byte list \<Rightarrow> int list \<Rightarrow> (int \<times> byte list \<times> int list) option" where
  "muart_write m buf rs = write_loop (nat (write_max_bytes_once m)) buf [] rs"

subsection \<open>The frame that is set\<close>

lemmas masked = and.assoc word_ao_dist

lemma data_bits_flags:
  assumes "data_bits n t = Some t'"
  shows "n \<in> {7, 8} \<and> c_cflag t' AND CSIZE = (if n = 7 then CS7 else CS8)"
  using assms by (auto simp: data_bits_def tty_flags Let_def masked split: if_splits)

lemma parity_bits_flags:
  assumes "parity_bits p t = Some t'"
  shows "p \<in> {110, 78, 111, 79, 101, 69, 83, 115} \<and> c_cflag t' AND CSIZE = c_cflag t AND CSIZE \<and>
    (c_cflag t' AND PARENB = (if p \<in> {111, 79, 101, 69} then PARENB else 0)) \<and>
    (p \<in> {111, 79, 101, 69} \<longrightarrow> c_cflag t' AND PARODD = (if p \<in> {111, 79} then PARODD else 0)) \<and>
    (p \<in> {110, 78} \<longrightarrow> c_iflag t' AND INPCK = 0)"
  using assms by (auto simp: parity_bits_def tty_flags masked split: if_splits)

lemma stop_bits_flags:
  assumes "stop_bits n t = Some t'"
  shows "n \<in> {1, 2} \<and> c_cflag t' AND CSTOPB = (if n = 2 then CSTOPB else 0) \<and> c_cflag t' AND CSIZE = c_cflag t AND CSIZE \<and>
    c_cflag t' AND PARENB = c_cflag t AND PARENB \<and> c_cflag t' AND PARODD = c_cflag t AND PARODD \<and> c_iflag t' = c_iflag t"
  using assms by (auto simp: stop_bits_def tty_flags masked split: if_splits)

lemma frame_conf_flags:
  assumes "frame_conf databits stopbits p t = Some t'"
  shows "databits \<in> {7, 8} \<and> stopbits \<in> {1, 2} \<and> p \<in> {110, 78, 111, 79, 101, 69, 83, 115} \<and>
    c_cflag t' AND CSIZE = (if databits = 7 then CS7 else CS8) \<and>
    c_cflag t' AND CSTOPB = (if stopbits = 2 then CSTOPB else 0) \<and>
    c_cflag t' AND PARENB = (if p \<in> {111, 79, 101, 69} then PARENB else 0) \<and>
    (p \<in> {111, 79, 101, 69} \<longrightarrow> c_cflag t' AND PARODD = (if p \<in> {111, 79} then PARODD else 0)) \<and>
    c_iflag t' AND INPCK = (if p = 110 then 0 else INPCK) \<and> vmin t' = 1 \<and> vtime t' = 0"
proof -
  obtain t1 t2 t3 where t: "data_bits databits t = Some t1" "parity_bits p t1 = Some t2" "stop_bits stopbits t2 = Some t3"
      "t' = (if p \<noteq> 110 then t3\<lparr>c_iflag := c_iflag t3 OR INPCK\<rparr> else t3)\<lparr>vtime := 0, vmin := 1\<rparr>"
    using assms by (auto simp: frame_conf_def Let_def bind_eq_Some_conv)
  have i: "(w OR INPCK) AND INPCK = INPCK" for w :: "32 word" by (simp add: word_ao_absorbs)
  show ?thesis
    using data_bits_flags [OF t(1)] parity_bits_flags [OF t(2)] stop_bits_flags [OF t(3)] by (simp add: t(4) i)
qed

lemma frame_conf_supported:
  assumes "databits \<in> {7, 8}" and "stopbits \<in> {1, 2}" and "p \<in> {110, 78, 111, 79, 101, 69, 83, 115}"
  shows "\<exists>t'. frame_conf databits stopbits p t = Some t'"
proof -
  obtain t1 where t1: "data_bits databits t = Some t1" using assms(1) by (auto simp: data_bits_def Let_def)
  obtain t2 where t2: "parity_bits p t1 = Some t2" using assms(3) by (auto simp: parity_bits_def)
  obtain t3 where t3: "stop_bits stopbits t2 = Some t3" using assms(2) by (auto simp: stop_bits_def)
  show ?thesis by (simp add: frame_conf_def Let_def t1 t2 t3)
qed

text \<open>What is not part of the frame of a byte: speeds, local and output flags and the other input and control flags.\<close>

definition others_kept :: "termios \<Rightarrow> termios \<Rightarrow> bool" where
  "others_kept t t' \<longleftrightarrow>
     c_cflag t' AND NOT (CSIZE OR CSTOPB OR PARENB OR PARODD) = c_cflag t AND NOT (CSIZE OR CSTOPB OR PARENB OR PARODD) \<and>
     c_iflag t' AND NOT INPCK = c_iflag t AND NOT INPCK \<and> c_lflag t' = c_lflag t \<and> c_oflag t' = c_oflag t \<and>
     ispeed t' = ispeed t \<and> ospeed t' = ospeed t"

lemma frame_conf_others:
  assumes "frame_conf databits stopbits p t = Some t'"
  shows "others_kept t t'"
proof -
  have trans: "others_kept a b \<Longrightarrow> others_kept b c \<Longrightarrow> others_kept a c" for a b c by (simp add: others_kept_def)
  obtain t1 t2 t3 where t: "data_bits databits t = Some t1" "parity_bits p t1 = Some t2" "stop_bits stopbits t2 = Some t3"
      "t' = (if p \<noteq> 110 then t3\<lparr>c_iflag := c_iflag t3 OR INPCK\<rparr> else t3)\<lparr>vtime := 0, vmin := 1\<rparr>"
    using assms by (auto simp: frame_conf_def Let_def bind_eq_Some_conv)
  have "others_kept t t1" using t(1) by (auto simp: data_bits_def Let_def others_kept_def tty_flags masked split: if_splits)
  moreover have "others_kept t1 t2" using t(2) by (auto simp: parity_bits_def others_kept_def tty_flags masked split: if_splits)
  moreover have "others_kept t2 t3" using t(3) by (auto simp: stop_bits_def others_kept_def tty_flags masked split: if_splits)
  moreover have "others_kept t3 t'" unfolding t(4) by (simp add: others_kept_def tty_flags masked)
  ultimately show ?thesis using trans by blast
qed

text \<open>
  C29. \<open>set_Parity\<close> for 7 or 8 data bits, 1 or 2 stop bits and a parity of \<open>nNoOeEsS\<close>: when \<open>tcgetattr\<close> gives settings,
  \<open>tcsetattr\<close> is called once, with settings that have that byte size, the second stop bit for 2, the parity bit for
  \<open>oOeE\<close>, odd for \<open>oO\<close>, the check of the parity on input for all but a small \<open>n\<close> (also for the \<open>N\<close> that the modem
  is set up with, and for \<open>sS\<close>), reads of at least one byte without a timeout, and everything else as it was; the result is
  0, and the line is what \<open>tcsetattr\<close> made of it, if that call succeeds. In every other case, an unsupported value or a
  call of the driver that fails, it is -1 and the line is as it was. Nothing is assumed of the driver.
\<close>

theorem muart_set_Parity_sets_frame:
  "if databits \<in> {7, 8} \<and> stopbits \<in> {1, 2} \<and> p \<in> {110, 78, 111, 79, 101, 69, 83, 115}
   then case tc_get ops d of None \<Rightarrow> muart_set_Parity ops d databits stopbits p = (-1, d)
     | Some t \<Rightarrow> \<exists>t'. muart_set_Parity ops d databits stopbits p = (case tc_set ops d t' of None \<Rightarrow> (-1, d) | Some d' \<Rightarrow> (0, d')) \<and>
        c_cflag t' AND CSIZE = (if databits = 7 then CS7 else CS8) \<and>
        c_cflag t' AND CSTOPB = (if stopbits = 2 then CSTOPB else 0) \<and>
        c_cflag t' AND PARENB = (if p \<in> {111, 79, 101, 69} then PARENB else 0) \<and>
        (if p \<in> {111, 79} then c_cflag t' AND PARODD = PARODD else if p \<in> {101, 69} then c_cflag t' AND PARODD = 0 else True) \<and>
        c_iflag t' AND INPCK = (if p = 110 then 0 else INPCK) \<and> vmin t' = 1 \<and> vtime t' = 0 \<and> others_kept t t'
   else muart_set_Parity ops d databits stopbits p = (-1, d)"
proof (cases "databits \<in> {7, 8} \<and> stopbits \<in> {1, 2} \<and> p \<in> {110, 78, 111, 79, 101, 69, 83, 115}")
  case False
  then have "frame_conf databits stopbits p t = None" for t
    using frame_conf_flags [of databits stopbits p t] by (cases "frame_conf databits stopbits p t") blast+
  then have "muart_set_Parity ops d databits stopbits p = (-1, d)"
    by (cases "tc_get ops d") (simp_all add: muart_set_Parity_def)
  then show ?thesis unfolding if_not_P [OF False] .
next
  case True
  show ?thesis
  proof (cases "tc_get ops d")
    case None
    with True show ?thesis by (simp add: muart_set_Parity_def)
  next
    case (Some t)
    obtain t' where t': "frame_conf databits stopbits p t = Some t'" using frame_conf_supported True by blast
    have p: "(if p \<in> {111, 79} then c_cflag t' AND PARODD = PARODD else if p \<in> {101, 69} then c_cflag t' AND PARODD = 0 else True)"
      using frame_conf_flags [OF t'] by auto
    have run: "muart_set_Parity ops d databits stopbits p = (case tc_set ops d t' of None \<Rightarrow> (-1, d) | Some d' \<Rightarrow> (0, d'))"
      by (simp add: muart_set_Parity_def Some t')
    show ?thesis unfolding if_P [OF True] Some option.case
      by (rule exI [of _ t']) (use run p frame_conf_flags [OF t'] frame_conf_others [OF t'] in blast)
  qed
qed

text \<open>A line whose driver takes everything; its state is its settings.\<close>

definition plain_line :: "termios line_ops" where
  "plain_line = \<lparr>tc_get = Some, tc_set = (\<lambda>d t. Some t)\<rparr>"

definition zero_conf :: termios where
  "zero_conf = \<lparr>c_iflag = 0, c_oflag = 0, c_cflag = 0, c_lflag = 0, vmin = 0, vtime = 0, ispeed = 0, ospeed = 0\<rparr>"

theorem muart_set_Parity_sets_frame_witness:
  "\<exists>t'. muart_set_Parity plain_line zero_conf 8 1 78 = (0, t') \<and> c_iflag t' AND INPCK = INPCK \<and> c_cflag t' AND CSIZE = CS8"
  using muart_set_Parity_sets_frame [of 8 1 78 plain_line zero_conf] by (auto simp: plain_line_def)

subsection \<open>Opening and closing leave no trace\<close>

text \<open>A driver that takes back the settings it had, whatever it does with others.\<close>

definition restores :: "('d, 'a) line_ops_scheme \<Rightarrow> termios \<Rightarrow> bool" where
  "restores ops t \<longleftrightarrow> (\<forall>d. \<exists>d'. tc_set ops d t = Some d' \<and> tc_get ops d' = Some t)"

lemma restore_restores: "restores ops t \<Longrightarrow> tc_get ops (restore ops d t) = Some t"
proof -
  assume "restores ops t"
  then obtain d' where "tc_set ops d t = Some d'" "tc_get ops d' = Some t" unfolding restores_def by blast
  then show ?thesis by (simp add: restore_def)
qed

lemma muart_tty_raw_result:
  assumes "restores ops t" and "tc_get ops d = Some t" and "muart_tty_raw ops d = (r, old, d')"
  shows "old = Some t \<and> (r = -1 \<and> tc_get ops d' = Some t \<or> r = 0 \<and> (\<exists>t'. tc_get ops d' = Some t' \<and> is_raw t'))"
  using assms by (auto simp: muart_tty_raw_def restore_restores split: option.splits if_splits)

lemma muart_open_result:
  assumes "restores ops t" and "tc_get ops d = Some t" and "fd \<notin> fds" and "muart_open ops (Some u) dev fd (fds, d) = Some (r, m', fds', d')"
  shows "r = -1 \<and> fds' = fds \<and> tc_get ops d' = Some t \<or>
    r = 0 \<and> fds' = insert fd fds \<and> (\<exists>t'. tc_get ops d' = Some t' \<and> is_raw t') \<and>
      (\<exists>u'. m' = Some u' \<and> m_fd u' = fd \<and> m_old_conf u' = t \<and> write_max_bytes_once u' = WRITE_MAX_BYTES)"
proof (cases "fd < 0")
  case True
  then show ?thesis using assms by (simp add: muart_open_def)
next
  case False
  obtain r1 old d1 where raw: "muart_tty_raw ops d = (r1, old, d1)" by (metis prod_cases3)
  note res = muart_tty_raw_result [OF assms(1,2) raw]
  show ?thesis using False res assms(3,4) raw
    by (auto simp: muart_open_def Let_def bind_eq_Some_conv split: if_splits)
qed

lemma muart_setup_keeps:
  assumes "muart_setup ops (Some u) speed db sb p d = Some (r, m', d')"
  shows "\<exists>u'. m' = Some u' \<and> m_fd u' = m_fd u \<and> m_old_conf u' = m_old_conf u \<and> write_max_bytes_once u' = write_max_bytes_once u"
  using assms by (auto simp: muart_setup_def Let_def bind_eq_Some_conv split: prod.splits if_splits)

lemma muart_close_result:
  assumes "restores ops (m_old_conf u)"
  shows "case muart_close ops (Some u) (fds, d) of (c, fds', d') \<Rightarrow> c = 0 \<and> fds' = fds - {m_fd u} \<and> tc_get ops d' = Some (m_old_conf u)"
  using restore_restores [OF assms] by (simp add: muart_close_def)

text \<open>
  C30. When \<open>muart_open\<close> fails, the descriptor is closed again and the line has its old settings. When it succeeds the line is in
  raw mode, and \<open>muart_close\<close> closes the descriptor and gives the line its old settings back, whether a
  \<open>muart_setup\<close> in between succeeded or not. The driver need not take any other settings as they are.
\<close>

theorem muart_open_setup_close:
  assumes "restores ops t" and "tc_get ops d = Some t" and "fd \<notin> fds" and "muart_open ops (Some u) dev fd (fds, d) = Some (r, m', fds', d')"
  shows "(r = -1 \<and> fds' = fds \<and> tc_get ops d' = Some t) \<or>
    (r = 0 \<and> fd \<in> fds' \<and> (\<exists>t'. tc_get ops d' = Some t' \<and> is_raw t') \<and>
     (\<forall>speed db sb p r2 m2 d2. muart_setup ops m' speed db sb p d' = Some (r2, m2, d2) \<longrightarrow>
       (case muart_close ops m2 (fds', d2) of (c, fds3, d3) \<Rightarrow> c = 0 \<and> fds3 = fds \<and> tc_get ops d3 = Some t)))"
  using muart_open_result [OF assms]
proof (elim disjE conjE exE)
  fix u' t'
  assume r: "r = 0" "fds' = insert fd fds" "tc_get ops d' = Some t'" "is_raw t'" "m' = Some u'" "m_fd u' = fd" "m_old_conf u' = t"
  have "case muart_close ops m2 (fds', d2) of (c, fds3, d3) \<Rightarrow> c = 0 \<and> fds3 = fds \<and> tc_get ops d3 = Some t"
    if s: "muart_setup ops m' speed db sb p d' = Some (r2, m2, d2)" for speed db sb p r2 m2 d2
  proof -
    obtain u2 where u2: "m2 = Some u2" "m_fd u2 = fd" "m_old_conf u2 = t" using muart_setup_keeps [OF s [unfolded r(5)]] r by auto
    then show ?thesis using muart_close_result [of ops u2 fds' d2] assms(1,3) r(2) by auto
  qed
  then show ?thesis using r by auto
qed simp

subsection \<open>What is read and written\<close>

text \<open>The bytes that come before a timeout, an error or the end of the file.\<close>

fun available :: "arrival list \<Rightarrow> byte list" where
  "available (Arrive bs # es) = (if bs = [] then [] else bs @ available es)"
| "available es = []"

fun fails_first :: "arrival list \<Rightarrow> bool" where
  "fails_first (Timeout # es) = True"
| "fails_first (Read_error # es) = True"
| "fails_first es = False"

definition stops :: "arrival list \<Rightarrow> bool" where
  "stops es \<longleftrightarrow> Timeout \<in> set es \<or> Read_error \<in> set es \<or> Arrive [] \<in> set es"

lemma stops_simps [simp]: "\<not> stops []" "stops (Timeout # es)" "stops (Read_error # es)" "stops (Arrive bs # es) \<longleftrightarrow> bs = [] \<or> stops es"
  by (auto simp: stops_def)

lemma read_loop_full: "n \<le> length got \<Longrightarrow> read_loop n got es = Some (int (length got), got, es)"
  by (simp add: read_loop.simps)

lemma read_loop_reads:
  assumes "length got \<le> n" and "n \<le> length got + length (available es) \<or> stops es"
  shows "\<exists>es'. read_loop n got es = Some
    (if got = [] \<and> 0 < n \<and> fails_first es then -1 else int (length (take n (got @ available es))),
     take n (got @ available es), es')"
  using assms
proof (induction es arbitrary: got)
  case Nil
  then show ?case by (simp add: read_loop_full)
next
  case (Cons e es)
  show ?case
  proof (cases "length got = n")
    case True
    then show ?thesis by (auto simp: read_loop_full)
  next
    case False
    then have l: "length got < n" using Cons.prems by simp
    show ?thesis
    proof (cases e)
      case (Arrive bs)
      show ?thesis
      proof (cases "n - length got \<le> length bs")
        case True
        then show ?thesis using l Arrive by (subst read_loop.simps) (auto simp: read_loop_full)
      next
        case short: False
        have "\<exists>es'. read_loop n (got @ bs) es = Some
          (if got @ bs = [] \<and> 0 < n \<and> fails_first es then -1 else int (length (take n ((got @ bs) @ available es))),
           take n ((got @ bs) @ available es), es')" if "bs \<noteq> []"
          using Cons.prems short that l Arrive by (intro Cons.IH) auto
        then show ?thesis using l Arrive short by (subst read_loop.simps) auto
      qed
    qed (use l in \<open>simp_all add: read_loop.simps\<close>)
  qed
qed

lemma muart_read_reads:
  assumes "n \<le> length (available es) \<or> stops es"
  shows "\<exists>es'. muart_read_nbytes n es = Some
    (if 0 < n \<and> fails_first es then -1 else int (length (take n (available es))), take n (available es), es')"
  using read_loop_reads [of "[]" n es] assms by (simp only: muart_read_nbytes_def append_Nil list.size add_0 le0 simp_thms)

text \<open>
  C31. \<open>muart_read_nbytes\<close> returns as soon as \<open>nbytes\<close> bytes have come, or the line has been silent for the timeout, has failed or has
  ended: it has read exactly the first \<open>nbytes\<close> of the bytes that came before that, however they were split
  over the calls of \<open>read\<close>, and returns their number, or -1 if the first call already timed out or failed.
\<close>

theorem muart_read_nbytes_reads:
  assumes "n \<le> length (available es) \<or> stops es"
  shows "\<exists>es'. muart_read_nbytes n es = Some
    (if 0 < n \<and> fails_first es then -1 else int (length (take n (available es))), take n (available es), es')"
  by (rule muart_read_reads [OF assms])

lemma write_loop_sends:
  assumes "write_loop most buf sent rs = Some (r, sent', rs')" and "sent = take (length sent) buf"
  shows "sent' = take (length sent') buf \<and> (r = int (length sent') \<or> r = -1 \<and> sent' = []) \<and> (r < int (length buf) \<longrightarrow> (\<exists>x \<in> set rs. x < 0))"
  using assms
proof (induction most buf sent rs rule: write_loop.induct)
  case (2 most buf sent x rs)
  have l: "length sent \<le> length buf" using 2(3) by (metis length_take min.cobounded1 min.commute)
  show ?case
  proof (cases "x < 0")
    case True
    moreover have "length buf - length sent = length buf \<Longrightarrow> sent = []" using l 2(3) by (cases sent) auto
    ultimately show ?thesis using 2 l by (auto simp: Let_def split: if_splits)
  next
    case False
    let ?s = "sent @ take (nat x) (drop (length sent) buf)"
    have s: "?s = take (length ?s) buf"
      using 2(3) l by (metis append_take_drop_id append_eq_conv_conj take_add length_append min.cobounded1 take_append)
    have fits: "\<not> int (min (length buf - length sent) most) < x" using 2(2) False by (auto simp: Let_def split: if_splits)
    show ?thesis
    proof (cases "length ?s < length buf")
      case True
      have "write_loop most buf ?s rs = Some (r, sent', rs')" using 2(2) False fits True by (simp add: Let_def)
      then show ?thesis using 2(1) [OF refl refl False fits refl True _ s] by simp
    next
      case all: False
      moreover have "\<not> int (length buf - length sent) < x" using fits by simp
      ultimately have "sent' = ?s" "r = int (length ?s)" using 2(2) False fits l by (auto simp: Let_def)
      then show ?thesis using s all l by simp
    qed
  qed
qed simp

lemma write_loop_stuck: "length sent < length buf \<Longrightarrow> write_loop most buf sent (replicate k 0) = None"
  by (induction k) (simp_all add: Let_def)

text \<open>
  What \<open>muart_write\<close> has sent is a prefix of the buffer and it returns its length, or -1 if nothing was sent; it is less
  than the whole only after an error. But when the line takes no byte and gives no error, it never returns.
\<close>

theorem muart_write_sends:
  assumes "muart_write m buf rs = Some (r, sent, rs')"
  shows "sent = take (length sent) buf \<and> (r = int (length sent) \<or> r = -1 \<and> sent = []) \<and>
    (r < int (length buf) \<longrightarrow> (\<exists>x \<in> set rs. x < 0)) \<and>
    (buf \<noteq> [] \<longrightarrow> (\<forall>k. muart_write m buf (replicate k 0) = None))"
  using write_loop_sends [of _ buf "[]" rs r sent rs'] assms write_loop_stuck [of "[]" buf] by (simp add: muart_write_def)

text \<open>A port that has just been made, with a zeroed name.\<close>

definition zero_port :: muart where
  "zero_port = \<lparr>m_fd = 0, m_baudrate = 0, m_databits = 0, m_stopbits = 0, m_parity = 0, m_dev = replicate PATH_LEN 0,
     m_old_conf = zero_conf, write_max_bytes_once = 0\<rparr>"

lemma plain_restores: "restores plain_line t"
  by (simp add: restores_def plain_line_def)

theorem muart_open_setup_close_witness:
  "\<exists>u d'. muart_open plain_line (Some zero_port) [47, 0] 3 ({}, zero_conf) = Some (0, Some u, {3}, d') \<and>
    (\<exists>d2. muart_setup plain_line (Some u) 115200 9 1 78 d' = Some (-1, Some u, d2) \<and>
      (case muart_close plain_line (Some u) ({3}, d2) of (c, fds, d) \<Rightarrow> fds = {} \<and> tc_get plain_line d = Some zero_conf))"
proof -
  define r where "r = muart_open plain_line (Some zero_port) [47, 0] 3 ({}, zero_conf)"
  have "c_strncpy (m_dev zero_port) [47, 0] PATH_LEN = Some (47 # replicate 15 0)" by code_simp
  then obtain u d' where o: "r = Some (0, Some u, {3}, d')"
    by (simp add: r_def muart_open_def muart_tty_raw_def plain_line_def zero_conf_def make_raw_def is_raw_def tty_flags Let_def)
  obtain m2 d2 where s: "muart_setup plain_line (Some u) 115200 9 1 78 d' = Some (-1, m2, d2)" "m2 = Some u"
    by (simp add: muart_setup_def muart_set_speed_def muart_set_Parity_def plain_line_def name_arr_def frame_conf_def data_bits_def Let_def)
  have "tc_get plain_line zero_conf = Some zero_conf" by (simp add: plain_line_def)
  from muart_open_setup_close [OF plain_restores this _ o [unfolded r_def]]
  have "\<forall>speed db sb p r2 m2 d2. muart_setup plain_line (Some u) speed db sb p d' = Some (r2, m2, d2) \<longrightarrow>
      (case muart_close plain_line m2 ({3}, d2) of (c, fds3, d3) \<Rightarrow> c = 0 \<and> fds3 = {} \<and> tc_get plain_line d3 = Some zero_conf)"
    by simp
  from this [rule_format, OF s(1)] have "case muart_close plain_line (Some u) ({3}, d2) of (c, fds3, d3) \<Rightarrow> fds3 = {} \<and> tc_get plain_line d3 = Some zero_conf"
    using s(2) by (simp split: prod.splits)
  then show ?thesis using o s by (auto simp: r_def)
qed

theorem muart_read_nbytes_reads_witness:
  "\<exists>es'. muart_read_nbytes 4 [Arrive [79], Arrive [75, 13], Timeout] = Some (3, [79, 75, 13], es')"
  using muart_read_nbytes_reads [of 4 "[Arrive [79], Arrive [75, 13], Timeout]"] by simp

theorem muart_write_sends_witness:
  "muart_write (zero_port\<lparr>write_max_bytes_once := 2\<rparr>) [65, 84, 13] [2, -1] = Some (2, [65, 84], []) \<and> [65, 84] = take (length [65 :: byte, 84]) [65 :: byte, 84, 13]"
proof -
  have w: "muart_write (zero_port\<lparr>write_max_bytes_once := 2\<rparr>) [65, 84, 13] [2, -1] = Some (2, [65, 84], [])"
    by (simp add: muart_write_def Let_def)
  then show ?thesis using muart_write_sends [OF w] by simp
qed

end
