(* ===== verification/Modem.thy ===== *)
theory Modem
  imports SerialPort
begin

section \<open>The AT commands of the modem\<close>

text \<open>
  \<open>LTE/at/mat.c\<close>: commands are written to the serial port, replies of at most 64 bytes are read and searched for
  what is expected. The answers of the system to the calls of \<open>write\<close>, \<open>select\<close> and \<open>read\<close> are the lists of
  \<open>io\<close>; \<open>commands\<close> keeps what was sent. Text that is only printed is left out.
\<close>

definition AT_MAX_LEN :: nat where "AT_MAX_LEN = 64"

definition SIM_ZERO :: int where "SIM_ZERO = 0"
definition SIM_READY :: int where "SIM_READY = 2"
definition SIM_REGISTER :: int where "SIM_REGISTER = 4"


record msim =
  ms_state :: int
  ms_signal :: int
  ms_operator :: "byte list"

record mat_uart =
  mat_muart :: muart
  mat_msim :: msim

record io =
  answers :: "int list"
  arrivals :: "arrival list"
  commands :: "byte list list"

definition send_at_cmd :: "muart \<Rightarrow> byte list \<Rightarrow> byte list \<Rightarrow> byte list option \<Rightarrow> int \<Rightarrow> io \<Rightarrow> (int \<times> byte list option \<times> io) option" where
  "send_at_cmd m at_cmd expect msg msg_size io = do {
     (written, sent, rs) \<leftarrow> muart_write m at_cmd (answers io);
     let io = io\<lparr>answers := rs, commands := commands io @ [sent]\<rparr>;
     if written < 0 then Some (-1, msg, io)
     else do {
       (n, got, es) \<leftarrow> muart_read_nbytes AT_MAX_LEN (arrivals io);
       let io = io\<lparr>arrivals := es\<rparr>;
       if n \<le> 0 then Some (-1, msg, io)
       else do {
         let buf = got @ replicate (AT_MAX_LEN - length got) 0;
         found \<leftarrow> c_strstr buf expect;
         if found = None then Some (-1, msg, io)
         else (case msg of None \<Rightarrow> Some (0, msg, io)
           | Some b \<Rightarrow> (let buf = buf[AT_MAX_LEN - 1 := 0] in
               if 0 < msg_size then do {
                 b \<leftarrow> c_strncpy b buf (if int AT_MAX_LEN < msg_size then AT_MAX_LEN else nat msg_size);
                 Some (0, Some b, io) }
               else Some (0, msg, io))) } } }"

text \<open>A command that asks for the reply, in a zeroed buffer of 64 bytes whose last byte is then set to NUL.\<close>

definition ask :: "muart \<Rightarrow> byte list \<Rightarrow> byte list \<Rightarrow> io \<Rightarrow> (int \<times> byte list \<times> io) option" where
  "ask m at_cmd expect io = do {
     (r, msg, io) \<leftarrow> send_at_cmd m at_cmd expect (Some (replicate AT_MAX_LEN 0)) (int AT_MAX_LEN) io;
     buf \<leftarrow> msg;
     Some (r, buf[AT_MAX_LEN - 1 := 0], io) }"

definition AT_CSQ :: "byte list" where "AT_CSQ = lit ''AT+CSQ'' @ [13]"

definition check_at_ok :: "muart \<Rightarrow> io \<Rightarrow> (int \<times> io) option" where
  "check_at_ok m io = do {
     (r, msg, io) \<leftarrow> send_at_cmd m (lit ''AT'' @ [13]) (lit ''OK'') None 0 io;
     Some (if r \<noteq> 0 then -1 else 0, io) }"

definition check_sim_ready :: "muart \<Rightarrow> io \<Rightarrow> (int \<times> io) option" where
  "check_sim_ready m io = do {
     (r, msg, io) \<leftarrow> send_at_cmd m (lit ''AT+CPIN?'' @ [13]) (lit ''READY'') None 0 io;
     Some (r, io) }"

text \<open>The two characters before the first comma, as far as they are digits. Before the buffer there is nothing to read.\<close>

definition digit_at :: "byte list \<Rightarrow> int \<Rightarrow> int option" where
  "digit_at buf i = do { b \<leftarrow> rd buf i; Some (sint b - 48) }"

definition csq_signal :: "byte list \<Rightarrow> int option" where
  "csq_signal buf = (let s = c_str buf; i = length (takeWhile (\<lambda>b. b \<noteq> 44) s) in
     if i = length s then Some 0
     else do {
       tmp \<leftarrow> digit_at buf (int i - 1);
       let signal = (if 0 \<le> tmp \<and> tmp \<le> 9 then tmp else 0);
       tmp \<leftarrow> digit_at buf (int i - 2);
       Some (if 0 \<le> tmp \<and> tmp \<le> 9 then signal + tmp * 10 else signal) })"

definition check_sim_signal :: "muart \<Rightarrow> msim \<Rightarrow> io \<Rightarrow> (int \<times> msim \<times> io) option" where
  "check_sim_signal m ms io = do {
     (r, buf, io) \<leftarrow> ask m AT_CSQ (lit ''+CSQ'') io;
     if r < 0 then Some (-1, ms, io)
     else do {
       signal \<leftarrow> csq_signal buf;
       if signal < 7 \<or> signal = 99 then Some (-1, ms, io)
       else Some (0, ms\<lparr>ms_signal := signal\<rparr>, io) } }"

definition check_sim_register :: "muart \<Rightarrow> io \<Rightarrow> (int \<times> io) option" where
  "check_sim_register m io = do {
     (r, buf, io) \<leftarrow> ask m (lit ''AT+CREG?'' @ [13]) (lit ''OK'') io;
     if r < 0 then Some (-1, io)
     else do {
       home \<leftarrow> c_strstr buf (lit ''0,1'');
       roaming \<leftarrow> c_strstr buf (lit ''0,5'');
       Some (if home = None \<and> roaming = None then -2 else 0, io) } }"

text \<open>The operator is what stands between the first two quotes (34); without the second one a null pointer is written to.\<close>

definition copy_operator :: "byte list \<Rightarrow> msim \<Rightarrow> (int \<times> msim) option" where
  "copy_operator buf ms = do {
     quote \<leftarrow> c_strstr buf [34];
     case quote of None \<Rightarrow> Some (-1, ms)
     | Some i \<Rightarrow> do {
         quote2 \<leftarrow> c_strstr (drop (i + 1) buf) [34];
         n \<leftarrow> quote2;
         let buf = buf[i + 1 + n := 0];
         operator \<leftarrow> c_strncpy (ms_operator ms) (drop (i + 1) buf) (n + 1);
         Some (0, ms\<lparr>ms_operator := operator\<rparr>) } }"

definition check_sim_operator :: "muart \<Rightarrow> msim \<Rightarrow> io \<Rightarrow> (int \<times> msim \<times> io) option" where
  "check_sim_operator m ms io = do {
     (r, buf, io) \<leftarrow> ask m (lit ''AT+COPS?'' @ [13]) (lit ''OK'') io;
     if r < 0 then Some (-1, ms, io)
     else do { (r, ms) \<leftarrow> copy_operator buf ms; Some (r, ms, io) } }"

text \<open>The checks that are made before the SIM is ready; whether all have passed.\<close>

definition first_checks :: "muart \<Rightarrow> msim \<Rightarrow> io \<Rightarrow> (bool \<times> msim \<times> io) option" where
  "first_checks m ms io = do {
     (r, io) \<leftarrow> check_at_ok m io;
     if r < 0 then Some (False, ms, io)
     else do {
       (r, io) \<leftarrow> check_sim_ready m io;
       if r < 0 then Some (False, ms, io)
       else do {
         (r, io) \<leftarrow> check_sim_register m io;
         if r < 0 then Some (False, ms, io)
         else do {
           (r, ms, io) \<leftarrow> check_sim_operator m ms io;
           Some (\<not> r < 0, ms, io) } } } }"

definition mat_uart_check_sim_all :: "mat_uart \<Rightarrow> io \<Rightarrow> (int \<times> mat_uart \<times> io) option" where
  "mat_uart_check_sim_all mat io = do {
     let m = mat_muart mat;
     let ms = mat_msim mat;
     (ok, ms, io) \<leftarrow> (if ms_state ms < SIM_READY then first_checks m ms io else Some (True, ms, io));
     (ok, ms, io) \<leftarrow> (if ok then do { (r, ms, io) \<leftarrow> check_sim_signal m ms io; Some (\<not> r < 0, ms, io) } else Some (False, ms, io));
     if ok then Some (0, mat\<lparr>mat_msim := ms\<lparr>ms_state := SIM_REGISTER\<rparr>\<rparr>, io)
     else Some (-1, mat\<lparr>mat_msim := ms\<lparr>ms_state := SIM_ZERO\<rparr>\<rparr>, io) }"

definition mat_uart_get_signal :: "mat_uart option \<Rightarrow> io \<Rightarrow> (int \<times> mat_uart option \<times> io) option" where
  "mat_uart_get_signal mat io = (case mat of None \<Rightarrow> Some (-1, None, io)
   | Some mat \<Rightarrow> do { (r, mat, io) \<leftarrow> mat_uart_check_sim_all mat io; Some (ms_signal (mat_msim mat), Some mat, io) })"

text \<open>Copying the operator into a buffer of the caller; a negative size becomes a huge count.\<close>

definition give_operator :: "msim \<Rightarrow> byte list \<Rightarrow> int \<Rightarrow> byte list option" where
  "give_operator ms operator operator_size = do {
     n \<leftarrow> c_strlen (ms_operator ms);
     let len = (if n + 1 < operator_size then n + 1 else operator_size);
     if len < 0 then None else c_strncpy operator (ms_operator ms) (nat len) }"

definition mat_uart_get_operator :: "mat_uart option \<Rightarrow> byte list \<Rightarrow> int \<Rightarrow> (int \<times> byte list) option" where
  "mat_uart_get_operator mat operator operator_size = (case mat of None \<Rightarrow> Some (-1, operator)
   | Some mat \<Rightarrow> do {
       c \<leftarrow> rd (ms_operator (mat_msim mat)) 0;
       if c = 0 then (if operator = [] then None else Some (-2, operator[0 := 0]))
       else do { operator \<leftarrow> give_operator (mat_msim mat) operator operator_size; Some (0, operator) } })"

subsection \<open>The port and the modem together\<close>

definition zero_mat :: mat_uart where
  "zero_mat = \<lparr>mat_muart = zero_port, mat_msim = \<lparr>ms_state = 0, ms_signal = 0, ms_operator = replicate 16 0\<rparr>\<rparr>"




subsection \<open>The state of the SIM\<close>

text \<open>
  The state is one of two, the index of a text of \<open>msim_state\<close>; the signal is unset or one that was accepted; the name of
  the operator ends within its 16 bytes.
\<close>

definition sim_ok :: "msim \<Rightarrow> bool" where
  "sim_ok ms \<longleftrightarrow> ms_state ms \<in> {SIM_ZERO, SIM_REGISTER} \<and> (ms_signal ms = 0 \<or> 7 \<le> ms_signal ms \<and> ms_signal ms \<le> 98) \<and>
     length (ms_operator ms) = 16 \<and> 0 \<in> set (ms_operator ms)"

lemma ncpy_length: "c_ncpy_bytes src n = Some bs \<Longrightarrow> length bs = n"
  by (induction src n arbitrary: bs rule: c_ncpy_bytes.induct) (auto split: if_splits)

lemma ncpy_NUL: "c_ncpy_bytes src n = Some bs \<Longrightarrow> j < n \<Longrightarrow> j < length src \<Longrightarrow> src ! j = 0 \<Longrightarrow> 0 \<in> set bs"
proof (induction src n arbitrary: bs j rule: c_ncpy_bytes.induct)
  case (3 b src n)
  then show ?case by (cases j) (auto split: if_splits)
qed auto

lemma find_sub_less: "find_sub pat ys = Some n \<Longrightarrow> n < length ys"
  by (induction ys arbitrary: n) (auto split: if_splits)

lemma c_str_length: "length (c_str p) \<le> length p"
  by (simp add: c_str_def length_takeWhile_le)

lemma strstr_less: "c_strstr p pat = Some (Some n) \<Longrightarrow> n < length p"
  using find_sub_less [of pat "c_str p" n] c_str_length [of p] by (simp add: c_strstr_def split: if_splits)

lemma copy_operator_keeps:
  assumes "copy_operator buf ms = Some (r, ms')" and "length (ms_operator ms) = 16" and "0 \<in> set (ms_operator ms)"
  shows "ms_state ms' = ms_state ms \<and> ms_signal ms' = ms_signal ms \<and> length (ms_operator ms') = 16 \<and> 0 \<in> set (ms_operator ms')"
proof (cases "ms' = ms")
  case False
  then obtain i n op where n: "c_strstr (drop (i + 1) buf) [34] = Some (Some n)"
      "c_strncpy (ms_operator ms) (drop (i + 1) (buf[i + 1 + n := 0])) (n + 1) = Some op" "ms' = ms\<lparr>ms_operator := op\<rparr>"
    using assms(1) by (auto simp: copy_operator_def Let_def bind_eq_Some_conv split: option.splits)
  let ?src = "drop (i + 1) (buf[i + 1 + n := 0])"
  have l: "i + 1 + n < length buf" using strstr_less [OF n(1)] by simp
  obtain bs where bs: "c_ncpy_bytes ?src (n + 1) = Some bs" "n + 1 \<le> 16" "op = bs @ drop (n + 1) (ms_operator ms)"
    using n(2) assms(2) by (auto simp: c_strncpy_def bind_eq_Some_conv split: if_splits)
  have "0 \<in> set bs" using ncpy_NUL [OF bs(1), of n] l by simp
  then show ?thesis using ncpy_length [OF bs(1)] bs(2,3) assms(2) n(3) by simp
qed (use assms in simp)

lemma csq_signal_range: "csq_signal buf = Some x \<Longrightarrow> 0 \<le> x \<and> x \<le> 99"
  by (auto simp: csq_signal_def Let_def bind_eq_Some_conv split: if_splits)

lemma check_signal_result:
  assumes "check_sim_signal m ms io = Some (r, ms', io')"
  shows "r = -1 \<and> ms' = ms \<or> r = 0 \<and> (\<exists>x. ms' = ms\<lparr>ms_signal := x\<rparr> \<and> 7 \<le> x \<and> x \<le> 98)"
  using assms by (auto simp: check_sim_signal_def bind_eq_Some_conv dest!: csq_signal_range split: if_splits)

lemma first_checks_keep:
  assumes "first_checks m ms io = Some (ok, ms', io')" and "length (ms_operator ms) = 16" and "0 \<in> set (ms_operator ms)"
  shows "ms_signal ms' = ms_signal ms \<and> length (ms_operator ms') = 16 \<and> 0 \<in> set (ms_operator ms')"
  using assms(1) assms(2,3) copy_operator_keeps [OF _ assms(2,3)]
  by (auto simp: first_checks_def check_sim_operator_def bind_eq_Some_conv split: if_splits)

lemma check_all_result:
  assumes "mat_uart_check_sim_all mat io = Some (r, mat', io')" and "sim_ok (mat_msim mat)"
  shows "sim_ok (mat_msim mat') \<and> mat_muart mat' = mat_muart mat \<and>
    (r = 0 \<and> ms_state (mat_msim mat') = SIM_REGISTER \<and> 7 \<le> ms_signal (mat_msim mat') \<or>
     r = -1 \<and> ms_state (mat_msim mat') = SIM_ZERO \<and> ms_signal (mat_msim mat') = ms_signal (mat_msim mat))"
proof -
  let ?ms = "mat_msim mat"
  have op: "length (ms_operator ?ms) = 16" "0 \<in> set (ms_operator ?ms)" using assms(2) by (simp_all add: sim_ok_def)
  obtain ok ms1 io1 where a: "(if ms_state ?ms < SIM_READY then first_checks (mat_muart mat) ?ms io else Some (True, ?ms, io)) = Some (ok, ms1, io1)"
    using assms(1) by (auto simp: mat_uart_check_sim_all_def Let_def bind_eq_Some_conv)
  obtain ok2 ms2 io2 where b: "(if ok then do { (r, ms, io) \<leftarrow> check_sim_signal (mat_muart mat) ms1 io1; Some (\<not> r < 0, ms, io) } else Some (False, ms1, io1)) = Some (ok2, ms2, io2)"
      "(r, mat', io') = (if ok2 then (0, mat\<lparr>mat_msim := ms2\<lparr>ms_state := SIM_REGISTER\<rparr>\<rparr>, io2) else (-1, mat\<lparr>mat_msim := ms2\<lparr>ms_state := SIM_ZERO\<rparr>\<rparr>, io2))"
    using assms(1) a by (auto simp: mat_uart_check_sim_all_def Let_def bind_eq_Some_conv split: if_splits)
  have k: "ms_signal ms1 = ms_signal ?ms \<and> length (ms_operator ms1) = 16 \<and> 0 \<in> set (ms_operator ms1)"
    using a first_checks_keep [OF _ op] op by (auto split: if_splits)
  show ?thesis
  proof (cases ok2)
    case True
    then obtain x where "ms2 = ms1\<lparr>ms_signal := x\<rparr>" "7 \<le> x" "x \<le> 98"
      using b(1) check_signal_result [of "mat_muart mat" ms1 io1] by (fastforce simp: bind_eq_Some_conv split: if_splits)
    then show ?thesis using True b(2) k by (simp add: sim_ok_def)
  next
    case False
    then have "ms2 = ms1" using b(1) check_signal_result [of "mat_muart mat" ms1 io1] by (fastforce simp: bind_eq_Some_conv split: if_splits)
    then show ?thesis using False b(2) k assms(2) by (simp add: sim_ok_def)
  qed
qed

text \<open>
  A check of the SIM that has a result keeps it well-formed: the state is one of \<open>SIM_ZERO\<close> and \<open>SIM_REGISTER\<close>, so that it is the index
  of a text; the signal is unset or between 7 and 98; the operator's name ends within its array. A check that
  passes ends in \<open>SIM_REGISTER\<close> with a signal that was accepted, one that fails in \<open>SIM_ZERO\<close>. It keeps the signal of the last
  success though, and \<open>mat_uart_get_signal\<close> returns it like a new one.
\<close>

lemma mat_check_keeps_sim_well_formed:
  assumes "sim_ok (mat_msim mat)" and "mat_uart_check_sim_all mat io = Some (r, mat', io')"
  shows "sim_ok (mat_msim mat') \<and>
    (r = 0 \<and> ms_state (mat_msim mat') = SIM_REGISTER \<and> 7 \<le> ms_signal (mat_msim mat') \<or>
     r = -1 \<and> ms_state (mat_msim mat') = SIM_ZERO \<and> mat_uart_get_signal (Some mat) io = Some (ms_signal (mat_msim mat), Some mat', io'))"
  using check_all_result [OF assms(2,1)] assms(2) by (auto simp: mat_uart_get_signal_def)

subsection \<open>Replies\<close>

text \<open>The line takes the command at once and answers with a reply shorter than the buffer, then falls silent.\<close>

definition replies :: "muart \<Rightarrow> byte list \<Rightarrow> io \<Rightarrow> byte list \<Rightarrow> bool" where
  "replies m at_cmd io reply \<longleftrightarrow> (\<exists>rs. answers io = int (length at_cmd) # rs) \<and> int (length at_cmd) \<le> write_max_bytes_once m \<and>
     available (arrivals io) = reply \<and> stops (arrivals io) \<and> reply \<noteq> [] \<and> length reply < AT_MAX_LEN \<and> 0 \<notin> set reply"

lemma fails_first_available: "fails_first es \<Longrightarrow> available es = []"
  by (cases es rule: fails_first.cases) simp_all

lemma ask_replies:
  assumes "replies m at_cmd io reply" and "find_sub expect reply \<noteq> None"
  shows "\<exists>io'. ask m at_cmd expect io = Some (0, reply @ replicate (AT_MAX_LEN - length reply) 0, io')"
proof -
  obtain rs where rs: "answers io = int (length at_cmd) # rs" using assms(1) by (auto simp: replies_def)
  have w: "muart_write m at_cmd (answers io) = Some (int (length at_cmd), at_cmd, rs)"
    using assms(1) by (cases "write_max_bytes_once m") (simp_all add: rs muart_write_def replies_def Let_def)
  have r: "length reply < AT_MAX_LEN" "reply \<noteq> []" "0 \<notin> set reply" "available (arrivals io) = reply" using assms(1) by (simp_all add: replies_def)
  then have "\<not> fails_first (arrivals io)" using fails_first_available by metis
  then obtain es where es: "muart_read_nbytes AT_MAX_LEN (arrivals io) = Some (int (length reply), reply, es)"
    using muart_read_reads [of AT_MAX_LEN "arrivals io"] assms(1) r by (auto simp: replies_def)
  define k where "k = AT_MAX_LEN - length reply - 1"
  have k: "AT_MAX_LEN - length reply = Suc k" "AT_MAX_LEN = length reply + Suc k" using r(1) by (simp_all add: k_def)
  let ?buf = "reply @ replicate (Suc k) 0"
  have last: "?buf[AT_MAX_LEN - 1 := 0] = ?buf"
    by (rule nth_equalityI) (auto simp: k(2) nth_list_update nth_append simp del: replicate_Suc)
  have copy: "c_strncpy (replicate AT_MAX_LEN 0) ?buf AT_MAX_LEN = Some ?buf"
    using c_ncpy_bytes_str [OF r(3), of "replicate k 0" AT_MAX_LEN] by (simp add: c_strncpy_def k(2))
  have "c_str ?buf = reply" using c_str_append [OF r(3), of "replicate k 0"] by simp
  then have "c_strstr ?buf expect = Some (find_sub expect reply)" by (simp add: c_strstr_def)
  then show ?thesis
    using w es r(1,2) assms(2) copy last by (auto simp: ask_def send_at_cmd_def Let_def k(1))
qed

text \<open>A number below 100 in decimal.\<close>

definition dec_digit :: "nat \<Rightarrow> byte" where
  "dec_digit k = of_nat (48 + k)"

definition decimal :: "nat \<Rightarrow> byte list" where
  "decimal n = (if n < 10 then [dec_digit n] else [dec_digit (n div 10), dec_digit (n mod 10)])"

lemma dec_digit_facts: "k < 10 \<Longrightarrow> dec_digit k \<noteq> 44 \<and> dec_digit k \<noteq> 0 \<and> sint (dec_digit k) = 48 + int k"
proof -
  assume "k < 10"
  then have "k \<in> {0, 1, 2, 3, 4, 5, 6, 7, 8, 9}" by auto
  then show ?thesis by (auto simp: dec_digit_def)
qed

lemma csq_signal_at:
  assumes "44 \<notin> set pre" and "0 \<notin> set pre"
  shows "csq_signal (pre @ 44 # post) = (if pre = [] then None else do {
      tmp \<leftarrow> digit_at pre (int (length pre) - 1);
      let signal = (if 0 \<le> tmp \<and> tmp \<le> 9 then tmp else 0);
      tmp \<leftarrow> digit_at pre (int (length pre) - 2);
      Some (if 0 \<le> tmp \<and> tmp \<le> 9 then signal + tmp * 10 else signal) })"
proof -
  let ?buf = "pre @ 44 # post"
  have p: "\<forall>x \<in> set pre. x \<noteq> 44" "\<forall>x \<in> set pre. x \<noteq> 0" using assms by auto
  have s: "c_str ?buf = pre @ 44 # c_str post" using p(2) by (simp add: c_str_def takeWhile_append2)
  have i: "takeWhile (\<lambda>b. b \<noteq> 44) (c_str ?buf) = pre" using p(1) by (simp add: s takeWhile_append2)
  have at: "digit_at ?buf (int (length pre) - k) = digit_at pre (int (length pre) - k)" if "0 < k" for k
    using that by (auto simp: digit_at_def rd_def nth_append)
  have "digit_at [] (0 - 1) = None" by (simp add: digit_at_def rd_def)
  then show ?thesis using at [of 1] at [of 2] unfolding csq_signal_def Let_def i by (simp add: s)
qed

lemma csq_signal_reads:
  assumes "n < 100" and "44 \<notin> set pre" and "0 \<notin> set pre"
  shows "csq_signal (pre @ 32 # decimal n @ 44 # post) = Some (int n)"
proof (cases "n < 10")
  case True
  have d: "44 \<notin> set (pre @ [32, dec_digit n])" "0 \<notin> set (pre @ [32, dec_digit n])" using assms dec_digit_facts [OF True] by auto
  have "pre @ 32 # decimal n @ 44 # post = (pre @ [32, dec_digit n]) @ 44 # post" using True by (simp add: decimal_def)
  moreover have "digit_at (pre @ [32, dec_digit n]) (int (length (pre @ [32, dec_digit n])) - 1) = Some (int n)"
    "digit_at (pre @ [32, dec_digit n]) (int (length (pre @ [32, dec_digit n])) - 2) = Some (-16)"
    using dec_digit_facts [OF True] by (simp_all add: digit_at_def rd_def nth_append nat_add_distrib)
  ultimately show ?thesis using True csq_signal_at [OF d] by simp
next
  case False
  let ?x = "dec_digit (n div 10)" and ?y = "dec_digit (n mod 10)"
  have x: "n div 10 < 10" and y: "n mod 10 < 10" using assms(1) by auto
  have d: "44 \<notin> set (pre @ [32, ?x, ?y])" "0 \<notin> set (pre @ [32, ?x, ?y])" using assms dec_digit_facts [OF x] dec_digit_facts [OF y] by auto
  have "pre @ 32 # decimal n @ 44 # post = (pre @ [32, ?x, ?y]) @ 44 # post" using False by (simp add: decimal_def)
  moreover have "digit_at (pre @ [32, ?x, ?y]) (int (length (pre @ [32, ?x, ?y])) - 1) = Some (int (n mod 10))"
    "digit_at (pre @ [32, ?x, ?y]) (int (length (pre @ [32, ?x, ?y])) - 2) = Some (int (n div 10))"
    using dec_digit_facts [OF x] dec_digit_facts [OF y] by (simp_all add: digit_at_def rd_def nth_append nat_add_distrib)
  moreover have "n mod 10 \<le> 9" using y by simp
  moreover have "int (n mod 10) + int (n div 10) * 10 = int n" by presburger
  ultimately show ?thesis using x csq_signal_at [OF d] by simp
qed

lemma find_sub_middle: "pat \<noteq> [] \<Longrightarrow> find_sub pat (pre @ pat @ post) \<noteq> None"
proof (induction pre)
  case Nil
  have "is_prefix xs (xs @ ys)" for xs ys by (induction xs) auto
  then show ?case using Nil by (cases pat) auto
qed auto

text \<open>
  When the modem answers \<open>AT+CSQ\<close> with \<open>+CSQ: n,\<close> and anything behind it, after text without a comma, in fewer than 64 bytes, then
  \<open>check_sim_signal\<close> reads \<open>n\<close>, whether it has one digit or two, stores it and succeeds, unless it is below 7 or 99.
\<close>

theorem check_sim_signal_reads:
  assumes "replies m AT_CSQ io (pre @ lit ''+CSQ:'' @ 32 # decimal n @ 44 # post)" and "n < 100" and "44 \<notin> set pre"
  shows "\<exists>io'. check_sim_signal m ms io = Some (if n < 7 \<or> n = 99 then (-1, ms, io') else (0, ms\<lparr>ms_signal := int n\<rparr>, io'))"
proof -
  let ?reply = "pre @ lit ''+CSQ:'' @ 32 # decimal n @ 44 # post"
  have csq: "lit ''+CSQ:'' = lit ''+CSQ'' @ [58]" by (simp add: lit_def)
  have "find_sub (lit ''+CSQ'') ?reply \<noteq> None"
    using find_sub_middle [of "lit ''+CSQ''" pre "58 # 32 # decimal n @ 44 # post"] by (simp add: csq) (simp add: lit_def)
  then obtain io' where a: "ask m AT_CSQ (lit ''+CSQ'') io = Some (0, ?reply @ replicate (AT_MAX_LEN - length ?reply) 0, io')"
    using ask_replies [OF assms(1)] by blast
  have "44 \<notin> set (pre @ lit ''+CSQ:'')" "0 \<notin> set (pre @ lit ''+CSQ:'')"
    using assms(1,3) by (auto simp: replies_def lit_def)
  from csq_signal_reads [OF assms(2) this, of "post @ replicate (AT_MAX_LEN - length ?reply) 0"]
  have "csq_signal (?reply @ replicate (AT_MAX_LEN - length ?reply) 0) = Some (int n)" by simp
  then show ?thesis using a by (auto simp: check_sim_signal_def simp del: append_assoc)
qed

text \<open>
  The name of the operator is copied into 16 bytes without a check: a name of 16 or more characters between the quotes of the
  reply is written behind the array, and a reply with one quote only makes \<open>check_sim_operator\<close> write through a null
  pointer. A shorter name is stored with its NUL.
\<close>

theorem check_sim_operator_overflows:
  assumes "replies m (lit ''AT+COPS?'' @ [13]) io reply" and "find_sub (lit ''OK'') reply \<noteq> None" and "length (ms_operator ms) = 16"
    and "34 \<notin> set pre" and "34 \<notin> set name"
  shows "(reply = pre @ 34 # name @ 34 # post \<longrightarrow>
      (if 16 \<le> length name then check_sim_operator m ms io = None
       else \<exists>io'. check_sim_operator m ms io = Some (0, ms\<lparr>ms_operator := name @ 0 # drop (length name + 1) (ms_operator ms)\<rparr>, io'))) \<and>
    (reply = pre @ 34 # name \<longrightarrow> check_sim_operator m ms io = None)"
proof -
  obtain io' where a: "ask m (lit ''AT+COPS?'' @ [13]) (lit ''OK'') io = Some (0, reply @ replicate (AT_MAX_LEN - length reply) 0, io')"
    using ask_replies [OF assms(1,2)] by blast
  obtain k where k: "AT_MAX_LEN - length reply = Suc k" using assms(1) by (cases "AT_MAX_LEN - length reply") (auto simp: replies_def)
  have op: "check_sim_operator m ms io = map_option (\<lambda>(r, ms). (r, ms, io')) (copy_operator (reply @ replicate (Suc k) 0) ms)"
    using a by (cases "copy_operator (reply @ replicate (Suc k) 0) ms") (auto simp: check_sim_operator_def k)
  have n0: "0 \<notin> set reply" using assms(1) by (simp add: replies_def)
  have first: "find_sub [34] (us @ 34 # vs) = Some (length us)" if "34 \<notin> set us" for us vs :: "byte list"
    using that by (induction us) auto
  have none: "find_sub [34] us = None" if "34 \<notin> set us" for us :: "byte list" using that by (induction us) auto
  have cstr: "c_strstr (us @ replicate (Suc k) 0) [34] = Some (find_sub [34] us)" if "0 \<notin> set us" for us :: "byte list"
    using c_str_append [OF that, of "replicate k 0"] by (simp add: c_strstr_def)
  show ?thesis
  proof (intro conjI impI)
    assume r: "reply = pre @ 34 # name @ 34 # post"
    let ?buf = "reply @ replicate (Suc k) 0"
    have q1: "c_strstr ?buf [34] = Some (Some (length pre))" using cstr [OF n0] first [OF assms(4)] by (simp add: r)
    have "drop (length pre + 1) ?buf = (name @ 34 # post) @ replicate (Suc k) 0" by (simp add: r)
    moreover have "0 \<notin> set (name @ 34 # post)" using n0 by (simp add: r)
    ultimately have q2: "c_strstr (drop (length pre + 1) ?buf) [34] = Some (Some (length name))"
      using cstr [of "name @ 34 # post"] first [OF assms(5)] by simp
    have src: "drop (length pre + 1) (?buf[length pre + 1 + length name := 0]) = name @ 0 # post @ replicate (Suc k) 0"
      by (simp add: r list_update_append)
    have "0 \<notin> set name" using n0 by (simp add: r)
    then have "c_strncpy (ms_operator ms) (name @ 0 # post @ replicate (Suc k) 0) (length name + 1) =
        (if length name + 1 \<le> 16 then Some (name @ 0 # drop (length name + 1) (ms_operator ms)) else None)"
      using c_ncpy_bytes_str [of name "post @ replicate (Suc k) 0" "length name + 1"] assms(3) by (simp add: c_strncpy_def)
    then have "copy_operator ?buf ms = (if length name + 1 \<le> 16 then Some (0, ms\<lparr>ms_operator := name @ 0 # drop (length name + 1) (ms_operator ms)\<rparr>) else None)"
      unfolding copy_operator_def Let_def by (simp only: q1 q2 src bind.bind_lunit option.case) simp
    then show "if 16 \<le> length name then check_sim_operator m ms io = None
       else \<exists>io'. check_sim_operator m ms io = Some (0, ms\<lparr>ms_operator := name @ 0 # drop (length name + 1) (ms_operator ms)\<rparr>, io')"
      using op by simp
  next
    assume r: "reply = pre @ 34 # name"
    let ?buf = "reply @ replicate (Suc k) 0"
    have q1: "c_strstr ?buf [34] = Some (Some (length pre))" using cstr [OF n0] first [OF assms(4)] by (simp add: r)
    have "drop (length pre + 1) ?buf = name @ replicate (Suc k) 0" by (simp add: r)
    moreover have "0 \<notin> set name" using n0 by (simp add: r)
    ultimately have q2: "c_strstr (drop (length pre + 1) ?buf) [34] = Some None" using cstr [of name] none [OF assms(5)] by simp
    have "copy_operator ?buf ms = None" unfolding copy_operator_def Let_def by (simp only: q1 q2 bind.bind_lunit option.case) simp
    then show "check_sim_operator m ms io = None" using op by simp
  qed
qed

subsection \<open>The check over a conversation\<close>





















lemma lit_length [simp]: "length (lit s) = length s"
  by (simp add: lit_def)






subsection \<open>The whole query\<close>








subsection \<open>Examples\<close>

text \<open>A modem that answers \<open>AT+CSQ\<close> with 21, and one whose operator has a name of 16 characters.\<close>

definition sample_port :: muart where
  "sample_port = zero_port\<lparr>write_max_bytes_once := WRITE_MAX_BYTES\<rparr>"

definition csq_io :: io where
  "csq_io = \<lparr>answers = [7], arrivals = [Arrive (lit ''+CS''), Arrive (lit ''Q: 21,99''), Timeout], commands = []\<rparr>"

definition cops_io :: io where
  "cops_io = \<lparr>answers = [9], arrivals = [Arrive (34 # lit ''CHINA MOBILE COM'' @ 34 # lit ''OK''), Timeout], commands = []\<rparr>"

theorem check_sim_signal_reads_witness:
  "\<exists>io'. check_sim_signal sample_port (mat_msim zero_mat) csq_io = Some (0, (mat_msim zero_mat)\<lparr>ms_signal := 21\<rparr>, io')"
proof -
  have "replies sample_port AT_CSQ csq_io ([] @ lit ''+CSQ:'' @ 32 # decimal 21 @ 44 # lit ''99'')"
    unfolding replies_def by (simp add: csq_io_def sample_port_def WRITE_MAX_BYTES_def AT_CSQ_def AT_MAX_LEN_def decimal_def dec_digit_def)
      (simp add: lit_def)
  from check_sim_signal_reads [OF this, of "mat_msim zero_mat"] show ?thesis by simp
qed

theorem check_sim_operator_overflows_witness:
  "check_sim_operator sample_port (mat_msim zero_mat) cops_io = None"
proof -
  let ?reply = "[] @ 34 # lit ''CHINA MOBILE COM'' @ 34 # lit ''OK''"
  have "replies sample_port (lit ''AT+COPS?'' @ [13]) cops_io ?reply"
    unfolding replies_def by (simp add: cops_io_def sample_port_def WRITE_MAX_BYTES_def AT_MAX_LEN_def) (simp add: lit_def)
  moreover have "find_sub (lit ''OK'') ?reply \<noteq> None"
    using find_sub_middle [of "lit ''OK''" "34 # lit ''CHINA MOBILE COM'' @ [34]" "[]"] by (simp add: lit_def)
  moreover have "34 \<notin> set (lit ''CHINA MOBILE COM'')" by (simp add: lit_def)
  ultimately show ?thesis
    using check_sim_operator_overflows [of sample_port cops_io ?reply "mat_msim zero_mat" "[]" "lit ''CHINA MOBILE COM''"]
    by (simp add: zero_mat_def)
qed



end
