(* ===== verification/PppSupervisor.thy ===== *)
theory PppSupervisor
  imports CString Progress
begin

unbundle bit_operations_syntax

section \<open>The supervisor of the PPP link\<close>

text \<open>
  \<open>LTE/ppp_call1/ppp_call.c\<close>: the loop of \<open>main\<close> starts \<open>pppd\<close>, watches the link with pings, and stops \<open>pppd\<close>
  and resets the modem when it fails. The handler of \<open>SIGCHLD\<close> sets the status to \<open>STOP\<close> when a child has ended; it can run while the
  loop sleeps, waits for a command, and also between reading and writing the status. What the system does in one turn of the
  loop is a record of inputs. The files, the other signals and what is printed are left out.
\<close>

definition STOP :: "32 word" where "STOP = 1"
definition START :: "32 word" where "START = 2"
definition ONLINE :: "32 word" where "ONLINE = 4"

lemmas ppp_flags = STOP_def START_def ONLINE_def

definition PPP_START_TIMEOUT :: nat where "PPP_START_TIMEOUT = 120"
definition PING_COUNT :: int where "PING_COUNT = 5"

record ppp =
  status :: "32 word"
  link_num :: int
  error_num :: int
  resets :: nat

text \<open>
  A second of waiting for the link: the file of the link is there, or the loop sleeps and the child may end. The inputs of a
  turn: whether a child ends while the loop stops and resets, and before the first second; whether
  \<open>fork\<close> and \<open>open\<close> work; whether a child ends at one of three places while the flags are changed, and before the test for the ping; the ping; whether a child ends behind that test,
  in the ping or the last sleep.
\<close>

datatype second = Link_there | Sleep bool

record inputs =
  ends_in_reset :: bool
  ends_before :: bool
  forks :: bool
  seconds :: "second list"
  opens :: bool
  ends_in_clear :: bool
  ends_between :: bool
  ends_in_set :: bool
  ends_before_ping :: bool
  ping_ok :: bool
  ends_at_last :: bool

definition child_signal_handler :: "bool \<Rightarrow> 32 word \<Rightarrow> 32 word" where
  "child_signal_handler ended st = (if ended then STOP else st)"

text \<open>The loop of \<open>pppd_start\<close>: whether the link came up in time, and the status.\<close>

fun await_link :: "nat \<Rightarrow> 32 word \<Rightarrow> second list \<Rightarrow> (bool \<times> 32 word) option" where
  "await_link 0 st es = Some (False, st)"
| "await_link (Suc timeout) st [] = None"
| "await_link (Suc timeout) st (Link_there # es) = Some (True, st)"
| "await_link (Suc timeout) st (Sleep ended # es) =
     (let st = child_signal_handler ended st in
      if st AND STOP \<noteq> 0 then Some (False, st) else await_link timeout st es)"

text \<open>The text written into the file of the link, through a buffer of eight bytes.\<close>

fun dec_text :: "nat \<Rightarrow> byte list" where
  "dec_text n = (if n < 10 then [of_nat (48 + n)] else dec_text (n div 10) @ [of_nat (48 + n mod 10)])"

declare dec_text.simps [simp del]

definition link_text :: "int \<Rightarrow> byte list option" where
  "link_text n = (if n < 0 then None else let line = dec_text (nat n) @ [10] in if length line < 8 then Some line else None)"

definition pppd_start :: "inputs \<Rightarrow> ppp \<Rightarrow> (int \<times> ppp) option" where
  "pppd_start e s = do {
     let s = s\<lparr>status := child_signal_handler (ends_before e) (status s)\<rparr>;
     if \<not> forks e then Some (-1, s)
     else do {
       (up, st) \<leftarrow> await_link PPP_START_TIMEOUT (status s) (seconds e);
       let s = s\<lparr>status := st\<rparr>;
       if \<not> up then Some (-1, s)
       else do {
         let n = link_num s + 1;
         let s = s\<lparr>link_num := (if 10000 \<le> n then 0 else n)\<rparr>;
         line \<leftarrow> link_text (link_num s);
         Some (if opens e then 0 else -1, s) } } }"

text \<open>
  The parts of a turn of \<open>main\<close>. In \<open>go_online\<close> the two assignments read and write the status: a child that ends in between is
  forgotten by the write.
\<close>

definition stop_part :: "inputs \<Rightarrow> ppp \<Rightarrow> ppp" where
  "stop_part e s = (if status s AND STOP \<noteq> 0
     then s\<lparr>status := child_signal_handler (ends_in_reset e) START, resets := resets s + 1\<rparr> else s)"

definition go_online :: "inputs \<Rightarrow> 32 word \<Rightarrow> 32 word" where
  "go_online e st = (let
     tmp = st;
     st = child_signal_handler (ends_in_clear e) st;
     st = tmp AND NOT START;
     st = child_signal_handler (ends_between e) st;
     tmp = st;
     st = child_signal_handler (ends_in_set e) st
   in tmp OR ONLINE)"

definition start_part :: "inputs \<Rightarrow> ppp \<Rightarrow> ppp option" where
  "start_part e s = (if status s AND START \<noteq> 0 then do {
       (r, s) \<leftarrow> pppd_start e s;
       Some (if r \<noteq> 0 then s\<lparr>status := STOP\<rparr> else s\<lparr>status := go_online e (status s)\<rparr>) }
     else Some s)"

definition ping_part :: "inputs \<Rightarrow> ppp \<Rightarrow> ppp" where
  "ping_part e s = (if status s = ONLINE then
       (if \<not> ping_ok e then
          (let s = s\<lparr>error_num := error_num s + 1\<rparr> in
           if PING_COUNT < error_num s then s\<lparr>status := STOP, error_num := 0\<rparr> else s)
        else s\<lparr>error_num := 0\<rparr>)
     else s)"

definition turn :: "inputs \<Rightarrow> ppp \<Rightarrow> ppp option" where
  "turn e s = do {
     s \<leftarrow> start_part e (stop_part e s);
     let s = s\<lparr>status := child_signal_handler (ends_before_ping e) (status s)\<rparr>;
     let s = ping_part e s;
     Some (s\<lparr>status := child_signal_handler (ends_at_last e) (status s)\<rparr>) }"

definition ppp_start :: ppp where
  "ppp_start = \<lparr>status = START, link_num = 0, error_num = 0, resets = 0\<rparr>"

subsection \<open>The invariant\<close>

definition ppp_inv :: "ppp \<Rightarrow> bool" where
  "ppp_inv s \<longleftrightarrow> status s \<in> {STOP, START, ONLINE, STOP OR ONLINE} \<and> 0 \<le> link_num s \<and> link_num s < 10000 \<and>
     0 \<le> error_num s \<and> error_num s \<le> PING_COUNT"

lemma dec_text_length: "n < 10000 \<Longrightarrow> length (dec_text n) \<le> 4"
  by (simp add: dec_text.simps [of n] dec_text.simps [of "n div 10"] dec_text.simps [of "n div 10 div 10"] dec_text.simps [of "n div 10 div 10 div 10"])

lemma link_text_fits: "0 \<le> n \<Longrightarrow> n < 10000 \<Longrightarrow> \<exists>t. link_text n = Some t"
  using dec_text_length [of "nat n"] by (simp add: link_text_def Let_def nat_less_iff)

lemma await_link_status:
  "await_link k st es = Some (up, st') \<Longrightarrow> st \<in> {START, STOP} \<Longrightarrow> st' \<in> {START, STOP} \<and> (up \<longrightarrow> st' = st)"
proof (induction k st es rule: await_link.induct)
  case (4 k st ended es)
  then show ?case by (cases ended) (auto simp: Let_def child_signal_handler_def ppp_flags split: if_splits)
qed auto

lemma pppd_start_result:
  assumes "pppd_start e s = Some (r, t)" and "ppp_inv s" and "status s = START"
  shows "status t \<in> {START, STOP} \<and> 0 \<le> link_num t \<and> link_num t < 10000 \<and> error_num t = error_num s \<and> resets t = resets s"
proof -
  let ?st = "child_signal_handler (ends_before e) (status s)"
  have st: "?st \<in> {START, STOP}" using assms(3) by (simp add: child_signal_handler_def)
  show ?thesis
  proof (cases "forks e")
    case False
    then show ?thesis using assms(1,2) st by (auto simp: pppd_start_def ppp_inv_def)
  next
    case True
    obtain up st' where a: "await_link PPP_START_TIMEOUT ?st (seconds e) = Some (up, st')"
      using assms(1) True by (auto simp: pppd_start_def Let_def bind_eq_Some_conv)
    have "t = s\<lparr>status := st'\<rparr> \<or> t = s\<lparr>status := st', link_num := (if 10000 \<le> link_num s + 1 then 0 else link_num s + 1)\<rparr>"
      using assms(1) True a by (auto simp: pppd_start_def Let_def bind_eq_Some_conv split: if_splits)
    then show ?thesis using await_link_status [OF a st] assms(2) by (auto simp: ppp_inv_def)
  qed
qed

lemma go_online_status: "st \<in> {START, STOP} \<Longrightarrow> go_online e st \<in> {ONLINE, STOP OR ONLINE}"
  by (auto simp: go_online_def child_signal_handler_def ppp_flags Let_def)

lemma flag_tests [simp]:
  "STOP \<noteq> 0" "START \<noteq> 0" "ONLINE \<noteq> 0" "START AND STOP = 0" "ONLINE AND STOP = 0" "(STOP OR ONLINE) AND STOP = STOP"
  "STOP AND START = 0" "ONLINE AND START = 0" "(STOP OR ONLINE) AND START = 0"
  "STOP \<noteq> START" "STOP \<noteq> ONLINE" "START \<noteq> ONLINE" "STOP OR ONLINE \<noteq> ONLINE" "START \<noteq> STOP" "ONLINE \<noteq> STOP" "ONLINE \<noteq> START" "STOP OR ONLINE \<noteq> START"
  by (simp_all add: ppp_flags)

lemma stop_part_result: "ppp_inv s \<Longrightarrow> ppp_inv (stop_part e s) \<and> status (stop_part e s) \<in> {START, STOP, ONLINE} \<and>
    (status s AND STOP = 0 \<longrightarrow> stop_part e s = s) \<and> (status s AND STOP \<noteq> 0 \<longrightarrow> resets (stop_part e s) = resets s + 1)"
  by (auto simp: stop_part_def ppp_inv_def child_signal_handler_def)

lemma start_part_result:
  assumes "start_part e s = Some t" and "ppp_inv s"
  shows "ppp_inv t \<and> error_num t = error_num s \<and> resets t = resets s \<and> (status s = START \<longrightarrow> status t \<in> {STOP, ONLINE, STOP OR ONLINE}) \<and>
    (status s \<noteq> START \<longrightarrow> t = s)"
proof (cases "status s = START")
  case True
  obtain r u where u: "pppd_start e s = Some (r, u)" using assms(1) True by (auto simp: start_part_def bind_eq_Some_conv)
  note res = pppd_start_result [OF u assms(2) True]
  then have "go_online e (status u) \<in> {ONLINE, STOP OR ONLINE}" by (intro go_online_status) simp
  then show ?thesis using assms True u res by (auto simp: start_part_def ppp_inv_def split: if_splits)
next
  case False
  then have "status s AND START = 0" using assms(2) by (auto simp: ppp_inv_def)
  then show ?thesis using assms False by (simp add: start_part_def)
qed

text \<open>What the turn is before the ping, a child having ended or not.\<close>

lemma turn_parts:
  assumes "turn e s = Some t" and "ppp_inv s"
  shows "\<exists>u. t = (ping_part e u)\<lparr>status := child_signal_handler (ends_at_last e) (status (ping_part e u))\<rparr> \<and> ppp_inv u \<and>
    error_num u = error_num (stop_part e s) \<and> resets u = resets (stop_part e s) \<and>
    (status (stop_part e s) = START \<longrightarrow> status u \<in> {STOP, ONLINE, STOP OR ONLINE}) \<and>
    (status (stop_part e s) \<noteq> START \<longrightarrow> u = stop_part e s \<or> status u = STOP)"
proof -
  obtain v where v: "start_part e (stop_part e s) = Some v" using assms(1) by (auto simp: turn_def bind_eq_Some_conv)
  have i: "ppp_inv (stop_part e s)" using stop_part_result [OF assms(2)] by blast
  let ?u = "v\<lparr>status := child_signal_handler (ends_before_ping e) (status v)\<rparr>"
  have "t = (ping_part e ?u)\<lparr>status := child_signal_handler (ends_at_last e) (status (ping_part e ?u))\<rparr>"
    using assms(1) v by (simp add: turn_def Let_def)
  moreover have "ppp_inv ?u" using start_part_result [OF v i] by (auto simp: ppp_inv_def child_signal_handler_def)
  moreover have "status (stop_part e s) \<noteq> START \<Longrightarrow> ?u = stop_part e s \<or> status ?u = STOP"
    using start_part_result [OF v i] by (cases "ends_before_ping e") (simp_all add: child_signal_handler_def)
  ultimately show ?thesis using start_part_result [OF v i] by (intro exI [of _ ?u]) (auto simp: child_signal_handler_def)
qed

lemma ping_part_result:
  assumes "ppp_inv s"
  shows "ppp_inv (ping_part e s) \<and> resets (ping_part e s) = resets s \<and> (status s \<noteq> ONLINE \<longrightarrow> ping_part e s = s) \<and>
    (status s = ONLINE \<and> \<not> ping_ok e \<longrightarrow> (if error_num s = PING_COUNT then status (ping_part e s) = STOP
      else ping_part e s = s\<lparr>error_num := error_num s + 1\<rparr>))"
  using assms by (auto simp: ping_part_def ppp_inv_def Let_def PING_COUNT_def)

lemma turn_keeps:
  assumes "ppp_inv s" and "turn e s = Some t"
  shows "ppp_inv t"
proof -
  obtain u where u: "t = (ping_part e u)\<lparr>status := child_signal_handler (ends_at_last e) (status (ping_part e u))\<rparr>" "ppp_inv u"
    using turn_parts [OF assms(2,1)] by blast
  have "ppp_inv (ping_part e u)" using ping_part_result [OF u(2)] by blast
  then show ?thesis by (auto simp: u(1) ppp_inv_def child_signal_handler_def)
qed

text \<open>
  C34. However the children, the files and the network behave, the status is one of \<open>START\<close>, \<open>STOP\<close>, \<open>ONLINE\<close>, and \<open>STOP\<close> with \<open>ONLINE\<close> at the
  start of each turn; the counter of errors stays between 0 and 5, the number of the link between 0 and 9999, and its
  text with the line feed and the NUL fits the buffer of eight bytes.
\<close>

theorem ppp_status_is_well_formed:
  assumes "reachable (\<lambda>s t. \<exists>e. turn e s = Some t) ppp_start s"
  shows "status s \<in> {STOP, START, ONLINE, STOP OR ONLINE} \<and> 0 \<le> error_num s \<and> error_num s \<le> 5 \<and>
    0 \<le> link_num s \<and> link_num s \<le> 9999 \<and> (\<exists>line. link_text (link_num s) = Some line)"
proof -
  have "ppp_inv s" using assms
  proof (induction rule: reachable.induct)
    case at_start
    show ?case by (simp add: ppp_inv_def ppp_start_def PING_COUNT_def)
  next
    case (one_more s t)
    then show ?case using turn_keeps by blast
  qed
  then show ?thesis using link_text_fits [of "link_num s"] by (simp add: ppp_inv_def PING_COUNT_def)
qed

subsection \<open>A dead network\<close>

text \<open>The turns in which no ping is answered, and how many of them are left until the modem is reset.\<close>

definition dead_turn :: "ppp \<Rightarrow> ppp \<Rightarrow> bool" where
  "dead_turn s t \<longleftrightarrow> (\<exists>e. \<not> ping_ok e \<and> turn e s = Some t)"

definition turns_left :: "ppp \<Rightarrow> nat" where
  "turns_left s = (if status s AND STOP \<noteq> 0 then 1 else if status s = ONLINE then nat (7 - error_num s) else 8)"

definition good_inputs :: inputs where
  "good_inputs = \<lparr>ends_in_reset = False, ends_before = False, forks = True, seconds = [Link_there], opens = True,
     ends_in_clear = False, ends_between = False, ends_in_set = False, ends_before_ping = False, ping_ok = False, ends_at_last = False\<rparr>"

lemma good_inputs_start:
  assumes "link_text (if 10000 \<le> link_num s + 1 then 0 else link_num s + 1) = Some line"
  shows "pppd_start good_inputs s = Some (0, s\<lparr>link_num := (if 10000 \<le> link_num s + 1 then 0 else link_num s + 1)\<rparr>)"
proof -
  have g: "\<not> ends_before good_inputs" "forks good_inputs" "seconds good_inputs = [Link_there]" "opens good_inputs"
    by (simp_all add: good_inputs_def)
  have "await_link PPP_START_TIMEOUT st [Link_there] = Some (True, st)" for st by (simp add: PPP_START_TIMEOUT_def numeral_eq_Suc)
  then show ?thesis using assms by (simp add: pppd_start_def g child_signal_handler_def Let_def del: if_split cong: if_cong)
qed

lemma dead_turn_exists:
  assumes "ppp_inv s"
  shows "\<exists>t. dead_turn s t"
proof -
  let ?s = "stop_part good_inputs s"
  have i: "0 \<le> link_num ?s" "link_num ?s < 10000" using stop_part_result [OF assms, of good_inputs] by (simp_all add: ppp_inv_def)
  define n where "n = (if 10000 \<le> link_num ?s + 1 then 0 else link_num ?s + 1)"
  have "0 \<le> n" "n < 10000" using i by (simp_all add: n_def)
  then obtain line where "link_text n = Some line" using link_text_fits by blast
  then have "pppd_start good_inputs ?s = Some (0, ?s\<lparr>link_num := n\<rparr>)" using good_inputs_start [of ?s line] unfolding n_def by blast
  then have "\<exists>t. turn good_inputs s = Some t" by (simp add: turn_def start_part_def Let_def)
  moreover have "\<not> ping_ok good_inputs" by (simp add: good_inputs_def)
  ultimately show ?thesis unfolding dead_turn_def by blast
qed

lemma dead_turn_counts:
  assumes "ppp_inv s" and "dead_turn s t"
  shows "resets s < resets t \<or> resets t = resets s \<and> turns_left t < turns_left s"
proof -
  obtain e where e: "\<not> ping_ok e" "turn e s = Some t" using assms(2) by (auto simp: dead_turn_def)
  note a = stop_part_result [OF assms(1), of e]
  obtain u where u: "t = (ping_part e u)\<lparr>status := child_signal_handler (ends_at_last e) (status (ping_part e u))\<rparr>"
    and b: "ppp_inv u" "error_num u = error_num (stop_part e s)" "resets u = resets (stop_part e s)"
      "status (stop_part e s) = START \<longrightarrow> status u \<in> {STOP, ONLINE, STOP OR ONLINE}"
      "status (stop_part e s) \<noteq> START \<longrightarrow> u = stop_part e s \<or> status u = STOP"
    using turn_parts [OF e(2) assms(1)] by blast
  show ?thesis
  proof (cases "status s AND STOP = 0")
    case False
    then show ?thesis using a b(3) ping_part_result [OF b(1), of e] by (simp add: u)
  next
    case True
    have s: "stop_part e s = s" using a True by simp
    have b: "ppp_inv u" "error_num u = error_num s" "resets u = resets s" 
        "status s = START \<longrightarrow> status u \<in> {STOP, ONLINE, STOP OR ONLINE}" "status s \<noteq> START \<longrightarrow> u = s \<or> status u = STOP"
      using b a s by simp_all
    note p = ping_part_result [OF b(1), of e]
    have st: "status s \<in> {START, ONLINE}" using True assms(1) by (auto simp: ppp_inv_def)
    have r: "resets t = resets s" using p b(3) by (simp add: u)
    have err: "0 \<le> error_num s" "error_num s \<le> 5" using assms(1) by (simp_all add: ppp_inv_def PING_COUNT_def)
    have todo: "turns_left s = (if status s = ONLINE then nat (7 - error_num s) else 8)" using True by (simp add: turns_left_def)
    have "turns_left t < turns_left s"
    proof (cases "status t AND STOP = 0")
      case False
      then show ?thesis using err by (simp add: turns_left_def [of t] todo)
    next
      case alive: True
      have no: "\<not> ends_at_last e" "status t = status (ping_part e u)" using alive by (auto simp: u child_signal_handler_def split: if_splits)
      have on: "status u = ONLINE"
      proof (rule ccontr)
        assume "status u \<noteq> ONLINE"
        then have "ping_part e u = u" "status u \<in> {STOP, STOP OR ONLINE}" using p b(4,5) st by auto
        then show False using alive no by auto
      qed
      have "error_num s \<noteq> PING_COUNT" using p on e(1) b(2) alive no by auto
      then have "ping_part e u = u\<lparr>error_num := error_num s + 1\<rparr>" using p on e(1) b(2) by auto
      then have "status t = ONLINE" "error_num t = error_num s + 1" using no on by (simp_all add: u)
      then show ?thesis using todo err by (auto simp: turns_left_def [of t] nat_less_iff)
    qed
    then show ?thesis using r by simp
  qed
qed

interpretation dead: progress dead_turn "\<lambda>s. ppp_inv s \<and> n \<le> resets s" "\<lambda>s. n < resets s" turns_left for n
proof unfold_locales
  show "ppp_inv s \<and> n \<le> resets s \<Longrightarrow> dead_turn s t \<Longrightarrow> ppp_inv t \<and> n \<le> resets t" for s t
    using turn_keeps dead_turn_counts [of s t] unfolding dead_turn_def by fastforce
  show "ppp_inv s \<and> n \<le> resets s \<Longrightarrow> \<not> n < resets s \<Longrightarrow> \<exists>t. dead_turn s t" for s using dead_turn_exists by blast
  show "ppp_inv s \<and> n \<le> resets s \<Longrightarrow> \<not> n < resets s \<Longrightarrow> dead_turn s t \<Longrightarrow> n < resets t \<or> turns_left t < turns_left s" for s t
    using dead_turn_counts [of s t] by auto
qed

text \<open>
  C33. As long as no ping is answered, the supervisor resets the modem in the end, from every state that it can be in and whatever else
  happens: when \<open>pppd\<close> fails to start, does not bring up the link, or ends, also when the signal of its end is lost
  between the reading and the writing of the status.
\<close>

theorem dead_network_resets_modem:
  assumes "ppp_inv s"
  shows "inevitably dead_turn (\<lambda>t. resets s < resets t) s"
  by (rule inevitably_mono [OF dead.ends [of s "resets s"]]) (use assms in auto)

text \<open>
  The modem is given up after six pings without an answer in a row, not the five of \<open>PING_COUNT\<close> that the message names: the first five only
  count, and an answer starts the count again.
\<close>

theorem six_failed_pings:
  assumes "ppp_inv s" and "status s = ONLINE" and "\<not> ends_before_ping e" and "\<not> ends_at_last e"
  shows "turn e s = Some (if ping_ok e then s\<lparr>error_num := 0\<rparr>
    else if error_num s < 5 then s\<lparr>error_num := error_num s + 1\<rparr> else s\<lparr>status := STOP, error_num := 0\<rparr>)"
  using assms by (simp add: turn_def stop_part_def start_part_def ping_part_def child_signal_handler_def ppp_inv_def PING_COUNT_def Let_def)

theorem ppp_status_is_well_formed_witness:
  "\<exists>t. turn (good_inputs\<lparr>forks := False\<rparr>) ppp_start = Some t \<and> status t \<in> {STOP, START, ONLINE, STOP OR ONLINE}"
proof -
  obtain t where t: "turn (good_inputs\<lparr>forks := False\<rparr>) ppp_start = Some t"
    by (simp add: turn_def stop_part_def start_part_def pppd_start_def ppp_start_def good_inputs_def child_signal_handler_def Let_def)
  have "reachable (\<lambda>s t. \<exists>e. turn e s = Some t) ppp_start t" by (rule one_more [OF at_start]) (use t in blast)
  then show ?thesis using t ppp_status_is_well_formed by blast
qed

theorem dead_network_resets_modem_witness:
  "inevitably dead_turn (\<lambda>t. 0 < resets t) ppp_start"
  using dead_network_resets_modem [of ppp_start] by (simp add: ppp_start_def ppp_inv_def PING_COUNT_def)

theorem six_failed_pings_witness:
  "turn good_inputs \<lparr>status = ONLINE, link_num = 1, error_num = 5, resets = 0\<rparr> = Some \<lparr>status = STOP, link_num = 1, error_num = 0, resets = 0\<rparr>"
  using six_failed_pings [of "\<lparr>status = ONLINE, link_num = 1, error_num = 5, resets = 0\<rparr>" good_inputs] by (simp add: ppp_inv_def PING_COUNT_def good_inputs_def)

end
