(* ===== verification/MkeyJson.thy ===== *)
theory MkeyJson
  imports JsonCompare JsonRoundTrip
begin

section \<open>The device key as JSON\<close>

text \<open>
  \<open>json/mkey_str2j/parse.c\<close>: a device key is written as a JSON text by \<open>marshal_mkey\<close> and read back by \<open>unmarshal_mkey\<close>, with
  the constructors, the printer and the parser of the library. Here the items are values; how they are linked and
  freed is the matter of the trees in memory. Each function takes the number of allocations that will succeed. The text of the error that is printed is
  left out.
\<close>

record mqtt_info =
  m_Url :: "byte list"
  m_Port :: int
  m_IsLive :: bool

record mkey =
  m_Product :: "byte list"
  m_ProductSn :: "byte list"
  m_ProductKey :: "byte list"
  m_DeviceName :: "byte list"
  m_DeviceSecret :: "byte list"
  m_MQTTInfo :: mqtt_info
  m_Addr :: "byte list list"

subsection \<open>Writing\<close>

text \<open>The value of an object to which an item is added, by \<open>cJSON_AddItemToObject\<close> with a copy of the key, and of an array.\<close>

definition append_child :: "'f cJSON \<Rightarrow> 'f cJSON \<Rightarrow> 'f cJSON" where
  "append_child obj x = Item (item obj) (child obj @ [x])"

definition named :: "byte list \<Rightarrow> 'f cJSON \<Rightarrow> 'f cJSON" where
  "named s x = Item ((item x)\<lparr>jtype := jtype (item x) AND NOT cJSON_StringIsConst, jstring := Some s\<rparr>) (child x)"

definition add_named :: "byte list \<Rightarrow> 'f cJSON option \<times> nat \<Rightarrow> 'f cJSON \<Rightarrow> 'f cJSON option \<times> nat" where
  "add_named s r obj = (case r of (None, mem) \<Rightarrow> (None, mem)
   | (Some x, mem) \<Rightarrow> (case alloc mem of None \<Rightarrow> (None, mem) | Some mem \<Rightarrow> (Some (append_child obj (named s x)), mem)))"

text \<open>
  A statement that adds to the key being built: no result if it is undefined, a null pointer if it jumps to the end,
  else the new value. A list of them runs until one jumps.
\<close>

type_synonym 'f build = "'f cJSON \<Rightarrow> nat \<Rightarrow> ('f cJSON option \<times> nat) option"

fun run_builds :: "'f build list \<Rightarrow> 'f build" where
  "run_builds [] obj mem = Some (Some obj, mem)"
| "run_builds (b # bs) obj mem = do {
     (r, mem) \<leftarrow> b obj mem;
     case r of None \<Rightarrow> Some (None, mem) | Some obj \<Rightarrow> run_builds bs obj mem }"

text \<open>\<open>cJSON_AddStringToObject\<close> of an array of characters, which must have a NUL.\<close>

definition build_string :: "('f, 'a) float_ops_scheme \<Rightarrow> string \<Rightarrow> byte list \<Rightarrow> 'f build" where
  "build_string fo name buf obj mem = do {
     n \<leftarrow> c_strlen buf;
     Some (add_named (lit name) (cJSON_CreateString fo mem (Some (take (nat n) buf))) obj) }"

definition build_item :: "string \<Rightarrow> (nat \<Rightarrow> 'f cJSON option \<times> nat) \<Rightarrow> 'f build" where
  "build_item name mk obj mem = Some (add_named (lit name) (mk mem) obj)"

text \<open>A statement on the item that was added last, which \<open>jmqtt\<close> and \<open>jaddr\<close> point to.\<close>

definition in_last :: "'f build \<Rightarrow> 'f build" where
  "in_last b obj mem = do {
     (r, mem) \<leftarrow> b (last (child obj)) mem;
     Some (map_option (\<lambda>y. Item (item obj) (butlast (child obj) @ [y])) r, mem) }"

definition build_element :: "('f, 'a) float_ops_scheme \<Rightarrow> byte list \<Rightarrow> 'f build" where
  "build_element fo buf obj mem = do {
     n \<leftarrow> c_strlen buf;
     Some (case cJSON_CreateString fo mem (Some (take (nat n) buf)) of (None, mem) \<Rightarrow> (None, mem)
       | (Some x, mem) \<Rightarrow> (Some (append_child obj x), mem)) }"

text \<open>The loop over the addresses ends at the first empty one.\<close>

fun build_addresses :: "('f, 'a) float_ops_scheme \<Rightarrow> byte list list \<Rightarrow> 'f build list" where
  "build_addresses fo [] = []"
| "build_addresses fo (a # as) = (if rd a 0 = Some 0 then [] else in_last (build_element fo a) # build_addresses fo as)"

definition build_mkey :: "('f, 'a) float_ops_scheme \<Rightarrow> mkey \<Rightarrow> 'f build list" where
  "build_mkey fo m =
     [build_string fo ''Product'' (m_Product m),
      build_string fo ''ProductSn'' (m_ProductSn m),
      build_string fo ''ProductKey'' (m_ProductKey m),
      build_string fo ''DeviceName'' (m_DeviceName m),
      build_string fo ''DeviceSecret'' (m_DeviceSecret m),
      build_item ''MqttInfo'' (cJSON_CreateObject fo),
      in_last (build_string fo ''Url'' (m_Url (m_MQTTInfo m))),
      in_last (build_item ''Port'' (\<lambda>mem. cJSON_CreateInt fo mem (m_Port (m_MQTTInfo m)))),
      in_last (build_item ''IsLive'' (\<lambda>mem. cJSON_CreateBool fo mem (of_bool (m_IsLive (m_MQTTInfo m))))),
      build_item ''Address'' (cJSON_CreateArray fo)] @ build_addresses fo (m_Addr m)"

definition marshal_mkey :: "('f, 'a) num_ops_scheme \<Rightarrow> bool \<Rightarrow> nat \<Rightarrow> mkey option \<Rightarrow> byte option list option option" where
  "marshal_mkey fo realloc mem m = (case m of None \<Rightarrow> Some None
   | Some m \<Rightarrow> (case cJSON_CreateObject fo mem of (None, mem) \<Rightarrow> Some None
     | (Some jkey, mem) \<Rightarrow> do {
         (r, mem) \<leftarrow> run_builds (build_mkey fo m) jkey mem;
         case r of None \<Rightarrow> Some None
         | Some jkey \<Rightarrow> cJSON_PrintUnformatted fo realloc mem (Some jkey) }))"

subsection \<open>Reading\<close>

definition member :: "'f cJSON option \<Rightarrow> string \<Rightarrow> 'f cJSON option" where
  "member p name = (case p of None \<Rightarrow> None | Some x \<Rightarrow> find_named True (lit name) (child x))"

text \<open>A string member copied into an array of the key with its size, and counted.\<close>

definition take_string :: "'f cJSON option \<Rightarrow> byte list \<Rightarrow> int \<Rightarrow> (byte list \<times> int) option" where
  "take_string p dst status =
     (if cJSON_IsString (map_option item p) \<and> Option.bind p (\<lambda>x. valuestring (item x)) \<noteq> None
      then do {
        s \<leftarrow> Option.bind p (\<lambda>x. valuestring (item x));
        dst \<leftarrow> c_strncpy dst (s @ [0]) (length dst);
        Some (dst, status + 1) }
      else Some (dst, status))"

text \<open>
  The loop over the addresses. It tests \<open>strkey\<close>, which still is the last string looked up, and not the address; an
  address without a string is then read through a null pointer, and the eleventh is written behind the array.
\<close>

fun take_addresses :: "bool \<Rightarrow> nat \<Rightarrow> 'f cJSON list \<Rightarrow> byte list list \<Rightarrow> byte list list option" where
  "take_addresses ok i [] addr = Some addr"
| "take_addresses ok i (x # xs) addr =
     (if ok then do {
        s \<leftarrow> valuestring (item x);
        old \<leftarrow> rd addr (int i);
        a \<leftarrow> c_strncpy old (s @ [0]) (length old);
        take_addresses ok (i + 1) xs (addr[i := a]) }
      else take_addresses ok (i + 1) xs addr)"

definition take_mqtt :: "'f cJSON option \<Rightarrow> 'f cJSON option \<Rightarrow> mqtt_info \<Rightarrow> int \<Rightarrow> ('f cJSON option \<times> mqtt_info \<times> int) option" where
  "take_mqtt jmqtt strkey q status =
     (if cJSON_IsObject (map_option item jmqtt) then do {
        let strkey = member jmqtt ''Url'';
        (url, status) \<leftarrow> take_string strkey (m_Url q) status;
        let intkey = member jmqtt ''Port'';
        let (port, status) = (if cJSON_IsInt (map_option item intkey)
          then (sint (of_int (valueint (item (the intkey))) :: 32 word), status + 1) else (m_Port q, status));
        let boolkey = member jmqtt ''IsLive'';
        let (live, status) = (if cJSON_IsBool (map_option item boolkey)
          then (cJSON_IsTrue (map_option item boolkey), status + 1) else (m_IsLive q, status));
        Some (strkey, q\<lparr>m_Url := url, m_Port := port, m_IsLive := live\<rparr>, status) }
      else Some (strkey, q, status))"

definition zero_mkey :: mkey where
  "zero_mkey = \<lparr>m_Product = replicate 20 0, m_ProductSn = replicate 20 0, m_ProductKey = replicate 20 0, m_DeviceName = replicate 20 0,
     m_DeviceSecret = replicate 64 0, m_MQTTInfo = \<lparr>m_Url = replicate 32 0, m_Port = 0, m_IsLive = False\<rparr>, m_Addr = replicate 10 (replicate 16 0)\<rparr>"

definition take_mkey :: "'f cJSON \<Rightarrow> mkey \<Rightarrow> (int \<times> mkey) option" where
  "take_mkey jkey m = do {
     (product, status) \<leftarrow> take_string (member (Some jkey) ''Product'') (m_Product m) 0;
     (sn, status) \<leftarrow> take_string (member (Some jkey) ''ProductSn'') (m_ProductSn m) status;
     (pkey, status) \<leftarrow> take_string (member (Some jkey) ''ProductKey'') (m_ProductKey m) status;
     (dev, status) \<leftarrow> take_string (member (Some jkey) ''DeviceName'') (m_DeviceName m) status;
     let strkey = member (Some jkey) ''DeviceSecret'';
     (secret, status) \<leftarrow> take_string strkey (m_DeviceSecret m) status;
     (strkey, mqtt, status) \<leftarrow> take_mqtt (member (Some jkey) ''MqttInfo'') strkey (m_MQTTInfo m) status;
     let jaddr = member (Some jkey) ''Address'';
     let ok = (cJSON_IsString (map_option item strkey) \<and> Option.bind strkey (\<lambda>x. valuestring (item x)) \<noteq> None);
     addr \<leftarrow> (if cJSON_IsArray (map_option item jaddr) then take_addresses ok 0 (child (the jaddr)) (m_Addr m) else Some (m_Addr m));
     if status \<noteq> 8 then Some (0, zero_mkey)
     else Some (status, \<lparr>m_Product = product, m_ProductSn = sn, m_ProductKey = pkey, m_DeviceName = dev, m_DeviceSecret = secret,
       m_MQTTInfo = mqtt, m_Addr = addr\<rparr>) }"

definition unmarshal_mkey :: "('f, 'a) num_ops_scheme \<Rightarrow> nat \<Rightarrow> byte list \<Rightarrow> mkey option \<Rightarrow> (int \<times> mkey option) option" where
  "unmarshal_mkey fo mem mstr m = (case m of None \<Rightarrow> Some (0, None)
   | Some m \<Rightarrow> do {
       r \<leftarrow> cJSON_Parse fo mem (Some mstr);
       case parsed r of None \<Rightarrow> Some (0, Some m)
       | Some jkey \<Rightarrow> do { (status, m) \<leftarrow> take_mkey jkey m; Some (status, Some m) } })"

subsection \<open>The value that is written\<close>

definition string_value :: "('f, 'a) float_ops_scheme \<Rightarrow> byte list option \<Rightarrow> byte list \<Rightarrow> 'f cJSON" where
  "string_value fo key buf = Item ((cJSON_New_Item fo)\<lparr>jtype := cJSON_String, valuestring := Some (c_str buf), jstring := key\<rparr>) []"

definition key_addresses :: "mkey \<Rightarrow> byte list list" where
  "key_addresses m = takeWhile (\<lambda>a. rd a 0 \<noteq> Some 0) (m_Addr m)"

definition mkey_value :: "('f, 'a) float_ops_scheme \<Rightarrow> 'f \<Rightarrow> mkey \<Rightarrow> 'f cJSON" where
  "mkey_value fo x m = (let n = cJSON_New_Item fo; q = m_MQTTInfo m in Item (n\<lparr>jtype := cJSON_Object\<rparr>)
     [string_value fo (Some (lit ''Product'')) (m_Product m),
      string_value fo (Some (lit ''ProductSn'')) (m_ProductSn m),
      string_value fo (Some (lit ''ProductKey'')) (m_ProductKey m),
      string_value fo (Some (lit ''DeviceName'')) (m_DeviceName m),
      string_value fo (Some (lit ''DeviceSecret'')) (m_DeviceSecret m),
      Item (n\<lparr>jtype := cJSON_Object, jstring := Some (lit ''MqttInfo'')\<rparr>)
        [string_value fo (Some (lit ''Url'')) (m_Url q),
         Item (n\<lparr>jtype := cJSON_Int, valueint := m_Port q, valuedouble := x, jstring := Some (lit ''Port'')\<rparr>) [],
         Item (n\<lparr>jtype := cJSON_Bool, valueint := of_bool (m_IsLive q), jstring := Some (lit ''IsLive'')\<rparr>) []],
      Item (n\<lparr>jtype := cJSON_Array, jstring := Some (lit ''Address'')\<rparr>) (map (string_value fo None) (key_addresses m))])"

text \<open>A key whose arrays have their sizes and hold a string each, with zeros behind it.\<close>

definition padded :: "nat \<Rightarrow> byte list \<Rightarrow> bool" where
  "padded n buf \<longleftrightarrow> length buf = n \<and> 0 \<in> set buf \<and> buf = c_str buf @ replicate (n - length (c_str buf)) 0"

definition mkey_ok :: "mkey \<Rightarrow> bool" where
  "mkey_ok m \<longleftrightarrow> padded 20 (m_Product m) \<and> padded 20 (m_ProductSn m) \<and> padded 20 (m_ProductKey m) \<and> padded 20 (m_DeviceName m) \<and>
     padded 64 (m_DeviceSecret m) \<and> padded 32 (m_Url (m_MQTTInfo m)) \<and> in_i32 (m_Port (m_MQTTInfo m)) \<and>
     length (m_Addr m) = 10 \<and> list_all (padded 16) (m_Addr m) \<and>
     m_Addr m = key_addresses m @ replicate (10 - length (key_addresses m)) (replicate 16 0)"

text \<open>A statement that changes the value by \<open>f\<close> unless an allocation fails, and makes at most \<open>n\<close> of them.\<close>

definition builds :: "nat \<Rightarrow> 'f build \<Rightarrow> ('f cJSON \<Rightarrow> 'f cJSON) \<Rightarrow> bool" where
  "builds n b f \<longleftrightarrow> (\<forall>obj mem. \<exists>r k. b obj mem = Some (r, k) \<and> (r = None \<or> r = Some (f obj)) \<and> (n \<le> mem \<longrightarrow> r \<noteq> None \<and> mem \<le> k + n))"

lemma run_builds_folds:
  assumes "list_all2 (builds n) bs fs"
  shows "builds (n * length bs) (run_builds bs) (\<lambda>obj. foldl (\<lambda>x f. f x) obj fs)"
  using assms
proof (induction bs fs rule: list_all2_induct)
  case Nil
  show ?case by (simp add: builds_def)
next
  case (Cons b bs f fs)
  show ?case unfolding builds_def
  proof (intro allI)
    fix obj mem
    obtain r k where k: "b obj mem = Some (r, k)" "r = None \<or> r = Some (f obj)" "n \<le> mem \<longrightarrow> r \<noteq> None \<and> mem \<le> k + n"
      using Cons(1) unfolding builds_def by blast
    obtain r' k' where k': "run_builds bs (f obj) k = Some (r', k')" "r' = None \<or> r' = Some (foldl (\<lambda>x f. f x) (f obj) fs)"
        "n * length bs \<le> k \<longrightarrow> r' \<noteq> None \<and> k \<le> k' + n * length bs"
      using Cons.IH unfolding builds_def by blast
    show "\<exists>r k. run_builds (b # bs) obj mem = Some (r, k) \<and> (r = None \<or> r = Some (foldl (\<lambda>x f. f x) obj (f # fs))) \<and>
        (n * length (b # bs) \<le> mem \<longrightarrow> r \<noteq> None \<and> mem \<le> k + n * length (b # bs))"
      using k k' by (cases r) auto
  qed
qed

lemma take_c_str: "0 \<in> set buf \<Longrightarrow> c_strlen buf = Some (int (length (c_str buf))) \<and> take (length (c_str buf)) buf = c_str buf"
  by (simp add: c_strlen_def c_str_def takeWhile_eq_take [symmetric])

lemma no_const [simp]: "cJSON_String AND NOT cJSON_StringIsConst = cJSON_String" "cJSON_Object AND NOT cJSON_StringIsConst = cJSON_Object"
  "cJSON_Array AND NOT cJSON_StringIsConst = cJSON_Array" "cJSON_Int AND NOT cJSON_StringIsConst = cJSON_Int"
  "cJSON_Bool AND NOT cJSON_StringIsConst = cJSON_Bool"
  by (simp_all add: json_types)

lemma builds_string:
  assumes "0 \<in> set buf"
  shows "builds 3 (build_string fo name buf) (\<lambda>obj. append_child obj (string_value fo (Some (lit name)) buf))"
  using take_c_str [OF assms]
  by (auto simp: builds_def build_string_def add_named_def cJSON_CreateString_def create_text_def cJSON_strdup_def named_def string_value_def alloc_def cJSON_New_Item_def)

lemma builds_element:
  assumes "0 \<in> set buf"
  shows "builds 3 (build_element fo buf) (\<lambda>obj. append_child obj (string_value fo None buf))"
  using take_c_str [OF assms]
  by (auto simp: builds_def build_element_def cJSON_CreateString_def create_text_def cJSON_strdup_def string_value_def alloc_def cJSON_New_Item_def)

lemma builds_items:
  "builds 3 (build_item name (cJSON_CreateObject fo)) (\<lambda>obj. append_child obj (Item ((cJSON_New_Item fo)\<lparr>jtype := cJSON_Object, jstring := Some (lit name)\<rparr>) []))"
  "builds 3 (build_item name (cJSON_CreateArray fo)) (\<lambda>obj. append_child obj (Item ((cJSON_New_Item fo)\<lparr>jtype := cJSON_Array, jstring := Some (lit name)\<rparr>) []))"
  "builds 3 (build_item name (\<lambda>mem. cJSON_CreateInt fo mem n)) (\<lambda>obj. append_child obj
    (Item ((cJSON_New_Item fo)\<lparr>jtype := cJSON_Int, valueint := n, valuedouble := fo_of_int fo n, jstring := Some (lit name)\<rparr>) []))"
  "builds 3 (build_item name (\<lambda>mem. cJSON_CreateBool fo mem n)) (\<lambda>obj. append_child obj
    (Item ((cJSON_New_Item fo)\<lparr>jtype := cJSON_Bool, valueint := n, jstring := Some (lit name)\<rparr>) []))"
  by (auto simp: builds_def build_item_def add_named_def create_def alloc_def named_def cJSON_CreateObject_def cJSON_CreateArray_def
      cJSON_CreateInt_def cJSON_CreateBool_def cJSON_New_Item_def)

definition into_last :: "('f cJSON \<Rightarrow> 'f cJSON) \<Rightarrow> 'f cJSON \<Rightarrow> 'f cJSON" where
  "into_last f obj = Item (item obj) (butlast (child obj) @ [f (last (child obj))])"

lemma builds_into:
  assumes "builds n b f"
  shows "builds n (in_last b) (into_last f)"
  unfolding builds_def
proof (intro allI)
  fix obj mem
  obtain r k where "b (last (child obj)) mem = Some (r, k)" "r = None \<or> r = Some (f (last (child obj)))" "n \<le> mem \<longrightarrow> r \<noteq> None \<and> mem \<le> k + n"
    using assms unfolding builds_def by blast
  then show "\<exists>r k. in_last b obj mem = Some (r, k) \<and> (r = None \<or> r = Some (into_last f obj)) \<and> (n \<le> mem \<longrightarrow> r \<noteq> None \<and> mem \<le> k + n)"
    by (intro exI [of _ "map_option (\<lambda>y. Item (item obj) (butlast (child obj) @ [y])) r"] exI [of _ k]) (auto simp: in_last_def into_last_def)
qed

lemma into_last_simps [simp]: "into_last f (Item d (xs @ [x])) = Item d (xs @ [f x])" "append_child (Item d xs) x = Item d (xs @ [x])"
  by (simp_all add: into_last_def append_child_def)

lemma builds_addresses:
  "list_all (\<lambda>a. 0 \<in> set a) as \<Longrightarrow> list_all2 (builds 3) (build_addresses fo as)
    (map (\<lambda>a. into_last (\<lambda>arr. append_child arr (string_value fo None a))) (takeWhile (\<lambda>a. rd a 0 \<noteq> Some 0) as))"
  by (induction as) (auto intro: builds_into builds_element)

lemma fold_addresses:
  "foldl (\<lambda>x f. f x) (Item d (xs @ [Item e ys])) (map (\<lambda>a. into_last (\<lambda>arr. append_child arr (string_value fo None a))) as) =
    Item d (xs @ [Item e (ys @ map (string_value fo None) as)])"
  by (induction as arbitrary: ys) simp_all

definition mkey_steps :: "('f, 'a) float_ops_scheme \<Rightarrow> mkey \<Rightarrow> ('f cJSON \<Rightarrow> 'f cJSON) list" where
  "mkey_steps fo m = (let n = cJSON_New_Item fo; q = m_MQTTInfo m in
     [\<lambda>obj. append_child obj (string_value fo (Some (lit ''Product'')) (m_Product m)),
      \<lambda>obj. append_child obj (string_value fo (Some (lit ''ProductSn'')) (m_ProductSn m)),
      \<lambda>obj. append_child obj (string_value fo (Some (lit ''ProductKey'')) (m_ProductKey m)),
      \<lambda>obj. append_child obj (string_value fo (Some (lit ''DeviceName'')) (m_DeviceName m)),
      \<lambda>obj. append_child obj (string_value fo (Some (lit ''DeviceSecret'')) (m_DeviceSecret m)),
      \<lambda>obj. append_child obj (Item (n\<lparr>jtype := cJSON_Object, jstring := Some (lit ''MqttInfo'')\<rparr>) []),
      into_last (\<lambda>obj. append_child obj (string_value fo (Some (lit ''Url'')) (m_Url q))),
      into_last (\<lambda>obj. append_child obj (Item (n\<lparr>jtype := cJSON_Int, valueint := m_Port q,
        valuedouble := fo_of_int fo (m_Port q), jstring := Some (lit ''Port'')\<rparr>) [])),
      into_last (\<lambda>obj. append_child obj (Item (n\<lparr>jtype := cJSON_Bool, valueint := of_bool (m_IsLive q), jstring := Some (lit ''IsLive'')\<rparr>) [])),
      \<lambda>obj. append_child obj (Item (n\<lparr>jtype := cJSON_Array, jstring := Some (lit ''Address'')\<rparr>) [])] @
     map (\<lambda>a. into_last (\<lambda>arr. append_child arr (string_value fo None a))) (key_addresses m))"

lemma builds_mkey:
  assumes "mkey_ok m"
  shows "list_all2 (builds 3) (build_mkey fo m) (mkey_steps fo m)"
proof -
  have z: "0 \<in> set (m_Product m)" "0 \<in> set (m_ProductSn m)" "0 \<in> set (m_ProductKey m)" "0 \<in> set (m_DeviceName m)" "0 \<in> set (m_DeviceSecret m)"
      "0 \<in> set (m_Url (m_MQTTInfo m))" and a: "list_all (\<lambda>a. 0 \<in> set a) (m_Addr m)"
    using assms by (auto simp: mkey_ok_def padded_def list_all_iff)
  show ?thesis unfolding build_mkey_def mkey_steps_def Let_def key_addresses_def
    by (intro list_all2_appendI builds_addresses [OF a] list.rel_intros builds_string builds_into builds_items z)
qed

lemma build_mkey_value:
  assumes "mkey_ok m"
  shows "\<exists>r k. run_builds (build_mkey fo m) (Item ((cJSON_New_Item fo)\<lparr>jtype := cJSON_Object\<rparr>) []) mem = Some (r, k) \<and>
    (r = None \<or> r = Some (mkey_value fo (fo_of_int fo (m_Port (m_MQTTInfo m))) m)) \<and> (60 \<le> mem \<longrightarrow> r \<noteq> None \<and> mem \<le> k + 60)"
proof -
  let ?o = "Item ((cJSON_New_Item fo)\<lparr>jtype := cJSON_Object\<rparr>) []"
  have into: "into_last f (Item d [a1, a2, a3, a4, a5, a6]) = Item d [a1, a2, a3, a4, a5, f a6]" for f d and a1 a2 a3 a4 a5 a6 :: "'a cJSON"
    by (simp add: into_last_def)
  have tail: "foldl (\<lambda>x f. f x) (Item d [a1, a2, a3, a4, a5, a6, Item e []])
      (map (\<lambda>a. into_last (\<lambda>arr. append_child arr (string_value fo None a))) (key_addresses m)) =
    Item d [a1, a2, a3, a4, a5, a6, Item e (map (string_value fo None) (key_addresses m))]" for d e a1 a2 a3 a4 a5 a6
    using fold_addresses [of d "[a1, a2, a3, a4, a5, a6]" e "[]" fo "key_addresses m"] by simp
  have "foldl (\<lambda>x f. f x) ?o (mkey_steps fo m) = mkey_value fo (fo_of_int fo (m_Port (m_MQTTInfo m))) m"
    by (simp add: mkey_steps_def mkey_value_def Let_def into tail)
  then obtain r k where r: "run_builds (build_mkey fo m) ?o mem = Some (r, k)" "r = None \<or> r = Some (mkey_value fo (fo_of_int fo (m_Port (m_MQTTInfo m))) m)"
      "3 * length (build_mkey fo m) \<le> mem \<longrightarrow> r \<noteq> None \<and> mem \<le> k + 3 * length (build_mkey fo m)"
    using run_builds_folds [OF builds_mkey [OF assms], of fo] unfolding builds_def by metis
  moreover have "length (build_addresses fo as) \<le> length as" for as by (induction as) auto
  from this [of "m_Addr m"] have "length (build_mkey fo m) \<le> 20"
    using conjunct1 [OF assms [unfolded mkey_ok_def, THEN conjunct2, THEN conjunct2, THEN conjunct2, THEN conjunct2, THEN conjunct2, THEN conjunct2, THEN conjunct2]]
    by (simp add: build_mkey_def)
  ultimately show ?thesis by (intro exI [of _ r] exI [of _ k]) auto
qed

subsection \<open>The value that is read back\<close>

lemma c_str_length_le: "length (c_str p) \<le> length p"
  by (simp add: c_str_def length_takeWhile_le)

text \<open>What is asked of the floating-point operations: the text of zero, which the printer makes for items without a number, fits its buffer.\<close>

definition zero_fits :: "('f, 'a) num_ops_scheme \<Rightarrow> bool" where
  "zero_fits fo \<longleftrightarrow> length (number_text fo (cJSON_New_Item fo)) < 26 \<and> 0 \<notin> set (number_text fo (cJSON_New_Item fo))"

lemma number_text_zero:
  "jtype d \<noteq> cJSON_Int \<Longrightarrow> valuedouble d = fo_of_int fo 0 \<Longrightarrow> number_text fo d = number_text fo (cJSON_New_Item fo)"
  by (simp add: number_text_def cJSON_New_Item_def json_types Let_def)

lemma in_i32_ll: "in_i32 n \<Longrightarrow> in_ll n"
  by (simp add: in_i32_def in_ll_def LLONG_MAX_def LLONG_MIN_def)

lemma c_string_buf [simp]: "c_string (Some (c_str buf))" "c_string None"
  by (simp_all add: c_string_def c_str_no_NUL)

lemma type_of_simps [simp]: "type_of (d\<lparr>jtype := cJSON_String\<rparr>) = cJSON_String"
  by (simp add: type_of_def json_types)

lemma string_value_facts:
  assumes "zero_fits fo"
  shows "c_string key \<Longrightarrow> sound fo (string_value fo key buf)" "c_string key \<Longrightarrow> rereadable fo (string_value fo key buf)"
    "nest (string_value fo key buf) = 0" "allocs (string_value fo key buf) = 1" "jstring (item (string_value fo key buf)) = key"
    "reread fo key (string_value fo k buf) = string_value fo key buf"
  using assms number_text_zero [of "(cJSON_New_Item fo)\<lparr>jtype := cJSON_String, valuestring := Some (c_str buf), jstring := key\<rparr>" fo]
  by (simp_all add: string_value_def zero_fits_def type_of_def cJSON_New_Item_def json_types new_item_def)

lemma key_addresses_facts:
  assumes "mkey_ok m"
  shows "length (key_addresses m) \<le> 10" "list_all (padded 16) (key_addresses m)"
proof -
  have "length (m_Addr m) = 10" and l: "list_all (padded 16) (m_Addr m)" using assms unfolding mkey_ok_def by blast+
  then show "length (key_addresses m) \<le> 10" by (metis key_addresses_def length_takeWhile_le)
  show "list_all (padded 16) (key_addresses m)" using l by (auto simp: list_all_iff key_addresses_def dest: set_takeWhileD)
qed

lemma json_types_differ [simp]:
  "type_of ((cJSON_New_Item fo)\<lparr>jtype := cJSON_Object\<rparr>) = cJSON_Object"
  "type_of ((cJSON_New_Item fo)\<lparr>jtype := cJSON_Object, jstring := k\<rparr>) = cJSON_Object"
  "type_of ((cJSON_New_Item fo)\<lparr>jtype := cJSON_Array, jstring := k\<rparr>) = cJSON_Array"
  "type_of ((cJSON_New_Item fo)\<lparr>jtype := cJSON_Int, valueint := n, valuedouble := x, jstring := k\<rparr>) = cJSON_Int"
  "type_of ((cJSON_New_Item fo)\<lparr>jtype := cJSON_Bool, valueint := n, jstring := k\<rparr>) = cJSON_Bool"
  by (simp_all add: type_of_def json_types)

lemma c_string_lit [simp]: "c_string (Some (lit ''Product''))" "c_string (Some (lit ''ProductSn''))" "c_string (Some (lit ''ProductKey''))"
  "c_string (Some (lit ''DeviceName''))" "c_string (Some (lit ''DeviceSecret''))" "c_string (Some (lit ''MqttInfo''))" "c_string (Some (lit ''Url''))"
  "c_string (Some (lit ''Port''))" "c_string (Some (lit ''IsLive''))" "c_string (Some (lit ''Address''))"
  by (simp_all add: c_string_def lit_def)

lemma mkey_value_sound:
  assumes "zero_fits fo" and "mkey_ok m"
  shows "sound fo (mkey_value fo x m)" "rereadable fo (mkey_value fo x m)" "nest (mkey_value fo x m) = 2" "allocs (mkey_value fo x m) \<le> 46"
proof -
  note sv = string_value_facts [OF assms(1)]
  have port: "in_ll (m_Port (m_MQTTInfo m))" using assms(2) by (simp add: mkey_ok_def in_i32_ll)
  let ?p = "(cJSON_New_Item fo)\<lparr>jtype := cJSON_Int, valueint := m_Port (m_MQTTInfo m), valuedouble := x, jstring := Some (lit ''Port'')\<rparr>"
  have t: "number_text fo ?p = int_text (m_Port (m_MQTTInfo m))" by (simp add: number_text_def)
  have d: "0 \<notin> set (int_text n)" for n using int_text_digits [of n] by (auto simp: c_isdigit_def)
  have z: "number_text fo d = number_text fo (cJSON_New_Item fo)" if "jtype d \<in> {cJSON_Object, cJSON_Array, cJSON_Bool}" "valuedouble d = fo_of_int fo 0" for d
    using number_text_zero [of d fo] that by (auto simp: json_types)
  have zf: "length (number_text fo (cJSON_New_Item fo)) < 26" "0 \<notin> set (number_text fo (cJSON_New_Item fo))" using assms(1) by (simp_all add: zero_fits_def)
  have n: "valuestring (cJSON_New_Item fo) = None" "jstring (cJSON_New_Item fo) = None" "valuedouble (cJSON_New_Item fo) = fo_of_int fo 0"
    by (simp_all add: cJSON_New_Item_def)
  show "sound fo (mkey_value fo x m)"
    using int_text_length [OF port] by (simp add: mkey_value_def Let_def sv t d z zf n list_all_iff)
  have j: "json_number fo (int_text (m_Port (m_MQTTInfo m)))"
    using int_text_length [OF port] by (simp add: json_number_def int_text_nonempty int_text_hd int_text_chars int_text_len)
  show "rereadable fo (mkey_value fo x m)"
    by (simp add: mkey_value_def Let_def sv t j n list_all_iff) (simp add: json_types)
  have flat: "foldr (\<lambda>c. max (nest c)) (map (string_value fo None) as) 0 = 0" for as by (induction as) (simp_all add: sv)
  have neq: "cJSON_Int \<noteq> cJSON_Array" "cJSON_Int \<noteq> cJSON_Object" "cJSON_Bool \<noteq> cJSON_Array" "cJSON_Bool \<noteq> cJSON_Object" "cJSON_Array \<noteq> cJSON_Object" "cJSON_Object \<noteq> cJSON_Array"
      "cJSON_Object \<noteq> cJSON_String" "cJSON_Array \<noteq> cJSON_String" "cJSON_Int \<noteq> cJSON_String" "cJSON_Bool \<noteq> cJSON_String"
    by (simp_all add: json_types)
  show "nest (mkey_value fo x m) = 2" by (simp add: mkey_value_def Let_def sv flat neq)
  have sums: "sum_list (map (\<lambda>c. 1 + allocs c) (map (string_value fo None) as)) = 2 * length as" for as by (induction as) (simp_all add: sv)
  show "allocs (mkey_value fo x m) \<le> 46"
    using sums [of "key_addresses m"] key_addresses_facts(1) [OF assms(2)] by (simp add: mkey_value_def Let_def sv neq)
qed

lemma reread_mkey_value:
  assumes "zero_fits fo" and "mkey_ok m"
  shows "reread fo None (mkey_value fo x m) = mkey_value fo (fo_atof fo (int_text (m_Port (m_MQTTInfo m)))) m"
proof -
  note sv = string_value_facts(5,6) [OF assms(1)]
  have port: "in_ll (m_Port (m_MQTTInfo m))" using assms(2) by (simp add: mkey_ok_def in_i32_ll)
  let ?p = "(cJSON_New_Item fo)\<lparr>jtype := cJSON_Int, valueint := m_Port (m_MQTTInfo m), valuedouble := x, jstring := Some (lit ''Port'')\<rparr>"
  have t: "number_text fo ?p = int_text (m_Port (m_MQTTInfo m))" by (simp add: number_text_def)
  have i: "int_text n \<noteq> lit ''null''" for n using int_text_digits [of n] by (auto simp: lit_def c_isdigit_def)
  have neq: "cJSON_Object \<noteq> cJSON_Bool" "cJSON_Object \<noteq> cJSON_Int" "cJSON_Object \<noteq> cJSON_Number" "cJSON_Object \<noteq> cJSON_String" "cJSON_Object \<noteq> cJSON_Array"
      "cJSON_Array \<noteq> cJSON_Bool" "cJSON_Array \<noteq> cJSON_Int" "cJSON_Array \<noteq> cJSON_Number" "cJSON_Array \<noteq> cJSON_String" "cJSON_Int \<noteq> cJSON_Bool"
    by (simp_all add: json_types)
  show ?thesis
    by (simp add: mkey_value_def Let_def sv neq t i read_number_def int_text_chars strtoll_int_text [OF port]) (simp add: new_item_def cJSON_New_Item_def)
qed

lemma take_string_padded:
  assumes "padded n buf"
  shows "take_string (Some (string_value fo key buf)) (replicate n 0) status = Some (buf, status + 1)"
proof -
  have b: "length (c_str buf) \<le> n" using assms c_str_length_le [of buf] by (simp add: padded_def)
  have "c_ncpy_bytes (c_str buf @ [0]) n = Some (take n (c_str buf) @ replicate (n - length (c_str buf)) 0)"
    using c_ncpy_bytes_str [OF c_str_no_NUL, of buf "[]" n] by simp
  then have "c_strncpy (replicate n 0) (c_str buf @ [0]) n = Some buf"
    using assms b by (simp add: c_strncpy_def padded_def)
  then show ?thesis by (simp add: take_string_def string_value_def cJSON_IsString_def has_type_def type_of_def json_types)
qed

lemma take_addresses_padded:
  "list_all (padded 16) as \<Longrightarrow> length as \<le> k \<Longrightarrow>
    take_addresses True (length pre) (map (string_value fo None) as) (pre @ replicate k (replicate 16 0)) = Some (pre @ as @ replicate (k - length as) (replicate 16 0))"
proof (induction as arbitrary: pre k)
  case (Cons a as)
  then obtain k' where k: "k = Suc k'" by (cases k) auto
  have "take_string (Some (string_value fo None a)) (replicate 16 0) 0 = Some (a, 1)" using take_string_padded [of 16 a fo None 0] Cons.prems(1) by simp
  then have c: "c_strncpy (replicate 16 0) (c_str a @ [0]) 16 = Some a"
    by (auto simp: take_string_def string_value_def cJSON_IsString_def has_type_def type_of_def json_types bind_eq_Some_conv)
  have "take_addresses True (length (pre @ [a])) (map (string_value fo None) as) ((pre @ [a]) @ replicate k' (replicate 16 0)) =
      Some ((pre @ [a]) @ as @ replicate (k' - length as) (replicate 16 0))"
    using Cons.prems k by (intro Cons.IH) simp_all
  then show ?case using c by (simp add: k string_value_def [of fo None a] nth_append list_update_append)
qed simp

lemma names_differ [simp]:
  "equal_names True (lit s) (lit t) \<longleftrightarrow> lit s = lit t"
  by (simp add: equal_names_def)

lemma mkey_members:
  fixes fo :: "('f, 'a) float_ops_scheme"
  defines "n \<equiv> cJSON_New_Item fo"
  shows "member (Some (mkey_value fo x m)) ''Product'' = Some (string_value fo (Some (lit ''Product'')) (m_Product m))"
    "member (Some (mkey_value fo x m)) ''ProductSn'' = Some (string_value fo (Some (lit ''ProductSn'')) (m_ProductSn m))"
    "member (Some (mkey_value fo x m)) ''ProductKey'' = Some (string_value fo (Some (lit ''ProductKey'')) (m_ProductKey m))"
    "member (Some (mkey_value fo x m)) ''DeviceName'' = Some (string_value fo (Some (lit ''DeviceName'')) (m_DeviceName m))"
    "member (Some (mkey_value fo x m)) ''DeviceSecret'' = Some (string_value fo (Some (lit ''DeviceSecret'')) (m_DeviceSecret m))"
    "member (Some (mkey_value fo x m)) ''Address'' =
      Some (Item (n\<lparr>jtype := cJSON_Array, jstring := Some (lit ''Address'')\<rparr>) (map (string_value fo None) (key_addresses m)))"
    "\<exists>q. member (Some (mkey_value fo x m)) ''MqttInfo'' = Some q \<and> cJSON_IsObject (Some (item q)) \<and>
      member (Some q) ''Url'' = Some (string_value fo (Some (lit ''Url'')) (m_Url (m_MQTTInfo m))) \<and>
      member (Some q) ''Port'' = Some (Item (n\<lparr>jtype := cJSON_Int, valueint := m_Port (m_MQTTInfo m), valuedouble := x, jstring := Some (lit ''Port'')\<rparr>) []) \<and>
      member (Some q) ''IsLive'' = Some (Item (n\<lparr>jtype := cJSON_Bool, valueint := of_bool (m_IsLive (m_MQTTInfo m)), jstring := Some (lit ''IsLive'')\<rparr>) [])"
  by (simp_all add: n_def member_def mkey_value_def Let_def string_value_def cJSON_IsObject_def has_type_def) (simp_all add: lit_def)

lemma sint_port: "in_i32 n \<Longrightarrow> sint (of_int n :: 32 word) = n"
  by (simp add: in_i32_def sint_sbintrunc' signed_take_bit_int_eq_self)

lemma take_mkey_value:
  assumes "mkey_ok m"
  shows "take_mkey (mkey_value fo x m) zero_mkey = Some (8, m)"
proof -
  obtain q where q: "member (Some (mkey_value fo x m)) ''MqttInfo'' = Some q" "cJSON_IsObject (Some (item q))"
      "member (Some q) ''Url'' = Some (string_value fo (Some (lit ''Url'')) (m_Url (m_MQTTInfo m)))"
      "member (Some q) ''Port'' = Some (Item ((cJSON_New_Item fo)\<lparr>jtype := cJSON_Int, valueint := m_Port (m_MQTTInfo m), valuedouble := x, jstring := Some (lit ''Port'')\<rparr>) [])"
      "member (Some q) ''IsLive'' = Some (Item ((cJSON_New_Item fo)\<lparr>jtype := cJSON_Bool, valueint := of_bool (m_IsLive (m_MQTTInfo m)), jstring := Some (lit ''IsLive'')\<rparr>) [])"
    using mkey_members(7) [of fo x m] by blast
  have p: "padded 20 (m_Product m)" "padded 20 (m_ProductSn m)" "padded 20 (m_ProductKey m)" "padded 20 (m_DeviceName m)" "padded 64 (m_DeviceSecret m)"
      "padded 32 (m_Url (m_MQTTInfo m))" "in_i32 (m_Port (m_MQTTInfo m))"
    and addr: "m_Addr m = key_addresses m @ replicate (10 - length (key_addresses m)) (replicate 16 0)"
    using assms unfolding mkey_ok_def by blast+
  have st: "cJSON_IsString (Some (item (string_value fo k b)))" "valuestring (item (string_value fo k b)) = Some (c_str b)" for k b
    by (simp_all add: string_value_def cJSON_IsString_def has_type_def type_of_def json_types)
  have mq: "take_mqtt (Some q) strkey (m_MQTTInfo zero_mkey) 5 = Some (Some (string_value fo (Some (lit ''Url'')) (m_Url (m_MQTTInfo m))), m_MQTTInfo m, 8)" for strkey
    using sint_port [OF p(7)]
    by (simp add: take_mqtt_def q zero_mkey_def take_string_padded [OF p(6)] Let_def cJSON_IsInt_def cJSON_IsBool_def has_type_def cJSON_GetIntValue_def cJSON_IsTrue_def)
  have ta: "take_addresses True 0 (map (string_value fo None) (key_addresses m)) (replicate 10 (replicate 16 0)) = Some (m_Addr m)"
    using take_addresses_padded [OF key_addresses_facts(2,1) [OF assms], of "[]" fo] by (simp add: addr [symmetric])
  have z: "m_Product zero_mkey = replicate 20 0" "m_ProductSn zero_mkey = replicate 20 0" "m_ProductKey zero_mkey = replicate 20 0"
      "m_DeviceName zero_mkey = replicate 20 0" "m_DeviceSecret zero_mkey = replicate 64 0" "m_Addr zero_mkey = replicate 10 (replicate 16 0)"
    by (simp_all add: zero_mkey_def)
  show ?thesis
    by (simp add: take_mkey_def mkey_members(1-6) q(1) z take_string_padded p mq st ta Let_def cJSON_IsArray_def has_type_def)
qed

lemma escape_text_length: "length (escape_text s) \<le> 6 * length s"
proof (induction s)
  case (Cons c s)
  have "length (escape_char c) \<le> 6" by (cases rule: escape_char_cases [of c]) simp_all
  then show ?case using Cons by simp
qed simp

lemma string_text_bound: "length (string_text s) \<le> 6 * length s + 2"
  using escape_text_length [of s] by (simp add: string_text_def escape_text_def [symmetric])

lemma string_value_text:
  "json_text fo fmt dep (string_value fo key buf) = string_text (c_str buf)" "jstring (item (string_value fo key buf)) = key"
  by (simp_all add: string_value_def type_of_def json_types)

lemma buffer_text_length: "length (string_text (c_str buf)) \<le> 6 * length buf + 2"
  using string_text_bound [of "c_str buf"] c_str_length_le [of buf] by simp

lemma mkey_value_printable: "printable (mkey_value fo x m)"
  by (simp add: mkey_value_def Let_def list_all_iff) (auto simp: string_value_def type_of_def json_types)

lemma addresses_text_length:
  "list_all (padded 16) as \<Longrightarrow> length (elements_text fo False dep (map (string_value fo None) as)) \<le> 99 * length as"
proof (induction as)
  case (Cons a as)
  then show ?case using buffer_text_length [of a] by (auto simp: padded_def string_value_text)
qed simp

lemma item_texts:
  fixes fo :: "('f, 'a) num_ops_scheme"
  defines "n \<equiv> cJSON_New_Item fo"
  shows "json_text fo False dep (Item (n\<lparr>jtype := cJSON_Object\<rparr>) cs) = 123 # members_text fo False (dep + 1) cs @ [125]"
    "json_text fo False dep (Item (n\<lparr>jtype := cJSON_Object, jstring := key\<rparr>) cs) = 123 # members_text fo False (dep + 1) cs @ [125]"
    "json_text fo False dep (Item (n\<lparr>jtype := cJSON_Array, jstring := key\<rparr>) cs) = 91 # elements_text fo False (dep + 1) cs @ [93]"
    "json_text fo False dep (Item (n\<lparr>jtype := cJSON_Int, valueint := i, valuedouble := x, jstring := key\<rparr>) []) = int_text i"
    "length (json_text fo False dep (Item (n\<lparr>jtype := cJSON_Bool, valueint := i, jstring := key\<rparr>) [])) \<le> 5"
  by (simp_all add: n_def number_text_def type_of_def json_types lit_def)

lemma mkey_text_length:
  assumes "mkey_ok m"
  shows "length (json_text fo False 0 (mkey_value fo x m)) + 3 \<le> 4096"
proof -
  have a: "length (elements_text fo False dep (map (string_value fo None) (key_addresses m))) \<le> 990" for dep
    using addresses_text_length [OF key_addresses_facts(2) [OF assms], of fo dep] key_addresses_facts(1) [OF assms] by simp
  have l: "length (m_Product m) = 20" "length (m_ProductSn m) = 20" "length (m_ProductKey m) = 20" "length (m_DeviceName m) = 20"
      "length (m_DeviceSecret m) = 64" "length (m_Url (m_MQTTInfo m)) = 32" and p: "in_ll (m_Port (m_MQTTInfo m))"
    using assms by (simp_all add: mkey_ok_def padded_def in_i32_ll)
  note s = buffer_text_length [of "m_Product m"] buffer_text_length [of "m_ProductSn m"] buffer_text_length [of "m_ProductKey m"]
    buffer_text_length [of "m_DeviceName m"] buffer_text_length [of "m_DeviceSecret m"] buffer_text_length [of "m_Url (m_MQTTInfo m)"]
  have k: "length (string_text (lit u)) \<le> 6 * length u + 2" for u using string_text_bound [of "lit u"] by (simp add: lit_def)
  note keys = k [of "''Product''"] k [of "''ProductSn''"] k [of "''ProductKey''"] k [of "''DeviceName''"] k [of "''DeviceSecret''"]
    k [of "''MqttInfo''"] k [of "''Url''"] k [of "''Port''"] k [of "''IsLive''"] k [of "''Address''"]
  have b: "length (json_text fo False dep (Item ((cJSON_New_Item fo)\<lparr>jtype := cJSON_Bool, valueint := i, jstring := key\<rparr>) [])) \<le> 5" for dep i key
    by (rule item_texts(5))
  show ?thesis
    using s keys a [of "Suc (Suc 0)"] int_text_length [OF p] b [where dep = "Suc (Suc 0)" and i = "of_bool (m_IsLive (m_MQTTInfo m))" and key = "Some (lit ''IsLive'')"] unfolding l
    by (simp del: json_text.simps add: mkey_value_def Let_def string_value_text item_texts(1-4))
qed

text \<open>
  C35. What \<open>marshal_mkey\<close> writes, \<open>unmarshal_mkey\<close> reads back: for a well-formed key \<open>marshal_mkey\<close> never runs outside its arrays, and
  returns a text or, when an allocation fails, a null pointer, and a text when 70 allocations succeed; the text read into
  a zeroed key, with at least 47 allocations, gives the same key and the status 8. A key is well-formed when each of its strings ends within its array with nothing
  but zeros behind it, and no address stands behind an empty one: the addresses that are used come first and the others of the ten are all zeros (with an empty address
  in between \<open>marshal_mkey\<close> stops there). The port is an \<open>int\<close>. The other hypothesis is that the double zero, which items that are no numbers carry, would print in
  fewer than 26 bytes without a NUL.
\<close>

theorem mkey_round_trip:
  assumes "mkey_ok m" and "zero_fits fo" and "46 < mem'"
  shows "\<exists>r. marshal_mkey fo realloc mem (Some m) = Some r \<and> (70 \<le> mem \<longrightarrow> r \<noteq> None) \<and>
    (case r of None \<Rightarrow> True | Some block \<Rightarrow>
      \<exists>mstr. block = map Some mstr \<and> unmarshal_mkey fo mem' mstr (Some zero_mkey) = Some (8, Some m))"
proof (cases "cJSON_CreateObject fo mem")
  case (Pair o1 mem1)
  let ?v = "mkey_value fo (fo_of_int fo (m_Port (m_MQTTInfo m))) m"
  show ?thesis
  proof (cases o1)
    case None
    then show ?thesis using Pair by (auto simp: marshal_mkey_def cJSON_CreateObject_def create_def alloc_def split: if_splits)
  next
    case (Some jkey)
    have k: "jkey = Item ((cJSON_New_Item fo)\<lparr>jtype := cJSON_Object\<rparr>) []" "mem = mem1 + 1"
      using Pair Some by (auto simp: cJSON_CreateObject_def create_def alloc_def split: option.splits if_splits)
    obtain r1 mem2 where b: "run_builds (build_mkey fo m) jkey mem1 = Some (r1, mem2)" "r1 = None \<or> r1 = Some ?v"
        "60 \<le> mem1 \<longrightarrow> r1 \<noteq> None \<and> mem1 \<le> mem2 + 60"
      using build_mkey_value [OF assms(1), of fo mem1] k(1) by blast
    show ?thesis
    proof (cases r1)
      case N: None
      then show ?thesis using Pair Some b k(2) by (simp add: marshal_mkey_def)
    next
      case S: (Some v)
      note snd = mkey_value_sound [OF assms(2,1), of "fo_of_int fo (m_Port (m_MQTTInfo m))"]
      obtain r where p: "print_block fo realloc mem2 False ?v = Some r" and r: "\<forall>block. r = Some block \<longrightarrow> block = map Some (json_text fo False 0 ?v @ [0])"
          "printable ?v \<and> length (json_text fo False 0 ?v) + 3 \<le> INT_MAX \<and> 2 \<le> mem2 \<and> length (json_text fo False 0 ?v) + 3 \<le> 256 * 2 ^ (mem2 - 2) \<longrightarrow> r \<noteq> None"
        using print_block_result [OF snd(1) refl, where realloc = realloc and mem = mem2 and fmt = False] by blast
      have m: "marshal_mkey fo realloc mem (Some m) = Some r" using Pair Some b S p by (simp add: marshal_mkey_def cJSON_PrintUnformatted_def)
      have "70 \<le> mem \<longrightarrow> r \<noteq> None"
      proof
        assume "70 \<le> mem"
        then have "6 \<le> mem2" using b(3) k(2) by simp
        then have "(2::nat) ^ 4 \<le> 2 ^ (mem2 - 2)" by (intro power_increasing) simp_all
        then show "r \<noteq> None" using r(2) mkey_text_length [OF assms(1), of fo "fo_of_int fo (m_Port (m_MQTTInfo m))"] mkey_value_printable [of fo _ m] \<open>6 \<le> mem2\<close>
          by (simp add: INT_MAX_def)
      qed
      moreover have "cJSON_Parse fo mem' (Some (json_text fo False 0 ?v @ [0])) =
          Some \<lparr>parsed = Some (reread fo None ?v), parse_end = None, global_error = None\<rparr>"
        using parse_text [OF snd(1,2) _ _ refl, where mem = mem' and fmt = False and want_end = False and req = False] snd(3,4) assms(3)
        by (simp add: cJSON_Parse_def CJSON_NESTING_LIMIT_def)
      then have "unmarshal_mkey fo mem' (json_text fo False 0 ?v @ [0]) (Some zero_mkey) = Some (8, Some m)"
        by (simp add: unmarshal_mkey_def reread_mkey_value [OF assms(2,1)] take_mkey_value [OF assms(1)])
      then have "r = Some block \<Longrightarrow> \<exists>mstr. block = map Some mstr \<and> unmarshal_mkey fo mem' mstr (Some zero_mkey) = Some (8, Some m)" for block
        using r(1) by blast
      ultimately show ?thesis using m by (cases r) auto
    qed
  qed
qed

definition sample_key :: mkey where
  "sample_key = zero_mkey\<lparr>m_Product := lit ''Box'' @ replicate 17 0, m_MQTTInfo := \<lparr>m_Url = lit ''iot'' @ replicate 29 0, m_Port = 1881, m_IsLive = True\<rparr>,
     m_Addr := (lit ''10.0.0.1'' @ replicate 8 0) # replicate 9 (replicate 16 0)\<rparr>"

lemma sample_key_ok: "mkey_ok sample_key" "zero_fits whole_ops"
  by code_simp+

theorem mkey_round_trip_witness:
  "\<exists>r. marshal_mkey whole_ops True 70 (Some sample_key) = Some r \<and> (70 \<le> (70::nat) \<longrightarrow> r \<noteq> None) \<and>
    (case r of None \<Rightarrow> True | Some block \<Rightarrow>
      \<exists>mstr. block = map Some mstr \<and> unmarshal_mkey whole_ops 47 mstr (Some zero_mkey) = Some (8, Some sample_key))"
  by (rule mkey_round_trip [OF sample_key_ok]) simp

lemma unmarshal_addresses:
  assumes "member (Some jkey) ''MqttInfo'' = Some q" and "cJSON_IsObject (Some (item q))"
    and "member (Some q) ''Url'' = Some u" and "cJSON_IsString (Some (item u))" and "valuestring (item u) \<noteq> None"
    and "member (Some jkey) ''Address'' = Some a" and "cJSON_IsArray (Some (item a))"
    and "length (m_Addr m) = 10" and "10 < length (child a) \<or> (\<exists>x \<in> set (child a). valuestring (item x) = None)"
  shows "take_mkey jkey m = None"
proof -
  have none: "take_addresses True i xs addr = None" if "length addr = 10" "i \<le> 10" "10 < i + length xs \<or> (\<exists>x \<in> set xs. valuestring (item x) = None)" for i xs addr
    using that
  proof (induction xs arbitrary: i addr)
    case (Cons x xs)
    show ?case
    proof (cases "take_addresses True i (x # xs) addr")
      case (Some r)
      then obtain s old b where "valuestring (item x) = Some s" "rd addr (int i) = Some old" "take_addresses True (i + 1) xs (addr[i := b]) \<noteq> None"
        by (auto simp: bind_eq_Some_conv)
      moreover from this(2) have "i < 10" using Cons.prems(1) by (auto simp: rd_def split: if_splits)
      ultimately show ?thesis using Cons.IH [of "addr[i := b]" "i + 1"] Cons.prems by auto
    qed
  qed auto
  show ?thesis
  proof (rule ccontr)
    assume "take_mkey jkey m \<noteq> None"
    then obtain strkey n strkey' mqtt status where t: "take_mqtt (Some q) strkey' (m_MQTTInfo m) n = Some (strkey, mqtt, status)"
        "take_addresses (cJSON_IsString (map_option item strkey) \<and> Option.bind strkey (\<lambda>x. valuestring (item x)) \<noteq> None) 0 (child a) (m_Addr m) \<noteq> None"
      using assms(1,6,7) by (auto simp: take_mkey_def Let_def bind_eq_Some_conv)
    have "strkey = Some u" using t(1) assms(2,3) by (auto simp: take_mqtt_def Let_def bind_eq_Some_conv split: if_splits)
    then show False using t(2) assms(4,5,8,9) none [of "m_Addr m" 0 "child a"] by simp
  qed
qed


text \<open>
  C36. \<open>unmarshal_mkey\<close> does not look at the addresses it copies: when the broker has a URL, an address that is no string is read
  through a null pointer, and more than ten addresses are written behind the array.
\<close>

theorem unmarshal_addresses_unchecked:
  assumes "cJSON_Parse fo mem (Some mstr) = Some r" and "parsed r = Some jkey"
    and "member (Some jkey) ''MqttInfo'' = Some q" and "cJSON_IsObject (Some (item q))"
    and "member (Some q) ''Url'' = Some u" and "cJSON_IsString (Some (item u))" and "valuestring (item u) \<noteq> None"
    and "member (Some jkey) ''Address'' = Some a" and "cJSON_IsArray (Some (item a))"
    and "length (m_Addr m) = 10" and "10 < length (child a) \<or> (\<exists>x \<in> set (child a). valuestring (item x) = None)"
  shows "unmarshal_mkey fo mem mstr (Some m) = None"
  using unmarshal_addresses [OF assms(3-11)] assms(1,2) by (simp add: unmarshal_mkey_def)

definition null_address :: "int cJSON" where
  "null_address = (let n = cJSON_New_Item whole_ops in Item (n\<lparr>jtype := cJSON_Object\<rparr>)
     [Item (n\<lparr>jtype := cJSON_Object, jstring := Some (lit ''MqttInfo'')\<rparr>) [string_value whole_ops (Some (lit ''Url'')) (lit ''iot'' @ [0])],
      Item (n\<lparr>jtype := cJSON_Array, jstring := Some (lit ''Address'')\<rparr>) [Item (n\<lparr>jtype := cJSON_NULL\<rparr>) []]])"

lemma null_address_facts:
  "sound whole_ops null_address" "rereadable whole_ops null_address" "nest null_address \<le> CJSON_NESTING_LIMIT" "allocs null_address < 20"
  "reread whole_ops None null_address = null_address"
  by code_simp+

theorem unmarshal_addresses_unchecked_witness:
  "unmarshal_mkey whole_ops 20 (json_text whole_ops False 0 null_address @ [0]) (Some zero_mkey) = None"
proof (rule unmarshal_addresses_unchecked)
  show "cJSON_Parse whole_ops 20 (Some (json_text whole_ops False 0 null_address @ [0])) =
      Some \<lparr>parsed = Some null_address, parse_end = None, global_error = None\<rparr>"
    using parse_text [OF null_address_facts(1-4) refl, where fmt = False and want_end = False and req = False] null_address_facts(5)
    by (simp add: cJSON_Parse_def)
  show "parsed \<lparr>parsed = Some null_address, parse_end = None, global_error = None\<rparr> = Some null_address" by simp
  show "member (Some null_address) ''MqttInfo'' = Some (child null_address ! 0)" by code_simp
  show "cJSON_IsObject (Some (item (child null_address ! 0)))" by code_simp
  show "member (Some (child null_address ! 0)) ''Url'' = Some (child (child null_address ! 0) ! 0)" by code_simp
  show "cJSON_IsString (Some (item (child (child null_address ! 0) ! 0)))" by code_simp
  show "valuestring (item (child (child null_address ! 0) ! 0)) \<noteq> None" by code_simp
  show "member (Some null_address) ''Address'' = Some (child null_address ! 1)" by code_simp
  show "cJSON_IsArray (Some (item (child null_address ! 1)))" by code_simp
  show "length (m_Addr zero_mkey) = 10" by code_simp
  show "10 < length (child (child null_address ! 1)) \<or> (\<exists>x \<in> set (child (child null_address ! 1)). valuestring (item x) = None)" by code_simp
qed

end
