(* ===== verification/UartTester.thy ===== *)
theory UartTester
  imports SerialPort
begin

section \<open>The serial line tester\<close>

text \<open>
  \<open>uart/init_uart.c\<close>: a line of text from the terminal, taken as it is or as hexadecimal bytes, is sent to a serial
  line, and what comes back is printed. Unlike the port of the modem the settings of the line are saved in global variables,
  and the results of the calls that set up the line are not looked at. The driver is the one of \<open>SerialPort\<close>; what
  closing and opening a device again makes of the line, and the descriptors that \<open>open\<close> returns, are parameters. What is printed is left out.
\<close>

datatype tty_state = RESET | RAW | CBREAK

record tty_globals =
  save_termios :: termios
  ttysavefd :: int
  ttystate :: tty_state

subsection \<open>Opening the line\<close>

definition set_speed :: "('d, 'a) line_ops_scheme \<Rightarrow> 'd \<Rightarrow> int \<Rightarrow> 'd option" where
  "set_speed ops d speed = (case tc_get ops d of
     None \<Rightarrow> if speed \<in> set name_arr then None else Some d
   | Some t \<Rightarrow> Some (snd (speed_loop ops d t speed name_arr)))"

definition set_Parity :: "('d, 'a) line_ops_scheme \<Rightarrow> 'd \<Rightarrow> int \<Rightarrow> int \<Rightarrow> int \<Rightarrow> int \<times> 'd" where
  "set_Parity ops d data stop par =
     (case Option.bind (tc_get ops d) (frame_conf data stop par) of None \<Rightarrow> (1, d)
      | Some t \<Rightarrow> (case tc_set ops d t of None \<Rightarrow> (1, d) | Some d \<Rightarrow> (0, d)))"

text \<open>\<open>tty_raw\<close> works once in the life of the process: a line that was made raw is never forgotten.\<close>

definition tty_raw :: "('d, 'a) line_ops_scheme \<Rightarrow> int \<Rightarrow> tty_globals \<times> 'd \<Rightarrow> int \<times> tty_globals \<times> 'd" where
  "tty_raw ops fd = (\<lambda>(g, d).
     if ttystate g \<noteq> RESET then (-1, g, d)
     else (case tc_get ops d of None \<Rightarrow> (-1, g, d)
       | Some old \<Rightarrow> (let g = g\<lparr>save_termios := old\<rparr> in
           case tc_set ops d (make_raw old) of None \<Rightarrow> (-1, g, d)
         | Some d \<Rightarrow> (case tc_get ops d of None \<Rightarrow> (-1, g, restore ops d (save_termios g))
             | Some t \<Rightarrow> if is_raw t then (0, g\<lparr>ttystate := RAW, ttysavefd := fd\<rparr>, d)
                 else (-1, g, restore ops d (save_termios g))))))"

text \<open>The descriptors that are open, the globals and the line; \<open>o1\<close> and \<open>o2\<close> are what the two calls of \<open>open\<close> return.\<close>

type_synonym 'd port = "int set \<times> tty_globals \<times> 'd"

definition init_uart :: "('d, 'a) line_ops_scheme \<Rightarrow> ('d \<Rightarrow> 'd) \<Rightarrow> byte list option \<Rightarrow> int \<Rightarrow> int \<Rightarrow> int \<Rightarrow> int \<Rightarrow> int \<Rightarrow> int \<Rightarrow>
    'd port \<Rightarrow> (int \<times> 'd port) option" where
  "init_uart ops reopened uart o1 o2 speed data stop par = (\<lambda>(fds, g, d).
     if uart = None then Some (-1, fds, g, d)
     else if o1 = -1 then Some (-1, fds, g, d)
     else (let (_, g, d) = tty_raw ops o1 (g, d); d = reopened d in
       if o2 = -1 then Some (-1, fds, g, d)
       else (let fds = insert o2 fds; (_, g, d) = tty_raw ops o2 (g, d) in do {
         d \<leftarrow> set_speed ops d speed;
         Some (o2, fds, g, snd (set_Parity ops d data stop par)) })))"

subsection \<open>A line of hexadecimal bytes\<close>

text \<open>The first position from \<open>i\<close> on where the character is not as asked; none if the buffer ends before.\<close>

function skip_while :: "(byte \<Rightarrow> bool) \<Rightarrow> byte list \<Rightarrow> nat \<Rightarrow> nat option" where
  "skip_while P buf i = (if i < length buf then if P (buf ! i) then skip_while P buf (i + 1) else Some i else None)"
  by pat_completeness auto
termination by (relation "measure (\<lambda>(P, buf, i). length buf - i)") auto

declare skip_while.simps [simp del]

definition c_isxdigit :: "byte \<Rightarrow> bool" where
  "c_isxdigit b \<longleftrightarrow> hex_value b \<noteq> None"

text \<open>\<open>strtol\<close> in base 16 of a text that begins with two hexadecimal digits, so that there is no blank, sign or prefix before the number.\<close>

definition strtol16 :: "byte list \<Rightarrow> int" where
  "strtol16 p = foldl (\<lambda>n b. 16 * n + (case hex_value b of Some d \<Rightarrow> int d | None \<Rightarrow> 0)) 0 (takeWhile c_isxdigit p)"

definition BUF_SIZE :: nat where "BUF_SIZE = 256"

lemma skip_while_ge: "skip_while P buf i = Some k \<Longrightarrow> i \<le> k \<and> k < length buf"
proof (induction P buf i rule: skip_while.induct)
  case (1 P buf i)
  then show ?case by (subst (asm) skip_while.simps) (force split: if_splits)
qed

text \<open>
  The loop over the line: to the end of the word, whose last two characters are a byte, and on to the next word, the first
  character of which the loop steps over. It ends behind the line, or at the word that is no byte.
\<close>

function hex_loop :: "byte list \<Rightarrow> nat \<Rightarrow> nat \<Rightarrow> byte list \<Rightarrow> (nat \<times> byte list) option" where
  "hex_loop buf len i out =
     (if i < len then
        (case skip_while (\<lambda>b. \<not> c_isspace b) buf i of None \<Rightarrow> None
         | Some i \<Rightarrow> (case rd buf (int i - 2) of None \<Rightarrow> None
           | Some a \<Rightarrow> (case (if c_isxdigit a then map_option c_isxdigit (rd buf (int i - 1)) else Some False) of None \<Rightarrow> None
             | Some digits \<Rightarrow>
                 if digits then
                   (if length out < BUF_SIZE then
                      (let out = out @ [of_int (strtol16 (drop (i - 2) buf)) AND 0xFF] in
                       case skip_while c_isspace buf (i + 1) of None \<Rightarrow> None | Some i \<Rightarrow> hex_loop buf len (i + 1) out)
                    else None)
                 else Some (i, out))))
      else Some (i, out))"
  by pat_completeness auto
termination
  by (relation "measure (\<lambda>(buf, len, i, out). len - i)") (auto dest!: skip_while_ge)

declare hex_loop.simps [simp del]

text \<open>The bytes of a line, or none after \<open>Input error\<close>; \<open>buf\<close> is the whole of \<open>tx_buf\<close>, with what earlier lines left behind the NUL.\<close>

definition hex_line :: "byte list \<Rightarrow> byte list option option" where
  "hex_line buf = do {
     len \<leftarrow> c_strlen buf;
     i \<leftarrow> skip_while c_isspace buf 0;
     (i, out) \<leftarrow> hex_loop buf (nat len) i [];
     if i < nat len \<or> out = [] then Some None else Some (Some out) }"

text \<open>What \<open>main\<close> sends for a line: in mode 2 the hexadecimal bytes, otherwise the line without its line end; none if it asks for another line.\<close>

definition tester_input :: "int \<Rightarrow> byte list \<Rightarrow> byte list option option" where
  "tester_input flag_data buf =
     (if flag_data = 2 then hex_line buf
      else do {
        len \<leftarrow> c_strlen buf;
        c \<leftarrow> rd buf (len - 1);
        Some (Some (take (nat (if c = 10 then len - 1 else len)) buf)) })"

subsection \<open>Sending and receiving\<close>

text \<open>The attempts to send and to wait for an answer; \<open>n\<close> is how many are left, \<open>ps\<close> what \<open>poll\<close> returns. The second result counts the calls of \<open>write\<close>.\<close>

fun send_poll :: "nat \<Rightarrow> int \<Rightarrow> int list \<Rightarrow> nat \<Rightarrow> (int \<times> nat) option" where
  "send_poll 0 ret ps k = Some (ret, k)"
| "send_poll (Suc n) ret [] k = None"
| "send_poll (Suc n) ret (p # ps) k = (if p = -1 \<or> p = 0 then send_poll n p ps (k + 1) else Some (p, k + 1))"

definition dread :: "nat \<Rightarrow> arrival list \<Rightarrow> (byte list option \<times> arrival list) option" where
  "dread nbytes es = muart_read_timeout nbytes es"

definition dreadn :: "nat \<Rightarrow> arrival list \<Rightarrow> (int \<times> byte list \<times> arrival list) option" where
  "dreadn nbytes es = read_loop nbytes [] es"

record tester_conf =
  uart_file :: "byte list option"
  conf_speed :: int
  conf_data :: int
  conf_stop :: int
  conf_par :: int

text \<open>The arguments of the program: the device, \<open>-s\<close> and the speed, \<open>-p\<close> and the frame, \<open>-f\<close> and the mode, each with its NUL. No result inside if the program exits.\<close>

definition option_is :: "string \<Rightarrow> byte list \<Rightarrow> bool option" where
  "option_is name arg = c_strneq (lit name @ [0]) arg 2"

definition tester_args :: "byte list list \<Rightarrow> (tester_conf \<times> int) option option" where
  "tester_args argv = (case argv of [_, uart, s, p, f] \<Rightarrow> do {
       is_s \<leftarrow> option_is ''-s'' s;
       if \<not> is_s then Some None else do {
         speed \<leftarrow> c_atoi (drop 2 s);
         is_p \<leftarrow> option_is ''-p'' p;
         if \<not> is_p then Some None else do {
           pserial \<leftarrow> c_strncpy (replicate 3 0) (drop 2 p) 3;
           is_f \<leftarrow> option_is ''-f'' f;
           if \<not> is_f then Some None else do {
             c \<leftarrow> rd f 2;
             Some (Some (\<lparr>uart_file = Some (c_str uart), conf_speed = speed, conf_data = sint (pserial ! 0) - 48,
               conf_stop = sint (pserial ! 2) - 48, conf_par = sint (pserial ! 1)\<rparr>, sint (of_int (sint c - 48) :: byte))) } } } }
     | _ \<Rightarrow> Some None)"

text \<open>What the system answers in one turn: to \<open>poll\<close>, to the two calls of \<open>open\<close> if the line is set up again, and to the reads.\<close>

record answers =
  polls :: "int list"
  opens :: "int \<times> int"
  reads :: "arrival list"

text \<open>
  One turn of the loop of \<open>main\<close> for a line of input: the descriptor, the number of times the data was sent, the result of the read and what was read; no result
  inside if the program exits.
\<close>

definition tester_turn :: "('d, 'a) line_ops_scheme \<Rightarrow> ('d \<Rightarrow> 'd) \<Rightarrow> tester_conf \<Rightarrow> answers \<Rightarrow> int \<times> 'd port \<Rightarrow>
    ((int \<times> 'd port) \<times> nat \<times> int \<times> byte list) option option" where
  "tester_turn ops reopened c e = (\<lambda>(fd, port). do {
     (ret, k) \<leftarrow> send_poll 3 0 (polls e) 0;
     (fd, port) \<leftarrow> (if ret = -1 \<or> ret = 0
       then init_uart ops reopened (uart_file c) (fst (opens e)) (snd (opens e)) (conf_speed c) (conf_data c) (conf_stop c) (conf_par c) port
       else Some (fd, port));
     if fd < 0 then Some None
     else do { (r, got, _) \<leftarrow> dreadn (2 * BUF_SIZE) (reads e); Some (Some ((fd, port), k, r, got)) } })"

subsection \<open>The words of a line\<close>

text \<open>What a line of hexadecimal bytes means: its words, of which the last two characters count.\<close>

fun words_of :: "byte list \<Rightarrow> byte list \<Rightarrow> byte list list" where
  "words_of w [] = (if w = [] then [] else [w])"
| "words_of w (b # bs) = (if c_isspace b then (if w = [] then [] else [w]) @ words_of [] bs else words_of (w @ [b]) bs)"

definition word_byte :: "byte list \<Rightarrow> byte option" where
  "word_byte w = (if length w < 2 then None else
     case (hex_value (w ! (length w - 2)), hex_value (w ! (length w - 1))) of
       (Some a, Some b) \<Rightarrow> Some (of_nat (16 * a + b)) | _ \<Rightarrow> None)"

definition line_bytes :: "byte list \<Rightarrow> byte list option" where
  "line_bytes l = (let bs = map word_byte (words_of [] l) in if bs = [] \<or> None \<in> set bs then None else Some (map the bs))"

lemma words_of_word: "\<forall>b \<in> set u. \<not> c_isspace b \<Longrightarrow> c_isspace s \<Longrightarrow> w @ u \<noteq> [] \<Longrightarrow> words_of w (u @ s # bs) = (w @ u) # words_of [] bs"
  by (induction u arbitrary: w) auto

lemma words_of_blanks: "\<forall>b \<in> set u. c_isspace b \<Longrightarrow> words_of [] (u @ bs) = words_of [] bs"
  by (induction u) auto

lemma isspace_no_digit: "c_isspace b \<Longrightarrow> hex_value b = None"
  by (auto simp: c_isspace_def hex_value_def word_le_nat_alt)

lemma isspace_0 [simp]: "\<not> c_isspace 0"
  by (simp add: c_isspace_def)

lemma skip_while_skips: "\<forall>b \<in> set Y. P b \<Longrightarrow> \<not> P b \<Longrightarrow> skip_while P (X @ Y @ b # Z) (length X) = Some (length X + length Y)"
proof (induction Y arbitrary: X)
  case Nil
  then show ?case by (simp add: skip_while.simps)
next
  case (Cons y Y)
  have "skip_while P ((X @ [y]) @ Y @ b # Z) (length (X @ [y])) = Some (length (X @ [y]) + length Y)" using Cons.prems by (intro Cons.IH) auto
  then show ?case using Cons.prems by (subst skip_while.simps) simp
qed

lemma word_byte_behind:
  assumes "w \<noteq> []" and "A = [] \<or> c_isspace (last A)" and "2 \<le> length (A @ w)"
  shows "word_byte (A @ w) = word_byte w"
proof (cases "length w = 1")
  case True
  then have "A \<noteq> []" using assms(3) by auto
  then have "hex_value ((A @ w) ! (length (A @ w) - 2)) = None"
    using True assms(2) isspace_no_digit by (simp add: nth_append last_conv_nth)
  then show ?thesis using True by (simp add: word_byte_def)
next
  case False
  then have l: "2 \<le> length w" using assms(1) by (cases w) (auto simp: Suc_le_eq)
  then obtain k where "length w = k + 2" by (metis le_add_diff_inverse2)
  then show ?thesis by (simp add: word_byte_def nth_append)
qed

lemma hex_loop_word:
  assumes "\<forall>b \<in> set u. \<not> c_isspace b" and "c_isspace s" and "2 \<le> length (P @ u)" and "length P < len" and "length out < BUF_SIZE"
  shows "hex_loop (P @ u @ s # B) len (length P) out = (case word_byte (P @ u) of None \<Rightarrow> Some (length (P @ u), out)
    | Some b \<Rightarrow> (case skip_while c_isspace (P @ u @ s # B) (length (P @ u) + 1) of None \<Rightarrow> None
        | Some i \<Rightarrow> hex_loop (P @ u @ s # B) len (i + 1) (out @ [b])))"
proof -
  let ?b = "P @ u @ s # B" and ?i = "length (P @ u)"
  have sk: "skip_while (\<lambda>b. \<not> c_isspace b) ?b (length P) = Some ?i" using assms(1,2) skip_while_skips [of u "\<lambda>b. \<not> c_isspace b" s P B] by simp
  obtain Q a b where q: "P @ u = Q @ [a, b]"
  proof -
    obtain Q' b where 1: "P @ u = Q' @ [b]" using assms(3) by (metis length_0_conv not_numeral_le_zero rev_exhaust)
    then have "Q' \<noteq> []" using assms(3) by auto
    then obtain Q a where "Q' = Q @ [a]" by (metis rev_exhaust)
    then show ?thesis using that 1 by simp
  qed
  have b: "?b = Q @ a # b # s # B" using q by (metis append.assoc append_Cons append_Nil)
  have i: "?i = length Q + 2" using q by simp
  have ra: "rd ?b (int ?i - 2) = Some a" unfolding b i by (simp add: rd_def nth_append)
  have rb: "rd ?b (int ?i - 1) = Some b" unfolding b i by (simp add: rd_def nth_append nat_add_distrib)
  have w: "word_byte (P @ u) = (case (hex_value a, hex_value b) of (Some x, Some y) \<Rightarrow> Some (of_nat (16 * x + y)) | _ \<Rightarrow> None)"
    unfolding q by (simp add: word_byte_def nth_append)
  have n: "hex_value s = None" using isspace_no_digit assms(2) .
  have st: "strtol16 (drop (?i - 2) ?b) = 16 * int x + int y" if "hex_value a = Some x" "hex_value b = Some y" for x y
    using that n unfolding b i by (simp add: strtol16_def c_isxdigit_def)
  have m: "(of_int n :: byte) AND 0xFF = of_int n" for n
  proof -
    have "(0xFF :: byte) = - 1" by simp
    then show ?thesis by (simp only: and.right_neutral)
  qed
  show ?thesis
    using sk ra rb w st assms(4,5) m
    by (subst hex_loop.simps) (auto simp: c_isxdigit_def Let_def split: option.splits)
qed

lemma hex_loop_words:
  assumes "\<forall>b \<in> set w. \<not> c_isspace b" and "\<forall>b \<in> set u. \<not> c_isspace b" and "c_isspace s" and "w @ u \<noteq> []"
    and "A = [] \<or> c_isspace (last A)" and "2 \<le> length (A @ w @ u)" and "B = [] \<or> c_isspace (last B)"
    and "3 * length out \<le> length A" and "len = length (A @ w @ u @ s # B)" and "len < 2 * BUF_SIZE"
  shows "\<exists>i out'. hex_loop ((A @ w) @ u @ s # B @ 0 # R) len (length (A @ w)) out = Some (i, out') \<and>
    (let bs = map word_byte (words_of w (u @ s # B)) in if None \<in> set bs then i < len else len \<le> i \<and> out' = out @ map the bs)"
  using assms
proof (induction "length B" arbitrary: A w u s B out rule: less_induct)
  case less
  let ?P = "A @ w" and ?buf = "(A @ w) @ u @ s # B @ 0 # R"
  have ws: "words_of w (u @ s # B) = (w @ u) # words_of [] B" using words_of_word less.prems(2-4) by blast
  have wb: "word_byte (?P @ u) = word_byte (w @ u)" using word_byte_behind [of "w @ u" A] less.prems(4-6) by simp
  have step: "hex_loop ?buf len (length ?P) out = (case word_byte (w @ u) of None \<Rightarrow> Some (length (?P @ u), out)
    | Some b \<Rightarrow> (case skip_while c_isspace ?buf (length (?P @ u) + 1) of None \<Rightarrow> None
        | Some i \<Rightarrow> hex_loop ?buf len (i + 1) (out @ [b])))"
    using hex_loop_word [of u s ?P len out "B @ 0 # R"] less.prems by (simp add: wb [simplified] BUF_SIZE_def)
  show ?case
  proof (cases "word_byte (w @ u)")
    case None
    then show ?thesis using step less.prems(9) by (simp add: ws Let_def)
  next
    case (Some b)
    obtain bl B' where B: "B = bl @ B'" "\<forall>c \<in> set bl. c_isspace c" "B' = [] \<or> \<not> c_isspace (hd B')"
      using takeWhile_dropWhile_id [of c_isspace B, symmetric] hd_dropWhile [of c_isspace B] by (metis set_takeWhileD)
    let ?X = "?P @ u @ [s]"
    show ?thesis
    proof (cases B')
      case Nil
      have "skip_while c_isspace (?X @ bl @ 0 # R) (length ?X) = Some (length ?X + length bl)"
        by (rule skip_while_skips) (use B(2) in auto)
      then have "skip_while c_isspace ?buf (length (?P @ u) + 1) = Some len" using B(1) Nil less.prems(9) by simp
      moreover have "hex_loop ?buf len (len + 1) (out @ [b]) = Some (len + 1, out @ [b])" by (simp add: hex_loop.simps)
      moreover have "words_of w (u @ s # B) = [w @ u]" using ws words_of_blanks [OF B(2), of "[]"] B(1) Nil by simp
      ultimately show ?thesis using step Some by (simp add: Let_def)
    next
      case (Cons c B1)
      then have c: "\<not> c_isspace c" using B(3) by simp
      have "skip_while c_isspace (?X @ bl @ c # B1 @ 0 # R) (length ?X) = Some (length ?X + length bl)"
        by (rule skip_while_skips) (use B(2) c in auto)
      then have sk: "skip_while c_isspace ?buf (length (?P @ u) + 1) = Some (length (?X @ bl))" using B(1) Cons by simp
      have "c_isspace (last (c # B1))" using less.prems(7) B(1) Cons by auto
      then obtain u' s' B2 where B1: "B1 = u' @ s' # B2" "\<forall>b \<in> set u'. \<not> c_isspace b" "c_isspace s'"
        using split_list_first_prop [of B1 c_isspace] c by (metis last_ConsL last_in_set last_ConsR)
      let ?A = "?X @ bl"
      have l: "3 * length (out @ [b]) \<le> length ?A" using less.prems(6,8) Some by (auto simp: word_byte_def split: if_splits)
      have bb: "(?A @ [c]) @ u' @ s' # B2 @ 0 # R = ?buf" using B(1) Cons B1(1) by simp
      have "\<exists>i out'. hex_loop ((?A @ [c]) @ u' @ s' # B2 @ 0 # R) len (length (?A @ [c])) (out @ [b]) = Some (i, out') \<and>
        (let bs = map word_byte (words_of [c] (u' @ s' # B2)) in if None \<in> set bs then i < len else len \<le> i \<and> out' = (out @ [b]) @ map the bs)"
      proof (rule less.hyps)
        show "length B2 < length B" using B(1) Cons B1(1) by simp
        show "B2 = [] \<or> c_isspace (last B2)" using less.prems(7) B(1) Cons B1(1) by (auto split: if_splits)
        show "?A = [] \<or> c_isspace (last ?A)" using B(2) less.prems(3) by (cases bl rule: rev_cases) auto
      qed (use B B1 Cons c l less.prems in auto)
      then obtain i out' where r: "hex_loop ?buf len (length (?X @ bl) + 1) (out @ [b]) = Some (i, out')"
          "let bs = map word_byte (words_of [c] (u' @ s' # B2)) in if None \<in> set bs then i < len else len \<le> i \<and> out' = (out @ [b]) @ map the bs"
        unfolding bb by auto
      have "words_of w (u @ s # B) = (w @ u) # words_of [c] (u' @ s' # B2)"
        using ws words_of_blanks [OF B(2), of B'] B(1) Cons B1(1) c by simp
      then show ?thesis using step Some sk r by (auto simp: Let_def split: if_splits)
    qed
  qed
qed

lemma hex_line_words:
  assumes "0 \<notin> set l" and "l \<noteq> []" and "c_isspace (last l)" and "length (l @ 0 # R) = 2 * BUF_SIZE"
  shows "hex_line (l @ 0 # R) = (if length (hd (words_of [] l @ [[]])) = 1 \<and> \<not> c_isspace (hd l) then None else Some (line_bytes l))"
proof -
  obtain bl l' where l: "l = bl @ l'" "\<forall>c \<in> set bl. c_isspace c" "l' = [] \<or> \<not> c_isspace (hd l')"
    using takeWhile_dropWhile_id [of c_isspace l, symmetric] hd_dropWhile [of c_isspace l] by (metis set_takeWhileD)
  have len: "c_strlen (l @ 0 # R) = Some (int (length l))" using assms(1) by simp
  show ?thesis
  proof (cases l')
    case Nil
    have "skip_while c_isspace ([] @ bl @ 0 # R) 0 = Some (length bl)"
      using skip_while_skips [of bl c_isspace 0 "[]" R] l(2) by simp
    then show ?thesis using l Nil words_of_blanks [OF l(2), of "[]"] len by (simp add: hex_line_def hex_loop.simps line_bytes_def)
  next
    case (Cons c l1)
    then have c: "\<not> c_isspace c" using l(3) by simp
    then have "l1 \<noteq> []" "c_isspace (last l1)" using assms(3) l(1) Cons by (auto split: if_splits)
    then obtain u s B where u: "l1 = u @ s # B" "\<forall>b \<in> set u. \<not> c_isspace b" "c_isspace s"
      using split_list_first_prop [of l1 c_isspace] by (metis last_in_set)
    have le: "l = bl @ (c # u) @ s # B" using l(1) Cons u(1) by simp
    have w: "words_of [] l = (c # u) # words_of [] B"
      using words_of_blanks [OF l(2), of "(c # u) @ s # B"] words_of_word [of "c # u" s "[]" B] c u le by simp
    have "skip_while c_isspace ([] @ bl @ c # u @ s # B @ 0 # R) 0 = Some (length bl)"
      using skip_while_skips [of bl c_isspace c "[]" "u @ s # B @ 0 # R"] l(2) c by simp
    then have sk: "skip_while c_isspace (l @ 0 # R) 0 = Some (length bl)" using le by simp
    show ?thesis
    proof (cases "bl = [] \<and> u = []")
      case True
      have "skip_while (\<lambda>b. \<not> c_isspace b) ([] @ [c] @ s # B @ 0 # R) 0 = Some 1"
        using skip_while_skips [of "[c]" "\<lambda>b. \<not> c_isspace b" s "[]" "B @ 0 # R"] c u(3) by simp
      then have "hex_loop (l @ 0 # R) (length l) 0 [] = None"
        using True le by (subst hex_loop.simps) (simp add: rd_def)
      then have "hex_line (l @ 0 # R) = None" using sk len True by (simp add: hex_line_def)
      then show ?thesis using True le w c by simp
    next
      case False
      then have ok: "\<not> (length (hd (words_of [] l @ [[]])) = 1 \<and> \<not> c_isspace (hd l))" using w le l(2) c by (cases bl) auto
      have "\<exists>i out'. hex_loop ((bl @ []) @ (c # u) @ s # B @ 0 # R) (length l) (length (bl @ [])) [] = Some (i, out') \<and>
        (let bs = map word_byte (words_of [] ((c # u) @ s # B)) in if None \<in> set bs then i < length l else length l \<le> i \<and> out' = [] @ map the bs)"
      proof (rule hex_loop_words)
        show "bl = [] \<or> c_isspace (last bl)" using l(2) by (cases bl rule: rev_cases) auto
        show "B = [] \<or> c_isspace (last B)" using assms(3) le by (auto split: if_splits)
        show "2 \<le> length (bl @ [] @ c # u)" using False by (cases bl; cases u) auto
      qed (use c u le assms(4) in auto)
      then obtain i out' where r: "hex_loop (l @ 0 # R) (length l) (length bl) [] = Some (i, out')"
          "let bs = map word_byte (words_of [] l) in if None \<in> set bs then i < length l else length l \<le> i \<and> out' = map the bs"
        using words_of_blanks [OF l(2), of "(c # u) @ s # B"] unfolding le by (auto simp del: words_of.simps split: if_splits)
      have "hex_line (l @ 0 # R) = Some (line_bytes l)"
        using r w sk len by (cases "None \<in> set (map word_byte (words_of [] l))") (simp_all add: hex_line_def line_bytes_def Let_def)
      then show ?thesis using ok by simp
    qed
  qed
qed

text \<open>The line \<open> 4a x42\<close>, with the rest of an earlier one behind it.\<close>

text \<open>
  C37. In hexadecimal mode a line of input that ends with a blank or a line end is read as \<open>main\<close> means it: its words, of each the last two
  characters as a byte, or \<open>Input error\<close> if there is no word or one does not end in two hexadecimal digits; the 256 bytes
  for the result are always enough, whatever stands in the buffer behind the line. But if the line begins with a word of a single
  character, the character before the buffer is read. In the other modes what is sent is the line without its line end.
\<close>

theorem tester_input_reads_line:
  assumes "0 \<notin> set l" and "l \<noteq> []" and "length (l @ 0 # R) = 2 * BUF_SIZE"
  shows "(flag = 2 \<and> c_isspace (last l) \<longrightarrow> tester_input flag (l @ 0 # R) =
      (if length (hd (words_of [] l @ [[]])) = 1 \<and> \<not> c_isspace (hd l) then None else Some (line_bytes l))) \<and>
    (flag \<noteq> 2 \<longrightarrow> tester_input flag (l @ 0 # R) = Some (Some (if last l = 10 then butlast l else l)))"
proof (cases "flag = 2")
  case True
  then show ?thesis using hex_line_words [OF assms(1,2) _ assms(3)] by (simp add: tester_input_def)
next
  case False
  obtain m c where l: "l = m @ [c]" using assms(2) by (metis rev_exhaust)
  have "rd (l @ 0 # R) (int (length l) - 1) = Some c" unfolding l by (simp add: rd_def nth_append)
  moreover have "take (nat (int (length l) - 1)) (l @ 0 # R) = m" unfolding l by simp
  ultimately show ?thesis using False assms(1) by (simp add: tester_input_def l [symmetric]) (simp add: l)
qed

text \<open>The line \<open> 4a x42\<close>, with the rest of an earlier one behind it.\<close>

theorem tester_input_reads_line_witness:
  "tester_input 2 ([32, 52, 97, 32, 120, 52, 50, 10] @ 0 # replicate 503 65) = Some (Some [0x4A, 0x42])"
proof -
  let ?l = "[32, 52, 97, 32, 120, 52, 50, 10] :: byte list"
  have "line_bytes ?l = Some [0x4A, 0x42]" and "hd (words_of [] ?l @ [[]]) = [52, 97]" by code_simp+
  moreover have "0 \<notin> set ?l" "?l \<noteq> []" "c_isspace (last ?l)" "length (?l @ 0 # replicate 503 65) = 2 * BUF_SIZE" by (simp_all add: c_isspace_def BUF_SIZE_def)
  ultimately show ?thesis using tester_input_reads_line [of ?l "replicate 503 65" 2] by (simp del: words_of.simps append.simps)
qed

subsection \<open>Setting the line up again\<close>

lemma tty_raw_again: "ttystate g \<noteq> RESET \<Longrightarrow> tty_raw ops fd (g, d) = (-1, g, d)"
  by (simp add: tty_raw_def)

lemma tty_raw_once: "tty_raw ops fd (g, d) = (0, g', d') \<Longrightarrow> ttystate g' = RAW \<and> ttysavefd g' = fd \<and> (\<exists>t. tc_get ops d' = Some t \<and> is_raw t)"
  by (auto simp: tty_raw_def Let_def split: option.splits if_splits)

lemma init_uart_result:
  assumes "init_uart ops reopened (Some name) o1 o2 speed data stop par (fds, g, d) = Some (r, fds', g', d')" and "o1 \<noteq> -1"
  shows "r = o2 \<and> fds' = (if o2 = -1 then fds else insert o2 fds)"
  using assms by (auto simp: init_uart_def Let_def bind_eq_Some_conv split: prod.splits if_splits)

text \<open>
  When the first call of \<open>tty_raw\<close> in the life of the process succeeds, it is the only one that puts the line into raw mode, and the descriptor it is done on
  is closed again: the second call of \<open>tty_raw\<close>, on the descriptor that \<open>init_uart\<close> returns, does nothing, and a later \<open>init_uart\<close> does nothing but
  set the speed and the frame of whatever the driver makes of a line that is opened again. The saved descriptor is the closed one, and the
  descriptor is returned whether or not any of the settings could be made.
\<close>

theorem init_uart_sets_raw_once:
  assumes "init_uart ops reopened (Some name) o1 o2 speed data stop par (fds, g, d) = Some (r, fds', g', d')"
    and "o1 \<noteq> -1" and "o2 \<noteq> -1" and "ttystate g = RESET \<longrightarrow> fst (tty_raw ops o1 (g, d)) = 0"
  shows "r = o2 \<and> fds' = insert o2 fds \<and> ttystate g' \<noteq> RESET \<and> (ttystate g = RESET \<longrightarrow> ttysavefd g' = o1) \<and> (ttystate g \<noteq> RESET \<longrightarrow> g' = g) \<and>
    (\<exists>d0 d1. (if ttystate g = RESET then \<exists>t. tc_get ops d0 = Some t \<and> is_raw t else d0 = d) \<and>
      set_speed ops (reopened d0) speed = Some d1 \<and> d' = snd (set_Parity ops d1 data stop par))"
proof -
  obtain r0 g0 d0 where raw: "tty_raw ops o1 (g, d) = (r0, g0, d0)" by (metis prod_cases3)
  have g0: "ttystate g0 \<noteq> RESET" "ttystate g = RESET \<longrightarrow> ttysavefd g0 = o1 \<and> (\<exists>t. tc_get ops d0 = Some t \<and> is_raw t)" "ttystate g \<noteq> RESET \<longrightarrow> g0 = g \<and> d0 = d"
    using raw assms(4) tty_raw_once [of ops o1 g d g0 d0] by (cases "ttystate g = RESET"; auto simp: tty_raw_again)+
  then show ?thesis using assms(1-3) raw
    by (auto simp: init_uart_def Let_def tty_raw_again bind_eq_Some_conv split: prod.splits)
qed

fun tester_run :: "('d, 'a) line_ops_scheme \<Rightarrow> ('d \<Rightarrow> 'd) \<Rightarrow> tester_conf \<Rightarrow> answers list \<Rightarrow> int \<times> 'd port \<Rightarrow> (int \<times> 'd port) option option" where
  "tester_run ops reopened c [] st = Some (Some st)"
| "tester_run ops reopened c (e # es) st = (case tester_turn ops reopened c e st of None \<Rightarrow> None | Some None \<Rightarrow> Some None
     | Some (Some (st, _)) \<Rightarrow> tester_run ops reopened c es st)"

text \<open>A turn in which no answer comes and the device can be opened again, with descriptors that \<open>open\<close> had not given out.\<close>

definition silent :: "answers \<Rightarrow> bool" where
  "silent e \<longleftrightarrow> 3 \<le> length (polls e) \<and> set (take 3 (polls e)) \<subseteq> {0, -1} \<and> 0 \<le> fst (opens e) \<and> 0 \<le> snd (opens e)"

lemma send_poll_silent: "n \<le> length ps \<Longrightarrow> set (take n ps) \<subseteq> {0, -1} \<Longrightarrow> ret \<in> {0, -1} \<Longrightarrow>
    \<exists>ret'. send_poll n ret ps k = Some (ret', k + n) \<and> ret' \<in> {0, -1}"
proof (induction n arbitrary: ret ps k)
  case (Suc n)
  then obtain p ps' where p: "ps = p # ps'" by (cases ps) auto
  have "\<exists>ret'. send_poll n p ps' (k + 1) = Some (ret', (k + 1) + n) \<and> ret' \<in> {0, -1}" using Suc.prems p by (intro Suc.IH) auto
  then show ?case using Suc.prems p by auto
qed auto

lemma tester_turn_silent:
  assumes "silent e" and "uart_file c \<noteq> None" and "tester_turn ops reopened c e (fd, fds, g, d) = Some (Some ((fd', fds', g', d'), k, r, got))"
  shows "fd' = snd (opens e) \<and> fds' = insert (snd (opens e)) fds \<and> k = 3"
proof -
  obtain ret where s: "send_poll 3 0 (polls e) 0 = Some (ret, 3)" "ret \<in> {0, -1}"
    using send_poll_silent [of 3 "polls e" 0 0] assms(1) by (auto simp: silent_def)
  obtain name where n: "uart_file c = Some name" using assms(2) by auto
  show ?thesis using assms(1,3) s init_uart_result [of ops reopened name "fst (opens e)" "snd (opens e)" "conf_speed c" "conf_data c" "conf_stop c" "conf_par c" fds g d]
    by (auto simp: tester_turn_def n bind_eq_Some_conv silent_def split: if_splits prod.splits)
qed

text \<open>
  \<open>main\<close> does not close the descriptor of a line that does not answer before it sets the line up again: after \<open>n\<close> turns
  without an answer, in each of which the data was sent three times, all the descriptors that were open still are, and \<open>n\<close> more.
\<close>

theorem silent_turns_leak:
  assumes "\<forall>e \<in> set es. silent e" and "uart_file c \<noteq> None" and "finite fds"
    and "distinct (map (snd \<circ> opens) es)" and "set (map (snd \<circ> opens) es) \<inter> fds = {}"
    and "tester_run ops reopened c es (fd, fds, g, d) = Some (Some (fd', fds', g', d'))"
  shows "fds \<subseteq> fds' \<and> card fds' = card fds + length es"
  using assms
proof (induction es arbitrary: fd fds g d)
  case (Cons e es)
  obtain fd1 fds1 g1 d1 k r got where t: "tester_turn ops reopened c e (fd, fds, g, d) = Some (Some ((fd1, fds1, g1, d1), k, r, got))"
      "tester_run ops reopened c es (fd1, fds1, g1, d1) = Some (Some (fd', fds', g', d'))"
    using Cons.prems(6) by (auto split: option.splits prod.splits)
  have f: "fds1 = insert (snd (opens e)) fds" using tester_turn_silent [OF _ Cons.prems(2) t(1)] Cons.prems(1) by simp
  have "fds1 \<subseteq> fds' \<and> card fds' = card fds1 + length es" using Cons.prems t f by (intro Cons.IH) auto
  then show ?case using f Cons.prems(3,5) by auto
qed simp

definition tty_zero :: tty_globals where
  "tty_zero = \<lparr>save_termios = zero_conf, ttysavefd = -1, ttystate = RESET\<rparr>"

text \<open>A line whose driver starts again from zeroed settings when it is opened: it is not raw, and \<open>init_uart\<close> does not notice.\<close>

theorem init_uart_sets_raw_once_witness:
  "\<exists>fds g d. init_uart plain_line (\<lambda>_. zero_conf) (Some [47, 0]) 3 3 9600 9 1 110 ({}, tty_zero, zero_conf) = Some (3, fds, g, d) \<and>
    ttysavefd g = 3 \<and> d = zero_conf\<lparr>ispeed := 9600, ospeed := 9600\<rparr>"
proof -
  have sp: "set_speed plain_line zero_conf 9600 = Some (zero_conf\<lparr>ispeed := 9600, ospeed := 9600\<rparr>)"
    by (simp add: set_speed_def plain_line_def name_arr_def Let_def)
  have par: "set_Parity plain_line d 9 1 110 = (1, d)" for d by (simp add: set_Parity_def plain_line_def frame_conf_def data_bits_def Let_def)
  have raw: "fst (tty_raw plain_line 3 (tty_zero, zero_conf)) = 0"
    by (simp add: tty_raw_def tty_zero_def plain_line_def zero_conf_def make_raw_def is_raw_def tty_flags Let_def)
  obtain r1 g1 d1 where t1: "tty_raw plain_line 3 (tty_zero, zero_conf) = (r1, g1, d1)" by (metis prod_cases3)
  obtain r2 g2 d2 where t2: "tty_raw plain_line 3 (g1, zero_conf) = (r2, g2, d2)" by (metis prod_cases3)
  have "d2 = zero_conf" using t2 tty_raw_once [of plain_line 3 tty_zero zero_conf g1 d1] t1 raw by (auto simp: tty_raw_again)
  then have i: "init_uart plain_line (\<lambda>_. zero_conf) (Some [47, 0]) 3 3 9600 9 1 110 ({}, tty_zero, zero_conf) =
      Some (3, {3}, g2, zero_conf\<lparr>ispeed := 9600, ospeed := 9600\<rparr>)"
    by (simp add: init_uart_def Let_def t1 t2 sp par)
  show ?thesis using init_uart_sets_raw_once [OF i] raw i by (simp add: tty_zero_def)
qed

theorem silent_turns_leak_witness:
  "\<exists>fd fds g d. tester_run plain_line id \<lparr>uart_file = Some [47, 0], conf_speed = 9600, conf_data = 8, conf_stop = 1, conf_par = 110\<rparr>
      [\<lparr>polls = [0, 0, 0], opens = (4, 5), reads = [Timeout]\<rparr>, \<lparr>polls = [0, -1, 0], opens = (4, 6), reads = [Timeout]\<rparr>]
      (3, {3}, tty_zero\<lparr>ttystate := RAW\<rparr>, zero_conf) = Some (Some (fd, fds, g, d)) \<and> card fds = 3"
proof -
  let ?c = "\<lparr>uart_file = Some [47, 0], conf_speed = 9600, conf_data = 8, conf_stop = 1, conf_par = 110\<rparr>"
  let ?es = "[\<lparr>polls = [0, 0, 0], opens = (4, 5), reads = [Timeout]\<rparr>, \<lparr>polls = [0, -1, 0], opens = (4, 6), reads = [Timeout]\<rparr>]"
  have "set_speed plain_line d 9600 = Some (snd (speed_loop plain_line d d 9600 name_arr))" for d by (simp add: set_speed_def plain_line_def)
  moreover have "read_loop n [] [Timeout] = Some (if 0 < n then -1 else 0, [], if 0 < n then [] else [Timeout])" for n by (simp add: read_loop.simps)
  ultimately have "\<exists>g d'. tester_turn plain_line id ?c e (fd, fds, g0, d) = Some (Some ((snd (opens e), insert (snd (opens e)) fds, g, d'), 3, -1, []))"
    if "e \<in> set ?es" for fd fds g0 d e
    using that by (auto simp: tester_turn_def init_uart_def dreadn_def BUF_SIZE_def numeral_3_eq_3 Let_def split: prod.splits)
  then have "\<exists>fd fds g d. tester_run plain_line id ?c ?es (3, {3}, tty_zero\<lparr>ttystate := RAW\<rparr>, zero_conf) = Some (Some (fd, fds, g, d))"
    by (auto split: option.splits) (metis option.distinct(1) option.inject prod.inject)+
  then obtain fd fds g d where r: "tester_run plain_line id ?c ?es (3, {3}, tty_zero\<lparr>ttystate := RAW\<rparr>, zero_conf) = Some (Some (fd, fds, g, d))" by blast
  then show ?thesis using silent_turns_leak [OF _ _ _ _ _ r] by (auto simp: silent_def)
qed

end
