(* ===== verification/JsonPointer.thy ===== *)
theory JsonPointer
  imports JsonTree JsonNumber
begin

section \<open>JSON pointers\<close>

text \<open>
  The part of \<open>json/mkey_str2j/cJSON_Utils.c\<close> on JSON pointers: finding the pointer to an item and the item of a pointer,
  and the escapes \<open>~0\<close> and \<open>~1\<close>. The functions only read the tree, so they are functions of the tree that the memory holds, as long as
  it has no references: what a reference refers to is not part of the tree. A string is the list of its characters before the NUL; a pointer into it
  is the list of what is left.
\<close>

definition t_is :: "int \<Rightarrow> 'f tdata \<Rightarrow> bool" where
  "t_is k d \<longleftrightarrow> t_type d AND 0xFF = k"

subsection \<open>Escapes\<close>

definition pointer_encoded_length :: "byte list \<Rightarrow> nat" where
  "pointer_encoded_length s = length s + length (filter (\<lambda>c. c = 126 \<or> c = 47) s)"

fun encode_string_as_pointer :: "byte list \<Rightarrow> byte list" where
  "encode_string_as_pointer [] = []"
| "encode_string_as_pointer (c # s) =
     (if c = 47 then [126, 49] else if c = 126 then [126, 48] else [c]) @ encode_string_as_pointer s"

text \<open>\<open>decode_pointer_inplace\<close> on a buffer with its NUL: \<open>d\<close> is where \<open>decoded_string\<close> points, \<open>s\<close> where \<open>string\<close> does.\<close>

function decode_loop :: "byte list \<Rightarrow> nat \<Rightarrow> nat \<Rightarrow> byte list option" where
  "decode_loop buf d s =
     (if s < length buf then
        if buf ! s = 0 then wr buf (int d) 0
        else if buf ! s = 126 then
          (if Suc s < length buf then
             if buf ! Suc s = 48 then (if d < length buf then decode_loop (buf[d := 126]) (d + 1) (s + 2) else None)
             else if buf ! Suc s = 49 then (if Suc d < length buf then decode_loop (buf[Suc d := 47]) (d + 1) (s + 2) else None)
             else Some buf
           else None)
        else decode_loop buf (d + 1) (s + 1)
      else None)"
  by pat_completeness auto
termination by (relation "measure (\<lambda>(buf, d, s). length buf - s)") auto

declare decode_loop.simps [simp del]

definition decode_pointer_inplace :: "byte list option \<Rightarrow> byte list option option" where
  "decode_pointer_inplace p = (case p of None \<Rightarrow> Some None | Some buf \<Rightarrow> map_option Some (decode_loop buf 0 0))"

subsection \<open>Comparing and reading the elements of a pointer\<close>

fun pointer_matches :: "bool \<Rightarrow> byte list \<Rightarrow> byte list \<Rightarrow> bool" where
  "pointer_matches cs [] p \<longleftrightarrow> p = [] \<or> hd p = 47"
| "pointer_matches cs (c # n) [] \<longleftrightarrow> False"
| "pointer_matches cs (c # n) (q # p) \<longleftrightarrow>
     (if q = 47 then False
      else if q = 126 then
        (case p of [] \<Rightarrow> False
         | e # p \<Rightarrow> if (e \<noteq> 48 \<or> c \<noteq> 126) \<and> (e \<noteq> 49 \<or> c \<noteq> 47) then False else pointer_matches cs n p)
      else if \<not> cs \<and> c_tolower c \<noteq> c_tolower q \<or> cs \<and> c \<noteq> q then False
      else pointer_matches cs n p)"

definition compare_pointers :: "byte list option \<Rightarrow> byte list option \<Rightarrow> bool \<Rightarrow> bool" where
  "compare_pointers name pointer cs = (case (name, pointer) of (Some n, Some p) \<Rightarrow> pointer_matches cs n p | _ \<Rightarrow> False)"

text \<open>The loop over the digits of an index looks at the first character again where it means the current one.\<close>

fun index_loop :: "byte \<Rightarrow> byte list \<Rightarrow> 64 word \<Rightarrow> 64 word \<times> byte list" where
  "index_loop first [] k = (k, [])"
| "index_loop first (c # p) k =
     (if 48 \<le> c \<and> first \<le> 57 then index_loop first p (10 * k + of_int (uint c - 48)) else (k, c # p))"

definition decode_array_index_from_pointer :: "byte list \<Rightarrow> 64 word option" where
  "decode_array_index_from_pointer p =
     (if (case p of [] \<Rightarrow> False | c # q \<Rightarrow> c = 48 \<and> q \<noteq> [] \<and> hd q \<noteq> 47) then None
      else (let (k, r) = index_loop (case p of [] \<Rightarrow> 0 | c # _ \<Rightarrow> c) p 0 in
        if r \<noteq> [] \<and> hd r \<noteq> 47 then None else Some k))"

subsection \<open>From a pointer to the item\<close>

definition nth_child :: "'f jtree \<Rightarrow> 64 word \<Rightarrow> 'f jtree option" where
  "nth_child t k = (if unat k < length (jkids t) then Some (jkids t ! unat k) else None)"

definition named_child :: "bool \<Rightarrow> byte list \<Rightarrow> 'f jtree \<Rightarrow> 'f jtree option" where
  "named_child cs p t = find (\<lambda>k. compare_pointers (map_option snd (t_name (jdata k))) (Some p) cs) (jkids t)"

function follow :: "bool \<Rightarrow> 'f jtree option \<Rightarrow> byte list \<Rightarrow> 'f jtree option" where
  "follow cs None p = None"
| "follow cs (Some t) [] = Some t"
| "follow cs (Some t) (c # p) =
     (if c = 47 then
        if t_is cJSON_Array (jdata t) then
          (case decode_array_index_from_pointer p of None \<Rightarrow> None
           | Some k \<Rightarrow> follow cs (nth_child t k) (dropWhile (\<lambda>c. c \<noteq> 47) p))
        else if t_is cJSON_Object (jdata t) then follow cs (named_child cs p t) (dropWhile (\<lambda>c. c \<noteq> 47) p)
        else None
      else Some t)"
  by pat_completeness auto
termination
  by (relation "measure (\<lambda>(cs, t, p). length p)") (auto simp: le_imp_less_Suc length_dropWhile_le)

definition get_item_from_pointer :: "'f jtree option \<Rightarrow> byte list option \<Rightarrow> bool \<Rightarrow> 'f jtree option" where
  "get_item_from_pointer object pointer cs = (case pointer of None \<Rightarrow> None | Some p \<Rightarrow> follow cs object p)"

definition cJSONUtils_GetPointer :: "'f jtree option \<Rightarrow> byte list option \<Rightarrow> 'f jtree option" where
  "cJSONUtils_GetPointer object pointer = get_item_from_pointer object pointer False"

definition cJSONUtils_GetPointerCaseSensitive :: "'f jtree option \<Rightarrow> byte list option \<Rightarrow> 'f jtree option" where
  "cJSONUtils_GetPointerCaseSensitive object pointer = get_item_from_pointer object pointer True"

subsection \<open>From an item to its pointer\<close>

text \<open>
  The items are compared by their addresses. The first argument is how many allocations will succeed; the block
  for the longer pointer is not checked, so that there is no result when that allocation fails.
\<close>

definition longer_pointer :: "nat \<Rightarrow> 'f tdata \<Rightarrow> nat \<Rightarrow> 'f jtree \<Rightarrow> byte list \<Rightarrow> (byte list option \<times> nat) option" where
  "longer_pointer mem d i k p =
     (if t_is cJSON_Array d then (case alloc mem of None \<Rightarrow> None | Some mem \<Rightarrow> Some (Some (47 # nat_text i @ p), mem))
      else if t_is cJSON_Object d then (case t_name (jdata k) of None \<Rightarrow> None
        | Some (_, s) \<Rightarrow> (case alloc mem of None \<Rightarrow> None | Some mem \<Rightarrow> Some (Some (47 # encode_string_as_pointer s @ p), mem)))
      else Some (None, mem))"

fun find_pointer :: "nat \<Rightarrow> 'f jtree \<Rightarrow> addr \<Rightarrow> (byte list option \<times> nat) option"
  and find_child_pointer :: "nat \<Rightarrow> 'f tdata \<Rightarrow> nat \<Rightarrow> 'f jtree list \<Rightarrow> addr \<Rightarrow> (byte list option \<times> nat) option" where
  "find_pointer mem (JT a d ks) target =
     (if a = target then Some (case alloc mem of None \<Rightarrow> (None, mem) | Some mem \<Rightarrow> (Some [], mem))
      else find_child_pointer mem d 0 ks target)"
| "find_child_pointer mem d i [] target = Some (None, mem)"
| "find_child_pointer mem d i (k # ks) target =
     (case find_pointer mem k target of None \<Rightarrow> None
      | Some (None, mem) \<Rightarrow> find_child_pointer mem d (i + 1) ks target
      | Some (Some p, mem) \<Rightarrow> longer_pointer mem d i k p)"

definition cJSONUtils_FindPointerFromObjectTo :: "nat \<Rightarrow> 'f jtree option \<Rightarrow> addr option \<Rightarrow> (byte list option \<times> nat) option" where
  "cJSONUtils_FindPointerFromObjectTo mem object target =
     (case (object, target) of (Some t, Some a) \<Rightarrow> find_pointer mem t a | _ \<Rightarrow> Some (None, mem))"

subsection \<open>Facts about the escapes\<close>

lemma encode_length: "length (encode_string_as_pointer s) = pointer_encoded_length s"
  by (induction s) (auto simp: pointer_encoded_length_def)

lemma encode_no_slash: "47 \<notin> set (encode_string_as_pointer s)"
  by (induction s) auto

lemma encode_no_NUL: "0 \<notin> set s \<Longrightarrow> 0 \<notin> set (encode_string_as_pointer s)"
  by (induction s) auto

lemma tolower_marks: "c_tolower c = 47 \<longleftrightarrow> c = 47" "c_tolower c = 126 \<longleftrightarrow> c = 126"
proof -
  have "list_all (\<lambda>c. (c_tolower c = 47) = (c = 47) \<and> (c_tolower c = 126) = (c = 126)) all_bytes" by code_simp
  from byte_exhaustive [OF this] show "c_tolower c = 47 \<longleftrightarrow> c = 47" "c_tolower c = 126 \<longleftrightarrow> c = 126" by blast+
qed

text \<open>Names that the search takes as the same.\<close>

definition same_key :: "bool \<Rightarrow> byte list \<Rightarrow> byte list \<Rightarrow> bool" where
  "same_key cs s t \<longleftrightarrow> (if cs then s = t else map c_tolower s = map c_tolower t)"

lemma same_key_refl [simp]: "same_key cs s s"
  by (simp add: same_key_def)

lemma pointer_matches_encoded:
  "r = [] \<or> hd r = 47 \<Longrightarrow> pointer_matches cs n (encode_string_as_pointer s @ r) \<longleftrightarrow> same_key cs n s"
proof (induction s arbitrary: n)
  case Nil
  then show ?case by (cases n; cases r) (auto simp: same_key_def)
next
  case (Cons c s)
  show ?case
  proof (cases n)
    case Nil
    then show ?thesis by (auto simp: same_key_def)
  next
    case n: (Cons a n')
    note IH = Cons.IH [OF Cons.prems, of n']
    have t: "c_tolower 47 = 47" "c_tolower 126 = 126" using tolower_marks by blast+
    consider "c = 47" | "c = 126" | "c \<noteq> 47" "c \<noteq> 126" by blast
    then show ?thesis
    proof cases
      case 1
      then show ?thesis using IH n tolower_marks(1) [of a] by (cases cs) (simp_all add: same_key_def t)
    next
      case 2
      then show ?thesis using IH n tolower_marks(2) [of a] by (cases cs) (simp_all add: same_key_def t)
    next
      case 3
      then show ?thesis using IH n by (cases cs) (simp_all add: same_key_def)
    qed
  qed
qed

lemma index_loop_digits:
  "\<forall>c \<in> set ds. c_isdigit c \<Longrightarrow> first \<le> 57 \<Longrightarrow> r = [] \<or> hd r = 47 \<Longrightarrow>
    index_loop first (ds @ r) k = (of_int (foldl (\<lambda>n d. n * 10 + (uint d - 48)) (uint k) ds), r)"
proof (induction ds arbitrary: k)
  case Nil
  then show ?case by (cases r) auto
next
  case (Cons d ds)
  have "index_loop first (ds @ r) (10 * k + of_int (uint d - 48)) =
      (of_int (foldl (\<lambda>n d. n * 10 + (uint d - 48)) (uint (10 * k + of_int (uint d - 48))) ds), r)"
    using Cons.prems by (intro Cons.IH) auto
  moreover have "(of_int (foldl (\<lambda>n d. n * 10 + (uint d - 48)) a ds) :: 64 word) = of_int (foldl (\<lambda>n d. n * 10 + (uint d - 48)) b ds)"
    if "(of_int a :: 64 word) = of_int b" for a b
    using that
  proof (induction ds arbitrary: a b)
    case (Cons x xs)
    then show ?case by simp
  qed simp
  ultimately show ?case using Cons.prems by (simp add: c_isdigit_def algebra_simps)
qed

subsection \<open>There and back\<close>

text \<open>
  A tree in which every item can be found: none is a reference, only arrays and objects have children, an array has fewer than \<open>2 ^ 64\<close>, and
  the members of an object have names no two of which are the same to the search.
\<close>

definition names_of :: "'f jtree list \<Rightarrow> byte list list" where
  "names_of ks = map (\<lambda>k. case t_name (jdata k) of None \<Rightarrow> [] | Some (_, s) \<Rightarrow> s) ks"

definition told_apart :: "bool \<Rightarrow> byte list list \<Rightarrow> bool" where
  "told_apart cs ns \<longleftrightarrow> (\<forall>i < length ns. \<forall>j < i. \<not> same_key cs (ns ! j) (ns ! i))"

fun searchable :: "bool \<Rightarrow> 'f jtree \<Rightarrow> bool" where
  "searchable cs (JT a d ks) \<longleftrightarrow> \<not> t_reference d \<and>
     (ks \<noteq> [] \<longrightarrow> t_is cJSON_Array d \<and> length ks < 2 ^ 64 \<or>
       t_is cJSON_Object d \<and> list_all (\<lambda>k. t_name (jdata k) \<noteq> None) ks \<and> told_apart cs (names_of ks)) \<and>
     list_all (searchable cs) ks"

fun tree_depth :: "'f jtree \<Rightarrow> nat" where
  "tree_depth (JT a d ks) = foldr (\<lambda>k n. max (Suc (tree_depth k)) n) ks 0"

lemma child_depth: "k \<in> set ks \<Longrightarrow> Suc (tree_depth k) \<le> tree_depth (JT a d ks)"
  by (induction ks) auto

lemma array_type [simp]: "t_is cJSON_Array d \<Longrightarrow> \<not> t_is cJSON_Object d"
  by (simp add: t_is_def json_types)

text \<open>An item that is not in the tree is looked for without an allocation.\<close>

lemma find_pointer_none:
  fixes t :: "'f jtree" and d :: "'f tdata"
  shows "target \<notin> set (nodes_of t) \<Longrightarrow> find_pointer mem t target = Some (None, mem)"
  and "target \<notin> set (nodes_of_all ks) \<Longrightarrow> find_child_pointer mem d i ks target = Some (None, mem)"
  by (induction mem t target and mem d i ks target rule: find_pointer_find_child_pointer.induct) auto

lemma find_child_at:
  assumes "find_pointer mem k target = Some (Some p, mem1)" and "k \<in> set ks" and "target \<in> set (nodes_of k)" and "distinct (nodes_of_all ks)"
  shows "\<exists>j. j < length ks \<and> ks ! j = k \<and> find_child_pointer mem d i ks target = longer_pointer mem1 d (i + j) k p"
  using assms
proof (induction ks arbitrary: i)
  case (Cons x ks)
  show ?case
  proof (cases "x = k")
    case True
    then show ?thesis using Cons.prems(1) by (intro exI [of _ 0]) simp
  next
    case False
    then have k: "k \<in> set ks" using Cons.prems(2) by simp
    then have "target \<notin> set (nodes_of x)" using Cons.prems(3,4) by fastforce
    then have e: "find_child_pointer mem d i (x # ks) target = find_child_pointer mem d (i + 1) ks target" by (simp add: find_pointer_none)
    have "distinct (nodes_of_all ks)" using Cons.prems(4) by simp
    from Cons.IH [OF Cons.prems(1) k Cons.prems(3) this, of "i + 1"] obtain j where "j < length ks" "ks ! j = k"
        "find_child_pointer mem d (i + 1) ks target = longer_pointer mem1 d (i + 1 + j) k p" by blast
    then show ?thesis unfolding e by (intro exI [of _ "Suc j"]) simp
  qed
qed simp

lemma named_child_found:
  assumes "list_all (\<lambda>k. t_name (jdata k) \<noteq> None) ks" and "told_apart cs (names_of ks)" and "j < length ks"
    and "t_name (jdata (ks ! j)) = Some (b, s)" and "r = [] \<or> hd r = 47"
  shows "named_child cs (encode_string_as_pointer s @ r) (JT a d ks) = Some (ks ! j)"
proof -
  have n: "compare_pointers (map_option snd (t_name (jdata (ks ! i)))) (Some (encode_string_as_pointer s @ r)) cs \<longleftrightarrow> same_key cs (names_of ks ! i) s" if "i < length ks" for i
  proof -
    have "t_name (jdata (ks ! i)) \<noteq> None" using assms(1) that by (simp add: list_all_length)
    then show ?thesis using that pointer_matches_encoded [OF assms(5)] by (auto simp: compare_pointers_def names_of_def)
  qed
  have s: "names_of ks ! j = s" using assms(3,4) by (simp add: names_of_def)
  have "\<not> same_key cs (names_of ks ! i) s" if "i < j" for i using assms(2,3) that s by (force simp: told_apart_def names_of_def)
  then show ?thesis using n assms(3) s by (auto simp: named_child_def find_Some_iff)
qed

lemma nat_text_no_zero: "nat_text n = c # q \<Longrightarrow> c = 48 \<Longrightarrow> q = []"
proof (induction n arbitrary: c q rule: nat_text.induct)
  case (1 n)
  show ?case
  proof (cases "n < 10")
    case True
    then show ?thesis using 1(2) by (subst (asm) nat_text.simps) simp
  next
    case False
    obtain c' q' where d: "nat_text (n div 10) = c' # q'" using nat_text_nonempty by (cases "nat_text (n div 10)") auto
    then have "c' = 48" using 1(2,3) False by (subst (asm) nat_text.simps) simp
    then have "q' = []" using 1(1) [OF False d] by simp
    then have "dec_value (nat_text (n div 10)) = 0" using d \<open>c' = 48\<close> by (simp add: dec_value_def)
    then show ?thesis using nat_text_value [of "n div 10"] False by simp
  qed
qed

lemma decode_array_index_text:
  assumes "n < 2 ^ 64" and "r = [] \<or> hd r = 47"
  shows "\<exists>k. decode_array_index_from_pointer (nat_text n @ r) = Some k \<and> unat k = n"
proof -
  obtain c q where t: "nat_text n = c # q" using nat_text_nonempty by (cases "nat_text n") auto
  have "c \<le> 57" using nat_text_digits [of n] t by (simp add: c_isdigit_def)
  then have "index_loop c (nat_text n @ r) 0 = (of_int (int n), r)"
    using index_loop_digits [OF nat_text_digits _ assms(2), of c n 0] nat_text_value [of n] by (simp add: dec_value_def)
  moreover have "\<not> (c = 48 \<and> q @ r \<noteq> [] \<and> hd (q @ r) \<noteq> 47)" using nat_text_no_zero [OF t] assms(2) by auto
  ultimately show ?thesis using assms by (auto simp: decode_array_index_from_pointer_def t unat_of_nat Let_def)
qed

lemma dropWhile_token: "47 \<notin> set s \<Longrightarrow> r = [] \<or> hd r = 47 \<Longrightarrow> dropWhile (\<lambda>c. c \<noteq> 47) (s @ r) = r"
  by (induction s) (cases r; auto)+

lemma find_then_follow:
  assumes "searchable cs t" and "distinct (nodes_of t)" and "target \<in> set (nodes_of t)" and "tree_depth t < mem"
  shows "\<exists>p mem' u. find_pointer mem t target = Some (Some p, mem') \<and> (p = [] \<or> hd p = 47) \<and> mem \<le> mem' + tree_depth t + 1 \<and>
    follow cs (Some t) p = Some u \<and> jaddr u = target"
  using assms
proof (induction t arbitrary: mem)
  case (JT a d ks)
  show ?case
  proof (cases "a = target")
    case True
    then show ?thesis using JT.prems(4) by (auto simp: alloc_def)
  next
    case False
    then obtain k where k: "k \<in> set ks" "target \<in> set (nodes_of k)" using JT.prems(3) by auto
    have dk: "Suc (tree_depth k) \<le> tree_depth (JT a d ks)" using child_depth [OF k(1)] .
    have "searchable cs k" "distinct (nodes_of k)" "tree_depth k < mem" using JT.prems k dk by (auto simp: list_all_iff dest: split_list)
    then obtain p mem1 u where p: "find_pointer mem k target = Some (Some p, mem1)" "p = [] \<or> hd p = 47" "mem \<le> mem1 + tree_depth k + 1"
        "follow cs (Some k) p = Some u" "jaddr u = target"
      using JT.IH [OF k(1)] k(2) by blast
    have m: "alloc mem1 = Some (mem1 - 1)" "0 < mem1" using p(3) dk JT.prems(4) by (auto simp: alloc_def)
    have "distinct (nodes_of_all ks)" using JT.prems(2) by simp
    from find_child_at [OF p(1) k this, of d 0] obtain j where j: "j < length ks" "ks ! j = k"
      and f: "find_child_pointer mem d 0 ks target = longer_pointer mem1 d j k p" by auto
    have ne: "ks \<noteq> []" using k by auto
    then consider (array) "t_is cJSON_Array d" "length ks < 2 ^ 64"
      | (object) "t_is cJSON_Object d" "list_all (\<lambda>k. t_name (jdata k) \<noteq> None) ks" "told_apart cs (names_of ks)"
      using JT.prems(1) by auto
    then show ?thesis
    proof cases
      case array
      obtain i where i: "decode_array_index_from_pointer (nat_text j @ p) = Some i" "unat i = j"
        using decode_array_index_text [of j p] j(1) array(2) p(2) by auto
      have d: "47 \<notin> set (nat_text j)" using nat_text_digits [of j] by (auto simp: c_isdigit_def)
      have "follow cs (Some (JT a d ks)) (47 # nat_text j @ p) = follow cs (Some k) p"
        using array i j dropWhile_token [OF d p(2)] by (simp add: nth_child_def)
      then show ?thesis using False f array(1) p m dk by (auto simp: longer_pointer_def)
    next
      case object
      obtain b s where s: "t_name (jdata k) = Some (b, s)" using object(2) k(1) by (fastforce simp: list_all_iff)
      have "named_child cs (encode_string_as_pointer s @ p) (JT a d ks) = Some k"
        using named_child_found [OF object(2,3) j(1) _ p(2)] s j(2) by simp
      then have "follow cs (Some (JT a d ks)) (47 # encode_string_as_pointer s @ p) = follow cs (Some k) p"
        using object(1) array_type [of d] dropWhile_token [OF encode_no_slash p(2)] by (cases "t_is cJSON_Array d") simp_all
      then show ?thesis using False f object(1) array_type [of d] p m dk s by (cases "t_is cJSON_Array d") (auto simp: longer_pointer_def)
    qed
  qed
qed

text \<open>
  C39. The pointer that \<open>cJSONUtils_FindPointerFromObjectTo\<close> makes for an item of a tree leads back to that item, names with \<open>/\<close> and \<open>~\<close> included,
  for the search with and without regard to case; for what is not in the tree there is no pointer. Hypotheses: the tree has no references, each of its
  items has its own address, only arrays and objects have children, an array has fewer than \<open>2 ^ 64\<close>, and the members of an object all have names, no two of
  which are the same to the search; more allocations succeed than the tree is deep.
\<close>

theorem find_pointer_round_trip:
  assumes "searchable cs t" and "distinct (nodes_of t)" and "tree_depth t < mem"
  shows "if target \<in> set (nodes_of t)
    then \<exists>p mem' u. cJSONUtils_FindPointerFromObjectTo mem (Some t) (Some target) = Some (Some p, mem') \<and>
      get_item_from_pointer (Some t) (Some p) cs = Some u \<and> jaddr u = target
    else cJSONUtils_FindPointerFromObjectTo mem (Some t) (Some target) = Some (None, mem)"
  using find_then_follow [OF assms(1,2) _ assms(3), of target] find_pointer_none(1) [of target t mem]
  by (auto simp: cJSONUtils_FindPointerFromObjectTo_def get_item_from_pointer_def)

text \<open>An object with the member \<open>a/b\<close>, an array of two numbers.\<close>

definition pointer_tree :: "int jtree" where
  "pointer_tree = (let d = \<lparr>t_type = 0, t_value = None, t_int = 0, t_double = 0, t_name = None\<rparr> in
     JT 1 (d\<lparr>t_type := cJSON_Object\<rparr>) [JT 2 (d\<lparr>t_type := cJSON_Array, t_name := Some (11, [97, 47, 98])\<rparr>)
       [JT 3 (d\<lparr>t_type := cJSON_Int\<rparr>) [], JT 4 (d\<lparr>t_type := cJSON_Int\<rparr>) []]])"

theorem find_pointer_round_trip_witness:
  "\<exists>p mem' u. cJSONUtils_FindPointerFromObjectTo 5 (Some pointer_tree) (Some 4) = Some (Some p, mem') \<and>
    cJSONUtils_GetPointer (Some pointer_tree) (Some p) = Some u \<and> jaddr u = 4"
proof -
  have s: "t_is cJSON_Object (jdata pointer_tree)" by code_simp
  have "searchable False pointer_tree"
    by (simp add: pointer_tree_def Let_def t_is_def t_reference_def json_types names_of_def told_apart_def)
  moreover have "distinct (nodes_of pointer_tree)" "4 \<in> set (nodes_of pointer_tree)" "tree_depth pointer_tree < 5" by (simp_all add: pointer_tree_def Let_def)
  ultimately show ?thesis using find_pointer_round_trip [of False pointer_tree 5 4] by (simp add: cJSONUtils_GetPointer_def)
qed

subsection \<open>What the decoders get wrong\<close>

lemma decode_loop_plain: "126 \<notin> set s \<Longrightarrow> 0 \<notin> set s \<Longrightarrow> decode_loop (q @ s @ [0]) (length q) (length q) = Some (q @ s @ [0])"
proof (induction s arbitrary: q)
  case Nil
  then show ?case by (simp add: decode_loop.simps)
next
  case (Cons c s)
  have "decode_loop ((q @ [c]) @ s @ [0]) (length (q @ [c])) (length (q @ [c])) = Some ((q @ [c]) @ s @ [0])" using Cons.prems by (intro Cons.IH) auto
  then show ?case using Cons.prems by (subst decode_loop.simps) (simp add: nth_append)
qed

lemma decode_loop_keeps: "decode_loop buf d s = Some r \<Longrightarrow> i < d \<Longrightarrow> length r = length buf \<and> r ! i = buf ! i"
proof (induction buf d s rule: decode_loop.induct)
  case (1 buf d s)
  from 1(4) show ?case
    by (subst (asm) decode_loop.simps) (use 1(1-3,5) in \<open>auto simp: wr_def split: if_splits\<close>)
qed

text \<open>Up to the first slash the buffer is changed only before the place where the slash belongs.\<close>

lemma decode_loop_encoded:
  assumes "47 \<notin> set u" and "0 \<notin> set u" and "drop s buf = encode_string_as_pointer u @ z" and "z \<noteq> []" and "d \<le> s" and "s \<le> length buf"
  shows "\<exists>buf'. decode_loop buf d s = decode_loop buf' (d + length u) (s + length (encode_string_as_pointer u)) \<and>
    drop (s + length (encode_string_as_pointer u)) buf' = z \<and> length buf' = length buf \<and> (\<forall>i \<ge> d + length u. buf' ! i = buf ! i)"
  using assms
proof (induction u arbitrary: buf d s)
  case Nil
  then show ?case by auto
next
  case (Cons c u)
  have l: "length buf - s = length (encode_string_as_pointer (c # u)) + length z" using Cons.prems(3) by (metis length_append length_drop)
  have at: "buf ! (s + i) = (encode_string_as_pointer (c # u) @ z) ! i" for i
    using Cons.prems(3,6) by (metis nth_drop)
  show ?case
  proof (cases "c = 126")
    case True
    let ?b = "buf[d := 126]"
    have ds: "d < length buf" "Suc s < length buf" using l True Cons.prems(5,6) by auto
    have c: "buf ! s = 126" "buf ! Suc s = 48" using at [of 0] at [of 1] True by simp_all
    have dr: "drop (s + 2) ?b = encode_string_as_pointer u @ z"
      using Cons.prems(3,5) True by (simp add: drop_update_cancel) (metis add_2_eq_Suc' append_Cons append_Nil drop_Suc drop_drop list.sel(3) tl_drop add.commute)
    obtain buf' where b: "decode_loop ?b (d + 1) (s + 2) = decode_loop buf' (d + 1 + length u) (s + 2 + length (encode_string_as_pointer u))"
        "drop (s + 2 + length (encode_string_as_pointer u)) buf' = z" "length buf' = length ?b" "\<forall>i \<ge> d + 1 + length u. buf' ! i = ?b ! i"
      using Cons.IH [OF _ _ dr Cons.prems(4), of "d + 1"] Cons.prems ds by auto
    have "decode_loop buf d s = decode_loop ?b (d + 1) (s + 2)" using c ds by (subst decode_loop.simps) simp
    then show ?thesis using b True by (intro exI [of _ buf']) (auto simp: algebra_simps)
  next
    case False
    then have c: "buf ! s = c" "s < length buf" "c \<noteq> 0" using at [of 0] Cons.prems(1,2) l by auto
    have "drop (s + 1) buf = encode_string_as_pointer u @ z" using Cons.prems(1,3) False by (simp add: drop_Suc drop_tl)
    then obtain buf' where b: "decode_loop buf (d + 1) (s + 1) = decode_loop buf' (d + 1 + length u) (s + 1 + length (encode_string_as_pointer u))"
        "drop (s + 1 + length (encode_string_as_pointer u)) buf' = z" "length buf' = length buf" "\<forall>i \<ge> d + 1 + length u. buf' ! i = buf ! i"
      using Cons.IH [of "s + 1" buf "d + 1"] Cons.prems c(2) by auto
    have "decode_loop buf d s = decode_loop buf (d + 1) (s + 1)" using c False by (subst decode_loop.simps) simp
    then show ?thesis using b False Cons.prems(1) by (intro exI [of _ buf']) auto
  qed
qed

lemma decode_loop_terminated:
  "0 \<notin> set u \<Longrightarrow> drop s buf = encode_string_as_pointer u @ [0] \<Longrightarrow> d \<le> s \<Longrightarrow> s \<le> length buf \<Longrightarrow> decode_loop buf d s \<noteq> None"
proof (induction u arbitrary: buf d s)
  case Nil
  then have "s < length buf" "buf ! s = 0" by (metis append_Nil drop_eq_Nil2 encode_string_as_pointer.simps(1) linorder_not_le list.distinct(1)) (metis Nil.prems(2) append_Nil drop_eq_Nil2 encode_string_as_pointer.simps(1) hd_drop_conv_nth linorder_not_le list.distinct(1) list.sel(1))
  then show ?case using Nil by (subst decode_loop.simps) (simp add: wr_def)
next
  case (Cons c u)
  have l: "length buf - s = length (encode_string_as_pointer (c # u)) + 1" using Cons.prems(2) by (metis length_append length_drop One_nat_def list.size(3,4) add.right_neutral add_Suc_right)
  have at: "buf ! (s + i) = (encode_string_as_pointer (c # u) @ [0]) ! i" for i using Cons.prems(2,4) by (metis nth_drop)
  show ?case
  proof (cases "c = 126 \<or> c = 47")
    case True
    have b: "buf ! s = 126" "buf ! Suc s \<in> {48, 49}" "Suc s < length buf" using at [of 0] at [of 1] True l Cons.prems(4) by auto
    have dr: "drop (s + 2) (buf[j := x]) = encode_string_as_pointer u @ [0]" if "j \<le> Suc s" for j x
      using Cons.prems(2) True that by (auto simp: drop_update_cancel) (metis add_2_eq_Suc' append_Cons append_Nil drop_Suc drop_drop list.sel(3) tl_drop add.commute)+
    have "decode_loop (buf[j := x]) (d + 1) (s + 2) \<noteq> None" if "j \<le> Suc s" for j x
      by (rule Cons.IH) (use Cons.prems b(3) dr [OF that] in auto)
    then show ?thesis using b Cons.prems(3) by (subst decode_loop.simps) auto
  next
    case False
    then have c: "buf ! s = c" "s < length buf" "c \<noteq> 0" using at [of 0] Cons.prems(1) l by auto
    have "drop (s + 1) buf = encode_string_as_pointer u @ [0]" using Cons.prems(2) False by (simp add: drop_Suc drop_tl)
    then have "decode_loop buf (d + 1) (s + 1) \<noteq> None" using Cons.prems c(2) by (intro Cons.IH) auto
    then show ?thesis using c False by (subst decode_loop.simps) auto
  qed
qed

text \<open>
  \<open>decode_pointer_inplace\<close> copies no character that is not escaped and writes a slash one place too far: a name without escapes
  is left as it is, but from the encoding of a name with a slash it never gets the name back. Patches to such members
  go to another member.
\<close>

theorem decode_pointer_loses_slashes:
  assumes "0 \<notin> set s"
  shows "(126 \<notin> set s \<longrightarrow> decode_pointer_inplace (Some (s @ [0])) = Some (Some (s @ [0]))) \<and>
    (47 \<in> set s \<longrightarrow> (\<exists>buf. decode_pointer_inplace (Some (encode_string_as_pointer s @ [0])) = Some (Some buf) \<and> c_str buf \<noteq> s))"
proof (intro conjI impI)
  assume "126 \<notin> set s"
  then show "decode_pointer_inplace (Some (s @ [0])) = Some (Some (s @ [0]))"
    using decode_loop_plain [of s "[]"] assms by (simp add: decode_pointer_inplace_def)
next
  assume "47 \<in> set s"
  then obtain u v where s: "s = u @ 47 # v" "47 \<notin> set u" by (metis split_list_first)
  let ?e = "encode_string_as_pointer s @ [0]"
  have enc: "encode_string_as_pointer (x @ y) = encode_string_as_pointer x @ encode_string_as_pointer y" for x y by (induction x) simp_all
  obtain buf where b: "decode_loop ?e 0 0 = Some buf" using decode_loop_terminated [of s 0 ?e 0] assms by auto
  obtain buf' where b': "decode_loop ?e 0 0 = decode_loop buf' (length u) (length (encode_string_as_pointer u))"
      "drop (length (encode_string_as_pointer u)) buf' = 126 # 49 # encode_string_as_pointer v @ [0]" "length buf' = length ?e" "\<forall>i \<ge> length u. buf' ! i = ?e ! i"
    using decode_loop_encoded [OF s(2), of 0 ?e "126 # 49 # encode_string_as_pointer v @ [0]" 0] assms by (auto simp: s(1) enc)
  let ?n = "length (encode_string_as_pointer u)"
  have at: "buf' ! ?n = 126" "buf' ! Suc ?n = 49" "Suc ?n < length buf'"
    using arg_cong [OF b'(2), of "\<lambda>x. x ! 0"] arg_cong [OF b'(2), of "\<lambda>x. x ! 1"] arg_cong [OF b'(2), of length] by auto
  have le: "length u \<le> ?n" by (simp add: encode_length pointer_encoded_length_def)
  have "decode_loop (buf'[Suc (length u) := 47]) (length u + 1) (?n + 2) = Some buf"
    using b b'(1) at le by (subst (asm) (2) decode_loop.simps) simp
  from decode_loop_keeps [OF this, of "length u"] have r: "buf ! length u = ?e ! length u" "length buf = length ?e" using b'(3,4) by auto
  have "?e ! length u \<noteq> 47" using encode_no_slash [of s] le
    by (metis (no_types, lifting) at(3) b'(3) length_append_singleton less_Suc_eq_le nth_append nth_append_length nth_mem order.trans not_less_eq_eq Suc_leD less_le_not_le zero_neq_numeral nless_le)
  moreover have "c_str buf = s \<Longrightarrow> buf ! length u = 47"
  proof -
    assume c: "c_str buf = s"
    then have "buf ! length u = s ! length u" by (metis c_str_def s(1) length_append length_Cons less_add_same_cancel1 takeWhile_nth zero_less_Suc)
    then show ?thesis by (simp add: s(1))
  qed
  ultimately have "c_str buf \<noteq> s" using r by auto
  then show "\<exists>buf. decode_pointer_inplace (Some ?e) = Some (Some buf) \<and> c_str buf \<noteq> s" using b by (simp add: decode_pointer_inplace_def)
qed

theorem decode_pointer_loses_slashes_witness:
  "decode_pointer_inplace (Some ([97, 98] @ [0])) = Some (Some ([97, 98] @ [0])) \<and>
    (\<exists>buf. decode_pointer_inplace (Some (encode_string_as_pointer [97, 47, 98] @ [0])) = Some (Some buf) \<and> c_str buf \<noteq> [97, 47, 98])"
  using decode_pointer_loses_slashes [of "[97, 98]"] decode_pointer_loses_slashes [of "[97, 47, 98]"] by simp

text \<open>
  \<open>decode_array_index_from_pointer\<close> reads a decimal number without leading zeros below \<open>2 ^ 64\<close> as that number. But it also takes
  the empty text for 0, and a character behind the digits, such as a letter, for a digit of a larger value, because its loop
  compares the first character with \<open>9\<close>.
\<close>

theorem array_index_takes_letters:
  assumes "n < 2 ^ 64" and "r = [] \<or> hd r = 47" and "57 < c"
  shows "decode_array_index_from_pointer (nat_text n @ r) = Some (of_nat n) \<and> decode_array_index_from_pointer r = Some 0 \<and>
    (0 < n \<longrightarrow> decode_array_index_from_pointer (nat_text n @ c # r) = Some (10 * of_nat n + of_int (uint c - 48)))"
proof (intro conjI impI)
  show "decode_array_index_from_pointer (nat_text n @ r) = Some (of_nat n)"
    using decode_array_index_text [OF assms(1,2)] by auto
  show "decode_array_index_from_pointer r = Some 0"
    using assms(2) by (cases r) (auto simp: decode_array_index_from_pointer_def)
  assume n: "0 < n"
  obtain a q where t: "nat_text n = a # q" using nat_text_nonempty by (cases "nat_text n") auto
  have a: "a \<le> 57" "\<forall>d \<in> set (nat_text n). c_isdigit d" using nat_text_digits [of n] t by (auto simp: c_isdigit_def)
  have "a \<noteq> 48"
  proof
    assume "a = 48"
    then have "nat_text n = [48]" using nat_text_no_zero [OF t] t by simp
    then show False using nat_text_value [of n] n by (simp add: dec_value_def)
  qed
  have step: "index_loop a (ds @ c # r) k = index_loop a (c # r) (fst (index_loop a ds k))" if "\<forall>d \<in> set ds. c_isdigit d" for ds k
    using that a(1) by (induction ds arbitrary: k) (auto simp: c_isdigit_def)
  have "fst (index_loop a (nat_text n) 0) = of_nat n"
    using index_loop_digits [OF a(2) a(1), of "[]" 0] nat_text_value [of n] by (simp add: dec_value_def)
  moreover have "48 \<le> c" using assms(3) by (simp add: word_le_nat_alt word_less_nat_alt)
  ultimately have "index_loop a (nat_text n @ c # r) 0 = (10 * of_nat n + of_int (uint c - 48), r)"
    using step [OF a(2), of 0] a(1) assms(2) by (cases r) auto
  then show "decode_array_index_from_pointer (nat_text n @ c # r) = Some (10 * of_nat n + of_int (uint c - 48))"
    using \<open>a \<noteq> 48\<close> assms(2) by (simp add: decode_array_index_from_pointer_def t Let_def)
qed

theorem array_index_takes_letters_witness:
  "decode_array_index_from_pointer (nat_text 1 @ [97]) = Some 59"
  using array_index_takes_letters [of 1 "[]" 97] by simp

end
