(* ===== verification/JsonSort.thy ===== *)
theory JsonSort
  imports JsonTreeOps "HOL-Library.List_Lexorder" "HOL-Library.Multiset"
begin

section \<open>Sorting the members of an object\<close>

text \<open>
  \<open>sort_list\<close> of \<open>json/mkey_str2j/cJSON_Utils.c\<close>, a merge sort of the chain of the members by their names, in the memory. It reads the
  names through a heap of strings and changes only links. The loops and the recursion follow the
  links, so that they have no result where they do not end.
\<close>

subsection \<open>Comparing strings\<close>

text \<open>\<open>strcmp\<close>, of which only the sign counts.\<close>

fun c_strcmp :: "byte list \<Rightarrow> byte list \<Rightarrow> int" where
  "c_strcmp [] [] = 0"
| "c_strcmp (a # s) [] = uint a"
| "c_strcmp [] (b # t) = - uint b"
| "c_strcmp (a # s) (b # t) = (if a = b then if a = 0 then 0 else c_strcmp s t else uint a - uint b)"

definition name_diff :: "bool \<Rightarrow> byte list \<Rightarrow> byte list \<Rightarrow> int" where
  "name_diff cs s t = (if cs then c_strcmp s t else ci_diff s t)"

definition compare_strings :: "byte list heap \<Rightarrow> ptr \<Rightarrow> ptr \<Rightarrow> bool \<Rightarrow> int option" where
  "compare_strings st p q cs = (case (p, q) of (Some a, Some b) \<Rightarrow>
       if a = b then Some 0 else do { s \<leftarrow> st a; t \<leftarrow> st b; Some (name_diff cs s t) }
     | _ \<Rightarrow> Some 1)"

definition compare_names :: "byte list heap \<Rightarrow> bool \<Rightarrow> 'f jheap \<Rightarrow> addr \<Rightarrow> addr \<Rightarrow> int option" where
  "compare_names st cs h a b = do { x \<leftarrow> h a; y \<leftarrow> h b; compare_strings st (nname x) (nname y) cs }"

subsection \<open>The sort\<close>

partial_function (option) still_sorted :: "byte list heap \<Rightarrow> bool \<Rightarrow> 'f jheap \<Rightarrow> ptr \<Rightarrow> bool option" where
  "still_sorted st cs h p = (case p of None \<Rightarrow> Some True
   | Some a \<Rightarrow> do {
       n \<leftarrow> h a;
       case jnext n of None \<Rightarrow> Some True
       | Some b \<Rightarrow> do { c \<leftarrow> compare_names st cs h a b; if c < 0 then still_sorted st cs h (Some b) else Some False } })"

text \<open>The walk of two pointers, the second of which advances two steps at a time.\<close>

partial_function (option) find_middle :: "'f jheap \<Rightarrow> ptr \<Rightarrow> ptr \<Rightarrow> ptr option" where
  "find_middle h second current = (case current of None \<Rightarrow> Some second
   | Some a \<Rightarrow> do {
       s \<leftarrow> fetch h second;
       n \<leftarrow> h a;
       case jnext n of None \<Rightarrow> find_middle h (jnext s) None
       | Some b \<Rightarrow> do { n \<leftarrow> h b; find_middle h (jnext s) (jnext n) } })"

definition split_at :: "'f jheap \<Rightarrow> ptr \<Rightarrow> 'f jheap option" where
  "split_at h second = (case second of None \<Rightarrow> Some h
   | Some b \<Rightarrow> do {
       n \<leftarrow> h b;
       if jprev n = None then Some h
       else do { h \<leftarrow> put h (jprev n) (\<lambda>n. n\<lparr>jnext := None\<rparr>); put h (Some b) (\<lambda>n. n\<lparr>jprev := None\<rparr>) } })"

text \<open>\<open>result\<close> and its tail are null pointers until the first element is merged.\<close>

definition append_rest :: "'f jheap \<Rightarrow> ptr \<Rightarrow> ptr \<Rightarrow> 'f jheap option" where
  "append_rest h tail p = (if p = None then Some h
     else do { h \<leftarrow> put h tail (\<lambda>n. n\<lparr>jnext := p\<rparr>); put h p (\<lambda>n. n\<lparr>jprev := tail\<rparr>) })"

partial_function (option) merge_chains :: "byte list heap \<Rightarrow> bool \<Rightarrow> 'f jheap \<Rightarrow> ptr \<Rightarrow> ptr \<Rightarrow> ptr \<Rightarrow> ptr \<Rightarrow> (ptr \<times> 'f jheap) option" where
  "merge_chains st cs h first second result tail =
     (if first \<noteq> None \<and> second \<noteq> None then do {
        c \<leftarrow> compare_names st cs h (the first) (the second);
        let smaller = (if c < 0 then first else second);
        h \<leftarrow> (if result = None then Some h else append_rest h tail smaller);
        n \<leftarrow> fetch h smaller;
        if first = smaller then merge_chains st cs h (jnext n) second (if result = None then smaller else result) smaller
        else merge_chains st cs h first (jnext n) (if result = None then smaller else result) smaller }
      else if first \<noteq> None \<and> result = None then Some (first, h)
      else do {
        h \<leftarrow> append_rest h tail first;
        if second \<noteq> None \<and> result = None then Some (second, h)
        else do { h \<leftarrow> append_rest h tail second; Some (result, h) } })"

partial_function (option) sort_list :: "byte list heap \<Rightarrow> bool \<Rightarrow> 'f jheap \<Rightarrow> ptr \<Rightarrow> (ptr \<times> 'f jheap) option" where
  "sort_list st cs h list = (case list of None \<Rightarrow> Some (list, h)
   | Some a \<Rightarrow> do {
       n \<leftarrow> h a;
       if jnext n = None then Some (list, h)
       else do {
         ok \<leftarrow> still_sorted st cs h list;
         if ok then Some (list, h)
         else do {
           second \<leftarrow> find_middle h list list;
           h \<leftarrow> split_at h second;
           (first, h) \<leftarrow> sort_list st cs h list;
           (second, h) \<leftarrow> sort_list st cs h second;
           merge_chains st cs h first second None None } } })"

definition sort_object :: "'f jmem \<Rightarrow> ptr \<Rightarrow> bool \<Rightarrow> 'f jmem option" where
  "sort_object m object cs = (if object = None then Some m
   else do {
     n \<leftarrow> fetch (jnodes m) object;
     (c, h) \<leftarrow> sort_list (strs m) cs (jnodes m) (jchild n);
     h \<leftarrow> put h object (\<lambda>n. n\<lparr>jchild := c\<rparr>);
     Some (m\<lparr>jnodes := h\<rparr>) })"

definition cJSONUtils_SortObject :: "'f jmem \<Rightarrow> ptr \<Rightarrow> 'f jmem option" where
  "cJSONUtils_SortObject m object = sort_object m object False"

definition cJSONUtils_SortObjectCaseSensitive :: "'f jmem \<Rightarrow> ptr \<Rightarrow> 'f jmem option" where
  "cJSONUtils_SortObjectCaseSensitive m object = sort_object m object True"

subsection \<open>The order of the names\<close>

definition sort_key :: "bool \<Rightarrow> byte list \<Rightarrow> byte list" where
  "sort_key cs s = (if cs then s else map c_tolower s)"

lemma byte_positive: "(b :: byte) \<noteq> 0 \<Longrightarrow> 0 < uint b"
  using uint_0_iff [of b] uint_ge_0 [of b] by linarith

lemma c_strcmp_less: "0 \<notin> set s \<Longrightarrow> 0 \<notin> set t \<Longrightarrow> c_strcmp s t < 0 \<longleftrightarrow> s < t"
  by (induction s t rule: c_strcmp.induct) (auto simp: byte_positive not_less word_less_def uint_ge_0)

lemma ci_diff_less: "0 \<notin> set s \<Longrightarrow> 0 \<notin> set t \<Longrightarrow> ci_diff s t < 0 \<longleftrightarrow> map c_tolower s < map c_tolower t"
proof (induction s t rule: ci_diff.induct)
  case (3 b t)
  then have "0 < uint (c_tolower b)" using c_tolower_nonzero [of b] byte_positive [of "c_tolower b"] by (cases "c_tolower b = 0") auto
  then show ?case by simp
next
  case (4 a s b t)
  then show ?case by (auto simp: word_less_def)
qed (auto simp: not_less uint_ge_0)

lemma name_diff_less: "0 \<notin> set s \<Longrightarrow> 0 \<notin> set t \<Longrightarrow> name_diff cs s t < 0 \<longleftrightarrow> sort_key cs s < sort_key cs t"
  by (simp add: name_diff_def sort_key_def c_strcmp_less ci_diff_less)

text \<open>The nodes of a chain have names, which \<open>key\<close> gives.\<close>

definition named_by :: "byte list heap \<Rightarrow> (addr \<Rightarrow> byte list) \<Rightarrow> 'f jheap \<Rightarrow> addr set \<Rightarrow> bool" where
  "named_by st key h S \<longleftrightarrow> (\<forall>a \<in> S. \<exists>n q. data_of h a = Some n \<and> nname n = Some q \<and> st q = Some (key a) \<and> 0 \<notin> set (key a))"

definition moves :: "addr set \<Rightarrow> 'f jheap \<Rightarrow> 'f jheap \<Rightarrow> bool" where
  "moves S h h' \<longleftrightarrow> (\<forall>x. data_of h' x = data_of h x \<and> child_of h' x = child_of h x) \<and> (\<forall>x. x \<notin> S \<longrightarrow> links_of h' x = links_of h x)"

lemma sort_moves_refl [simp]: "moves S h h"
  by (simp add: moves_def)

lemma sort_moves_trans: "moves S h h' \<Longrightarrow> moves T h' h'' \<Longrightarrow> S \<union> T \<subseteq> U \<Longrightarrow> moves U h h''"
  unfolding moves_def by (metis Un_iff subsetD)

lemma moves_named: "moves S h h' \<Longrightarrow> named_by st key h' T = named_by st key h T"
  by (simp add: moves_def named_by_def)

lemma moves_seg: "moves S h h' \<Longrightarrow> set xs \<inter> S = {} \<Longrightarrow> seg h' p xs q = seg h p xs q"
  by (rule seg_frame) (auto simp: moves_def)

lemma data_ofD: "data_of h a = Some d \<Longrightarrow> \<exists>n. h a = Some n \<and> nname n = nname d"
  by (auto simp: data_of_def)

lemma compare_names_named:
  assumes "named_by st key h S" and "a \<in> S" and "b \<in> S"
  shows "\<exists>c. compare_names st cs h a b = Some c \<and> (c < 0 \<longleftrightarrow> sort_key cs (key a) < sort_key cs (key b))"
proof -
  obtain x p where x: "h a = Some x" "nname x = Some p" "st p = Some (key a)" "0 \<notin> set (key a)"
    using assms(1,2) unfolding named_by_def by (metis data_ofD)
  obtain y q where y: "h b = Some y" "nname y = Some q" "st q = Some (key b)" "0 \<notin> set (key b)"
    using assms(1,3) unfolding named_by_def by (metis data_ofD)
  have "compare_names st cs h a b = Some (if p = q then 0 else name_diff cs (key a) (key b))"
    using x y by (simp add: compare_names_def compare_strings_def)
  then show ?thesis using name_diff_less [OF x(4) y(4), of cs] x(3) y(3) by (cases "p = q") auto
qed

subsection \<open>The sort of a list\<close>

fun merge_lists :: "('a \<Rightarrow> 'b::linorder) \<Rightarrow> 'a list \<Rightarrow> 'a list \<Rightarrow> 'a list" where
  "merge_lists f (x # xs) (y # ys) = (if f x < f y then x # merge_lists f xs (y # ys) else y # merge_lists f (x # xs) ys)"
| "merge_lists f [] ys = ys"
| "merge_lists f xs [] = xs"

fun ascending :: "('a \<Rightarrow> 'b::linorder) \<Rightarrow> 'a list \<Rightarrow> bool" where
  "ascending f (x # y # xs) \<longleftrightarrow> f x < f y \<and> ascending f (y # xs)"
| "ascending f xs \<longleftrightarrow> True"

function sorted_chain :: "('a \<Rightarrow> 'b::linorder) \<Rightarrow> 'a list \<Rightarrow> 'a list" where
  "sorted_chain f xs = (if length xs \<le> 1 \<or> ascending f xs then xs
     else merge_lists f (sorted_chain f (take ((length xs + 1) div 2) xs)) (sorted_chain f (drop ((length xs + 1) div 2) xs)))"
  by pat_completeness auto
termination by (relation "measure (\<lambda>(f, xs). length xs)") auto

declare sorted_chain.simps [simp del]

lemma merge_lists_mset: "mset (merge_lists f xs ys) = mset xs + mset ys"
  by (induction f xs ys rule: merge_lists.induct) auto

lemma merge_lists_sorted: "sorted (map f xs) \<Longrightarrow> sorted (map f ys) \<Longrightarrow> sorted (map f (merge_lists f xs ys))"
proof (induction f xs ys rule: merge_lists.induct)
  case (1 f x xs y ys)
  have "set (merge_lists f us vs) = set us \<union> set vs" for us vs by (metis merge_lists_mset set_mset_mset set_mset_union)
  then show ?case using 1 by (auto simp: not_less less_le_trans)
qed auto

lemma ascending_sorted: "ascending f xs \<Longrightarrow> sorted (map f xs)"
proof (induction f xs rule: ascending.induct)
  case (1 f x y xs)
  then have "f x < f y" "sorted (map f (y # xs))" by simp_all
  then show ?case by (auto dest: order.strict_trans2)
qed simp_all

lemma sorted_chain_sorts: "mset (sorted_chain f xs) = mset xs \<and> sorted (map f (sorted_chain f xs))"
proof (induction f xs rule: sorted_chain.induct)
  case (1 f xs)
  show ?case
  proof (cases "length xs \<le> 1 \<or> ascending f xs")
    case True
    then have "sorted (map f xs)" using ascending_sorted [of f xs] by (cases xs) auto
    then show ?thesis using True by (subst (1 2) sorted_chain.simps) simp
  next
    case False
    then show ?thesis using 1 merge_lists_sorted
      by (subst (1 2) sorted_chain.simps) (auto simp: merge_lists_mset simp flip: mset_append)
  qed
qed


subsection \<open>What the loops do\<close>

lemma still_sorted_seg:
  assumes "seg h p xs None" and "named_by st key h (set xs)"
  shows "still_sorted st cs h (hd_ptr xs) = Some (ascending (sort_key cs \<circ> key) xs)"
  using assms
proof (induction xs arbitrary: p rule: induct_list012)
  case (3 a b xs)
  obtain n where n: "h a = Some n" "jnext n = Some b" using 3(3) by (auto dest!: links_ofD)
  obtain c where c: "compare_names st cs h a b = Some c" "c < 0 \<longleftrightarrow> sort_key cs (key a) < sort_key cs (key b)"
    using compare_names_named [OF 3(4), of a b cs] by auto
  have "still_sorted st cs h (hd_ptr (b # xs)) = Some (ascending (sort_key cs \<circ> key) (b # xs))"
    using 3(3,4) by (intro 3(2) [of "Some a"]) (auto simp: named_by_def)
  then show ?case using n c by (subst still_sorted.simps) simp
qed (subst still_sorted.simps, auto dest!: links_ofD)+

lemma find_middle_seg:
  assumes "seg h p xs None" and "seg h q ys None" and "(length ys + 1) div 2 \<le> length xs"
  shows "find_middle h (hd_ptr xs) (hd_ptr ys) = Some (hd_ptr (drop ((length ys + 1) div 2) xs))"
  using assms
proof (induction ys arbitrary: xs p q rule: induct_list012)
  case 1
  then show ?case by (subst find_middle.simps) simp
next
  case (2 y)
  then obtain x xs' where xs: "xs = x # xs'" by (cases xs) auto
  have "find_middle h p None = Some p" for p by (subst find_middle.simps) simp
  then show ?case using 2 xs by (subst find_middle.simps) (auto dest!: links_ofD)
next
  case (3 a b ys)
  then obtain x xs' where xs: "xs = x # xs'" by (cases xs) auto
  have "find_middle h (hd_ptr xs') (hd_ptr ys) = Some (hd_ptr (drop ((length ys + 1) div 2) xs'))"
    using 3(3-5) xs by (intro 3(1) [of "Some x" _ "Some b"]) auto
  then show ?case using 3(3,4) xs by (subst find_middle.simps) (auto dest!: links_ofD)
qed

lemma split_at_seg:
  assumes "seg h p (xs @ y # ys) None" and "xs \<noteq> []" and "distinct (xs @ y # ys)"
  shows "\<exists>h'. split_at h (Some y) = Some h' \<and> seg h' p xs None \<and> seg h' None (y # ys) None \<and> moves (set (xs @ y # ys)) h h'"
proof -
  obtain us x where xs: "xs = us @ [x]" using assms(2) by (metis rev_exhaust)
  obtain n m where n: "h y = Some n" "jprev n = Some x" and m: "h x = Some m" using assms(1) by (auto simp: xs dest!: links_ofD split: if_splits)
  then show ?thesis using assms(1,3) n m
    by (auto simp: split_at_def xs moves_def data_of_def child_of_def links_of_def dest!: links_ofD split: if_splits)
qed


lemma append_rest_seg:
  assumes "links_of h t = Some (pt, nx)" and "seg h px (x # xs) None" and "t \<notin> set (x # xs)" and "distinct (x # xs)"
  shows "\<exists>h'. append_rest h (Some t) (Some x) = Some h' \<and> links_of h' t = Some (pt, Some x) \<and> seg h' (Some t) (x # xs) None \<and> moves {t, x} h h'"
proof -
  obtain n m where "h t = Some n" "h x = Some m" using assms(1,2) by (auto dest!: links_ofD split: if_splits)
  then show ?thesis using assms
    by (auto simp: append_rest_def moves_def data_of_def child_of_def links_of_def split: if_splits)
qed

lemma merge_chains_seg:
  assumes "seg h p0 E (Some t)" and "links_of h t = Some (if E = [] then p0 else last_ptr E, nx)"
    and "seg h px xs None" and "seg h py ys None" and "distinct (E @ t # xs @ ys)" and "xs \<noteq> [] \<or> ys \<noteq> []"
    and "named_by st key h (set (xs @ ys))" and "r \<noteq> None"
  shows "\<exists>h'. merge_chains st cs h (hd_ptr xs) (hd_ptr ys) r (Some t) = Some (r, h') \<and>
    seg h' p0 (E @ t # merge_lists (sort_key cs \<circ> key) xs ys) None \<and> moves (set (t # xs @ ys)) h h'"
  using assms
proof (induction "sort_key cs \<circ> key" xs ys arbitrary: h E t nx px py rule: merge_lists.induct)
  case (1 x xs y ys)
  let ?f = "sort_key cs \<circ> key"
  obtain c where c: "compare_names st cs h x y = Some c" "c < 0 \<longleftrightarrow> ?f x < ?f y"
    using compare_names_named [OF 1(9), of x y cs] by auto
  have t: "t \<notin> set (x # xs)" "t \<notin> set (y # ys)" "distinct (x # xs)" "distinct (y # ys)" using 1(7) by auto
  show ?case
  proof (cases "?f x < ?f y")
    case True
    obtain h1 where h1: "append_rest h (Some t) (Some x) = Some h1" "links_of h1 t = Some (if E = [] then p0 else last_ptr E, Some x)"
        "seg h1 (Some t) (x # xs) None" "moves {t, x} h h1"
      using append_rest_seg [OF 1(4,5) t(1,3)] by blast
    have fr: "seg h1 p0 E (Some t)" "seg h1 py (y # ys) None"
      using 1(3,6,7) moves_seg [OF h1(4), of E p0 "Some t"] moves_seg [OF h1(4), of "y # ys" py None] by auto
    obtain n where n: "h1 x = Some n" "jnext n = hd_ptr xs" using h1(3) by (auto dest!: links_ofD)
    have "\<exists>h'. merge_chains st cs h1 (hd_ptr xs) (hd_ptr (y # ys)) r (Some x) = Some (r, h') \<and>
        seg h' p0 ((E @ [t]) @ x # merge_lists ?f xs (y # ys)) None \<and> moves (set (x # xs @ y # ys)) h1 h'"
    proof (rule 1(1) [OF True])
      show "seg h1 p0 (E @ [t]) (Some x)" using fr(1) h1(2) by simp
      show "links_of h1 x = Some (if E @ [t] = [] then p0 else last_ptr (E @ [t]), hd_ptr xs)" using h1(3) n by auto
      show "seg h1 (Some x) xs None" using h1(3) by simp
      show "named_by st key h1 (set (xs @ y # ys))" using 1(9) moves_named [OF h1(4)] by (auto simp: named_by_def)
    qed (use fr 1(7,10) in auto)
    then obtain h' where h': "merge_chains st cs h1 (hd_ptr xs) (hd_ptr (y # ys)) r (Some x) = Some (r, h')"
        "seg h' p0 ((E @ [t]) @ x # merge_lists ?f xs (y # ys)) None" "moves (set (x # xs @ y # ys)) h1 h'" by blast
    have "merge_chains st cs h (hd_ptr (x # xs)) (hd_ptr (y # ys)) r (Some t) = Some (r, h')"
      using True c h1(1) n h'(1) 1(10) by (subst merge_chains.simps) (cases r; simp add: Let_def)
    then show ?thesis using True h'(2) sort_moves_trans [OF h1(4) h'(3), of "set (t # (x # xs) @ y # ys)"] by auto
  next
    case False
    obtain h1 where h1: "append_rest h (Some t) (Some y) = Some h1" "links_of h1 t = Some (if E = [] then p0 else last_ptr E, Some y)"
        "seg h1 (Some t) (y # ys) None" "moves {t, y} h h1"
      using append_rest_seg [OF 1(4,6) t(2,4)] by blast
    have fr: "seg h1 p0 E (Some t)" "seg h1 px (x # xs) None"
      using 1(3,5,7) moves_seg [OF h1(4), of E p0 "Some t"] moves_seg [OF h1(4), of "x # xs" px None] by auto
    obtain n where n: "h1 y = Some n" "jnext n = hd_ptr ys" using h1(3) by (auto dest!: links_ofD)
    have "\<exists>h'. merge_chains st cs h1 (hd_ptr (x # xs)) (hd_ptr ys) r (Some y) = Some (r, h') \<and>
        seg h' p0 ((E @ [t]) @ y # merge_lists ?f (x # xs) ys) None \<and> moves (set (y # (x # xs) @ ys)) h1 h'"
    proof (rule 1(2) [OF False])
      show "seg h1 p0 (E @ [t]) (Some y)" using fr(1) h1(2) by simp
      show "links_of h1 y = Some (if E @ [t] = [] then p0 else last_ptr (E @ [t]), hd_ptr ys)" using h1(3) n by auto
      show "seg h1 (Some y) ys None" using h1(3) by simp
      show "named_by st key h1 (set ((x # xs) @ ys))" using 1(9) moves_named [OF h1(4)] by (auto simp: named_by_def)
    qed (use fr 1(7,10) in auto)
    then obtain h' where h': "merge_chains st cs h1 (hd_ptr (x # xs)) (hd_ptr ys) r (Some y) = Some (r, h')"
        "seg h' p0 ((E @ [t]) @ y # merge_lists ?f (x # xs) ys) None" "moves (set (y # (x # xs) @ ys)) h1 h'" by blast
    have "x \<noteq> y" using 1(7) by auto
    then have "merge_chains st cs h (hd_ptr (x # xs)) (hd_ptr (y # ys)) r (Some t) = Some (r, h')"
      using False c h1(1) n h'(1) 1(10) by (subst merge_chains.simps) (cases r; simp add: Let_def)
    then show ?thesis using False h'(2) sort_moves_trans [OF h1(4) h'(3), of "set (t # (x # xs) @ y # ys)"] by auto
  qed
next
  case (2 ys)
  then obtain y ys' where ys: "ys = y # ys'" by (cases ys) auto
  then have "seg h py (y # ys') None" "t \<notin> set (y # ys')" "distinct (y # ys')" using 2(4,5) by auto
  from append_rest_seg [OF 2(2) this] obtain h1 where h1: "append_rest h (Some t) (Some y) = Some h1"
      "links_of h1 t = Some (if E = [] then p0 else last_ptr E, Some y)" "seg h1 (Some t) (y # ys') None" "moves {t, y} h h1" by blast
  have "seg h1 p0 E (Some t)" using 2(1,5) ys moves_seg [OF h1(4), of E p0 "Some t"] by auto
  moreover have "merge_chains st cs h (hd_ptr []) (hd_ptr ys) r (Some t) = Some (r, h1)"
    using h1(1) 2(8) ys by (subst merge_chains.simps) (cases r; simp add: append_rest_def [of _ _ None])
  ultimately show ?case using h1(2,3,4) ys sort_moves_trans [OF h1(4) sort_moves_refl, of "{}" "set (t # [] @ ys)"] by auto
next
  case (3 x xs)
  have "t \<notin> set (x # xs)" "distinct (x # xs)" using 3(5) by auto
  from append_rest_seg [OF 3(2,3) this] obtain h1 where h1: "append_rest h (Some t) (Some x) = Some h1"
      "links_of h1 t = Some (if E = [] then p0 else last_ptr E, Some x)" "seg h1 (Some t) (x # xs) None" "moves {t, x} h h1" by blast
  have "seg h1 p0 E (Some t)" using 3(1,5) moves_seg [OF h1(4), of E p0 "Some t"] by auto
  moreover have "merge_chains st cs h (hd_ptr (x # xs)) (hd_ptr []) r (Some t) = Some (r, h1)"
    using h1(1) 3(8) by (subst merge_chains.simps) (cases r; simp add: append_rest_def [of _ _ None])
  ultimately show ?case using h1(2,3,4) sort_moves_trans [OF h1(4) sort_moves_refl, of "{}" "set (t # (x # xs) @ [])"] by auto
qed

text \<open>The first node of the result keeps the node it had before it.\<close>

lemma merge_chains_start:
  assumes "seg h px xs None" and "seg h py ys None" and "distinct (xs @ ys)" and "named_by st key h (set (xs @ ys))" and "xs \<noteq> []" and "ys \<noteq> []"
  shows "\<exists>h' q. merge_chains st cs h (hd_ptr xs) (hd_ptr ys) None None = Some (hd_ptr (merge_lists (sort_key cs \<circ> key) xs ys), h') \<and>
    seg h' q (merge_lists (sort_key cs \<circ> key) xs ys) None \<and> q \<in> {px, py} \<and> moves (set (xs @ ys)) h h'"
proof -
  let ?f = "sort_key cs \<circ> key"
  obtain x xs' y ys' where xy: "xs = x # xs'" "ys = y # ys'" using assms(5,6) by (cases xs; cases ys) auto
  obtain c where c: "compare_names st cs h x y = Some c" "c < 0 \<longleftrightarrow> ?f x < ?f y"
    using compare_names_named [OF assms(4), of x y cs] xy by auto
  obtain n m where n: "h x = Some n" "jnext n = hd_ptr xs'" "h y = Some m" "jnext m = hd_ptr ys'" using assms(1,2) xy by (auto dest!: links_ofD)
  show ?thesis
  proof (cases "?f x < ?f y")
    case True
    have "\<exists>h'. merge_chains st cs h (hd_ptr xs') (hd_ptr (y # ys')) (Some x) (Some x) = Some (Some x, h') \<and>
        seg h' px ([] @ x # merge_lists ?f xs' (y # ys')) None \<and> moves (set (x # xs' @ y # ys')) h h'"
      by (rule merge_chains_seg [where px = "Some x" and py = py and nx = "hd_ptr xs'"]) (use assms xy in \<open>auto simp: named_by_def split: if_splits\<close>)
    then show ?thesis using True c n xy by (subst merge_chains.simps) (auto simp: Let_def)
  next
    case False
    have "\<exists>h'. merge_chains st cs h (hd_ptr (x # xs')) (hd_ptr ys') (Some y) (Some y) = Some (Some y, h') \<and>
        seg h' py ([] @ y # merge_lists ?f (x # xs') ys') None \<and> moves (set (y # (x # xs') @ ys')) h h'"
      by (rule merge_chains_seg [where px = px and py = "Some y" and nx = "hd_ptr ys'"]) (use assms xy in \<open>auto simp: named_by_def split: if_splits\<close>)
    moreover have "x \<noteq> y" using assms(3) xy by auto
    moreover have "set (y # (x # xs') @ ys') = set (xs @ ys)" using xy by auto
    ultimately show ?thesis using False c n xy by (subst merge_chains.simps) (auto simp: Let_def)
  qed
qed


lemma sort_list_seg:
  assumes "seg h p xs None" and "distinct xs" and "named_by st key h (set xs)"
  shows "\<exists>h' q. sort_list st cs h (hd_ptr xs) = Some (hd_ptr (sorted_chain (sort_key cs \<circ> key) xs), h') \<and>
    seg h' q (sorted_chain (sort_key cs \<circ> key) xs) None \<and> (q = p \<or> q = None) \<and> moves (set xs) h h'"
  using assms
proof (induction "length xs" arbitrary: xs h p rule: less_induct)
  case less
  let ?f = "sort_key cs \<circ> key" and ?k = "(length xs + 1) div 2"
  show ?case
  proof (cases "length xs \<le> 1 \<or> ascending ?f xs")
    case True
    then have ys: "sorted_chain ?f xs = xs" by (simp add: sorted_chain.simps)
    have "sort_list st cs h (hd_ptr xs) = Some (hd_ptr xs, h)"
    proof (cases xs)
      case Nil
      then show ?thesis by (subst sort_list.simps) simp
    next
      case (Cons a as)
      then obtain n where n: "h a = Some n" "jnext n = hd_ptr as" using less.prems(1) by (auto dest!: links_ofD)
      then show ?thesis using Cons True still_sorted_seg [OF less.prems(1,3), of cs] by (subst sort_list.simps) (cases as; simp)
    qed
    then show ?thesis using ys less.prems(1) by auto
  next
    case False
    define us vs where uv: "us = take ?k xs" "vs = drop ?k xs"
    have xs: "xs = us @ vs" by (simp add: uv)
    have l: "length us < length xs" "length vs < length xs" "us \<noteq> []" "vs \<noteq> []" using False by (auto simp: uv)
    obtain a as where a: "xs = a # as" "as \<noteq> []" using False by (cases xs) auto
    obtain n where n: "h a = Some n" "jnext n = hd_ptr as" using less.prems(1) a by (auto dest!: links_ofD)
    have mid: "find_middle h (hd_ptr xs) (hd_ptr xs) = Some (hd_ptr vs)"
      using find_middle_seg [OF less.prems(1,1)] False by (simp add: uv)
    obtain y ys where y: "vs = y # ys" using l(4) by (cases vs) auto
    obtain h1 where h1: "split_at h (Some y) = Some h1" "seg h1 p us None" "seg h1 None vs None" "moves (set xs) h h1"
      using split_at_seg [of h p us y ys] less.prems(1,2) l(3) xs y by auto
    have nm: "named_by st key h1 (set us)" "named_by st key h1 (set vs)"
      using less.prems(3) moves_named [OF h1(4)] xs by (auto simp: named_by_def)
    have d: "distinct us" "distinct vs" "set us \<inter> set vs = {}" using less.prems(2) xs by auto
    obtain h2 q1 where h2: "sort_list st cs h1 (hd_ptr us) = Some (hd_ptr (sorted_chain ?f us), h2)"
        "seg h2 q1 (sorted_chain ?f us) None" "q1 = p \<or> q1 = None" "moves (set us) h1 h2"
      using less.hyps [OF l(1) h1(2) d(1) nm(1)] by blast
    have "seg h2 None vs None" using h1(3) moves_seg [OF h2(4), of vs None None] d(3) by auto
    moreover have "named_by st key h2 (set vs)" using nm(2) moves_named [OF h2(4)] by simp
    ultimately have h2': "seg h2 None vs None" "named_by st key h2 (set vs)" .
    from less.hyps [OF l(2) h2'(1) d(2) h2'(2)] obtain h3 q2 where h3: "sort_list st cs h2 (hd_ptr vs) = Some (hd_ptr (sorted_chain ?f vs), h3)"
        "seg h3 q2 (sorted_chain ?f vs) None" "q2 = None" "moves (set vs) h2 h3" by blast
    have ms: "mset (sorted_chain ?f us) = mset us" "mset (sorted_chain ?f vs) = mset vs" using sorted_chain_sorts by blast+
    have st: "set (sorted_chain ?f us) = set us" "set (sorted_chain ?f vs) = set vs" using ms by (metis set_mset_mset)+
    have "distinct (sorted_chain ?f us)" "distinct (sorted_chain ?f vs)" using d ms by (metis mset_eq_imp_distinct_iff)+
    then have dd: "distinct (sorted_chain ?f us @ sorted_chain ?f vs)" using st d(3) by simp
    have "seg h3 q1 (sorted_chain ?f us) None" using h2(2) moves_seg [OF h3(4), of "sorted_chain ?f us" q1 None] st d(3) by auto
    moreover have "named_by st key h3 (set (sorted_chain ?f us @ sorted_chain ?f vs))"
      using less.prems(3) moves_named [OF h1(4)] moves_named [OF h2(4)] moves_named [OF h3(4)] st xs by (simp add: named_by_def)
    moreover have "sorted_chain ?f us \<noteq> []" "sorted_chain ?f vs \<noteq> []" using l(3,4) ms by auto
    ultimately obtain h4 q where h4: "merge_chains st cs h3 (hd_ptr (sorted_chain ?f us)) (hd_ptr (sorted_chain ?f vs)) None None =
        Some (hd_ptr (merge_lists ?f (sorted_chain ?f us) (sorted_chain ?f vs)), h4)"
        "seg h4 q (merge_lists ?f (sorted_chain ?f us) (sorted_chain ?f vs)) None" "q \<in> {q1, q2}"
        "moves (set (sorted_chain ?f us @ sorted_chain ?f vs)) h3 h4"
      using merge_chains_start [OF _ h3(2) dd] by blast
    have sc: "sorted_chain ?f xs = merge_lists ?f (sorted_chain ?f us) (sorted_chain ?f vs)"
      using False by (subst sorted_chain.simps) (simp add: uv)
    have "sort_list st cs h (hd_ptr xs) = Some (hd_ptr (sorted_chain ?f xs), h4)"
    proof -
      have hu: "hd_ptr us = hd_ptr xs" using l(3) xs by simp
      have hx: "hd_ptr xs = Some a" "hd_ptr vs = Some y" using a y by simp_all
      have ss: "still_sorted st cs h (Some a) = Some False" using still_sorted_seg [OF less.prems(1,3), of cs] False hx(1) by simp
      show ?thesis unfolding sc
        using mid h1(1) h2(1) h3(1) h4(1) n a(2) ss unfolding hu hx by (subst sort_list.simps) simp
    qed
    moreover have "moves (set xs) h h4"
    proof -
      have "moves (set xs) h1 h3" using h2(4) h3(4) by (rule sort_moves_trans) (simp add: xs)
      then have "moves (set xs) h1 h4" using h4(4) by (rule sort_moves_trans) (simp add: xs st)
      with h1(4) show ?thesis by (rule sort_moves_trans) simp
    qed
    ultimately show ?thesis using h4(2,3) h2(3) h3(3) sc by auto
  qed
qed

lemma sort_object_result:
  fixes cs :: bool
  assumes "kids (jnodes m) a xs" and "named_by (strs m) key (jnodes m) (set xs)"
  defines "ys \<equiv> sorted_chain (sort_key cs \<circ> key) xs"
  shows "\<exists>m' q. sort_object m (Some a) cs = Some m' \<and> child_of (jnodes m') a = Some (hd_ptr ys) \<and> seg (jnodes m') q ys None \<and>
    (q = last_ptr xs \<or> q = None) \<and> strs m' = strs m \<and> relinks a (set xs) (jnodes m) (jnodes m')"
proof -
  obtain n where n: "jnodes m a = Some n" "jchild n = hd_ptr xs" using assms(1) by (auto simp: kids_def dest!: child_ofD)
  have "seg (jnodes m) (last_ptr xs) xs None" "distinct xs" "a \<notin> set xs" using assms(1) by (auto simp: kids_def chain_def)
  from sort_list_seg [OF this(1,2) assms(2), of cs] obtain h q where h: "sort_list (strs m) cs (jnodes m) (hd_ptr xs) = Some (hd_ptr ys, h)"
      "seg h q ys None" "q = last_ptr xs \<or> q = None" "moves (set xs) (jnodes m) h"
    unfolding ys_def by blast
  obtain k where k: "h a = Some k" using h(4) n(1) 
  proof -
    have "data_of h a = data_of (jnodes m) a" using h(4) by (simp add: moves_def)
    then show ?thesis using n(1) that by (cases "h a") (simp_all add: data_of_def)
  qed
  have "set ys = set xs" using sorted_chain_sorts [of "sort_key cs \<circ> key" xs] unfolding ys_def by (blast dest: mset_eq_setD)
  then have "a \<notin> set ys" using \<open>a \<notin> set xs\<close> by simp
  let ?h = "h(a \<mapsto> k\<lparr>jchild := hd_ptr ys\<rparr>)"
  have "links_of h a = links_of (jnodes m) a" using h(4) \<open>a \<notin> set xs\<close> by (simp add: moves_def)
  moreover have "data_of (jnodes m) a = Some (k\<lparr>jnext := None, jprev := None, jchild := None\<rparr>)"
    using h(4) k unfolding moves_def by (metis node_of(1))
  ultimately have "relinks a (set xs) (jnodes m) ?h" using h(4) k by (auto simp: relinks_def moves_def)
  moreover have "seg ?h q ys None" using h(2) \<open>a \<notin> set ys\<close> by simp
  moreover have "sort_object m (Some a) cs = Some (m\<lparr>jnodes := ?h\<rparr>)" using n h(1) k by (simp add: sort_object_def)
  ultimately show ?thesis using h(3) by (intro exI [of _ "m\<lparr>jnodes := ?h\<rparr>"] exI [of _ q]) simp
qed

text \<open>
  C40. \<open>sort_object\<close>, and with it \<open>cJSONUtils_SortObject\<close>, returns for every object whose members form a proper chain and all have names without a NUL,
  equal names included. It leaves the same members, now in the order of the bytes of their names, or of their names in lower case, and touches nothing but the links of the members
  and the pointer to the first one. But what the first one points back to is not the last one, as elsewhere: it is a null pointer, or the one that was last before.
\<close>

theorem sort_object_sorts:
  assumes "kids (jnodes m) a xs" and "named_by (strs m) key (jnodes m) (set xs)"
  shows "\<exists>m' ys q. sort_object m (Some a) cs = Some m' \<and> mset ys = mset xs \<and> sorted (map (sort_key cs \<circ> key) ys) \<and>
    child_of (jnodes m') a = Some (hd_ptr ys) \<and> seg (jnodes m') q ys None \<and> (q = last_ptr xs \<or> q = None) \<and>
    strs m' = strs m \<and> relinks a (set xs) (jnodes m) (jnodes m')"
  using sort_object_result [OF assms, of cs] sorted_chain_sorts [of "sort_key cs \<circ> key" xs] by blast

text \<open>An object with the members \<open>a\<close>, \<open>c\<close> and \<open>b\<close>, and an item that is not linked.\<close>

definition member_node :: "ptr \<Rightarrow> ptr \<Rightarrow> ptr \<Rightarrow> int jnode" where
  "member_node nx pv name = \<lparr>jnext = nx, jprev = pv, jchild = None, ntype = cJSON_NULL, nvalue = None, nint = 0, ndouble = 0, nname = name\<rparr>"

definition unsorted_mem :: "int jmem" where
  "unsorted_mem = \<lparr>jnodes = [1 \<mapsto> (member_node None None None)\<lparr>ntype := cJSON_Object, jchild := Some 2\<rparr>, 2 \<mapsto> member_node (Some 3) (Some 4) (Some 12),
      3 \<mapsto> member_node (Some 4) (Some 2) (Some 13), 4 \<mapsto> member_node None (Some 3) (Some 14), 5 \<mapsto> member_node None None None],
    strs = [12 \<mapsto> [97], 13 \<mapsto> [99], 14 \<mapsto> [98]], fresh = 20, left = 0\<rparr>"

definition unsorted_key :: "addr \<Rightarrow> byte list" where
  "unsorted_key a = (if a = 2 then [97] else if a = 3 then [99] else [98])"

lemma unsorted: "kids (jnodes unsorted_mem) 1 [2, 3, 4]" "named_by (strs unsorted_mem) unsorted_key (jnodes unsorted_mem) (set [2, 3, 4])"
  by (simp_all add: kids_def chain_def unsorted_mem_def member_node_def named_by_def unsorted_key_def)

theorem sort_object_sorts_witness:
  "\<exists>m' ys. sort_object unsorted_mem (Some 1) True = Some m' \<and> mset ys = mset [2, 3, 4] \<and> sorted (map (sort_key True \<circ> unsorted_key) ys)"
  using sort_object_sorts [OF unsorted, of True] by blast

lemma add_behind_stale:
  assumes "seg h (Some l) (us @ l # vs) None" and "h a = Some na" and "jchild na = hd_ptr (us @ l # vs)" and "distinct (a # x # us @ l # vs)"
    and "h x = Some nx" and "jnext nx = None"
  shows "\<exists>h'. add_item_to_array h (Some a) (Some x) = Some (True, h') \<and> child_of h' a = Some (hd_ptr (us @ [l, x])) \<and> seg h' (Some x) (us @ [l, x]) None"
proof (cases us)
  case Nil
  then show ?thesis using assms by (auto simp: add_item_to_array_def suffix_object_def dest!: links_ofD)
next
  case (Cons y us')
  obtain n m where n: "h y = Some n" "jprev n = Some l" and m: "h l = Some m" using assms(1) Cons by (auto dest!: links_ofD)
  have d: "a \<noteq> y" "a \<noteq> l" "x \<noteq> y" "x \<noteq> l" "y \<noteq> l" "a \<noteq> x" "y \<notin> set us'" "l \<notin> set us'" "x \<notin> set us'" using assms(4) Cons by auto
  have l: "links_of h l = Some (if us' = [] then Some y else last_ptr us', hd_ptr vs)" "seg h (Some y) us' (Some l)" "jnext n = (if us' = [] then Some l else hd_ptr us')"
    using assms(1) n Cons by (auto split: if_splits)
  let ?h = "h(l \<mapsto> m\<lparr>jnext := Some x\<rparr>, x \<mapsto> nx\<lparr>jprev := Some l\<rparr>, y \<mapsto> n\<lparr>jprev := Some x\<rparr>)"
  have "add_item_to_array h (Some a) (Some x) = Some (True, ?h)"
    using assms(2,3,5) Cons n m d by (simp add: add_item_to_array_def suffix_object_def)
  moreover have "child_of ?h a = Some (hd_ptr (us @ [l, x]))" using assms(2,3) Cons d by simp
  moreover have "seg ?h (Some x) (us @ [l, x]) None" using l m assms(6) Cons d by simp
  ultimately show ?thesis by blast
qed

text \<open>
  An object that was sorted is no longer good for adding members: if its last member was not the one with the greatest name,
  \<open>cJSON_AddItemToArray\<close>, which adds to objects too, returns true although the new member, or members that were there, cannot be reached any more.
\<close>

theorem sort_then_add_loses_members:
  assumes "kids (jnodes m) a xs" and "named_by (strs m) key (jnodes m) (set xs)"
    and "z \<in> set xs" and "sort_key cs (key (last xs)) < sort_key cs (key z)"
    and "jnodes m x = Some n" and "jnext n = None" and "x \<notin> set (a # xs)"
  shows "\<exists>m1 m2 zs q. sort_object m (Some a) cs = Some m1 \<and> cJSON_AddItemToArray m1 (Some a) (Some x) = Some (True, m2) \<and>
    child_of (jnodes m2) a = Some (hd_ptr zs) \<and> seg (jnodes m2) q zs None \<and> \<not> insert x (set xs) \<subseteq> set zs"
proof -
  let ?f = "sort_key cs \<circ> key"
  define ys where "ys = sorted_chain ?f xs"
  obtain m1 q where m1: "sort_object m (Some a) cs = Some m1" "child_of (jnodes m1) a = Some (hd_ptr ys)" "seg (jnodes m1) q ys None"
      "q = last_ptr xs \<or> q = None" "relinks a (set xs) (jnodes m) (jnodes m1)"
    using sort_object_result [OF assms(1,2), of cs] unfolding ys_def by blast
  have srt: "mset ys = mset xs" "sorted (map ?f ys)" using sorted_chain_sorts [of ?f xs] by (simp_all add: ys_def)
  then have st: "set ys = set xs" "distinct ys" using assms(1) mset_eq_imp_distinct_iff [of ys xs] by (auto simp: kids_def dest: mset_eq_setD)
  have ne: "ys \<noteq> []" using st assms(3) by auto
  obtain na where na: "jnodes m1 a = Some na" "jchild na = hd_ptr ys" using m1(2) by (auto dest!: child_ofD)
  obtain nx where nx: "jnodes m1 x = Some nx" "jnext nx = None"
    using assms(5-7) m1(5) by (auto simp: relinks_def links_of_def dest!: spec [of _ x])
  obtain y ys' where y: "ys = y # ys'" using ne by (cases ys) auto
  obtain ny where ny: "jnodes m1 y = Some ny" "jprev ny = q" using m1(3) y by (auto dest!: links_ofD)
  show ?thesis
  proof (cases q)
    case None
    have "cJSON_AddItemToArray m1 (Some a) (Some x) = Some (True, m1)"
      using na ny y None assms(7) by (simp add: cJSON_AddItemToArray_def on_nodes_def add_item_to_array_def)
    then show ?thesis using m1(1,2,3) st(1) assms(7) by (intro exI [of _ m1] exI [of _ ys] exI [of _ q]) auto
  next
    case (Some l)
    have xs: "xs \<noteq> []" using assms(3) by auto
    then have l: "l = last xs" "l \<in> set ys" using m1(4) Some st(1) by (auto simp: last_ptr_def)
    then obtain us vs where ys: "ys = us @ l # vs" by (auto dest: split_list)
    have "vs \<noteq> []"
    proof
      assume "vs = []"
      then have "?f w \<le> ?f l" if "w \<in> set ys" for w using srt(2) that ys by (auto simp: sorted_append)
      then show False using assms(3,4) st(1) l(1) by (metis comp_apply not_le)
    qed
    then obtain v vs' where v: "vs = v # vs'" by (cases vs) auto
    have "distinct (a # x # us @ l # vs)" using assms(1,7) st ys by (auto simp: kids_def)
    from add_behind_stale [OF _ na(1) _ this nx] have "\<exists>h'. add_item_to_array (jnodes m1) (Some a) (Some x) = Some (True, h') \<and>
        child_of h' a = Some (hd_ptr (us @ [l, x])) \<and> seg h' (Some x) (us @ [l, x]) None"
      using na(2) m1(3) Some ys by simp
    then obtain h' where h': "add_item_to_array (jnodes m1) (Some a) (Some x) = Some (True, h')" "child_of h' a = Some (hd_ptr (us @ [l, x]))"
        "seg h' (Some x) (us @ [l, x]) None" by blast
    have "v \<notin> set (us @ [l, x])" "v \<in> set xs" using st ys v assms(7) by auto
    then show ?thesis using m1(1) h'
      by (intro exI [of _ m1] exI [of _ "m1\<lparr>jnodes := h'\<rparr>"] exI [of _ "us @ [l, x]"] exI [of _ "Some x"]) (auto simp: cJSON_AddItemToArray_def on_nodes_def)
  qed
qed

theorem sort_then_add_loses_members_witness:
  "\<exists>m1 m2 zs q. sort_object unsorted_mem (Some 1) True = Some m1 \<and> cJSON_AddItemToArray m1 (Some 1) (Some 5) = Some (True, m2) \<and>
    child_of (jnodes m2) 1 = Some (hd_ptr zs) \<and> seg (jnodes m2) q zs None \<and> \<not> {5, 2, 3, 4} \<subseteq> set zs"
proof -
  have "sort_key True (unsorted_key (last [2, 3, 4])) < sort_key True (unsorted_key 3)" by (simp add: sort_key_def unsorted_key_def)
  moreover have "jnodes unsorted_mem 5 = Some (member_node None None None)" "jnext (member_node None None None) = None"
    by (simp_all add: unsorted_mem_def member_node_def)
  ultimately show ?thesis using sort_then_add_loses_members [OF unsorted, of 3 True 5] by simp
qed

end
