(* ===== verification/JsonMergePatch.thy ===== *)
theory JsonMergePatch
  imports JsonCompare
begin

section \<open>JSON merge patch\<close>

text \<open>
  \<open>merge_patch\<close> of \<open>json/mkey_str2j/cJSON_Utils.c\<close> on item values, and that it computes what RFC 7396 asks for. Links and
  freeing are left to the trees in memory; each function takes and returns the number of allocations that will succeed.
\<close>

subsection \<open>Copies, and members by name\<close>

text \<open>\<open>cJSON_Duplicate\<close> with the children.\<close>

definition copy_text :: "nat \<Rightarrow> byte list option \<Rightarrow> byte list option option \<times> nat" where
  "copy_text mem s = (case s of None \<Rightarrow> (Some None, mem)
   | Some t \<Rightarrow> (case alloc mem of None \<Rightarrow> (None, mem) | Some mem \<Rightarrow> (Some (Some t), mem)))"

fun copy_item :: "nat \<Rightarrow> 'f cJSON \<Rightarrow> 'f cJSON option \<times> nat"
  and copy_items :: "nat \<Rightarrow> 'f cJSON list \<Rightarrow> 'f cJSON list option \<times> nat" where
  "copy_item mem (Item d xs) = (case alloc mem of None \<Rightarrow> (None, mem)
   | Some mem \<Rightarrow> (case copy_text mem (valuestring d) of (None, mem) \<Rightarrow> (None, mem)
     | (Some v, mem) \<Rightarrow> (case (if jtype d AND cJSON_StringIsConst \<noteq> 0 then (Some (jstring d), mem) else copy_text mem (jstring d)) of (None, mem) \<Rightarrow> (None, mem)
       | (Some s, mem) \<Rightarrow> (case copy_items mem xs of (None, mem) \<Rightarrow> (None, mem)
         | (Some ys, mem) \<Rightarrow> (Some (Item (d\<lparr>jtype := jtype d AND NOT cJSON_IsReference, valuestring := v, jstring := s\<rparr>) ys), mem)))))"
| "copy_items mem [] = (Some [], mem)"
| "copy_items mem (x # xs) = (case copy_item mem x of (None, mem) \<Rightarrow> (None, mem)
   | (Some y, mem) \<Rightarrow> (case copy_items mem xs of (None, mem) \<Rightarrow> (None, mem) | (Some ys, mem) \<Rightarrow> (Some (y # ys), mem)))"

text \<open>The member that the search finds, and the others.\<close>

fun take_named :: "bool \<Rightarrow> byte list \<Rightarrow> 'f cJSON list \<Rightarrow> 'f cJSON option \<times> 'f cJSON list" where
  "take_named cs s [] = (None, [])"
| "take_named cs s (x # xs) = (case jstring (item x) of
     None \<Rightarrow> if cs then (None, x # xs) else map_prod id ((#) x) (take_named cs s xs)
   | Some t \<Rightarrow> if same_name cs s t then (Some x, xs) else map_prod id ((#) x) (take_named cs s xs))"

definition detach_named :: "bool \<Rightarrow> byte list option \<Rightarrow> 'f cJSON option \<Rightarrow> 'f cJSON option \<times> 'f cJSON option" where
  "detach_named cs name obj = (case (obj, name) of
     (Some t, Some s) \<Rightarrow> (let (r, xs) = take_named cs s (child t) in (r, Some (Item (item t) xs)))
   | _ \<Rightarrow> (None, obj))"

text \<open>\<open>cJSON_AddItemToObject\<close>, whose result is not looked at: without an object, a name or memory for the name nothing is added.\<close>

definition put_member :: "nat \<Rightarrow> 'f cJSON option \<Rightarrow> byte list option \<Rightarrow> 'f cJSON \<Rightarrow> 'f cJSON option \<times> nat" where
  "put_member mem obj name x = (case (obj, name) of
     (Some t, Some s) \<Rightarrow> (case alloc mem of None \<Rightarrow> (obj, mem)
       | Some mem \<Rightarrow> (Some (Item (item t) (child t @ [Item ((item x)\<lparr>jtype := jtype (item x) AND NOT cJSON_StringIsConst, jstring := Some s\<rparr>) (child x)])), mem))
   | _ \<Rightarrow> (obj, mem))"

subsection \<open>The merge\<close>

fun merge_patch :: "('f, 'a) float_ops_scheme \<Rightarrow> bool \<Rightarrow> nat \<Rightarrow> 'f cJSON option \<Rightarrow> 'f cJSON \<Rightarrow> 'f cJSON option \<times> nat"
  and merge_members :: "('f, 'a) float_ops_scheme \<Rightarrow> bool \<Rightarrow> nat \<Rightarrow> 'f cJSON option \<Rightarrow> 'f cJSON list \<Rightarrow> 'f cJSON option \<times> nat" where
  "merge_patch fo cs mem target (Item d ps) =
     (if \<not> cJSON_IsObject (Some d) then copy_item mem (Item d ps)
      else (let (target, mem) = (if cJSON_IsObject (map_option item target) then (target, mem) else cJSON_CreateObject fo mem)
        in merge_members fo cs mem target ps))"
| "merge_members fo cs mem target [] = (target, mem)"
| "merge_members fo cs mem target (p # ps) =
     (if cJSON_IsNull (Some (item p)) then merge_members fo cs mem (snd (detach_named cs (jstring (item p)) target)) ps
      else (let (old, target) = detach_named cs (jstring (item p)) target in
        (case merge_patch fo cs mem old p of (None, mem) \<Rightarrow> (None, mem)
         | (Some r, mem) \<Rightarrow> (let (target, mem) = put_member mem target (jstring (item p)) r in merge_members fo cs mem target ps))))"

definition cJSONUtils_MergePatch :: "('f, 'a) float_ops_scheme \<Rightarrow> nat \<Rightarrow> 'f cJSON option \<Rightarrow> 'f cJSON \<Rightarrow> 'f cJSON option \<times> nat" where
  "cJSONUtils_MergePatch fo mem target patch = merge_patch fo False mem target patch"

definition cJSONUtils_MergePatchCaseSensitive :: "('f, 'a) float_ops_scheme \<Rightarrow> nat \<Rightarrow> 'f cJSON option \<Rightarrow> 'f cJSON \<Rightarrow> 'f cJSON option \<times> nat" where
  "cJSONUtils_MergePatchCaseSensitive fo mem target patch = merge_patch fo True mem target patch"

subsection \<open>RFC 7396\<close>

text \<open>
  What a patch means: an object is a map from names, up to case if case does not count; of anything else only the name it is
  stored under is left out.
\<close>

datatype 'f jval = JObj "byte list \<Rightarrow> 'f jval option" | JOther "'f cJSON"

definition is_null :: "'f jval \<Rightarrow> bool" where
  "is_null v \<longleftrightarrow> (case v of JObj _ \<Rightarrow> False | JOther x \<Rightarrow> type_of (item x) = cJSON_NULL)"

definition value_in :: "('f jval \<times> 'f jval) set" where
  "value_in = {(p, JObj pm) | p pm. p \<in> ran pm}"

lemma wf_value_in: "wf (value_in :: ('f jval \<times> 'f jval) set)"
proof (rule wfUNIVI)
  fix P :: "'f jval \<Rightarrow> bool" and v :: "'f jval"
  assume step: "\<forall>x. (\<forall>y. (y, x) \<in> value_in \<longrightarrow> P y) \<longrightarrow> P x"
  show "P v"
  proof (induction v)
    case (JObj pm)
    have "P p" if p: "p \<in> ran pm" for p
    proof -
      obtain k where k: "pm k = Some p" using p unfolding ran_def by blast
      then have "Some p \<in> range pm" by (metis rangeI)
      then show ?thesis by (intro JObj [of "Some p" p]) simp_all
    qed
    then show ?case by - (rule step [rule_format], auto simp: value_in_def)
  qed (rule step [rule_format], simp add: value_in_def)
qed

function rfc_merge :: "'f jval \<Rightarrow> 'f jval option \<Rightarrow> 'f jval" where
  "rfc_merge (JOther x) target = JOther x"
| "rfc_merge (JObj pm) target = JObj (\<lambda>k.
     let old = (case target of Some (JObj tm) \<Rightarrow> tm k | _ \<Rightarrow> None) in
     case pm k of None \<Rightarrow> old | Some p \<Rightarrow> if is_null p then None else Some (rfc_merge p old))"
  by pat_completeness auto
termination
  by (relation "inv_image value_in fst", rule wf_inv_image [OF wf_value_in]) (auto simp: value_in_def ran_def)

definition name_key :: "bool \<Rightarrow> 'f cJSON \<Rightarrow> byte list" where
  "name_key cs x = (if cs then the (jstring (item x)) else map c_tolower (the (jstring (item x))))"

fun meaning :: "bool \<Rightarrow> 'f cJSON \<Rightarrow> 'f jval" where
  "meaning cs (Item d xs) =
     (if type_of d = cJSON_Object then JObj (map_of (map (\<lambda>x. (name_key cs x, meaning cs x)) xs))
      else JOther (Item (d\<lparr>jstring := None\<rparr>) xs))"

definition members_map :: "bool \<Rightarrow> 'f cJSON list \<Rightarrow> byte list \<Rightarrow> 'f jval option" where
  "members_map cs xs = map_of (map (\<lambda>x. (name_key cs x, meaning cs x)) xs)"

text \<open>Items that own what they point to, in which the members of an object have names, no two the same.\<close>

definition has_name :: "'f cJSON \<Rightarrow> bool" where
  "has_name x \<longleftrightarrow> (case jstring (item x) of None \<Rightarrow> False | Some s \<Rightarrow> 0 \<notin> set s)"

fun tidy :: "bool \<Rightarrow> 'f cJSON \<Rightarrow> bool" where
  "tidy cs (Item d xs) \<longleftrightarrow> jtype d = type_of d \<and>
     (type_of d = cJSON_Object \<longrightarrow> list_all has_name xs \<and> distinct (map (name_key cs) xs)) \<and> list_all (tidy cs) xs"

text \<open>More allocations than are ever made for a patch.\<close>

fun patch_room :: "'f cJSON \<Rightarrow> nat" where
  "patch_room (Item d xs) = 3 + sum_list (map (\<lambda>x. 1 + patch_room x) xs)"

lemma flags_masked: "jtype d = type_of d \<Longrightarrow> jtype d AND cJSON_StringIsConst = 0 \<and> jtype d AND NOT cJSON_IsReference = jtype d \<and> jtype d AND NOT cJSON_StringIsConst = jtype d"
proof -
  assume "jtype d = type_of d"
  then have t: "jtype d = jtype d AND 255" by (simp add: type_of_def)
  have "(jtype d AND 255) AND 512 = 0" "(jtype d AND 255) AND NOT 256 = jtype d AND 255" "(jtype d AND 255) AND NOT 512 = jtype d AND 255"
    by (simp_all add: and.assoc)
  then show ?thesis unfolding json_types using t by metis
qed

lemma copy_text_room: "1 \<le> mem \<Longrightarrow> \<exists>mem'. copy_text mem s = (Some s, mem') \<and> mem \<le> mem' + 1"
  by (cases s) (auto simp: copy_text_def alloc_def)

lemma copy_item_tidy:
  fixes x :: "'f cJSON"
  shows "tidy cs x \<Longrightarrow> patch_room x \<le> mem \<Longrightarrow> \<exists>mem'. copy_item mem x = (Some x, mem') \<and> mem \<le> mem' + patch_room x"
    and "list_all (tidy cs) xs \<Longrightarrow> sum_list (map (\<lambda>x. 1 + patch_room x) xs) \<le> mem \<Longrightarrow>
      \<exists>mem'. copy_items mem xs = (Some (xs :: 'f cJSON list), mem') \<and> mem \<le> mem' + sum_list (map (\<lambda>x. 1 + patch_room x) xs)"
proof (induction mem x and mem xs rule: copy_item_copy_items.induct)
  case (1 mem d xs)
  have f: "jtype d AND cJSON_StringIsConst = 0" "jtype d AND NOT cJSON_IsReference = jtype d" using flags_masked [of d] 1 by auto
  have a: "alloc mem = Some (mem - 1)" using 1 by (auto simp: alloc_def)
  obtain m1 where m1: "copy_text (mem - 1) (valuestring d) = (Some (valuestring d), m1)" "mem - 1 \<le> m1 + 1" using copy_text_room [of "mem - 1"] 1 by fastforce
  obtain m2 where m2: "copy_text m1 (jstring d) = (Some (jstring d), m2)" "m1 \<le> m2 + 1" using copy_text_room [of m1] m1(2) 1 by fastforce
  have l: "sum_list (map (\<lambda>x. 1 + patch_room x) xs) \<le> m2" using m1(2) m2(2) 1 by simp
  obtain m3 where m3: "copy_items m2 xs = (Some xs, m3)" "m2 \<le> m3 + sum_list (map (\<lambda>x. 1 + patch_room x) xs)"
    using 1(1) [OF a m1(1) [symmetric] refl, of "Some (jstring d)" m2 "jstring d"] f m2(1) l 1(2) by auto
  show ?case using a m1 m2 m3 f by simp
next
  case (3 mem x xs)
  obtain m1 where m1: "copy_item mem x = (Some x, m1)" "mem \<le> m1 + patch_room x" using 3 by auto
  then obtain m2 where "copy_items m1 xs = (Some xs, m2)" "m1 \<le> m2 + sum_list (map (\<lambda>x. 1 + patch_room x) xs)" using 3 by fastforce
  then show ?case using m1 by simp
qed simp

subsection \<open>Members as a map\<close>

lemma members_map_simps [simp]:
  "members_map cs [] = Map.empty" "members_map cs (x # xs) = (members_map cs xs)(name_key cs x \<mapsto> meaning cs x)"
  by (simp_all add: members_map_def)

lemma meaning_object: "type_of d = cJSON_Object \<Longrightarrow> meaning cs (Item d xs) = JObj (members_map cs xs)"
  by (simp add: members_map_def)

lemma members_map_append: "members_map cs (xs @ ys) = members_map cs ys ++ members_map cs xs"
  by (simp add: members_map_def)

lemma dom_members_map: "dom (members_map cs xs) = set (map (name_key cs) xs)"
  by (simp add: members_map_def dom_map_of_conv_image_fst image_image)

lemma same_name_key:
  assumes "0 \<notin> set s" and "has_name x" and "jstring (item x) = Some t"
  shows "same_name cs s t \<longleftrightarrow> (if cs then s else map c_tolower s) = name_key cs x"
  using assms by (auto simp: same_name_def name_key_def has_name_def case_insensitive_strcmp_eq_0)

lemma take_named_map:
  assumes "list_all has_name xs" and "distinct (map (name_key cs) xs)" and "0 \<notin> set s"
  defines "k \<equiv> (if cs then s else map c_tolower s)"
  shows "case take_named cs s xs of (r, ys) \<Rightarrow> map_option (meaning cs) r = members_map cs xs k \<and> (case r of None \<Rightarrow> True | Some x \<Rightarrow> x \<in> set xs) \<and>
    members_map cs ys = (members_map cs xs)(k := None) \<and> set ys \<subseteq> set xs \<and> distinct (map (name_key cs) ys) \<and> k \<notin> set (map (name_key cs) ys)"
  using assms(1,2)
proof (induction xs)
  case (Cons x xs)
  obtain t where t: "jstring (item x) = Some t" using Cons.prems(1) by (auto simp: has_name_def split: option.splits)
  have sn: "same_name cs s t \<longleftrightarrow> k = name_key cs x" using same_name_key [OF assms(3) _ t, of cs] Cons.prems(1) unfolding k_def by simp
  show ?case
  proof (cases "k = name_key cs x")
    case True
    have "members_map cs xs k = None" using Cons.prems(2) True dom_members_map [of cs xs] by (metis distinct.simps(2) domIff list.simps(9))
    then show ?thesis using True sn t Cons.prems by (auto simp: fun_upd_idem)
  next
    case False
    obtain r ys where r: "take_named cs s xs = (r, ys)" by (metis prod.exhaust)
    then show ?thesis using False sn t Cons by (auto simp: fun_upd_twist split: option.splits)
  qed
qed (simp add: k_def)

subsection \<open>The merge does what the RFC says\<close>

lemma put_member_map:
  assumes "1 \<le> mem" and "tidy cs (Item d xs)" and "type_of d = cJSON_Object" and "0 \<notin> set s" and "tidy cs r"
    and "(if cs then s else map c_tolower s) = k" and "k \<notin> set (map (name_key cs) xs)"
  shows "\<exists>ys. put_member mem (Some (Item d xs)) (Some s) r = (Some (Item d ys), mem - 1) \<and> tidy cs (Item d ys) \<and>
    members_map cs ys = (members_map cs xs)(k \<mapsto> meaning cs r)"
proof -
  obtain e zs where r: "r = Item e zs" by (cases r)
  define r' where "r' = Item (e\<lparr>jtype := jtype e AND NOT cJSON_StringIsConst, jstring := Some s\<rparr>) zs"
  have e: "jtype e AND NOT cJSON_StringIsConst = jtype e" using flags_masked [of e] assms(5) r by simp
  have ty: "type_of (e\<lparr>jtype := jtype e, jstring := Some s\<rparr>) = type_of e" by (simp add: type_of_def)
  have m: "meaning cs r' = meaning cs r" "tidy cs r'" "has_name r'" "name_key cs r' = k"
    using assms(4,5,6) e ty by (auto simp: r r'_def has_name_def name_key_def)
  have p: "put_member mem (Some (Item d xs)) (Some s) r = (Some (Item d (xs @ [r'])), mem - 1)"
    using assms(1) by (simp add: put_member_def alloc_def r r'_def)
  have "members_map cs xs k = None" using assms(7) dom_members_map [of cs xs] by (metis domIff)
  then have "members_map cs (xs @ [r']) = (members_map cs xs)(k \<mapsto> meaning cs r)"
    using m by (auto simp: members_map_append map_add_def fun_eq_iff split: option.splits)
  moreover have "tidy cs (Item d (xs @ [r']))" using assms(2,3,7) m by auto
  ultimately show ?thesis using p by blast
qed

definition members_of :: "'f jval option \<Rightarrow> byte list \<Rightarrow> 'f jval option" where
  "members_of v = (case v of Some (JObj m) \<Rightarrow> m | _ \<Rightarrow> Map.empty)"

definition merged :: "(byte list \<Rightarrow> 'f jval option) \<Rightarrow> (byte list \<Rightarrow> 'f jval option) \<Rightarrow> byte list \<Rightarrow> 'f jval option" where
  "merged pm tm = (\<lambda>k. case pm k of None \<Rightarrow> tm k | Some p \<Rightarrow> if is_null p then None else Some (rfc_merge p (tm k)))"

lemma rfc_merge_object: "rfc_merge (JObj pm) v = JObj (merged pm (members_of v))"
  by (auto simp: merged_def members_of_def Let_def fun_eq_iff split: option.splits jval.splits)

lemma meaning_null: "is_null (meaning cs p) \<longleftrightarrow> cJSON_IsNull (Some (item p))"
  by (cases p) (simp add: is_null_def cJSON_IsNull_def has_type_def json_types type_of_def)

lemma detach_named_map:
  assumes "tidy cs (Item d xs)" and "type_of d = cJSON_Object" and "has_name p"
  shows "\<exists>r ys. detach_named cs (jstring (item p)) (Some (Item d xs)) = (r, Some (Item d ys)) \<and> pred_option (tidy cs) r \<and>
    map_option (meaning cs) r = members_map cs xs (name_key cs p) \<and> tidy cs (Item d ys) \<and>
    members_map cs ys = (members_map cs xs)(name_key cs p := None) \<and> name_key cs p \<notin> set (map (name_key cs) ys)"
proof -
  obtain s where s: "jstring (item p) = Some s" "0 \<notin> set s" using assms(3) by (auto simp: has_name_def split: option.splits)
  have k: "(if cs then s else map c_tolower s) = name_key cs p" by (simp add: name_key_def s)
  obtain r ys where t: "take_named cs s xs = (r, ys)" by fastforce
  have xs: "list_all has_name xs" "distinct (map (name_key cs) xs)" "list_all (tidy cs) xs" "jtype d = type_of d" using assms(1,2) by simp_all
  note m = take_named_map [OF xs(1,2) s(2), unfolded t prod.case k]
  have "tidy cs (Item d ys)" using m xs by (auto simp: list_all_iff)
  moreover have "pred_option (tidy cs) r" using m xs(3) by (cases r) (auto simp: list_all_iff)
  ultimately show ?thesis using m t by (auto simp: detach_named_def s(1))
qed

lemma merged_Cons:
  assumes "name_key cs p \<notin> set (map (name_key cs) ps)"
  shows "is_null (meaning cs p) \<Longrightarrow> merged (members_map cs (p # ps)) tm = merged (members_map cs ps) (tm(name_key cs p := None))"
    and "\<not> is_null (meaning cs p) \<Longrightarrow> merged (members_map cs (p # ps)) tm =
      merged (members_map cs ps) (tm(name_key cs p \<mapsto> rfc_merge (meaning cs p) (tm (name_key cs p))))"
proof -
  have n: "members_map cs ps (name_key cs p) = None" using assms dom_members_map [of cs ps] by (metis domIff)
  have "merged (members_map cs (p # ps)) tm x = merged (members_map cs ps) (tm(name_key cs p := None)) x" if "is_null (meaning cs p)" for x
    using that n by (cases "x = name_key cs p"; cases "members_map cs ps x") (simp_all add: merged_def)
  then show "is_null (meaning cs p) \<Longrightarrow> merged (members_map cs (p # ps)) tm = merged (members_map cs ps) (tm(name_key cs p := None))"
    by blast
  have "merged (members_map cs (p # ps)) tm x =
      merged (members_map cs ps) (tm(name_key cs p \<mapsto> rfc_merge (meaning cs p) (tm (name_key cs p)))) x" if "\<not> is_null (meaning cs p)" for x
    using that n by (cases "x = name_key cs p"; cases "members_map cs ps x") (simp_all add: merged_def)
  then show "\<not> is_null (meaning cs p) \<Longrightarrow> merged (members_map cs (p # ps)) tm =
      merged (members_map cs ps) (tm(name_key cs p \<mapsto> rfc_merge (meaning cs p) (tm (name_key cs p))))"
    by blast
qed

lemma target_object:
  assumes "pred_option (tidy cs) target" and "1 \<le> mem"
  shows "\<exists>d xs mem'. (if cJSON_IsObject (map_option item target) then (target, mem) else cJSON_CreateObject fo mem) = (Some (Item d xs), mem') \<and>
    mem \<le> mem' + 1 \<and> tidy cs (Item d xs) \<and> type_of d = cJSON_Object \<and> members_map cs xs = members_of (map_option (meaning cs) target)"
proof (cases "cJSON_IsObject (map_option item target)")
  case True
  then obtain d xs where t: "target = Some (Item d xs)" "type_of d = cJSON_Object"
    by (cases target; cases "the target") (auto simp: cJSON_IsObject_def has_type_def type_of_def)
  then show ?thesis using True assms(1) by (auto simp: members_of_def members_map_def)
next
  case False
  have "type_of ((cJSON_New_Item fo)\<lparr>jtype := cJSON_Object\<rparr>) = cJSON_Object" by (simp add: type_of_def json_types)
  moreover have "members_of (map_option (meaning cs) target) = Map.empty"
    using False by (cases target; cases "the target") (auto simp: members_of_def cJSON_IsObject_def has_type_def type_of_def)
  ultimately show ?thesis using False assms(2) by (auto simp: cJSON_CreateObject_def create_def alloc_def)
qed

lemma merge_members_rfc:
  fixes p :: "'f cJSON"
  shows "tidy cs p \<Longrightarrow> pred_option (tidy cs) target \<Longrightarrow> patch_room p \<le> mem \<Longrightarrow>
      \<exists>r mem'. merge_patch fo cs mem target p = (Some r, mem') \<and> mem \<le> mem' + patch_room p \<and> tidy cs r \<and>
        meaning cs r = rfc_merge (meaning cs p) (map_option (meaning cs) target)"
    and "list_all (tidy cs) ps \<Longrightarrow> list_all has_name ps \<Longrightarrow> distinct (map (name_key cs) ps) \<Longrightarrow>
      target = Some (Item d xs) \<Longrightarrow> tidy cs (Item d xs) \<Longrightarrow> type_of d = cJSON_Object \<Longrightarrow> sum_list (map (\<lambda>x. 1 + patch_room x) ps) \<le> mem \<Longrightarrow>
      \<exists>ys mem'. merge_members fo cs mem target ps = (Some (Item d ys), mem') \<and> mem \<le> mem' + sum_list (map (\<lambda>x. 1 + patch_room x) ps) \<and>
        tidy cs (Item d ys) \<and> members_map cs ys = merged (members_map cs ps) (members_map cs xs)"
proof (induction fo cs mem target p and fo cs mem target ps arbitrary: and d xs rule: merge_patch_merge_members.induct)
  case (1 fo cs mem target e ps)
  show ?case
  proof (cases "type_of e = cJSON_Object")
    case False
    then have "merge_patch fo cs mem target (Item e ps) = copy_item mem (Item e ps)" by (simp add: cJSON_IsObject_def has_type_def)
    then show ?thesis using copy_item_tidy(1) [OF 1(2,4)] 1(2) False by auto
  next
    case True
    then have ob: "cJSON_IsObject (Some e)" by (simp add: cJSON_IsObject_def has_type_def)
    have ps: "list_all (tidy cs) ps" "list_all has_name ps" "distinct (map (name_key cs) ps)" using 1(2) True by simp_all
    obtain d xs m1 where t: "(if cJSON_IsObject (map_option item target) then (target, mem) else cJSON_CreateObject fo mem) = (Some (Item d xs), m1)"
      "mem \<le> m1 + 1" "tidy cs (Item d xs)" "type_of d = cJSON_Object" "members_map cs xs = members_of (map_option (meaning cs) target)"
      using target_object [of cs target mem fo] 1(3,4) by auto
    have "sum_list (map (\<lambda>x. 1 + patch_room x) ps) \<le> m1" using 1(4) t(2) by simp
    from 1(1) [OF _ t(1) [symmetric] refl ps refl t(3,4) this] ob
    obtain ys m2 where ys: "merge_members fo cs m1 (Some (Item d xs)) ps = (Some (Item d ys), m2)" "m1 \<le> m2 + sum_list (map (\<lambda>x. 1 + patch_room x) ps)"
      "tidy cs (Item d ys)" "members_map cs ys = merged (members_map cs ps) (members_map cs xs)" by auto
    have "merge_patch fo cs mem target (Item e ps) = (Some (Item d ys), m2)" using ob t(1) ys(1) by simp
    moreover have "meaning cs (Item d ys) = rfc_merge (meaning cs (Item e ps)) (map_option (meaning cs) target)"
      using ys(4) t(5) by (simp only: meaning_object [OF True] meaning_object [OF t(4)] rfc_merge_object)
    moreover have "mem \<le> m2 + patch_room (Item e ps)" using ys(2) t(2) by simp
    ultimately show ?thesis using ys(3) by blast
  qed
next
  case (2 fo cs mem target)
  then show ?case by (auto simp: merged_def)
next
  case (3 fo cs mem target p ps)
  note IH = 3(1-3) and prems = 3(4-10)
  let ?k = "name_key cs p" and ?s = "sum_list (map (\<lambda>x. 1 + patch_room x) ps)"
  have p: "has_name p" "tidy cs p" "?k \<notin> set (map (name_key cs) ps)" and ps: "list_all (tidy cs) ps" "list_all has_name ps" "distinct (map (name_key cs) ps)"
    and mem: "1 + patch_room p + ?s \<le> mem" using prems by simp_all
  obtain old ys where d: "detach_named cs (jstring (item p)) target = (old, Some (Item d ys))" "pred_option (tidy cs) old"
      "map_option (meaning cs) old = members_map cs xs ?k" "tidy cs (Item d ys)" "members_map cs ys = (members_map cs xs)(?k := None)"
      "?k \<notin> set (map (name_key cs) ys)"
    using detach_named_map [OF prems(5,6) p(1)] prems(4) by auto
  show ?case
  proof (cases "cJSON_IsNull (Some (item p))")
    case True
    have m: "merged (members_map cs (p # ps)) (members_map cs xs) = merged (members_map cs ps) (members_map cs ys)"
      using merged_Cons(1) [OF p(3)] True meaning_null [of cs p] d(5) by simp
    obtain zs mem' where z: "merge_members fo cs mem (Some (Item d ys)) ps = (Some (Item d zs), mem')" "mem \<le> mem' + ?s" "tidy cs (Item d zs)"
        "members_map cs zs = merged (members_map cs ps) (members_map cs ys)"
      using IH(1) [OF True ps _ d(4) prems(6)] mem d(1) by auto
    have "merge_members fo cs mem target (p # ps) = (Some (Item d zs), mem')" using True d(1) z(1) by simp
    moreover have "mem \<le> mem' + sum_list (map (\<lambda>x. 1 + patch_room x) (p # ps))" using z(2) by simp
    ultimately show ?thesis using z(3,4) unfolding m by blast
  next
    case False
    obtain r m1 where r: "merge_patch fo cs mem old p = (Some r, m1)" "mem \<le> m1 + patch_room p" "tidy cs r" "meaning cs r = rfc_merge (meaning cs p) (members_map cs xs ?k)"
      using IH(2) [OF False d(1) [symmetric] refl p(2) d(2)] mem d(3) by auto
    obtain s where s: "jstring (item p) = Some s" "0 \<notin> set s" using p(1) by (auto simp: has_name_def split: option.splits)
    have k: "(if cs then s else map c_tolower s) = ?k" by (simp add: name_key_def s)
    obtain us where u: "put_member m1 (Some (Item d ys)) (jstring (item p)) r = (Some (Item d us), m1 - 1)" "tidy cs (Item d us)"
        "members_map cs us = (members_map cs ys)(?k \<mapsto> meaning cs r)"
      using put_member_map [OF _ d(4) prems(6) s(2) r(3) k d(6), of m1] mem r(2) s(1) by auto
    have m: "merged (members_map cs (p # ps)) (members_map cs xs) = merged (members_map cs ps) (members_map cs us)"
      using merged_Cons(2) [OF p(3)] False meaning_null [of cs p] d(5) u(3) r(4) by simp
    have le: "?s \<le> m1 - 1" using mem r(2) by linarith
    obtain zs mem' where z: "merge_members fo cs (m1 - 1) (Some (Item d us)) ps = (Some (Item d zs), mem')" "m1 - 1 \<le> mem' + ?s" "tidy cs (Item d zs)"
        "members_map cs zs = merged (members_map cs ps) (members_map cs us)"
      using IH(3) [OF False d(1) [symmetric] refl r(1) [symmetric] refl u(1) [symmetric] refl ps refl u(2) prems(6) le] by auto
    have "merge_members fo cs mem target (p # ps) = (Some (Item d zs), mem')" using False d(1) r(1) u(1) z(1) by simp
    moreover have "mem \<le> mem' + sum_list (map (\<lambda>x. 1 + patch_room x) (p # ps))" using z(2) r(2) mem by simp
    ultimately show ?thesis using z(3,4) unfolding m by blast
  qed
qed

text \<open>
  C38. \<open>merge_patch\<close>, that is \<open>cJSONUtils_MergePatch\<close> without and \<open>cJSONUtils_MergePatchCaseSensitive\<close> with regard to the case of
  names, computes what RFC 7396 says, at every depth: a patch that is no object replaces the target; one that is an object
  keeps the members of the target that it does not name, removes those it has a null for, and merges its others into those of that name,
  where a target that is missing or no object counts as an empty object. The result again satisfies what is assumed of patch and target: no item has a flag (reference,
  constant key), and the members of each object have names without a NUL, no two of which are the same to the search. It is also assumed that
  enough allocations succeed: four for each item of the patch. Objects are compared as maps from names, everything else exactly.
\<close>

theorem merge_patch_is_rfc7396:
  assumes "tidy cs patch" and "pred_option (tidy cs) target" and "patch_room patch \<le> mem"
  shows "\<exists>r mem'. merge_patch fo cs mem target patch = (Some r, mem') \<and> tidy cs r \<and>
    meaning cs r = rfc_merge (meaning cs patch) (map_option (meaning cs) target)"
  using merge_members_rfc(1) [OF assms] by blast

text \<open>A patch that removes \<open>a\<close> and sets \<open>c\<close> in the object \<open>b\<close>, which the target does not have.\<close>

definition patch_node :: "int \<Rightarrow> byte list option \<Rightarrow> int cJSON list \<Rightarrow> int cJSON" where
  "patch_node t name xs = Item \<lparr>jtype = t, valuestring = None, valueint = 0, valuedouble = 0, jstring = name\<rparr> xs"

definition sample_patch :: "int cJSON" where
  "sample_patch = patch_node cJSON_Object None [patch_node cJSON_NULL (Some [97]) [],
     patch_node cJSON_Object (Some [98]) [patch_node cJSON_Int (Some [99]) []]]"

definition sample_target :: "int cJSON" where
  "sample_target = patch_node cJSON_Object None [patch_node cJSON_Int (Some [97]) [], patch_node cJSON_Int (Some [100]) []]"

theorem merge_patch_is_rfc7396_witness:
  "\<exists>r mem'. merge_patch whole_ops True 20 (Some sample_target) sample_patch = (Some r, mem') \<and>
    meaning True r = rfc_merge (meaning True sample_patch) (Some (meaning True sample_target))"
proof -
  have "tidy True sample_patch" "tidy True sample_target" "patch_room sample_patch \<le> 20"
    by (simp_all add: sample_patch_def sample_target_def patch_node_def type_of_def json_types has_name_def name_key_def)
  then show ?thesis using merge_patch_is_rfc7396 [of True sample_patch "Some sample_target" 20 whole_ops] by auto
qed

end
