(* ===== verification/Spec2Isabelle.thy ===== *)
theory Spec2Isabelle
  imports ArrayQueue LinkedQueue KernelList Checksum Base64 Itoa KvConfig Calendar GpsParser JsonMinify JsonCompare ProducerConsumer Modem PppSupervisor MkeyJson UartTester JsonPointer JsonSort JsonMergePatch
begin

text \<open>
  The repository is a collection of C programs and small libraries. This development models
  those that have a logic of their own, each in theories named after it, and proves what makes each
  of them correct. The paths below are under \<open>src\<close>.

  \<^bold>\<open>How C is modelled.\<close> A function of the source is a function into an option type. \<^term>\<open>None\<close>
  is a run without a meaning: a signed overflow, a division by zero, an access outside a block, through a
  null pointer or to freed memory, a block freed twice, or a loop that does not end. A run with a meaning
  is \<^term>\<open>Some r\<close>, where \<^term>\<open>r\<close> holds the code that is returned, errors such as \<open>-1\<close> included,
  and the state that is left. A theorem with a conclusion of the form \<^term>\<open>f x = Some r\<close> therefore
  says that nothing undefined happens. A struct is a record, a block a list of cells read
  and written by index (\<open>rd\<close> and \<open>wr\<close> in CPrelude), a linked structure a map from the addresses of the live
  blocks to records (\<open>heap\<close>, \<open>c_free\<close>). An \<open>int\<close> is an integer whose operations go through \<open>i32\<close>, which is
  undefined outside 32 bits; unsigned types are words. A \<open>char *\<close> is the list of the bytes from the pointer
  to the end of its block, with the NUL among them (CString). Memory that was not written yet is
  \<^term>\<open>None\<close> where this matters. Loops are structural recursion, \<open>function\<close> with a measure, or
  \<open>partial_function\<close> where they may not end.

  \<^bold>\<open>Shared theories.\<close> CPrelude has the values, the arrays, the heaps and the collections \<open>c_simps\<close> and \<open>c_inv\<close>
  that the proofs use; Bytes what holds of all 256 bytes; CString the functions of \<open>string.h\<close> that
  the code calls; CFloat floating point as a parameter; NodeRings doubly linked rings; QueueSpec the
  contract of a queue with its locale \<open>fifo\<close>; Simulation the locale \<open>simulation\<close>, from one step to
  whole runs; Progress reachable states and the locales \<open>invariant\<close> and \<open>progress\<close>, in which every
  run comes to a goal whatever the choices.

  \<^bold>\<open>Queues and lists.\<close>
  \<^item> ArrayQueue is \<open>queue/array/queue.c\<close>: the ring buffer \<open>squeue\<close> with its mutex, a flag. The invariant \<open>sq_ring\<close>
    relates the indices to the list \<open>sq_list\<close> of what is queued. The interpretation \<open>sqf\<close> of \<open>fifo\<close> gives the
    refinement of whole runs; destroying a queue frees each queued block once.
  \<^item> LinkedQueue is \<open>queue/list/lqueue.c\<close>: nodes in a ring over two heaps, nodes and payloads, with the
    invariant \<open>lq_repr\<close>. The interpretation \<open>lqf\<close> gives the same refinement. The allocator is the address that
    a call gets, a null pointer when there is none.
  \<^item> KernelList is \<open>queue/klist/list.h\<close>: the intrusive list and its loops as functions of the body.

  \<^bold>\<open>Checksums, encodings, text and time.\<close>
  \<^item> Checksum is \<open>crc/crc8.c\<close>, \<open>crc16.c\<close> and \<open>bcc.c\<close>: the tables against the bitwise division.
  \<^item> Base64 is \<open>encode/base64.c\<close>. The reference \<open>b64\<close> is written from RFC 4648, with the alphabet
    \<open>b64_char\<close> as ranges of ASCII and not as the table of the code; \<open>ENC_b64_chars\<close> relates the two.
  \<^item> Itoa is \<open>common_itoa.c\<close>: the text of a number in each radix.
  \<^item> KvConfig is \<open>parsekv.c\<close>: lines \<open>key=value\<close> of a file, read by \<open>fgets\<close>, changed in place and written back.
    The reference is on lists of lines. The size of the file is an \<open>int\<close> as in the code.
  \<^item> Calendar is \<open>time/localtime.c\<close> and the copy of \<open>utc2btc\<close> in \<open>uart/read_gps.c\<close>. The reference counts
    hours on the Gregorian calendar with its own lengths of the months (\<open>month_len\<close>); \<open>rd_month_len\<close> proves the
    table of the code against them.

  \<^bold>\<open>The GPS receiver.\<close> GpsParser is \<open>uart/read_gps.c\<close>: the fields of a sentence, the checksum, the framing
  of what has been received, the buffer, and a turn of the loop of \<open>main\<close> with its timer. It calls Calendar. The
  property is about the framing; a turn can be undefined, on sentences that are short or have a long first field, so that
  the invariant of the buffer is a lemma about turns that have a result, and no property.

  \<^bold>\<open>JSON\<close> (\<open>json/mkey_str2j\<close>). The library exists at two levels that share the record of an item.
  \<^item> As values, where the children of an item are a list: JsonData (items, types, getters and setters of
    \<open>cJSON.h\<close> and \<open>cJSON.c\<close>), JsonBuffer (the buffers of parser and printer, growth included), JsonNumber, JsonString
    (strings with escapes and UTF-16), JsonParse, JsonPrint. JsonEscapes proves the UTF-16 conversion right. JsonSafety
    shows that the parser returns and stays in its input; JsonPrintText that the printer writes \<open>json_text\<close> and stays in its blocks;
    JsonRoundTrip that the text is parsed back to \<open>reread\<close> of the item; JsonMinify that the
    minifier works in place and undoes the formatting.
  \<^item> As nodes in memory: JsonHeap has the functions that change links, names and ownership, over a heap of
    nodes and a heap of strings. JsonChain shows that the operations on arrays are those on lists (the interpretation
    \<open>arrays\<close> of \<open>simulation\<close>). JsonTree defines that a memory holds a tree (\<open>jtree\<close>, with what each node owns) and proves the
    deletion; JsonTreeOps adding, detaching and replacing; JsonDuplicate the deep copy, with the heap
    cleaned up when an allocation fails; JsonCompare the comparison against \<open>equal_items\<close>, which
    lists the pairs of types by itself.
  \<^item> \<open>cJSON_Utils.c\<close>: JsonPointer finds the pointer of an item and the item of a pointer; JsonSort is the merge
    sort of the members of an object in memory; JsonMergePatch applies a merge patch to values, against
    \<open>rfc_merge\<close>, which is written from RFC 7396.
  \<^item> MkeyJson is \<open>parse.c\<close>, a client of the library: a device key is written as JSON and read back.

  \<^bold>\<open>Threads.\<close> ProducerConsumer is \<open>pthread/sem/product_consumer/sem_pc.c\<close>: a step of either thread is one statement,
  and \<open>pc_step\<close> lets them alternate in every way. The interpretation \<open>pc\<close> of \<open>progress\<close> shows that every schedule ends.

  \<^bold>\<open>Serial lines and the modem.\<close>
  \<^item> SerialPort is \<open>LTE/at/muart.c\<close> over a terminal driver \<open>line_ops\<close> that is a parameter. What arrives is a list
    of arrivals, so that every way in which the driver splits its input is covered.
  \<^item> Modem is \<open>LTE/at/mat.c\<close> on SerialPort: the commands, the replies and their checks. A reply can make
    the code undefined, and the property says of which replies this is excluded.
  \<^item> UartTester is \<open>uart/init_uart.c\<close>, also on SerialPort, with the global \<open>ttystate\<close> of its \<open>tty_raw\<close>.
  \<^item> PppSupervisor is \<open>LTE/ppp_call1/ppp_call.c\<close>: one turn of the loop of \<open>main\<close> as a function of what the
    system answers, with the two places at which the handler of SIGCHLD can run between a read and a write or a
    test of the status. The interpretation \<open>dead\<close> of \<open>progress\<close> shows that a dead network resets the modem.

  \<^bold>\<open>Bounds.\<close> The parser has fuel \<open>parse_fuel len\<close>, which is \<open>3 * len + 3\<close>: \<open>parse_total_and_safe\<close> shows that three calls for each byte are enough.
  The copy and the comparison of trees in memory have fuel \<open>2 * fresh + 1\<close> and \<open>4 * fresh + 1\<close>, where all
  addresses in use are below \<open>fresh\<close>; that this is enough for every tree is a part of their theorems. Everything else
  that may not end is a \<open>partial_function\<close> with \<^term>\<open>None\<close> for a run that does not end, so that a
  theorem that gives a result proves that the loop ends.

  \<^bold>\<open>Parameters.\<close> Floating point is a record of operations (\<open>float_ops\<close>, \<open>num_ops\<close>); a theorem names what it needs
  of them, and its witness has a concrete record. Allocation is a number of allocations that succeed, or the address
  a call gets. The terminal driver, the bytes that arrive, the results of \<open>open\<close>, \<open>poll\<close> and \<open>write\<close>, and the end of child
  processes are inputs.

  \<^bold>\<open>Not modelled.\<close> What is printed on the terminal, and the \<open>main\<close> functions that only print examples. Of
  \<open>cJSON_Utils.c\<close>: applying and generating patches of RFC 6902. The demos and the older copies of the JSON library;
  the macros of struct2json; the variants of the serial tester; message queues, sockets, sqlite, MQTT and logging, which pass
  data on to the system or to libraries; demos of threads and processes that have no state beyond that of the
  system; examples of a few lines.
\<close>

end
